(* ===== verification/RS_Prelude.thy ===== *)
theory RS_Prelude
  imports Main "HOL-Library.Word"
begin

text \<open>
  Shared vocabulary of the ringserver development: the machine integer types of the C code, the
  time stamps of libmseed that the server relies on, the facts about lists and words that several
  components use, and the collections of rewrite rules the component proofs are run with.
\<close>

section \<open>Machine types\<close>

type_synonym byte = "8 word"
type_synonym u16 = "16 word"
type_synonym u32 = "32 word"
type_synonym u64 = "64 word"

text \<open>
  \<open>nstime\<close> is \<open>nstime_t\<close>, a signed 64-bit count of nanoseconds that the modelled code only copies
  and compares; \<open>off\<close> is an \<open>int64_t\<close> byte offset of a packet from \<open>param.datastart\<close>.
\<close>

type_synonym nstime = int
type_synonym off = int

definition NSTERROR :: nstime where "NSTERROR = -2145916800000000000"
definition NSTUNSET :: nstime where "NSTUNSET = -2145916799999999999"

section \<open>Collections\<close>

named_theorems ring_defs \<open>definitions unfolded when a ring operation is evaluated\<close>
named_theorems geom \<open>facts about packet offsets and slot numbers\<close>

end
