(* ===== verification/RS_Generic.thy ===== *)
theory RS_Generic
  imports RS_Prelude
begin

unbundle bit_operations_syntax

text \<open>
  Utility routines of \<open>ringserver-4/src/generic.c\<close>: the FNV-1a hash that keys the stream index,
  the comparison of keys, the digit test and the splitting of stream identifiers.  A C string is
  the list of its characters before the terminating NUL; a pointer that may be NULL is an option.
\<close>

section \<open>FNV-1a hash\<close>

fun FNV_loop :: "u64 \<Rightarrow> string \<Rightarrow> u64" where
  "FNV_loop hval [] = hval"
| "FNV_loop hval (ch # str) = FNV_loop (0x00000100000001B3 * (hval XOR of_char ch)) str"

definition FNVhash64 :: "string option \<Rightarrow> u64" where
  "FNVhash64 str = (case str of None \<Rightarrow> 0 | Some s \<Rightarrow> FNV_loop 0xCBF29CE484222325 s)"

definition KeyCompare :: "u64 \<Rightarrow> u64 \<Rightarrow> int" where
  "KeyCompare a b = (if a > b then 1 else if a < b then -1 else 0)"

lemma FNV_loop_append: "FNV_loop h (s @ t) = FNV_loop (FNV_loop h s) t"
  by (induction h s rule: FNV_loop.induct) simp_all

text \<open>The FNV prime is odd, so multiplying by it loses nothing.\<close>

lemma FNV_mult_inj: "(0x00000100000001B3 :: u64) * x = 0x00000100000001B3 * y \<Longrightarrow> x = y"
proof -
  assume eq: "(0x00000100000001B3 :: u64) * x = 0x00000100000001B3 * y"
  have one: "(0xce965057aff6957b :: u64) * 0x00000100000001B3 = 1"
    by simp
  have inv: "(0xce965057aff6957b :: u64) * (0x00000100000001B3 * z) = z" for z
    by (simp only: mult.assoc [symmetric] one mult_1_left)
  show ?thesis using arg_cong [OF eq, of "\<lambda>z. 0xce965057aff6957b * z"] by (simp only: inv)
qed

lemma xor_right_cancel: "(h :: 'a::len word) XOR a = h XOR b \<longleftrightarrow> a = b"
  by (metis xor.assoc xor_self_eq xor.left_neutral)

lemma xor_left_cancel: "(a :: 'a::len word) XOR h = b XOR h \<longleftrightarrow> a = b"
  by (metis xor.commute xor_right_cancel)

lemma of_char_u64_inj: "(of_char c :: u64) = of_char d \<longleftrightarrow> c = d"
proof
  assume eq: "(of_char c :: u64) = of_char d"
  have unat: "unat (of_char e :: u64) = (of_char e :: nat)" for e
  proof -
    have less: "(of_char e :: nat) < 256" by simp
    have "unat (of_nat (of_char e) :: u64) = (of_char e :: nat)"
      by (subst unat_of_nat) (rule mod_less, simp add: less_trans [OF less])
    then show ?thesis by (simp only: of_nat_of_char)
  qed
  from arg_cong [OF eq, of unat] have "(of_char c :: nat) = of_char d" by (simp only: unat)
  then show "c = d" by simp
qed simp

lemma FNV_loop_inj: "FNV_loop h s = FNV_loop h' s \<Longrightarrow> h = h'"
proof (induction s arbitrary: h h')
  case (Cons a s)
  then have "0x00000100000001B3 * (h XOR of_char a) = 0x00000100000001B3 * (h' XOR of_char a)"
    by simp
  then show ?case by (drule_tac FNV_mult_inj) (simp only: xor_left_cancel)
qed simp

section \<open>Digits\<close>

definition IsAllDigits :: "string option \<Rightarrow> bool" where
  "IsAllDigits str = (case str of
     None \<Rightarrow> False
   | Some s \<Rightarrow> (if length s = 0 then False else list_all (\<lambda>c. c \<in> set ''0123456789'') s))"

section \<open>Stream identifiers\<close>

text \<open>\<open>strrchr\<close>: the string before and after the last occurrence of a character.\<close>

fun split_last :: "char \<Rightarrow> string \<Rightarrow> (string \<times> string) option" where
  "split_last d [] = None"
| "split_last d (c # cs) = (case split_last d cs of
     Some (a, b) \<Rightarrow> Some (c # a, b)
   | None \<Rightarrow> (if c = d then Some ([], cs) else None))"

text \<open>
  The delimiter loop: \<open>room\<close> is the number of identifiers that may still be opened
  (\<open>6 - idx\<close>), and the last identifier opened keeps whatever follows.
\<close>

fun split_ids :: "char \<Rightarrow> nat \<Rightarrow> string \<Rightarrow> string list" where
  "split_ids d room [] = [[]]"
| "split_ids d room (c # cs) =
     (if room = 0 then [c # cs]
      else if c = d then [] # split_ids d (room - 1) cs
      else (case split_ids d room cs of x # xs \<Rightarrow> (c # x) # xs | [] \<Rightarrow> [[c]]))"

text \<open>The copy loops write at most \<open>maxlength - 1\<close> characters and the terminator.\<close>

definition copy_id :: "int \<Rightarrow> string \<Rightarrow> string" where
  "copy_id maxlength s = take (nat (maxlength - 1)) s"

text \<open>
  \<open>want\<close> says which of \<open>id1\<close> to \<open>id6\<close> are not NULL, \<open>want_type\<close> whether \<open>type\<close> is; the result
  is the return value, the six output buffers and the type buffer, \<open>None\<close> for one not written.
\<close>

definition SplitStreamID ::
  "bool \<Rightarrow> string option \<Rightarrow> char \<Rightarrow> int \<Rightarrow> bool list \<Rightarrow> bool \<Rightarrow> int \<times> string option list \<times> string option" where
  "SplitStreamID strdup_ok streamid delim maxlength want want_type = (case streamid of
     None \<Rightarrow> (-1, map (\<lambda>_. None) want, None)
   | Some sid \<Rightarrow>
      if \<not> strdup_ok then (-1, map (\<lambda>_. None) want, None) else
      (let d = (if delim = CHR 0x00 then CHR ''_'' else delim);
           cut = split_last (CHR ''/'') sid;
           body = (case cut of Some (a, _) \<Rightarrow> a | None \<Rightarrow> sid);
           typ = (if want_type
                  then Some (case cut of Some (_, t) \<Rightarrow> copy_id maxlength t | None \<Rightarrow> [])
                  else None);
           tcount = (if want_type \<and> cut \<noteq> None then 1 else 0);
           ids = split_ids d 5 body;
           outs = map (\<lambda>i. if want ! i
                           then Some (if i < length ids then copy_id maxlength (ids ! i) else [])
                           else None) [0..<length want];
           icount = length (filter (\<lambda>i. want ! i \<and> i < length ids) [0..<length want])
       in (int (tcount + icount), outs, typ)))"

fun join_ids :: "char \<Rightarrow> string list \<Rightarrow> string" where
  "join_ids d [] = []"
| "join_ids d [x] = x"
| "join_ids d (x # y # xs) = x @ d # join_ids d (y # xs)"

lemma split_last_None: "d \<notin> set s \<Longrightarrow> split_last d s = None"
  by (induction s) auto

lemma split_last_join: "d \<notin> set t \<Longrightarrow> split_last d (s @ d # t) = Some (s, t)"
  by (induction s) (auto simp: split_last_None)

lemma split_ids_nonempty: "split_ids d room s \<noteq> []"
  by (induction d room s rule: split_ids.induct) (auto split: list.splits)

lemma split_ids_single: "d \<notin> set s \<Longrightarrow> split_ids d room s = [s]"
  by (induction d room s rule: split_ids.induct) auto

lemma split_ids_cons:
  "d \<notin> set x \<Longrightarrow> 0 < room \<Longrightarrow> split_ids d room (x @ d # s) = x # split_ids d (room - 1) s"
  by (induction x) auto

lemma split_ids_join:
  "ids \<noteq> [] \<Longrightarrow> length ids \<le> Suc room \<Longrightarrow> \<forall>x \<in> set ids. d \<notin> set x \<Longrightarrow>
   split_ids d room (join_ids d ids) = ids"
proof (induction d ids arbitrary: room rule: join_ids.induct)
  case (3 d x y xs)
  then have "0 < room" by simp
  with 3 show ?case by (simp add: split_ids_cons)
qed (auto simp: split_ids_single)

lemma split_ids_length: "length (split_ids d room s) \<le> Suc room"
  by (induction d room s rule: split_ids.induct) (auto split: list.splits)

text \<open>
  Two stream identifiers that differ in exactly one character have different index keys,
  so such a pair can never share an entry of the stream index.
\<close>

theorem FNV_one_char_differs:
  assumes "c \<noteq> d"
  shows "FNVhash64 (Some (s @ c # t)) \<noteq> FNVhash64 (Some (s @ d # t))"
proof
  assume "FNVhash64 (Some (s @ c # t)) = FNVhash64 (Some (s @ d # t))"
  then have "FNV_loop (0x00000100000001B3 * (FNV_loop 0xCBF29CE484222325 s XOR of_char c)) t
           = FNV_loop (0x00000100000001B3 * (FNV_loop 0xCBF29CE484222325 s XOR of_char d)) t"
    by (simp add: FNVhash64_def FNV_loop_append)
  from FNV_mult_inj [OF FNV_loop_inj [OF this]] have "c = d"
    by (simp add: xor_right_cancel of_char_u64_inj)
  with assms show False ..
qed

theorem FNV_one_char_differs_witness:
  "FNVhash64 (Some ''XX_STA__B_H_Z'') \<noteq> FNVhash64 (Some ''XX_STA__B_H_N'')"
  using FNV_one_char_differs [of "CHR ''Z''" "CHR ''N''" "''XX_STA__B_H_''" "[]"] by simp


lemma copy_id_short: "int (length s) < maxlength \<Longrightarrow> copy_id maxlength s = s"
  by (simp add: copy_id_def)

lemma SplitStreamID_joined:
  assumes ids: "ids \<noteq> []" "length ids \<le> 6" "\<forall>x \<in> set ids. d \<notin> set x \<and> int (length x) < maxlength"
    and ty: "CHR ''/'' \<notin> set t" "int (length t) < maxlength" and d: "d \<noteq> CHR 0x00"
  shows "SplitStreamID True (Some (join_ids d ids @ CHR ''/'' # t)) d maxlength (replicate 6 True) True =
     (int (Suc (length ids)), map Some ids @ replicate (6 - length ids) (Some []), Some t)"
proof -
  have split: "split_ids d 5 (join_ids d ids) = ids"
    using split_ids_join [of ids 5 d] ids by simp
  have short: "copy_id maxlength (ids ! i) = ids ! i" if "i < length ids" for i
    using ids(3) nth_mem [OF that] copy_id_short by blast
  have outs: "map (\<lambda>i. if replicate 6 True ! i
       then Some (if i < length ids then copy_id maxlength (ids ! i) else []) else None)
       [0..<length (replicate 6 True)] = map Some ids @ replicate (6 - length ids) (Some [])"
    using ids(2) by (intro nth_equalityI) (auto simp: nth_append short)
  have "filter (\<lambda>i. replicate 6 True ! i \<and> i < length ids) [0..<length (replicate 6 True)] = [0..<length ids]"
  proof -
    have "[0..<length (replicate 6 True)] = [0..<length ids] @ [length ids..<6]"
      using ids(2) upt_add_eq_append [of 0 "length ids" "6 - length ids"] by simp
    moreover have "filter (\<lambda>i. replicate 6 True ! i \<and> i < length ids) [0..<length ids] = [0..<length ids]"
      using ids(2) by (intro filter_True) auto
    moreover have "filter (\<lambda>i. replicate 6 True ! i \<and> i < length ids) [length ids..<6] = []"
      by (intro filter_False) auto
    ultimately show ?thesis by simp
  qed
  then show ?thesis
    using d outs copy_id_short [OF ty(2)]
    unfolding SplitStreamID_def Let_def option.case if_not_P [OF d]
      split_last_join [OF ty(1), of "join_ids d ids"] prod.case split
    by simp
qed

text \<open>
  Splitting a stream identifier put together from up to six identifiers and a type gives them
  back, counts them, and leaves the remaining outputs empty, if each fits its buffer, no identifier
  holds the delimiter and the type holds no slash.
\<close>

theorem SplitStreamID_round_trip:
  assumes "ids \<noteq> []" "length ids \<le> 6" "\<forall>x \<in> set ids. d \<notin> set x \<and> int (length x) < maxlength"
    and "CHR ''/'' \<notin> set t" "int (length t) < maxlength" "d \<noteq> CHR 0x00"
  shows "SplitStreamID True (Some (join_ids d ids @ CHR ''/'' # t)) d maxlength (replicate 6 True) True =
     (int (Suc (length ids)), map Some ids @ replicate (6 - length ids) (Some []), Some t)"
  by (rule SplitStreamID_joined [OF assms])

theorem SplitStreamID_round_trip_witness:
  "SplitStreamID True (Some ''XX_STA__B/MSEED3'') CHR ''_'' 11 (replicate 6 True) True =
     (5, [Some ''XX'', Some ''STA'', Some [], Some ''B'', Some [], Some []], Some ''MSEED3'')"
  using SplitStreamID_round_trip [of "[''XX'', ''STA'', [], ''B'']" "CHR ''_''" 11 "''MSEED3''"]
  by (simp add: numeral_eq_Suc)

end
