(* ===== verification/RS_Index.thy ===== *)
theory RS_Index
  imports RS_Generic
begin

text \<open>
  The contract of a stream index.  The ring keeps one index of its streams and every client keeps
  one of the streams it has transferred; both are red-black trees keyed by the FNV-1a hash of the
  stream identifier, searched with \<open>RBFind\<close>, extended with \<open>RBTreeInsert\<close> only after a failed
  search, and pruned with \<open>RBDelete\<close>.  The locale states what those operations promise to their
  callers; the lemmas proved in it are what the callers' proofs use.
\<close>

locale keyed_index =
  fixes key :: "'i \<Rightarrow> 'k"
    and valid :: "'t \<Rightarrow> bool"
    and get :: "'t \<Rightarrow> 'i \<Rightarrow> 'v option"
    and add :: "'t \<Rightarrow> 'i \<Rightarrow> 'v \<Rightarrow> 't"
    and del :: "'t \<Rightarrow> 'i \<Rightarrow> 't"
  assumes get_key: "valid t \<Longrightarrow> key i = key j \<Longrightarrow> get t i = get t j"
    and valid_add: "valid t \<Longrightarrow> get t i = None \<Longrightarrow> valid (add t i v)"
    and get_add: "valid t \<Longrightarrow> get t i = None \<Longrightarrow>
      get (add t i v) j = (if key j = key i then Some v else get t j)"
    and valid_del: "valid t \<Longrightarrow> valid (del t i)"
    and get_del: "valid t \<Longrightarrow> get (del t i) j = (if key j = key i then None else get t j)"
begin

lemma get_add_same: "valid t \<Longrightarrow> get t i = None \<Longrightarrow> get (add t i v) i = Some v"
  by (simp add: get_add)

lemma get_add_other:
  "valid t \<Longrightarrow> get t i = None \<Longrightarrow> key j \<noteq> key i \<Longrightarrow> get (add t i v) j = get t j"
  by (simp add: get_add)

lemma get_del_same: "valid t \<Longrightarrow> get (del t i) i = None"
  by (simp add: get_del)

lemma del_add: "valid t \<Longrightarrow> get t i = None \<Longrightarrow> get (del (add t i v) i) j = get t j"
  using get_key [of t j i] by (simp add: get_del valid_add get_add)

lemma readd: "valid t \<Longrightarrow> get (add (del t i) i v) j = (if key j = key i then Some v else get t j)"
  by (simp add: get_add valid_del get_del)

text \<open>Searching, and adding only when the search fails, leaves exactly one more key visible.\<close>

lemma lookup_or_add:
  "valid t \<Longrightarrow>
   (let t' = (case get t i of None \<Rightarrow> add t i v | Some _ \<Rightarrow> t)
    in valid t' \<and> get t' i = Some (case get t i of None \<Rightarrow> v | Some w \<Rightarrow> w)
       \<and> (\<forall>j. key j \<noteq> key i \<longrightarrow> get t' j = get t j))"
  by (auto simp: get_add valid_add split: option.splits)

end

end
