(* ===== verification/RS_RingInv.thy ===== *)
theory RS_RingInv
  imports RS_Ring
begin

text \<open>
  What the ring keeps true.  The slots in use form a span of consecutive slot numbers from the
  earliest to the latest packet; the stream index describes exactly the streams of those packets;
  the \<open>nextinstream\<close> links chain the packets of each stream.  \<open>RingWrite\<close> keeps all of it, and
  seen as a list of packets the ring is a first-in first-out queue bounded by its slot count.
\<close>

section \<open>Geometry of the ring\<close>

definition slotsize :: "param_s \<Rightarrow> int" where "slotsize p = uint (pktsize p)"
definition nslots :: "param_s \<Rightarrow> int" where "nslots p = maxoffset p div slotsize p + 1"

definition ring_geom :: "param_s \<Rightarrow> bool" where
  "ring_geom p \<longleftrightarrow>
     int sizeof_RingPacket \<le> slotsize p \<and> config_pktsize p = pktsize p \<and>
     maxoffset p mod slotsize p = 0 \<and> slotsize p \<le> maxoffset p \<and>
     uint (maxpackets p) = nslots p \<and> maxoffset p + slotsize p < 2 ^ 63"

definition valid_off :: "param_s \<Rightarrow> off \<Rightarrow> bool" where
  "valid_off p x \<longleftrightarrow> 0 \<le> x \<and> x \<le> maxoffset p \<and> x mod slotsize p = 0"

text \<open>\<open>n\<close> consecutive slot numbers of a ring of \<open>N\<close> slots, starting at \<open>e\<close>.\<close>

definition span :: "int \<Rightarrow> int \<Rightarrow> nat \<Rightarrow> int list" where
  "span N e n = map (\<lambda>i. (e + int i) mod N) [0..<n]"

definition live_count :: "param_s \<Rightarrow> nat" where
  "live_count p = nat ((latestoffset p div slotsize p - earliestoffset p div slotsize p) mod nslots p + 1)"

text \<open>The offsets of the packets in the ring, from the earliest to the latest.\<close>

definition live :: "param_s \<Rightarrow> off list" where
  "live p = (if latestoffset p < 0 then []
     else map (\<lambda>k. k * slotsize p) (span (nslots p) (earliestoffset p div slotsize p) (live_count p)))"

lemma span_0 [simp]: "span N e 0 = []"
  by (simp add: span_def)

lemma length_span [simp]: "length (span N e n) = n"
  by (simp add: span_def)

lemma span_nth [simp]: "i < n \<Longrightarrow> span N e n ! i = (e + int i) mod N"
  by (simp add: span_def)

lemma span_snoc: "span N e (Suc n) = span N e n @ [(e + int n) mod N]"
  by (simp add: span_def)

lemma span_Cons: "span N e (Suc n) = e mod N # span N (e + 1) n"
  by (rule nth_equalityI) (auto simp: nth_Cons algebra_simps split: nat.splits)

lemma span_mod: "span N (e mod N) n = span N e n"
  by (simp add: span_def mod_simps)

lemma span_range: "0 < N \<Longrightarrow> k \<in> set (span N e n) \<Longrightarrow> 0 \<le> k \<and> k < N"
  by (auto simp: span_def)

lemma mod_add_inj:
  fixes N :: int
  assumes "0 < N" "int i < N" "int j < N" "(e + int i) mod N = (e + int j) mod N"
  shows "i = j"
proof -
  from assms(4) have "(int i - int j) mod N = 0"
    by (metis add_diff_cancel_left mod_eq_dvd_iff mod_0_imp_dvd dvd_imp_mod_0)
  then have "N dvd int i - int j" by (simp add: dvd_eq_mod_eq_0)
  moreover have "\<bar>int i - int j\<bar> < N" using assms(2,3) by arith
  ultimately show ?thesis
    using zdvd_imp_le [of N "\<bar>int i - int j\<bar>"] by (cases "i = j") auto
qed

lemma distinct_span: "0 < N \<Longrightarrow> int n \<le> N \<Longrightarrow> distinct (span N e n)"
  by (auto simp: distinct_conv_nth intro: mod_add_inj)

lemma ring_geomD:
  assumes "ring_geom p"
  shows "120 \<le> slotsize p" "config_pktsize p = pktsize p" "maxoffset p = (nslots p - 1) * slotsize p"
    "2 \<le> nslots p" "uint (maxpackets p) = nslots p" "maxoffset p + slotsize p < 2 ^ 63"
    "uint (pktsize p) = slotsize p"
proof -
  show S: "120 \<le> slotsize p" and "config_pktsize p = pktsize p"
    and "uint (maxpackets p) = nslots p" and "maxoffset p + slotsize p < 2 ^ 63"
    using assms by (simp_all add: ring_geom_def)
  show M: "maxoffset p = (nslots p - 1) * slotsize p"
    using assms by (simp add: ring_geom_def nslots_def mult.commute [of _ "slotsize p"])
      (metis dvd_eq_mod_eq_0 dvd_mult_div_cancel)
  show "uint (pktsize p) = slotsize p" by (simp add: slotsize_def)
  have "slotsize p div slotsize p \<le> maxoffset p div slotsize p"
    using assms S by (intro zdiv_mono1) (simp_all add: ring_geom_def)
  then show "2 \<le> nslots p" using S by (simp add: nslots_def)
qed

lemma valid_offE:
  assumes "ring_geom p" "valid_off p x"
  obtains k where "0 \<le> k" "k < nslots p" "x = k * slotsize p" "x div slotsize p = k"
proof
  note g = ring_geomD [OF assms(1)]
  let ?k = "x div slotsize p"
  show "0 \<le> ?k" using assms(2) g(1) by (simp add: valid_off_def pos_imp_zdiv_nonneg_iff)
  show "x = ?k * slotsize p" using assms(2) by (auto simp: valid_off_def)
  have "?k \<le> maxoffset p div slotsize p"
    using assms(2) g(1) by (intro zdiv_mono1) (simp_all add: valid_off_def)
  then show "?k < nslots p" by (simp add: nslots_def)
qed simp

lemma valid_offI:
  "ring_geom p \<Longrightarrow> 0 \<le> k \<Longrightarrow> k < nslots p \<Longrightarrow> valid_off p (k * slotsize p)"
  using ring_geomD(1,3) [of p] by (simp add: valid_off_def mult_right_mono)

lemma slot_div: "ring_geom p \<Longrightarrow> k * slotsize p div slotsize p = k"
  using ring_geomD(1) [of p] by simp

lemma NEXTOFFSET_slot [geom]:
  assumes "ring_geom p" "0 \<le> k" "k < nslots p"
  shows "NEXTOFFSET (k * slotsize p) (maxoffset p) (pktsize p) = ((k + 1) mod nslots p) * slotsize p"
proof (cases "k + 1 = nslots p")
  case True
  then have "k = nslots p - 1" by simp
  then show ?thesis using ring_geomD [OF assms(1)] by (simp add: NEXTOFFSET_def)
next
  case False
  with assms(3) have "k + 1 \<le> nslots p - 1" by simp
  then have "(k + 1) * slotsize p \<le> (nslots p - 1) * slotsize p"
    using ring_geomD(1) [OF assms(1)] by (intro mult_right_mono) auto
  then show ?thesis using ring_geomD [OF assms(1)] False assms
    by (simp add: NEXTOFFSET_def algebra_simps)
qed

lemma PREVOFFSET_slot [geom]:
  assumes "ring_geom p" "0 \<le> k" "k < nslots p"
  shows "PREVOFFSET (k * slotsize p) (maxoffset p) (pktsize p) = ((k - 1) mod nslots p) * slotsize p"
proof (cases "k = 0")
  case True
  then show ?thesis using ring_geomD [OF assms(1)] by (simp add: PREVOFFSET_def zmod_minus1)
next
  case False
  then have "(k - 1) mod nslots p = k - 1" using assms by (intro mod_pos_pos_trivial) auto
  then show ?thesis using ring_geomD(1,7) [OF assms(1)] False
    by (simp add: PREVOFFSET_def left_diff_distrib)
qed

text \<open>
  The 64-bit arithmetic of the offset macros stays in range, so modelling \<open>int64_t\<close> offsets by
  unbounded integers loses nothing.
\<close>

lemma offset_arith_in_range:
  assumes "ring_geom p" "valid_off p x"
  shows "0 \<le> x + uint (pktsize p)" "x + uint (pktsize p) < 2 ^ 63"
  using assms ring_geomD(1,6,7) [OF assms(1)] by (auto simp: valid_off_def)

section \<open>Streams of the packets in the ring\<close>

definition key_of :: "RingPacket \<Rightarrow> u64" where
  "key_of h = FNVhash64 (Some (streamid h))"

definition of_key :: "u64 \<Rightarrow> RingPacket list \<Rightarrow> RingPacket list" where
  "of_key k Q = filter (\<lambda>h. key_of h = k) Q"

fun linked :: "RingPacket list \<Rightarrow> bool" where
  "linked [] \<longleftrightarrow> True"
| "linked [h] \<longleftrightarrow> nextinstream h = -1"
| "linked (h # h' # hs) \<longleftrightarrow> nextinstream h = offset h' \<and> linked (h' # hs)"

definition earliest_is :: "RingStream \<Rightarrow> RingPacket \<Rightarrow> bool" where
  "earliest_is st h \<longleftrightarrow> earliestdstime st = datastart h \<and> earliestdetime st = dataend h \<and>
     earliestptime st = pkttime h \<and> earliestid st = pktid h \<and> st_earliestoffset st = offset h"

definition latest_is :: "RingStream \<Rightarrow> RingPacket \<Rightarrow> bool" where
  "latest_is st h \<longleftrightarrow> latestdstime st = datastart h \<and> latestdetime st = dataend h \<and>
     latestptime st = pkttime h \<and> latestid st = pktid h \<and> st_latestoffset st = offset h"

definition entry_for :: "RingPacket list \<Rightarrow> RingStream option \<Rightarrow> bool" where
  "entry_for Qk e \<longleftrightarrow> (case e of
     None \<Rightarrow> Qk = []
   | Some st \<Rightarrow> Qk \<noteq> [] \<and> earliest_is st (hd Qk) \<and> latest_is st (last Qk))"

definition index_ok :: "(u64 \<rightharpoonup> RingStream) \<Rightarrow> RingPacket list \<Rightarrow> bool" where
  "index_ok idx Q \<longleftrightarrow> (\<forall>k. entry_for (of_key k Q) (idx k))"

definition links_ok :: "RingPacket list \<Rightarrow> bool" where
  "links_ok Q \<longleftrightarrow> (\<forall>k. linked (of_key k Q))"

lemma of_key_simps [simp]:
  "of_key k [] = []"
  "of_key k (h # Q) = (if key_of h = k then h # of_key k Q else of_key k Q)"
  "of_key k (Q @ R) = of_key k Q @ of_key k R"
  by (simp_all add: of_key_def)

lemma of_key_set: "set (of_key k Q) = {h \<in> set Q. key_of h = k}"
  by (auto simp: of_key_def)

lemma linked_tl: "linked Q \<Longrightarrow> linked (tl Q)"
  by (induction Q rule: linked.induct) auto

lemma linked_Cons: "linked (h # Q) \<longleftrightarrow> nextinstream h = (if Q = [] then -1 else offset (hd Q)) \<and> linked Q"
  by (cases Q) auto

lemma entry_for_simps [simp]:
  "entry_for Qk None \<longleftrightarrow> Qk = []"
  "entry_for Qk (Some st) \<longleftrightarrow> Qk \<noteq> [] \<and> earliest_is st (hd Qk) \<and> latest_is st (last Qk)"
  by (simp_all add: entry_for_def)

text \<open>Rewriting the link of the packet at one offset.\<close>

definition relink :: "off \<Rightarrow> off \<Rightarrow> RingPacket list \<Rightarrow> RingPacket list" where
  "relink po x Q = map (\<lambda>h. if offset h = po then h\<lparr>nextinstream := x\<rparr> else h) Q"

lemma relink_simps [simp]:
  "relink po x [] = []"
  "relink po x (h # Q) = (if offset h = po then h\<lparr>nextinstream := x\<rparr> else h) # relink po x Q"
  by (simp_all add: relink_def)

lemma key_of_relink [simp]: "key_of (h\<lparr>nextinstream := x\<rparr>) = key_of h"
  by (simp add: key_of_def)

lemma of_key_relink: "of_key k (relink po x Q) = relink po x (of_key k Q)"
  by (induction Q) auto

lemma earliest_is_relink [simp]: "earliest_is st (h\<lparr>nextinstream := x\<rparr>) = earliest_is st h"
  by (simp add: earliest_is_def)

lemma relink_other: "po \<notin> offset ` set Q \<Longrightarrow> relink po x Q = Q"
  by (induction Q) auto

lemma relink_eq_Nil [simp]: "relink po x Q = [] \<longleftrightarrow> Q = []"
  by (simp add: relink_def)

lemma hd_relink: "Q \<noteq> [] \<Longrightarrow> earliest_is st (hd (relink po x Q)) = earliest_is st (hd Q)"
  by (cases Q) auto

lemma offset_hd_relink: "Q \<noteq> [] \<Longrightarrow> offset (hd (relink po x Q)) = offset (hd Q)"
  by (cases Q) auto

lemma linked_append:
  "linked Q \<Longrightarrow> distinct (map offset Q) \<Longrightarrow> nextinstream h = -1 \<Longrightarrow> Q \<noteq> [] \<Longrightarrow>
   linked (relink (offset (last Q)) (offset h) Q @ [h])"
proof (induction Q)
  case (Cons a Q)
  show ?case
  proof (cases "Q = []")
    case False
    then have "offset a \<noteq> offset (last Q)" using Cons.prems(2) last_in_set [of Q] by force
    with Cons False show ?thesis
      by (auto simp: linked_Cons offset_hd_relink hd_append)
  qed (use Cons in simp)
qed simp

subsection \<open>Removing the earliest packet of the list\<close>

lemma links_ok_tl: "links_ok (h # Q) \<Longrightarrow> links_ok Q"
  unfolding links_ok_def by (metis linked_tl list.sel(3) of_key_simps(2))

lemma index_ok_tl_only:
  assumes "index_ok idx (h # Q)" "of_key (key_of h) Q = []"
  shows "index_ok (idx(key_of h := None)) Q"
  unfolding index_ok_def
proof
  fix k
  show "entry_for (of_key k Q) ((idx(key_of h := None)) k)"
    using assms(1) [unfolded index_ok_def, rule_format, of k] assms(2) by (auto split: if_splits)
qed

lemma index_ok_tl_next:
  assumes "index_ok idx (h # Q)" "of_key (key_of h) Q \<noteq> []" "idx (key_of h) = Some st"
    and "earliest_is st' (hd (of_key (key_of h) Q))"
    and "\<And>x. latest_is st' x = latest_is st x"
  shows "index_ok (idx(key_of h \<mapsto> st')) Q"
  unfolding index_ok_def
proof
  fix k
  show "entry_for (of_key k Q) ((idx(key_of h \<mapsto> st')) k)"
    using assms(1) [unfolded index_ok_def, rule_format, of k] assms(2-5) by (auto split: if_splits)
qed

subsection \<open>Appending a packet to the list\<close>

lemma links_ok_append_new:
  assumes "links_ok Q" "of_key (key_of h) Q = []" "nextinstream h = -1"
  shows "links_ok (Q @ [h])"
  unfolding links_ok_def
proof
  fix k
  show "linked (of_key k (Q @ [h]))"
    using assms by (cases "key_of h = k") (auto simp: links_ok_def)
qed

lemma links_ok_append_old:
  assumes "links_ok Q" "distinct (map offset Q)" "of_key (key_of h) Q \<noteq> []" "nextinstream h = -1"
  shows "links_ok (relink (offset (last (of_key (key_of h) Q))) (offset h) Q @ [h])"
  unfolding links_ok_def
proof
  fix k
  let ?po = "offset (last (of_key (key_of h) Q))"
  have dist: "distinct (map offset (of_key k Q))" for k
    using assms(2) by (simp add: of_key_def distinct_map_filter)
  show "linked (of_key k (relink ?po (offset h) Q @ [h]))"
  proof (cases "key_of h = k")
    case True
    then show ?thesis
      using assms linked_append [OF _ dist assms(4), of k] by (auto simp: of_key_relink links_ok_def)
  next
    case False
    have "last (of_key (key_of h) Q) \<in> set Q" "key_of (last (of_key (key_of h) Q)) = key_of h"
      using last_in_set [OF assms(3)] by (auto simp: of_key_set)
    then have "?po \<notin> offset ` set (of_key k Q)"
      using False assms(2) by (auto simp: of_key_set distinct_map inj_on_def)
    then show ?thesis using False assms(1) by (simp add: of_key_relink relink_other links_ok_def)
  qed
qed

lemma index_ok_append:
  assumes "index_ok idx Q"
    and "of_key (key_of h) Q = [] \<Longrightarrow> earliest_is st h"
    and "\<And>s. idx (key_of h) = Some s \<Longrightarrow> (\<And>x. earliest_is st x = earliest_is s x)"
    and "latest_is st h"
    and "of_key (key_of h) Q = [] \<Longrightarrow> relink po (offset h) Q = Q"
    and rel: "\<And>k. k \<noteq> key_of h \<Longrightarrow> relink po (offset h) (of_key k Q) = of_key k Q"
  shows "index_ok (idx(key_of h \<mapsto> st)) (relink po (offset h) Q @ [h])"
  unfolding index_ok_def
proof
  fix k
  note ix = assms(1) [unfolded index_ok_def, rule_format, of k]
  show "entry_for (of_key k (relink po (offset h) Q @ [h])) ((idx(key_of h \<mapsto> st)) k)"
  proof (cases "key_of h = k")
    case True
    then show ?thesis using ix assms(2-4)
      by (cases "of_key k Q = []"; cases "idx k")
        (auto simp: of_key_relink hd_append hd_relink)
  next
    case False
    then show ?thesis using ix rel [of k] by (auto simp: of_key_relink)
  qed
qed

section \<open>The invariant of the ring\<close>

definition ring_hdrs :: "param_s \<Rightarrow> RingPacket list" where
  "ring_hdrs p = map (PACKETPTR p) (live p)"

definition payload_room :: "param_s \<Rightarrow> nat" where
  "payload_room p = nat (slotsize p) - sizeof_RingPacket"

definition ring_inv :: "param_s \<Rightarrow> bool" where
  "ring_inv p \<longleftrightarrow> ring_geom p \<and>
     (latestoffset p = -1 \<and> earliestoffset p = -1 \<or>
      valid_off p (earliestoffset p) \<and> valid_off p (latestoffset p)) \<and>
     (\<forall>x \<in> set (live p). offset (PACKETPTR p x) = x \<and>
        unat (datasize (PACKETPTR p x)) \<le> payload_room p \<and>
        length (streamid (PACKETPTR p x)) < MAXSTREAMID) \<and>
     (\<forall>x. length (payload (ringmem p x)) = payload_room p) \<and>
     links_ok (ring_hdrs p) \<and> index_ok (streamidx p) (ring_hdrs p) \<and>
     finite (dom (streamidx p)) \<and> streamcount p = of_nat (card (dom (streamidx p)))"

text \<open>A packet as its readers see it, and the ring as the queue of its packets.\<close>

record packet =
  a_pktid :: u64
  a_pkttime :: nstime
  a_datastart :: nstime
  a_dataend :: nstime
  a_streamid :: string
  a_data :: "byte list"

definition abs_slot :: "slot \<Rightarrow> packet" where
  "abs_slot s = \<lparr>a_pktid = pktid (hdr s), a_pkttime = pkttime (hdr s),
     a_datastart = datastart (hdr s), a_dataend = dataend (hdr s), a_streamid = streamid (hdr s),
     a_data = take (unat (datasize (hdr s))) (payload s)\<rparr>"

definition ring_queue :: "param_s \<Rightarrow> packet list" where
  "ring_queue p = map (\<lambda>x. abs_slot (ringmem p x)) (live p)"

definition fifo_push :: "nat \<Rightarrow> packet list \<Rightarrow> packet \<Rightarrow> packet list" where
  "fifo_push n q x = (if length q = n then tl q else q) @ [x]"

definition next_id :: "packet list \<Rightarrow> u64" where
  "next_id q = (if q = [] then 1
     else (let id = a_pktid (last q) + 1 in if id > RINGID_MAXIMUM then 1 else id))"

lemma ring_invD:
  assumes "ring_inv p"
  shows "ring_geom p" "links_ok (ring_hdrs p)" "index_ok (streamidx p) (ring_hdrs p)"
    "finite (dom (streamidx p))" "streamcount p = of_nat (card (dom (streamidx p)))"
    "\<And>x. length (payload (ringmem p x)) = payload_room p"
    "\<And>x. x \<in> set (live p) \<Longrightarrow> offset (PACKETPTR p x) = x"
    "\<And>x. x \<in> set (live p) \<Longrightarrow> unat (datasize (PACKETPTR p x)) \<le> payload_room p"
    "latestoffset p < 0 \<longleftrightarrow> latestoffset p = -1" "earliestoffset p < 0 \<longleftrightarrow> latestoffset p < 0"
    "latestoffset p < 0 \<Longrightarrow> earliestoffset p = -1"
    "\<not> latestoffset p < 0 \<Longrightarrow> valid_off p (earliestoffset p)"
    "\<not> latestoffset p < 0 \<Longrightarrow> valid_off p (latestoffset p)"
    "\<And>x. x \<in> set (live p) \<Longrightarrow> length (streamid (PACKETPTR p x)) < MAXSTREAMID"
  using assms by (auto simp: ring_inv_def valid_off_def)

subsection \<open>The offsets in use\<close>

lemma live_empty: "latestoffset p < 0 \<Longrightarrow> live p = []"
  by (simp add: live_def)

lemma live_count_bounds:
  assumes "ring_geom p"
  shows "0 < live_count p" "int (live_count p) \<le> nslots p"
proof -
  have N: "0 < nslots p" using ring_geomD(4) [OF assms] by simp
  show "0 < live_count p" using N by (simp add: live_count_def)
  show "int (live_count p) \<le> nslots p" using N
    by (simp add: live_count_def pos_mod_bound zless_imp_add1_zle)
qed

lemma length_live_le: "ring_geom p \<Longrightarrow> int (length (live p)) \<le> nslots p"
  using live_count_bounds(2) [of p] ring_geomD(4) [of p] by (auto simp: live_def)

lemma live_valid:
  assumes "ring_geom p" "x \<in> set (live p)"
  shows "valid_off p x"
proof -
  from assms(2) obtain k where "k \<in> set (span (nslots p) (earliestoffset p div slotsize p) (live_count p))"
    and x: "x = k * slotsize p"
    by (auto simp: live_def split: if_splits)
  moreover have "0 < nslots p" using ring_geomD(4) [OF assms(1)] by simp
  ultimately have "0 \<le> k \<and> k < nslots p" using span_range by blast
  then show ?thesis using valid_offI [OF assms(1)] x by blast
qed

lemma distinct_live:
  assumes "ring_geom p" shows "distinct (live p)"
proof -
  have "distinct (span (nslots p) (earliestoffset p div slotsize p) (live_count p))"
    using ring_geomD(4) [OF assms] live_count_bounds(2) [OF assms] by (intro distinct_span) auto
  moreover have "inj (\<lambda>k. k * slotsize p)" using ring_geomD(1) [OF assms] by (auto intro: injI)
  ultimately show ?thesis by (auto simp: live_def distinct_map inj_on_def)
qed

lemma mod_near:
  fixes N :: int
  assumes "0 \<le> a" "a < N" "0 \<le> b" "b < N"
  shows "(a - b) mod N = (if b \<le> a then a - b else a - b + N)"
proof (cases "b \<le> a")
  case False
  have "(a - b) mod N = (a - b + N) mod N" by simp
  also have "\<dots> = a - b + N" using assms False by (intro mod_pos_pos_trivial) auto
  finally show ?thesis using False by simp
qed (use assms in \<open>simp add: mod_pos_pos_trivial\<close>)

lemma mod_succ:
  fixes N :: int
  assumes "0 \<le> a" "a < N"
  shows "(a + 1) mod N = (if a + 1 = N then 0 else a + 1)"
  using assms by (auto intro: mod_pos_pos_trivial)

text \<open>
  With \<open>e\<close> and \<open>l\<close> the slots of the earliest and the latest packet: how the distance between them
  grows when the slot after \<open>l\<close> is free, and what it is when that slot is \<open>e\<close>.
\<close>

lemma slot_step_free:
  fixes N :: int
  assumes "0 \<le> e" "e < N" "0 \<le> l" "l < N" "(l + 1) mod N \<noteq> e"
  shows "((l + 1) mod N - e) mod N = (l - e) mod N + 1"
proof -
  have "0 \<le> (l + 1) mod N" "(l + 1) mod N < N" using assms by simp_all
  then show ?thesis using assms mod_near [of "(l + 1) mod N" N e] mod_near [of l N e]
    by (auto simp: mod_succ split: if_splits)
qed

lemma slot_step_full:
  fixes N :: int
  assumes "0 \<le> e" "e < N" "0 \<le> l" "l < N" "2 \<le> N" "(l + 1) mod N = e"
  shows "(l - e) mod N = N - 1" "(l - (e + 1) mod N) mod N = N - 2" "e \<noteq> l"
proof -
  have "0 \<le> (e + 1) mod N" "(e + 1) mod N < N" using assms by simp_all
  then show "(l - e) mod N = N - 1" "(l - (e + 1) mod N) mod N = N - 2" "e \<noteq> l"
    using assms mod_near [of l N e] mod_near [of l N "(e + 1) mod N"]
    by (auto simp: mod_succ split: if_splits)
qed

lemma live_conv:
  assumes "ring_geom p" "0 \<le> e" "e < nslots p" "0 \<le> l" "l < nslots p"
    and "earliestoffset p = e * slotsize p" "latestoffset p = l * slotsize p"
  shows "live p = map (\<lambda>k. k * slotsize p) (span (nslots p) e (Suc (nat ((l - e) mod nslots p))))"
proof -
  have "0 < nslots p" using ring_geomD(4) [OF assms(1)] by simp
  then have "live_count p = Suc (nat ((l - e) mod nslots p))"
    using slot_div [OF assms(1)] assms(6,7) by (simp add: live_count_def nat_add_distrib)
  moreover have "\<not> latestoffset p < 0"
    using assms(4,7) ring_geomD(1) [OF assms(1)] by (simp add: not_less)
  ultimately show ?thesis using assms(6) slot_div [OF assms(1)] by (simp add: live_def)
qed

lemma live_hd_last:
  assumes "ring_geom p" "valid_off p (earliestoffset p)" "valid_off p (latestoffset p)"
  shows "live p \<noteq> []" "hd (live p) = earliestoffset p" "last (live p) = latestoffset p"
proof -
  let ?S = "slotsize p" and ?N = "nslots p"
  obtain e where e: "0 \<le> e" "e < ?N" "earliestoffset p = e * ?S"
    using valid_offE [OF assms(1,2)] .
  obtain l where l: "0 \<le> l" "l < ?N" "latestoffset p = l * ?S"
    using valid_offE [OF assms(1,3)] .
  note live = live_conv [OF assms(1) e(1,2) l(1,2) e(3) l(3)]
  have "(e + (l - e) mod ?N) mod ?N = l" using l(1,2) by (simp add: mod_simps)
  then have "last (live p) = l * ?S" using e(1,2) live by (simp add: span_snoc)
  moreover have "hd (live p) = e * ?S" using e(1,2) live by (simp add: span_Cons)
  ultimately show "live p \<noteq> []" "hd (live p) = earliestoffset p" "last (live p) = latestoffset p"
    using live e(3) l(3) by (simp_all add: span_Cons)
qed

text \<open>
  The target offset of the next write is free, or the ring is full and it is the earliest one.
\<close>

lemma next_valid:
  assumes "ring_geom p" "valid_off p x"
  shows "valid_off p (NEXTOFFSET x (maxoffset p) (pktsize p))"
proof -
  obtain k where k: "0 \<le> k" "k < nslots p" "x = k * slotsize p"
    using valid_offE [OF assms] .
  then show ?thesis
    using NEXTOFFSET_slot [OF assms(1) k(1,2)] valid_offI [OF assms(1), of "(k + 1) mod nslots p"]
    by simp
qed

lemma live_next_free:
  assumes "ring_geom p" "valid_off p (earliestoffset p)" "valid_off p (latestoffset p)"
    and "x = NEXTOFFSET (latestoffset p) (maxoffset p) (pktsize p)" "x \<noteq> earliestoffset p"
  shows "x \<notin> set (live p)" "live (p\<lparr>latestoffset := x\<rparr>) = live p @ [x]"
    "int (length (live p)) \<noteq> nslots p"
proof -
  let ?S = "slotsize p" and ?N = "nslots p" and ?p = "p\<lparr>latestoffset := x\<rparr>"
  obtain e where e: "0 \<le> e" "e < ?N" "earliestoffset p = e * ?S"
    using valid_offE [OF assms(1,2)] .
  obtain l where l: "0 \<le> l" "l < ?N" "latestoffset p = l * ?S"
    using valid_offE [OF assms(1,3)] .
  let ?l = "(l + 1) mod ?N"
  have x: "x = ?l * ?S" using NEXTOFFSET_slot [OF assms(1) l(1,2)] assms(4) l(3) by simp
  then have "?l \<noteq> e" using assms(5) e(3) by auto
  note step = slot_step_free [OF e(1,2) l(1,2) this]
  have l': "0 \<le> ?l" "?l < ?N" using e(1,2) by simp_all
  have geom: "ring_geom ?p" "slotsize ?p = ?S" "nslots ?p = ?N"
    using assms(1) by (simp_all add: ring_geom_def slotsize_def nslots_def)
  have "(e + ((l - e) mod ?N + 1)) mod ?N = (e + (?l - e) mod ?N) mod ?N" by (simp add: step)
  also have "\<dots> = (e + (?l - e)) mod ?N" by (rule mod_add_right_eq)
  also have "\<dots> = ?l" using l' by simp
  finally have end_slot: "(e + (1 + (l - e) mod ?N)) mod ?N = ?l" by (simp add: add.commute)
  have "live ?p = map (\<lambda>k. k * ?S) (span ?N e (Suc (nat ((?l - e) mod ?N))))"
    using live_conv [OF geom(1), of e ?l] e l' x geom by simp
  also have "\<dots> = live p @ [x]"
    using live_conv [OF assms(1) e(1,2) l(1,2) e(3) l(3)] e(1,2) end_slot x
    by (simp add: step nat_add_distrib span_snoc [of _ _ "Suc _"])
  finally show app: "live ?p = live p @ [x]" .
  have "distinct (live ?p)" by (rule distinct_live [OF geom(1)])
  then show "x \<notin> set (live p)" by (simp add: app)
  show "int (length (live p)) \<noteq> ?N" using length_live_le [OF geom(1)] geom(3) app by simp
qed

lemma live_next_full:
  assumes "ring_geom p" "valid_off p (earliestoffset p)" "valid_off p (latestoffset p)"
    and "earliestoffset p = NEXTOFFSET (latestoffset p) (maxoffset p) (pktsize p)"
  defines "x \<equiv> NEXTOFFSET (earliestoffset p) (maxoffset p) (pktsize p)"
  shows "int (length (live p)) = nslots p" "earliestoffset p \<noteq> latestoffset p"
    "live (p\<lparr>earliestoffset := x\<rparr>) = tl (live p)"
proof -
  let ?S = "slotsize p" and ?N = "nslots p" and ?p = "p\<lparr>earliestoffset := x\<rparr>"
  note g = ring_geomD [OF assms(1)]
  obtain e where e: "0 \<le> e" "e < ?N" "earliestoffset p = e * ?S"
    using valid_offE [OF assms(1,2)] .
  obtain l where l: "0 \<le> l" "l < ?N" "latestoffset p = l * ?S"
    using valid_offE [OF assms(1,3)] .
  let ?e = "(e + 1) mod ?N"
  have "(l + 1) mod ?N = e"
    using NEXTOFFSET_slot [OF assms(1) l(1,2)] assms(4) e(3) l(3) g(1) by simp
  note step = slot_step_full [OF e(1,2) l(1,2) g(4) this]
  have x: "x = ?e * ?S" using NEXTOFFSET_slot [OF assms(1) e(1,2)] by (simp add: x_def e(3))
  have e': "0 \<le> ?e" "?e < ?N" using e(1,2) by simp_all
  have geom: "ring_geom ?p" "slotsize ?p = ?S" "nslots ?p = ?N"
    using assms(1) by (simp_all add: ring_geom_def slotsize_def nslots_def)
  note live = live_conv [OF assms(1) e(1,2) l(1,2) e(3) l(3)]
  show "int (length (live p)) = ?N" using live step(1) g(4) by simp
  show "earliestoffset p \<noteq> latestoffset p" using step(3) e(3) l(3) g(1) by simp
  have n: "nat (?N - 1) = Suc (nat (?N - 2))" using g(4) by simp
  have "live ?p = map (\<lambda>k. k * ?S) (span ?N ?e (Suc (nat (?N - 2))))"
    using live_conv [OF geom(1), of ?e l] e' l x geom step(2) by simp
  also have "\<dots> = tl (live p)"
    using live step(1) n by (simp add: span_Cons [of _ e] span_mod)
  finally show "live ?p = tl (live p)" .
qed

section \<open>Removing the earliest packet\<close>

lemma hdr_at:
  assumes "ring_inv p" "h \<in> set (ring_hdrs p)"
  shows "PACKETPTR p (offset h) = h" "offset h \<in> set (live p)"
  using assms ring_invD(7) [OF assms(1)] by (auto simp: ring_hdrs_def)

lemma offsets_ring_hdrs: "ring_inv p \<Longrightarrow> map offset (ring_hdrs p) = live p"
  using ring_invD(7) [of p] by (auto simp: ring_hdrs_def intro: nth_equalityI)

lemma distinct_offsets: "ring_inv p \<Longrightarrow> distinct (map offset (ring_hdrs p))"
  using offsets_ring_hdrs [of p] distinct_live [OF ring_invD(1)] by simp

lemma offset_nonneg: "ring_inv p \<Longrightarrow> h \<in> set (ring_hdrs p) \<Longrightarrow> 0 \<le> offset h"
  using hdr_at(2) [of p h] live_valid [OF ring_invD(1)] by (auto simp: valid_off_def)

text \<open>What the index and the links say about the packet at the head of the queue.\<close>

lemma head_facts:
  assumes inv: "ring_inv p" and Q: "ring_hdrs p = h # T"
  defines "R \<equiv> of_key (key_of h) T"
  obtains st where "streamidx p (key_of h) = Some st" "earliest_is st h"
    "offset h = st_latestoffset st \<longleftrightarrow> R = []"
    "R = [] \<Longrightarrow> nextinstream h = -1"
    "R \<noteq> [] \<Longrightarrow> 0 \<le> nextinstream h \<and> PACKETPTR p (nextinstream h) = hd R"
proof -
  have "entry_for (of_key (key_of h) (h # T)) (streamidx p (key_of h))"
    using ring_invD(3) [OF inv] unfolding index_ok_def Q by blast
  then obtain st where st: "streamidx p (key_of h) = Some st" "earliest_is st h"
    "latest_is st (last (h # R))"
    by (cases "streamidx p (key_of h)") (auto simp: R_def)
  have lk: "nextinstream h = (if R = [] then -1 else offset (hd R))"
    using ring_invD(2) [OF inv] unfolding links_ok_def Q R_def
    by (metis linked_Cons of_key_simps(2))
  have dist: "offset h \<notin> offset ` set T" using distinct_offsets [OF inv] by (simp add: Q)
  have sub: "set R \<subseteq> set T" by (auto simp: R_def of_key_set)
  have "R \<noteq> [] \<Longrightarrow> offset (last R) \<noteq> offset h"
    using dist sub by (metis image_eqI last_in_set subsetD)
  then have "offset h = st_latestoffset st \<longleftrightarrow> R = []"
    using st(3) by (auto simp: latest_is_def)
  moreover have "hd R \<in> set (ring_hdrs p)" if "R \<noteq> []"
    using subsetD [OF sub hd_in_set [OF that]] by (simp add: Q)
  ultimately show thesis
    using that [OF st(1,2)] lk hdr_at(1) [OF inv, of "hd R"] offset_nonneg [OF inv, of "hd R"]
    by auto
qed

lemma PACKETPTR_cong: "ringmem p = ringmem p' \<Longrightarrow> PACKETPTR p = PACKETPTR p'"
  by (simp add: PACKETPTR_def fun_eq_iff)

lemma live_cong:
  "latestoffset p' = latestoffset p \<Longrightarrow> earliestoffset p' = earliestoffset p \<Longrightarrow>
   pktsize p' = pktsize p \<Longrightarrow> maxoffset p' = maxoffset p \<Longrightarrow> live p' = live p"
  by (simp add: live_def live_count_def slotsize_def nslots_def)

text \<open>A ring whose earliest packet was taken off keeps the invariant.\<close>

lemma ring_inv_tl:
  assumes inv: "ring_inv p" and Q: "ring_hdrs p = h # T"
    and p': "p' = p\<lparr>earliestoffset := x, streamidx := idx, streamcount := cnt\<rparr>"
    and x: "valid_off p x" and l: "valid_off p (latestoffset p)"
    and live: "live (p\<lparr>earliestoffset := x\<rparr>) = tl (live p)"
    and idx: "index_ok idx T" "finite (dom idx)" "cnt = of_nat (card (dom idx))"
  shows "ring_inv p'" "ring_queue p' = tl (ring_queue p)" "live p' = tl (live p)"
proof -
  have same: "slotsize p' = slotsize p" "nslots p' = nslots p" "payload_room p' = payload_room p"
    "valid_off p' = valid_off p" "ring_geom p' = ring_geom p" "PACKETPTR p' = PACKETPTR p"
    by (auto simp: p' slotsize_def nslots_def payload_room_def valid_off_def ring_geom_def
        PACKETPTR_def fun_eq_iff)
  show live': "live p' = tl (live p)"
    unfolding live [symmetric] by (rule live_cong) (simp_all add: p')
  then have Q': "ring_hdrs p' = T"
    using arg_cong [OF Q, of tl] by (simp add: ring_hdrs_def same map_tl)
  show "ring_queue p' = tl (ring_queue p)"
    by (simp add: ring_queue_def live' map_tl) (simp add: p')
  have sub: "set (live p') \<subseteq> set (live p)" using live' by (metis list.set_sel(2) tl_Nil subsetI)
  have "links_ok T" using ring_invD(2) [OF inv] Q links_ok_tl by simp
  then show "ring_inv p'"
    unfolding ring_inv_def same Q' using sub idx x l ring_invD(1,6,7,8,14) [OF inv]
    by (auto simp: p')
qed

lemma card_dom_del:
  "finite (dom m) \<Longrightarrow> m k = Some v \<Longrightarrow>
   (of_nat (card (dom m)) - 1 :: 'a::len word) = of_nat (card (dom (m(k := None))))"
  by (simp add: dom_fun_upd card_Diff_singleton domI of_nat_diff [symmetric] Suc_leI card_gt_0_iff)
    (metis One_nat_def Suc_leI card_gt_0_iff domI empty_iff of_nat_1 of_nat_diff)

text \<open>The two ways in which the index entry of the earliest packet is brought up to date.\<close>

lemma evict_eval:
  assumes "0 \<le> earliestoffset p" "0 \<le> latestoffset p" "earliestoffset p \<noteq> latestoffset p"
    and "config_pktsize p = pktsize p"
    and h: "h = PACKETPTR p (earliestoffset p)" "offset h = earliestoffset p"
    and x: "x = NEXTOFFSET (earliestoffset p) (maxoffset p) (pktsize p)" "offset (PACKETPTR p x) = x"
    and st: "streamidx p (key_of h) = Some st" "st_earliestoffset st = offset h"
  shows "st_latestoffset st = offset h \<Longrightarrow> RingWrite_evict p (earliestoffset p) =
      (True, p\<lparr>earliestoffset := x, streamidx := (streamidx p)(key_of h := None),
               streamcount := streamcount p - 1\<rparr>)"
    and "st_latestoffset st \<noteq> offset h \<Longrightarrow> 0 \<le> nextinstream h \<Longrightarrow>
      n = PACKETPTR p (nextinstream h) \<Longrightarrow> RingWrite_evict p (earliestoffset p) =
      (True, p\<lparr>earliestoffset := x, streamidx := (streamidx p)(key_of h \<mapsto>
         st\<lparr>earliestdstime := datastart n, earliestdetime := dataend n,
            earliestptime := pkttime n, earliestid := pktid n, st_earliestoffset := offset n\<rparr>)\<rparr>)"
  using assms by (auto simp: RingWrite_evict_def Let_def index_defs key_of_def)

text \<open>A full ring has a second packet, at the offset after the earliest.\<close>

lemma second_offset:
  assumes inv: "ring_inv p" and ne: "\<not> latestoffset p < 0"
    and full: "earliestoffset p = NEXTOFFSET (latestoffset p) (maxoffset p) (pktsize p)"
  defines "x \<equiv> NEXTOFFSET (earliestoffset p) (maxoffset p) (pktsize p)"
  shows "valid_off p x" "x \<in> set (live p)" "offset (PACKETPTR p x) = x"
proof -
  note g = ring_invD(1) [OF inv] and e = ring_invD(12) [OF inv ne] and l = ring_invD(13) [OF inv ne]
  let ?p = "p\<lparr>earliestoffset := x\<rparr>"
  show xv: "valid_off p x" unfolding x_def by (rule next_valid [OF g e])
  have "ring_geom ?p" "valid_off ?p (earliestoffset ?p)" "valid_off ?p (latestoffset ?p)"
    using g xv l by (simp_all add: ring_geom_def valid_off_def slotsize_def nslots_def)
  note hl = live_hd_last(1,2) [OF this]
  have "live ?p = tl (live p)" unfolding x_def by (rule live_next_full(3) [OF g e l full])
  then have "tl (live p) \<noteq> []" "hd (tl (live p)) = x" using hl by simp_all
  then show "x \<in> set (live p)" by (metis list.set_sel(1) list.set_sel(2) tl_Nil)
  then show "offset (PACKETPTR p x) = x" by (rule ring_invD(7) [OF inv])
qed

lemma evict_full:
  assumes inv: "ring_inv p" and ne: "\<not> latestoffset p < 0"
    and full: "earliestoffset p = NEXTOFFSET (latestoffset p) (maxoffset p) (pktsize p)"
  shows "\<exists>x idx cnt. let p1 = p\<lparr>earliestoffset := x, streamidx := idx, streamcount := cnt\<rparr> in
    RingWrite_evict p (earliestoffset p) = (True, p1) \<and> ring_inv p1 \<and> valid_off p x \<and>
    ring_queue p1 = tl (ring_queue p) \<and> live p1 = tl (live p)"
proof -
  note g = ring_invD(1) [OF inv] and e = ring_invD(12) [OF inv ne] and l = ring_invD(13) [OF inv ne]
  define x where "x = NEXTOFFSET (earliestoffset p) (maxoffset p) (pktsize p)"
  note lf = live_next_full [OF g e l full, folded x_def]
  note sx = second_offset [OF inv ne full, folded x_def]
  obtain h T where Q: "ring_hdrs p = h # T" and h: "h = PACKETPTR p (earliestoffset p)"
    using live_hd_last(1,2) [OF g e l] by (cases "live p") (auto simp: ring_hdrs_def)
  have off_h: "offset h = earliestoffset p"
    using ring_invD(7) [OF inv] live_hd_last(1,2) [OF g e l] h by (metis list.set_sel(1))
  obtain st where st: "streamidx p (key_of h) = Some st" "earliest_is st h"
    "offset h = st_latestoffset st \<longleftrightarrow> of_key (key_of h) T = []"
    "of_key (key_of h) T \<noteq> [] \<Longrightarrow>
       0 \<le> nextinstream h \<and> PACKETPTR p (nextinstream h) = hd (of_key (key_of h) T)"
    using head_facts [OF inv Q] by metis
  have start: "0 \<le> earliestoffset p" "0 \<le> latestoffset p" "st_earliestoffset st = offset h"
    using e l st(2) by (simp_all add: valid_off_def earliest_is_def)
  note ev = evict_eval [OF start(1,2) lf(2) ring_geomD(2) [OF g] h off_h x_def sx(3) st(1) start(3)]
  note Qix = ring_invD(3) [OF inv, unfolded Q]
  show ?thesis
  proof (cases "of_key (key_of h) T = []")
    case True
    note tl = ring_inv_tl [OF inv Q refl sx(1) l lf(3) index_ok_tl_only [OF Qix True]]
    have "streamcount p - 1 = of_nat (card (dom ((streamidx p)(key_of h := None))))"
      using card_dom_del [OF ring_invD(4) [OF inv] st(1)] ring_invD(5) [OF inv] by simp
    then show ?thesis using ev(1) tl st(3) True sx(1) ring_invD(4) [OF inv]
      by (intro exI [of _ x] exI [of _ "(streamidx p)(key_of h := None)"]
          exI [of _ "streamcount p - 1"]) (simp add: Let_def)
  next
    case False
    let ?n = "hd (of_key (key_of h) T)"
    let ?st = "st\<lparr>earliestdstime := datastart ?n, earliestdetime := dataend ?n,
                 earliestptime := pkttime ?n, earliestid := pktid ?n, st_earliestoffset := offset ?n\<rparr>"
    have ix: "index_ok ((streamidx p)(key_of h \<mapsto> ?st)) T"
      by (rule index_ok_tl_next [OF Qix False st(1)]) (simp_all add: earliest_is_def latest_is_def)
    have dom: "dom ((streamidx p)(key_of h \<mapsto> ?st)) = dom (streamidx p)"
      using st(1) by (auto simp: domIff)
    note tl = ring_inv_tl [OF inv Q refl sx(1) l lf(3) ix, of "streamcount p"]
    have "RingWrite_evict p (earliestoffset p) = (True, p\<lparr>earliestoffset := x,
        streamidx := (streamidx p)(key_of h \<mapsto> ?st), streamcount := streamcount p\<rparr>)"
      using ev(2) [of ?n] st(3,4) False by auto
    then show ?thesis using tl sx(1) ring_invD(4,5) [OF inv]
      by (intro exI [of _ x] exI [of _ "(streamidx p)(key_of h \<mapsto> ?st)"]
          exI [of _ "streamcount p"]) (simp add: Let_def dom del: dom_fun_upd)
  qed
qed

section \<open>Storing the new packet\<close>

text \<open>The buffer after the header, the payload and the link of the previous packet are written.\<close>

definition store_mem ::
  "(off \<Rightarrow> slot) \<Rightarrow> off \<Rightarrow> RingPacket \<Rightarrow> byte list \<Rightarrow> off \<Rightarrow> slot" where
  "store_mem m po h data =
     (let m1 = m(offset h := \<lparr>hdr = h, payload = overlay (payload (m (offset h))) data\<rparr>)
      in if po \<ge> 0 then m1(po := m1 po\<lparr>hdr := hdr (m1 po)\<lparr>nextinstream := offset h\<rparr>\<rparr>) else m1)"

lemma store_mem_new:
  "po \<noteq> offset h \<Longrightarrow>
   store_mem m po h data (offset h) = \<lparr>hdr = h, payload = overlay (payload (m (offset h))) data\<rparr>"
  by (simp add: store_mem_def Let_def)

lemma store_mem_old:
  "y \<noteq> offset h \<Longrightarrow> 0 \<le> y \<Longrightarrow> store_mem m po h data y =
     m y\<lparr>hdr := (if y = po then hdr (m y)\<lparr>nextinstream := offset h\<rparr> else hdr (m y))\<rparr>"
  by (simp add: store_mem_def Let_def)

lemma length_store_mem:
  "(\<And>x. length (payload (m x)) = r) \<Longrightarrow> length data \<le> r \<Longrightarrow>
   length (payload (store_mem m po h data y)) = r"
  by (auto simp: store_mem_def overlay_def Let_def)

text \<open>The stream record that the packet is entered in, and where its previous packet is.\<close>

definition stream_for :: "param_s \<Rightarrow> RingPacket \<Rightarrow> RingStream" where
  "stream_for p h = (case streamidx p (key_of h) of None \<Rightarrow> new_stream h | Some st \<Rightarrow> st)"

definition with_latest :: "RingStream \<Rightarrow> RingPacket \<Rightarrow> RingStream" where
  "with_latest st h = st\<lparr>latestdstime := datastart h, latestdetime := dataend h,
     latestptime := pkttime h, latestid := pktid h, st_latestoffset := offset h\<rparr>"

lemma store_eval:
  "RingWrite_store True we p h data =
     (0, p\<lparr>ringmem := store_mem (ringmem p) (st_latestoffset (stream_for p h)) h data,
           streamidx := (streamidx p)(key_of h \<mapsto> with_latest (stream_for p h) h),
           streamcount := (if streamidx p (key_of h) = None then streamcount p + 1 else streamcount p),
           earliestoffset := (if we then offset h else earliestoffset p),
           latestoffset := offset h\<rparr>)"
  by (cases "streamidx p (key_of h)")
    (simp_all add: RingWrite_store_def store_mem_def stream_for_def with_latest_def index_defs
      key_of_def new_stream_def Let_def)

text \<open>An allocation failure leaves the ring without the packet it was about to replace.\<close>

lemma store_no_memory:
  "streamidx p (key_of h) = None \<Longrightarrow> RingWrite_store False we p h data = (-2, p)"
  by (simp add: RingWrite_store_def index_defs key_of_def)

lemma previous_packet:
  assumes inv: "ring_inv p"
  defines "po \<equiv> \<lambda>h. st_latestoffset (stream_for p h)"
  shows "of_key (key_of h) (ring_hdrs p) = [] \<Longrightarrow> streamidx p (key_of h) = None \<and> po h = -1"
    and "of_key (key_of h) (ring_hdrs p) \<noteq> [] \<Longrightarrow> \<exists>st. streamidx p (key_of h) = Some st
      \<and> po h = offset (last (of_key (key_of h) (ring_hdrs p))) \<and> po h \<in> set (live p)"
proof -
  have "entry_for (of_key (key_of h) (ring_hdrs p)) (streamidx p (key_of h))"
    using ring_invD(3) [OF inv] by (simp add: index_ok_def)
  then show "of_key (key_of h) (ring_hdrs p) = [] \<Longrightarrow> streamidx p (key_of h) = None \<and> po h = -1"
    and "of_key (key_of h) (ring_hdrs p) \<noteq> [] \<Longrightarrow> \<exists>st. streamidx p (key_of h) = Some st
      \<and> po h = offset (last (of_key (key_of h) (ring_hdrs p))) \<and> po h \<in> set (live p)"
    using hdr_at(2) [OF inv, of "last (of_key (key_of h) (ring_hdrs p))"]
      last_in_set [of "of_key (key_of h) (ring_hdrs p)"]
    by (cases "streamidx p (key_of h)";
        auto simp: po_def stream_for_def new_stream_def latest_is_def of_key_set)+
qed

text \<open>The headers of the ring after the packet is stored behind those it held.\<close>

lemma hdrs_after_store:
  assumes inv: "ring_inv p" and x: "offset h \<notin> set (live p)" "po \<noteq> offset h"
    and live: "live p' = live p @ [offset h]" and mem: "ringmem p' = store_mem (ringmem p) po h data"
  shows "ring_hdrs p' = relink po (offset h) (ring_hdrs p) @ [h]"
proof -
  have "PACKETPTR p' y = (if offset (PACKETPTR p y) = po
      then (PACKETPTR p y)\<lparr>nextinstream := offset h\<rparr> else PACKETPTR p y)" if "y \<in> set (live p)" for y
  proof -
    have "y \<noteq> offset h" "0 \<le> y" using that x(1) live_valid [OF ring_invD(1) [OF inv] that]
      by (auto simp: valid_off_def)
    then show ?thesis using ring_invD(7) [OF inv that]
      by (simp add: PACKETPTR_def mem store_mem_old)
  qed
  moreover have "PACKETPTR p' (offset h) = h" by (simp add: PACKETPTR_def mem store_mem_new x(2))
  ultimately show ?thesis by (simp add: ring_hdrs_def live relink_def)
qed

lemma stream_after_store:
  assumes inv: "ring_inv p" and new: "nextinstream h = -1" and x: "offset h \<notin> set (live p)"
  defines "po \<equiv> st_latestoffset (stream_for p h)"
  shows "links_ok (relink po (offset h) (ring_hdrs p) @ [h])"
    and "index_ok ((streamidx p)(key_of h \<mapsto> with_latest (stream_for p h) h))
           (relink po (offset h) (ring_hdrs p) @ [h])"
proof -
  let ?Q = "ring_hdrs p" and ?R = "of_key (key_of h) (ring_hdrs p)"
  note prev = previous_packet [OF inv, of h, folded po_def]
  have none: "relink po y (of_key k ?Q) = of_key k ?Q" if "?R = []" for y k
  proof (rule relink_other)
    show "po \<notin> offset ` set (of_key k ?Q)"
      using prev(1) [OF that] offset_nonneg [OF inv] by (fastforce simp: of_key_set)
  qed
  have none': "relink po y ?Q = ?Q" if "?R = []" for y
    using prev(1) [OF that] offset_nonneg [OF inv] by (intro relink_other) force
  show "links_ok (relink po (offset h) ?Q @ [h])"
  proof (cases "?R = []")
    case True
    then show ?thesis using links_ok_append_new [OF ring_invD(2) [OF inv] True new] none' by simp
  next
    case False
    then show ?thesis
      using links_ok_append_old [OF ring_invD(2) [OF inv] distinct_offsets [OF inv] False new]
        prev(2) by auto
  qed
  show "index_ok ((streamidx p)(key_of h \<mapsto> with_latest (stream_for p h) h))
          (relink po (offset h) ?Q @ [h])"
  proof (rule index_ok_append [OF ring_invD(3) [OF inv]])
    show "earliest_is (with_latest (stream_for p h) h) h" if "?R = []"
      using prev(1) [OF that] by (simp add: stream_for_def new_stream_def earliest_is_def with_latest_def)
    show "earliest_is (with_latest (stream_for p h) h) y = earliest_is s y"
      if "streamidx p (key_of h) = Some s" for s y
      using that by (simp add: stream_for_def earliest_is_def with_latest_def)
    show "latest_is (with_latest (stream_for p h) h) h" by (simp add: latest_is_def with_latest_def)
    show "relink po (offset h) ?Q = ?Q" if "?R = []" by (rule none' [OF that])
    show "relink po (offset h) (of_key k ?Q) = of_key k ?Q" if "k \<noteq> key_of h" for k
    proof (cases "?R = []")
      case False
      have "last ?R \<in> set ?Q" "key_of (last ?R) = key_of h"
        using last_in_set [OF False] by (auto simp: of_key_set)
      then have "po \<notin> offset ` set (of_key k ?Q)"
        using prev(2) [OF False] that distinct_offsets [OF inv]
        by (auto simp: of_key_set distinct_map inj_on_def)
      then show ?thesis by (rule relink_other)
    qed (rule none)
  qed
qed

text \<open>Where the new packet goes: to offset 0 of an empty ring, else behind the latest packet.\<close>

definition write_target :: "param_s \<Rightarrow> off \<Rightarrow> bool" where
  "write_target p x \<longleftrightarrow> (if latestoffset p < 0 then x = 0
     else x = NEXTOFFSET (latestoffset p) (maxoffset p) (pktsize p) \<and> x \<noteq> earliestoffset p)"

lemma write_target_live:
  assumes inv: "ring_inv p" and x: "write_target p x"
    and p': "slotsize p' = slotsize p" "nslots p' = nslots p" "latestoffset p' = x"
      "earliestoffset p' = (if latestoffset p < 0 then x else earliestoffset p)"
      "maxoffset p' = maxoffset p" "pktsize p' = pktsize p" "ring_geom p'"
  shows "valid_off p x" "x \<notin> set (live p)" "live p' = live p @ [x]"
proof -
  note g = ring_invD(1) [OF inv]
  show "valid_off p x"
    using x next_valid [OF g ring_invD(13) [OF inv]] ring_geomD(1,3,4) [OF g]
    by (auto simp: write_target_def valid_off_def mult_nonneg_nonneg split: if_splits)
  show "x \<notin> set (live p)"
    using x live_next_free(1) [OF g ring_invD(12,13) [OF inv]]
    by (auto simp: write_target_def live_empty split: if_splits)
  show "live p' = live p @ [x]"
  proof (cases "latestoffset p < 0")
    case True
    then have "live p' = [0]"
      using live_conv [OF p'(7), of 0 0] x p' ring_geomD(4) [OF p'(7)]
      by (simp add: write_target_def span_snoc)
    then show ?thesis using True x by (simp add: live_empty write_target_def)
  next
    case False
    have "live p' = live (p\<lparr>latestoffset := x\<rparr>)"
      by (rule live_cong) (use p' False in simp_all)
    then show ?thesis
      using False x live_next_free(2) [OF g ring_invD(12,13) [OF inv False]]
      by (simp add: write_target_def)
  qed
qed

lemma queue_after_store:
  assumes inv: "ring_inv p" and x: "offset h \<notin> set (live p)" "po \<noteq> offset h"
    and live: "live p' = live p @ [offset h]" and mem: "ringmem p' = store_mem (ringmem p) po h data"
    and len: "length data = unat (datasize h)"
  shows "ring_queue p' = ring_queue p @ [\<lparr>a_pktid = pktid h, a_pkttime = pkttime h,
     a_datastart = datastart h, a_dataend = dataend h, a_streamid = streamid h, a_data = data\<rparr>]"
proof -
  have "abs_slot (ringmem p' y) = abs_slot (ringmem p y)" if "y \<in> set (live p)" for y
  proof -
    have "y \<noteq> offset h" "0 \<le> y" using that x(1) live_valid [OF ring_invD(1) [OF inv] that]
      by (auto simp: valid_off_def)
    then show ?thesis by (simp add: mem store_mem_old abs_slot_def)
  qed
  then show ?thesis
    by (simp add: ring_queue_def live mem store_mem_new x(2) abs_slot_def overlay_def len)
qed

lemma card_dom_add:
  "finite (dom m) \<Longrightarrow> (if m k = None then of_nat (card (dom m)) + 1 else of_nat (card (dom m)))
     = (of_nat (card (dom (m(k \<mapsto> v)))) :: 'a::len word)"
  by (auto simp: card_insert_if domIff add.commute)

lemma store_inv:
  assumes inv: "ring_inv p" and new: "nextinstream h = -1" and x: "write_target p (offset h)"
    and len: "length data = unat (datasize h)" "unat (datasize h) \<le> payload_room p"
      "length (streamid h) < MAXSTREAMID"
    and we: "we \<longleftrightarrow> latestoffset p < 0"
  shows "\<exists>p2. RingWrite_store True we p h data = (0, p2) \<and> ring_inv p2 \<and>
    ring_queue p2 = ring_queue p @ [\<lparr>a_pktid = pktid h, a_pkttime = pkttime h,
       a_datastart = datastart h, a_dataend = dataend h, a_streamid = streamid h, a_data = data\<rparr>] \<and>
    latestoffset p2 = offset h \<and> maxoffset p2 = maxoffset p \<and> pktsize p2 = pktsize p"
proof -
  define po where "po = st_latestoffset (stream_for p h)"
  define p2 where "p2 = p\<lparr>ringmem := store_mem (ringmem p) po h data,
           streamidx := (streamidx p)(key_of h \<mapsto> with_latest (stream_for p h) h),
           streamcount := (if streamidx p (key_of h) = None then streamcount p + 1 else streamcount p),
           earliestoffset := (if we then offset h else earliestoffset p),
           latestoffset := offset h\<rparr>"
  have same: "slotsize p2 = slotsize p" "nslots p2 = nslots p" "payload_room p2 = payload_room p"
    "valid_off p2 = valid_off p" "ring_geom p2 = ring_geom p" "maxoffset p2 = maxoffset p"
    "pktsize p2 = pktsize p" "ringmem p2 = store_mem (ringmem p) po h data"
    by (auto simp: p2_def slotsize_def nslots_def payload_room_def valid_off_def ring_geom_def
        fun_eq_iff)
  note g = ring_invD(1) [OF inv]
  have lat: "latestoffset p2 = offset h"
    and ear: "earliestoffset p2 = (if latestoffset p < 0 then offset h else earliestoffset p)"
    by (simp_all add: p2_def we)
  note wt = write_target_live [OF inv x same(1,2) lat ear same(6,7)]
  have live: "live p2 = live p @ [offset h]" and fresh: "offset h \<notin> set (live p)"
    and ov: "valid_off p (offset h)" using wt g same(5) by auto
  have po: "po \<noteq> offset h"
    using previous_packet [OF inv, of h] fresh ov by (fastforce simp: po_def valid_off_def)
  note hdrs = hdrs_after_store [OF inv fresh po live same(8)]
  note strm = stream_after_store [OF inv new fresh, folded po_def]
  note queue = queue_after_store [OF inv fresh po live same(8) len(1)]
  have old: "offset (PACKETPTR p2 y) = y \<and> unat (datasize (PACKETPTR p2 y)) \<le> payload_room p \<and>
      length (streamid (PACKETPTR p2 y)) < MAXSTREAMID"
    if "y \<in> set (live p2)" for y
  proof (cases "y = offset h")
    case True
    then show ?thesis using len(2,3) by (simp add: PACKETPTR_def same(8) store_mem_new po)
  next
    case False
    then have y: "y \<in> set (live p)" using that live by simp
    then have "0 \<le> y" using live_valid [OF g y] by (simp add: valid_off_def)
    then show ?thesis using ring_invD(7,8,14) [OF inv y] False
      by (auto simp: PACKETPTR_def same(8) store_mem_old)
  qed
  have sidx: "streamidx p2 = (streamidx p)(key_of h \<mapsto> with_latest (stream_for p h) h)"
    by (simp add: p2_def)
  have cnt: "streamcount p2 = of_nat (card (dom (streamidx p2)))"
    unfolding sidx card_dom_add [OF ring_invD(4) [OF inv], symmetric]
    using ring_invD(5) [OF inv] by (simp add: p2_def)
  have pay: "length (payload (ringmem p2 y)) = payload_room p" for y
    unfolding same(8) by (rule length_store_mem [OF ring_invD(6) [OF inv]]) (use len in simp)
  have "valid_off p (earliestoffset p2)" using ear ov ring_invD(12) [OF inv] by simp
  then have "ring_inv p2"
    unfolding ring_inv_def same hdrs lat
    using g old strm ov pay [unfolded same(8)] cnt ring_invD(4) [OF inv] by (simp add: sidx)
  moreover have "RingWrite_store True we p h data = (0, p2)"
    by (simp only: store_eval p2_def po_def)
  ultimately show ?thesis using queue lat same(6,7) by blast
qed

section \<open>RingWrite refines a bounded queue\<close>

lemma write_next_eval:
  assumes inv: "ring_inv p"
  shows "RingWrite_next p = (if latestoffset p < 0 then 0
      else NEXTOFFSET (latestoffset p) (maxoffset p) (pktsize p), next_id (ring_queue p))"
proof (cases "latestoffset p < 0")
  case True
  then show ?thesis by (simp add: RingWrite_next_def next_id_def ring_queue_def live_empty)
next
  case False
  note g = ring_invD(1) [OF inv]
  note hl = live_hd_last(1,3) [OF g ring_invD(12,13) [OF inv False]]
  have "a_pktid (last (ring_queue p)) = pktid (PACKETPTR p (latestoffset p))"
    using hl by (simp add: ring_queue_def last_map abs_slot_def PACKETPTR_def)
  moreover have "offset (PACKETPTR p (latestoffset p)) = latestoffset p"
    using ring_invD(7) [OF inv] hl last_in_set by metis
  moreover have "ring_queue p \<noteq> []" using hl(1) by (simp add: ring_queue_def)
  ultimately show ?thesis using False ring_geomD(2) [OF g]
    by (simp add: RingWrite_next_def next_id_def Let_def)
qed

lemma length_ring_queue: "length (ring_queue p) = length (live p)"
  by (simp add: ring_queue_def)

text \<open>After the eviction the target is free, and the queue has lost its head if it was full.\<close>

lemma evict_inv:
  assumes inv: "ring_inv p" and x: "x = fst (RingWrite_next p)"
  shows "\<exists>p1. RingWrite_evict p x = (True, p1) \<and> ring_inv p1 \<and> write_target p1 x \<and>
    ring_queue p1 = (if length (ring_queue p) = nat (nslots p) then tl (ring_queue p) else ring_queue p) \<and>
    latestoffset p1 = latestoffset p \<and> maxoffset p1 = maxoffset p \<and> pktsize p1 = pktsize p"
proof (cases "latestoffset p < 0")
  case True
  then show ?thesis using inv x ring_geomD(4) [OF ring_invD(1) [OF inv]]
    by (auto simp: write_next_eval [OF inv] RingWrite_evict_def write_target_def ring_queue_def
        live_empty)
next
  case False
  note g = ring_invD(1) [OF inv] and e = ring_invD(12) [OF inv False] and l = ring_invD(13) [OF inv False]
  have x': "x = NEXTOFFSET (latestoffset p) (maxoffset p) (pktsize p)"
    using x False by (simp add: write_next_eval [OF inv])
  have N: "int (length (live p)) = nslots p \<longleftrightarrow> length (ring_queue p) = nat (nslots p)"
    using ring_geomD(4) [OF g] by (auto simp: length_ring_queue)
  show ?thesis
  proof (cases "x = earliestoffset p")
    case True
    note full = True [unfolded x', symmetric]
    obtain y idx cnt where p1: "RingWrite_evict p x =
        (True, p\<lparr>earliestoffset := y, streamidx := idx, streamcount := cnt\<rparr>)"
      "ring_inv (p\<lparr>earliestoffset := y, streamidx := idx, streamcount := cnt\<rparr>)"
      "ring_queue (p\<lparr>earliestoffset := y, streamidx := idx, streamcount := cnt\<rparr>) = tl (ring_queue p)"
      "live (p\<lparr>earliestoffset := y, streamidx := idx, streamcount := cnt\<rparr>) = tl (live p)"
      using evict_full [OF inv False full] True by (auto simp: Let_def)
    let ?p1 = "p\<lparr>earliestoffset := y, streamidx := idx, streamcount := cnt\<rparr>"
    have "live p = x # live ?p1"
      using live_hd_last(1,2) [OF g e l] True p1(4) by (cases "live p") auto
    moreover have "y \<in> set (live ?p1)"
      using live_hd_last(1,2) [of ?p1] ring_invD(1,12,13) [OF p1(2)] False hd_in_set [of "live ?p1"]
      by auto
    ultimately have "x \<noteq> y" using distinct_live [OF g] by auto
    then show ?thesis using p1(1-3) x' False N live_next_full(1) [OF g e l full]
      by (auto simp: write_target_def)
  next
    case free: False
    then show ?thesis
      using inv x' False N live_next_free(3) [OF g e l x' free] free
      by (auto simp: RingWrite_evict_def write_target_def)
  qed
qed

definition written :: "param_s \<Rightarrow> nstime \<Rightarrow> RingPacket \<Rightarrow> byte list \<Rightarrow> packet" where
  "written p now h data = \<lparr>a_pktid = (if pktid h = RINGID_NONE then next_id (ring_queue p) else pktid h),
     a_pkttime = now, a_datastart = datastart h, a_dataend = dataend h, a_streamid = streamid h,
     a_data = take (unat (datasize h)) data\<rparr>"

lemma RingWrite_ok:
  assumes inv: "ring_inv p" and fits: "sizeof_RingPacket + unat (datasize h) \<le> unat (pktsize p)"
    and data: "unat (datasize h) \<le> length data" and sid: "length (streamid h) < MAXSTREAMID"
  shows "\<exists>p' h'. RingWrite True now p h data (datasize h) = (0, p', h') \<and> ring_inv p' \<and>
    ring_queue p' = fifo_push (nat (nslots p)) (ring_queue p) (written p now h data) \<and>
    maxoffset p' = maxoffset p \<and> pktsize p' = pktsize p \<and> latestoffset p' = fst (RingWrite_next p)"
proof -
  define x where "x = fst (RingWrite_next p)"
  let ?id = "next_id (ring_queue p)"
  let ?h = "h\<lparr>pktid := (if pktid h = RINGID_NONE then ?id else pktid h), offset := x,
              pkttime := now, nextinstream := -1\<rparr>"
  obtain p1 where ev: "RingWrite_evict p x = (True, p1)" and inv1: "ring_inv p1"
    and wt: "write_target p1 x" and q1: "ring_queue p1 =
      (if length (ring_queue p) = nat (nslots p) then tl (ring_queue p) else ring_queue p)"
    and same: "latestoffset p1 = latestoffset p" "maxoffset p1 = maxoffset p" "pktsize p1 = pktsize p"
    using evict_inv [OF inv x_def] by blast
  have room: "unat (datasize h) \<le> payload_room p1"
    using fits same(3) by (simp add: payload_room_def slotsize_def)
  have we: "earliestoffset p < 0 \<longleftrightarrow> latestoffset p1 < 0" using ring_invD(10) [OF inv] same(1) by simp
  have nx: "RingWrite_next p = (x, ?id)"
    using write_next_eval [OF inv] by (simp add: x_def)
  have wt': "write_target p1 (offset ?h)" using wt by simp
  have "nextinstream ?h = -1" "length (take (unat (datasize h)) data) = unat (datasize ?h)"
    "unat (datasize ?h) \<le> payload_room p1" "length (streamid ?h) < MAXSTREAMID"
    using data room sid by simp_all
  from store_inv [OF inv1 this(1) wt' this(2-4) we]
  obtain p2 where st: "RingWrite_store True (earliestoffset p < 0) p1 ?h (take (unat (datasize h)) data) = (0, p2)"
    and "ring_inv p2" "ring_queue p2 = ring_queue p1 @ [written p now h data]"
    "latestoffset p2 = x" "maxoffset p2 = maxoffset p1" "pktsize p2 = pktsize p1"
    by (auto simp: written_def)
  moreover have "RingWrite True now p h data (datasize h) = (0, p2, ?h)"
    using fits ev st unfolding RingWrite_def nx by (simp add: Let_def)
  ultimately show ?thesis using q1 same x_def by (simp add: fifo_push_def)
qed

end
