(* ===== verification/RS_RingRead.thy ===== *)
theory RS_RingRead
  imports RS_RingInv
begin

text \<open>
  The readers of \<open>ringserver-4/src/ring.c\<close>: \<open>RingReadPacket\<close> (with the writer's interference
  between its memory accesses), \<open>FindOffsetForID\<close>, \<open>RingRead\<close>, \<open>RingReadNext\<close>, \<open>RingPosition\<close>,
  \<open>RingAfter\<close> and \<open>RingAfterRev\<close>.

  The regular expression engine is not code of this repository: a compiled expression is a value
  of the type parameter \<open>'re\<close> and \<open>pcre2_match\<close> the parameter \<open>pm\<close>, which returns a negative
  number for no match.  A routine with a loop that a damaged or oddly timed ring can keep from
  ending takes fuel, one unit per iteration, and returns \<open>None\<close> when the fuel runs out.
\<close>

type_synonym memory = "off \<Rightarrow> slot"
type_synonym 're matcher = "'re \<Rightarrow> string \<Rightarrow> int"

record 're RingReader =
  pktoffset :: off
  rd_pktid :: u64
  rd_pkttime :: nstime
  allowed :: "'re option"
  forbidden :: "'re option"
  rd_match :: "'re option"
  reject :: "'re option"

section \<open>Reading one packet\<close>

definition maxpayload :: "param_s \<Rightarrow> u32" where
  "maxpayload p = (if unat (pktsize p) > sizeof_RingPacket
                   then pktsize p - of_nat sizeof_RingPacket else 0)"

text \<open>The copy of a header: its identifier is terminated, its data size clamped to the slot.\<close>

definition copy_header :: "param_s \<Rightarrow> RingPacket \<Rightarrow> RingPacket" where
  "copy_header p h =
     (let h1 = h\<lparr>streamid := take (MAXSTREAMID - 1) (streamid h)\<rparr>
      in if datasize h1 > maxpayload p then h1\<lparr>datasize := maxpayload p\<rparr> else h1)"

text \<open>
  Ring reading takes no lock, so a writer may change the slot between the accesses: \<open>m0\<close> to \<open>m3\<close>
  are the buffer when the packet time is read, when the header is copied, when the payload is
  copied and when the packet time is read again.  The result is the return value, the caller's
  packet (\<open>buf\<close> when it was not reached) and the copied data if it was asked for.
\<close>

definition RingReadPacket_il ::
  "memory \<Rightarrow> memory \<Rightarrow> memory \<Rightarrow> memory \<Rightarrow> param_s \<Rightarrow> off \<Rightarrow> RingPacket \<Rightarrow> bool
   \<Rightarrow> u64 \<times> RingPacket \<times> byte list option" where
  "RingReadPacket_il m0 m1 m2 m3 p off buf want =
     (if off < 0 then (RINGID_NONE, buf, None)
      else if off > maxoffset p then (RINGID_ERROR, buf, None)
      else (let pt = pkttime (hdr (m0 off));
                packet = copy_header p (hdr (m1 off));
                data = (if want then Some (take (unat (datasize packet)) (payload (m2 off))) else None)
            in if pt \<noteq> pkttime (hdr (m3 off)) then (RINGID_NONE, packet, data)
               else (pktid packet, packet, data)))"

definition RingReadPacket ::
  "param_s \<Rightarrow> off \<Rightarrow> RingPacket \<Rightarrow> bool \<Rightarrow> u64 \<times> RingPacket \<times> byte list option" where
  "RingReadPacket p = RingReadPacket_il (ringmem p) (ringmem p) (ringmem p) (ringmem p) p"

section \<open>Finding a packet by identifier\<close>

text \<open>The binary search between packet \<open>low\<close> and packet \<open>high\<close>, counted from the earliest one.\<close>

function FindOffset_search :: "param_s \<Rightarrow> u64 \<Rightarrow> int \<Rightarrow> int \<Rightarrow> off option" where
  "FindOffset_search p pid lowpkt highpkt =
     (if lowpkt \<le> highpkt then
        (let midpkt = lowpkt + (highpkt - lowpkt) div 2;
             ringmod = maxoffset p + uint (config_pktsize p);
             offset_unwrapped = earliestoffset p + midpkt * uint (pktsize p);
             off = (if offset_unwrapped \<ge> ringmod then offset_unwrapped - ringmod else offset_unwrapped);
             packet = PACKETPTR p off
         in if pktid packet = pid then Some off
            else if pktid packet < pid then FindOffset_search p pid (midpkt + 1) highpkt
            else FindOffset_search p pid lowpkt (midpkt - 1))
      else None)"
  by pat_completeness auto
termination
  by (relation "measure (\<lambda>(p, pid, low, high). nat (high - low + 1))") auto

declare FindOffset_search.simps [simp del]

text \<open>The search backwards from the latest packet: \<open>off\<close> is the offset before the decrement.\<close>

fun FindOffset_back :: "nat \<Rightarrow> param_s \<Rightarrow> u64 \<Rightarrow> off \<Rightarrow> off option option" where
  "FindOffset_back 0 p pid off = None"
| "FindOffset_back (Suc fuel) p pid off =
     (let off1 = PREVOFFSET off (maxoffset p) (pktsize p)
      in if pktid (PACKETPTR p off1) = pid then Some (Some off1)
         else if off1 = earliestoffset p then Some None
         else FindOffset_back fuel p pid off1)"

text \<open>
  The result is the returned offset, \<open>-1\<close> for no match, and the value of \<open>*pkttime\<close>, which is
  left at \<open>pt0\<close> when there is no match.
\<close>

definition empty_packet :: RingPacket where
  "empty_packet = \<lparr>offset = -1, pktid = RINGID_NONE, pkttime = 0, datastart = 0, dataend = 0,
     nextinstream = -1, datasize = 0, streamid = []\<rparr>"

definition FindOffsetForID :: "nat \<Rightarrow> param_s \<Rightarrow> u64 \<Rightarrow> nstime \<Rightarrow> (off \<times> nstime) option" where
  "FindOffsetForID fuel p pid pt0 =
     (let earliestid = fst (RingReadPacket p (earliestoffset p) empty_packet False);
          latestid = fst (RingReadPacket p (latestoffset p) empty_packet False);
          found = (\<lambda>r. case r of None \<Rightarrow> (-1, pt0) | Some off \<Rightarrow> (off, pkttime (PACKETPTR p off)))
      in if earliestoffset p < 0 \<or> latestoffset p < 0 then Some (-1, pt0)
         else if earliestid \<le> latestid then
           (if pid < earliestid \<or> pid > latestid then Some (-1, pt0)
            else (let ringmod = maxoffset p + uint (config_pktsize p);
                      latest_unwrapped = (if latestoffset p < earliestoffset p
                                          then latestoffset p + ringmod else latestoffset p)
                  in Some (found (FindOffset_search p pid 0
                       ((latest_unwrapped - earliestoffset p) div uint (pktsize p))))))
         else map_option found
           (FindOffset_back fuel p pid (NEXTOFFSET (latestoffset p) (maxoffset p) (pktsize p))))"

section \<open>Positioned reading\<close>

definition RingRead ::
  "nat \<Rightarrow> param_s \<Rightarrow> 're RingReader \<Rightarrow> u64 \<Rightarrow> RingPacket \<Rightarrow> bool
   \<Rightarrow> (u64 \<times> 're RingReader \<times> RingPacket \<times> byte list option) option" where
  "RingRead fuel p rd reqid buf want =
     (if reqid > RINGID_MAXIMUM then Some (RINGID_ERROR, rd, buf, None)
      else (case FindOffsetForID fuel p reqid 0 of
          None \<Rightarrow> None
        | Some (off, _) \<Rightarrow>
           (if off < 0 then Some (RINGID_NONE, rd, buf, None)
            else (let (pid, packet, data) = RingReadPacket p off buf want
                  in if pid = RINGID_ERROR \<or> pid = RINGID_NONE then Some (pid, rd, packet, data)
                     else if pktid packet \<noteq> reqid then Some (RINGID_NONE, rd, packet, data)
                     else Some (reqid, rd\<lparr>pktoffset := offset packet, rd_pktid := pktid packet,
                                          rd_pkttime := pkttime packet\<rparr>, packet, data)))))"

definition RingPosition ::
  "nat \<Rightarrow> param_s \<Rightarrow> 're RingReader \<Rightarrow> u64 \<Rightarrow> nstime
   \<Rightarrow> (u64 \<times> 're RingReader) option" where
  "RingPosition fuel p rd id0 pt =
     (if latestoffset p < 0 then Some (RINGID_NONE, rd)
      else (let pid = (if id0 = RINGID_EARLIEST
                      then fst (RingReadPacket p (earliestoffset p) empty_packet False)
                      else if id0 = RINGID_LATEST
                      then fst (RingReadPacket p (latestoffset p) empty_packet False)
                      else id0)
            in if pid > RINGID_MAXIMUM then Some (RINGID_ERROR, rd)
               else (case FindOffsetForID fuel p pid 0 of
                   None \<Rightarrow> None
                 | Some (off, ptime) \<Rightarrow>
                    (if off < 0 then Some (RINGID_NONE, rd)
                     else if pt \<noteq> NSTUNSET \<and> pt \<noteq> NSTERROR \<and> pt \<noteq> ptime then Some (RINGID_NONE, rd)
                     else if pid \<noteq> pktid (PACKETPTR p off) then Some (RINGID_NONE, rd)
                     else Some (pid, rd\<lparr>pktoffset := off, rd_pktid := pid, rd_pkttime := ptime\<rparr>)))))"

section \<open>The four expressions of a reader\<close>

text \<open>
  The tests every scan applies to a stream identifier, in the code's order; \<open>skip0\<close> is the value
  of \<open>skip\<close> before them.
\<close>

definition pattern_skip :: "'re matcher \<Rightarrow> 're RingReader \<Rightarrow> string \<Rightarrow> bool \<Rightarrow> bool" where
  "pattern_skip pm rd sid0 skip0 =
     (let sid = take MAXSTREAMID sid0;
          s1 = (case allowed rd of Some re \<Rightarrow> if \<not> skip0 \<and> pm re sid < 0 then True else skip0
                                 | None \<Rightarrow> skip0);
          s2 = (case forbidden rd of Some re \<Rightarrow> if \<not> s1 \<and> pm re sid \<ge> 0 then True else s1
                                   | None \<Rightarrow> s1);
          s3 = (case rd_match rd of Some re \<Rightarrow> if \<not> s2 \<and> pm re sid < 0 then True else s2
                                  | None \<Rightarrow> s2);
          s4 = (case reject rd of Some re \<Rightarrow> if \<not> s3 \<and> pm re sid \<ge> 0 then True else s3
                                | None \<Rightarrow> s3)
      in s4)"

definition selects :: "'re matcher \<Rightarrow> 're RingReader \<Rightarrow> string \<Rightarrow> bool" where
  "selects pm rd sid0 \<longleftrightarrow>
     (let sid = take MAXSTREAMID sid0; hit = (\<lambda>re. pm re sid \<ge> 0)
      in (case allowed rd of None \<Rightarrow> True | Some re \<Rightarrow> hit re) \<and>
         (case forbidden rd of None \<Rightarrow> True | Some re \<Rightarrow> \<not> hit re) \<and>
         (case rd_match rd of None \<Rightarrow> True | Some re \<Rightarrow> hit re) \<and>
         (case reject rd of None \<Rightarrow> True | Some re \<Rightarrow> \<not> hit re))"

lemma pattern_skip_eq: "pattern_skip pm rd sid skip0 \<longleftrightarrow> skip0 \<or> \<not> selects pm rd sid"
  by (cases skip0) (auto simp: pattern_skip_def selects_def Let_def split: option.splits)

section \<open>Reading the next packet\<close>

definition at_packet :: "'re RingReader \<Rightarrow> off \<Rightarrow> RingPacket \<Rightarrow> 're RingReader" where
  "at_packet rd off pkt = rd\<lparr>pktoffset := off, rd_pktid := pktid pkt, rd_pkttime := pkttime pkt\<rparr>"

text \<open>
  The scan of \<open>RingReadNext\<close>.  \<open>lt\<close> is the time of the packet that was the latest on entry and
  \<open>eob\<close> the offset after it; \<open>skipped\<close> counts the repositionings in a row.  The result is the
  offset of the packet to return, if any, and the reader.
\<close>

fun ReadNext_loop ::
  "nat \<Rightarrow> param_s \<Rightarrow> 're matcher \<Rightarrow> nstime \<Rightarrow> off \<Rightarrow> off \<Rightarrow> u32 \<Rightarrow> 're RingReader
   \<Rightarrow> (off option \<times> 're RingReader) option" where
  "ReadNext_loop 0 p pm lt eob off skipped rd = None"
| "ReadNext_loop (Suc fuel) p pm lt eob off skipped rd =
     (if off = eob then Some (None, rd)
      else (let pkt = PACKETPTR p off
            in if pkttime pkt > lt then
                 (if skipped + 1 \<ge> 100 then Some (None, rd)
                  else ReadNext_loop fuel p pm lt eob (earliestoffset p) (skipped + 1) rd)
               else (let rd1 = at_packet rd off pkt
                     in if pattern_skip pm rd (streamid pkt) False
                        then ReadNext_loop fuel p pm lt eob
                               (NEXTOFFSET off (maxoffset p) (config_pktsize p)) 0 rd1
                        else Some (Some off, rd1))))"

text \<open>Where the scan starts: at a packet, or nowhere with the value to return and the reader.\<close>

definition ReadNext_start ::
  "param_s \<Rightarrow> 're RingReader \<Rightarrow> RingPacket \<Rightarrow> (u64 \<times> 're RingReader) + off" where
  "ReadNext_start p rd latestpkt =
     (if pktoffset rd < 0 then
        (if rd_pktid rd = RINGID_NEXT \<or> rd_pktid rd = RINGID_NONE then
           Inl (RINGID_NONE, at_packet rd (offset latestpkt) latestpkt)
         else if rd_pktid rd = RINGID_LATEST then Inr (latestoffset p)
         else if rd_pktid rd = RINGID_EARLIEST then Inr (earliestoffset p)
         else Inl (RINGID_ERROR, rd))
      else Inr (NEXTOFFSET (pktoffset rd) (maxoffset p) (config_pktsize p)))"

definition RingReadNext ::
  "nat \<Rightarrow> param_s \<Rightarrow> 're matcher \<Rightarrow> 're RingReader \<Rightarrow> RingPacket \<Rightarrow> bool
   \<Rightarrow> (u64 \<times> 're RingReader \<times> RingPacket \<times> byte list option) option" where
  "RingReadNext fuel p pm rd buf want =
     (if latestoffset p < 0 then
        Some (RINGID_NONE,
              (if pktoffset rd < 0 \<and> (rd_pktid rd = RINGID_NEXT \<or> rd_pktid rd = RINGID_NONE)
               then rd\<lparr>rd_pktid := RINGID_EARLIEST\<rparr> else rd), buf, None)
      else (let (_, latestpkt, _) = RingReadPacket p (latestoffset p)
                  (empty_packet\<lparr>pkttime := NSTUNSET\<rparr>) False
            in case ReadNext_start p rd latestpkt of
                 Inl (rv, rd1) \<Rightarrow> Some (rv, rd1, buf, None)
               | Inr off \<Rightarrow>
                  (let eob = NEXTOFFSET (latestoffset p) (maxoffset p) (config_pktsize p)
                   in case ReadNext_loop fuel p pm (pkttime latestpkt) eob off 0 rd of
                        None \<Rightarrow> None
                      | Some (None, rd1) \<Rightarrow> Some (RINGID_NONE, rd1, buf, None)
                      | Some (Some o1, rd1) \<Rightarrow>
                         (let packet = copy_header p (PACKETPTR p o1)
                          in Some (pktid packet, rd1, packet,
                               if want then Some (take (unat (datasize packet)) (payload (ringmem p o1)))
                               else None)))))"

section \<open>Positioning by data time\<close>

text \<open>
  The forward scan: at most \<open>n\<close> more iterations (\<open>param.maxpackets - skipped\<close>); packets are named
  by their offsets.  The result is \<open>pkt0\<close>, \<open>pkt1\<close> and \<open>skipped\<close> after the loop.
\<close>

fun RingAfter_loop ::
  "nat \<Rightarrow> param_s \<Rightarrow> 're matcher \<Rightarrow> 're RingReader \<Rightarrow> nstime \<Rightarrow> off \<Rightarrow> off option \<Rightarrow> off option \<Rightarrow> nat
   \<Rightarrow> off option \<times> off option \<times> nat" where
  "RingAfter_loop 0 p pm rd reftime off pkt0 pkt1 skipped = (pkt0, pkt1, skipped)"
| "RingAfter_loop (Suc n) p pm rd reftime off pkt0 pkt1 skipped =
     (let pkt = PACKETPTR p off;
          skip = pattern_skip pm rd (streamid pkt) (dataend pkt < reftime)
      in if \<not> skip \<and> dataend pkt > reftime then (pkt0, Some off, skipped)
         else if off = latestoffset p then (Some off, Some off, skipped)
         else RingAfter_loop n p pm rd reftime (NEXTOFFSET off (maxoffset p) (config_pktsize p))
                (Some off) (Some off) (skipped + 1))"

definition RingAfter ::
  "param_s \<Rightarrow> 're matcher \<Rightarrow> 're RingReader \<Rightarrow> nstime \<Rightarrow> int \<Rightarrow> u64 \<times> 're RingReader" where
  "RingAfter p pm rd reftime whence =
     (if earliestoffset p < 0 \<or> latestoffset p < 0 then (RINGID_NONE, rd)
      else (case RingAfter_loop (unat (maxpackets p)) p pm rd reftime (earliestoffset p) None None 0 of
          (_, None, _) \<Rightarrow> (RINGID_NONE, rd)
        | (pkt0, Some off1, skipped) \<Rightarrow>
            (let o1 = (if whence = 0 \<and> skipped > 0 then the pkt0 else off1);
                 pkt = PACKETPTR p o1
             in (pktid pkt, at_packet rd (offset pkt) pkt))))"

text \<open>
  The backward scan: at most \<open>n\<close> more packets (\<open>pktlimit - count\<close>); \<open>best\<close> is the offset of the
  last packet found.  The result is \<open>best\<close> and \<open>soffset\<close> after the loop.
\<close>

fun RingAfterRev_loop ::
  "nat \<Rightarrow> param_s \<Rightarrow> 're matcher \<Rightarrow> 're RingReader \<Rightarrow> nstime \<Rightarrow> off \<Rightarrow> off option
   \<Rightarrow> off option \<times> off" where
  "RingAfterRev_loop 0 p pm rd reftime soff best = (best, soff)"
| "RingAfterRev_loop (Suc n) p pm rd reftime soff best =
     (let spkt = PACKETPTR p soff;
          skip = pattern_skip pm rd (streamid spkt) False;
          best1 = (if \<not> skip \<and> dataend spkt > reftime then Some soff else best)
      in if \<not> skip \<and> datastart spkt < reftime then (best1, soff)
         else if soff = earliestoffset p then (best1, soff)
         else RingAfterRev_loop n p pm rd reftime (PREVOFFSET soff (maxoffset p) (config_pktsize p)) best1)"

definition RingAfterRev ::
  "param_s \<Rightarrow> 're matcher \<Rightarrow> 're RingReader \<Rightarrow> nstime \<Rightarrow> u64 \<Rightarrow> int \<Rightarrow> u64 \<times> 're RingReader" where
  "RingAfterRev p pm rd reftime pktlimit whence =
     (if earliestoffset p < 0 \<or> latestoffset p < 0 then (RINGID_NONE, rd)
      else (case RingAfterRev_loop (unat pktlimit) p pm rd reftime (latestoffset p) None of
          (None, _) \<Rightarrow> (RINGID_NONE, rd)
        | (Some off, soff) \<Rightarrow>
            (if whence = 0 \<and> soff \<noteq> earliestoffset p then
               (let pkt = PACKETPTR p (PREVOFFSET soff (maxoffset p) (config_pktsize p))
                in (pktid pkt, at_packet rd (offset pkt) pkt))
             else (let pkt = PACKETPTR p off in (pktid pkt, at_packet rd off pkt)))))"

end
