(* ===== verification/RS_RingReadThms.thy ===== *)
theory RS_RingReadThms
  imports RS_RingRead
begin

text \<open>
  What the readers of the ring return, in terms of the queue of packets: the scan for the next
  packet, the repetition of that scan, the search by identifier and the positioning by time.
\<close>

section \<open>Copies\<close>

lemma copy_header_id [simp]: "pktid (copy_header p h) = pktid h"
  "pkttime (copy_header p h) = pkttime h" "datastart (copy_header p h) = datastart h"
  "dataend (copy_header p h) = dataend h" "offset (copy_header p h) = offset h"
  by (simp_all add: copy_header_def Let_def)

lemma maxpayload_unat: "ring_geom p \<Longrightarrow> unat (maxpayload p) = payload_room p"
proof -
  assume "ring_geom p"
  from ring_geomD(1) [OF this] have S: "120 \<le> unat (pktsize p)"
    by (simp add: slotsize_def flip: uint_nat) (metis (mono_tags) nat_le_iff nat_numeral nat_mono unat_eq_nat_uint)
  then have "of_nat 120 \<le> pktsize p" by (simp add: word_le_nat_alt)
  then have "unat (pktsize p - of_nat 120) = unat (pktsize p) - 120"
    by (simp add: unat_sub)
  then show ?thesis using S
    by (simp add: maxpayload_def payload_room_def slotsize_def nat_uint_eq)
qed

lemma copy_header_same:
  assumes "ring_geom p" "unat (datasize h) \<le> payload_room p" "length (streamid h) < MAXSTREAMID"
  shows "copy_header p h = h"
  using assms maxpayload_unat [OF assms(1)]
  by (simp add: copy_header_def word_less_nat_alt)

lemma copy_live: "ring_inv p \<Longrightarrow> x \<in> set (live p) \<Longrightarrow> copy_header p (PACKETPTR p x) = PACKETPTR p x"
  by (rule copy_header_same [OF ring_invD(1) ring_invD(8) ring_invD(14)])

lemma RingReadPacket_live:
  assumes "ring_inv p" "x \<in> set (live p)"
  shows "RingReadPacket p x buf want = (pktid (PACKETPTR p x), PACKETPTR p x,
     if want then Some (a_data (abs_slot (ringmem p x))) else None)"
  using live_valid [OF ring_invD(1) [OF assms(1)] assms(2)] copy_live [OF assms]
  by (simp add: RingReadPacket_def RingReadPacket_il_def Let_def valid_off_def abs_slot_def PACKETPTR_def)

section \<open>Packets by number\<close>

text \<open>
  \<open>pos p i\<close> is the offset of the \<open>i\<close>-th packet of the ring, and for \<open>i\<close> the number of packets the
  offset where the next one goes.
\<close>

definition pos :: "param_s \<Rightarrow> nat \<Rightarrow> off" where
  "pos p i = ((earliestoffset p div slotsize p + int i) mod nslots p) * slotsize p"

lemma live_pos: "ring_inv p \<Longrightarrow> i < length (live p) \<Longrightarrow> live p ! i = pos p i"
  by (auto simp: live_def pos_def split: if_splits)

lemma pos_NEXT:
  assumes "ring_geom p"
  shows "NEXTOFFSET (pos p i) (maxoffset p) (pktsize p) = pos p (Suc i)"
    "NEXTOFFSET (pos p i) (maxoffset p) (config_pktsize p) = pos p (Suc i)"
proof -
  have "0 < nslots p" using ring_geomD(4) [OF assms] by simp
  then show "NEXTOFFSET (pos p i) (maxoffset p) (pktsize p) = pos p (Suc i)"
    using NEXTOFFSET_slot [OF assms, of "(earliestoffset p div slotsize p + int i) mod nslots p"]
    by (simp add: pos_def mod_simps ac_simps)
  then show "NEXTOFFSET (pos p i) (maxoffset p) (config_pktsize p) = pos p (Suc i)"
    using ring_geomD(2) [OF assms] by simp
qed

lemma pos_PREV:
  assumes "ring_geom p"
  shows "PREVOFFSET (pos p (Suc i)) (maxoffset p) (pktsize p) = pos p i"
    "PREVOFFSET (pos p (Suc i)) (maxoffset p) (config_pktsize p) = pos p i"
proof -
  have "0 < nslots p" using ring_geomD(4) [OF assms] by simp
  then show "PREVOFFSET (pos p (Suc i)) (maxoffset p) (pktsize p) = pos p i"
    using PREVOFFSET_slot [OF assms, of "(earliestoffset p div slotsize p + int (Suc i)) mod nslots p"]
    by (simp add: pos_def mod_simps ac_simps)
  then show "PREVOFFSET (pos p (Suc i)) (maxoffset p) (config_pktsize p) = pos p i"
    using ring_geomD(2) [OF assms] by simp
qed

lemma pos_inj:
  assumes "ring_geom p" "int i < nslots p" "int j < nslots p"
  shows "pos p i = pos p j \<longleftrightarrow> i = j"
  using mod_add_inj [of "nslots p" i j] ring_geomD(1,4) [OF assms(1)] assms(2,3)
  by (auto simp: pos_def)

lemma live_ends:
  assumes "ring_inv p" "\<not> latestoffset p < 0"
  shows "0 < length (live p)" "earliestoffset p = pos p 0" "latestoffset p = pos p (length (live p) - 1)"
    "int (length (live p)) \<le> nslots p"
proof -
  note g = ring_invD(1) [OF assms(1)]
  note hl = live_hd_last [OF g ring_invD(12,13) [OF assms]]
  show n: "0 < length (live p)" using hl(1) by simp
  show "earliestoffset p = pos p 0" using live_pos [OF assms(1), of 0] hl(1,2) n by (simp add: hd_conv_nth)
  show "latestoffset p = pos p (length (live p) - 1)"
    using live_pos [OF assms(1), of "length (live p) - 1"] hl(1,3) n by (simp add: last_conv_nth)
  show "int (length (live p)) \<le> nslots p" by (rule length_live_le [OF g])
qed

lemma eob_pos:
  assumes "ring_inv p" "\<not> latestoffset p < 0"
  shows "NEXTOFFSET (latestoffset p) (maxoffset p) (config_pktsize p) = pos p (length (live p))"
  using pos_NEXT(2) [OF ring_invD(1) [OF assms(1)], of "length (live p) - 1"] live_ends(1,3) [OF assms]
  by simp

text \<open>The offset behind the latest packet is none of its successors': the scan can tell its end.\<close>

lemma pos_eob:
  assumes "ring_inv p" "\<not> latestoffset p < 0" "i \<le> length (live p)"
    and "0 < i \<or> int (length (live p)) < nslots p"
  shows "pos p i = pos p (length (live p)) \<longleftrightarrow> i = length (live p)"
proof (cases "int (length (live p)) < nslots p")
  case True
  then show ?thesis using pos_inj [OF ring_invD(1) [OF assms(1)], of i "length (live p)"] assms(3) by simp
next
  case False
  then have N: "int (length (live p)) = nslots p" and "0 < i"
    using live_ends(4) [OF assms(1,2)] assms(4) by auto
  then have e: "pos p (length (live p)) = pos p 0" by (simp add: pos_def)
  show ?thesis
  proof (cases "i = length (live p)")
    case False
    then show ?thesis
      using pos_inj [OF ring_invD(1) [OF assms(1)], of i 0] assms(3) N \<open>0 < i\<close> e by simp
  qed simp
qed

section \<open>Reading the next packet\<close>

lemma selects_at_packet [simp]: "selects pm (at_packet rd x h) = selects pm rd"
  by (simp add: selects_def at_packet_def fun_eq_iff)

lemma at_packet_twice [simp]: "at_packet (at_packet rd x h) y h' = at_packet rd y h'"
  by (simp add: at_packet_def)

definition wanted :: "'re matcher \<Rightarrow> 're RingReader \<Rightarrow> param_s \<Rightarrow> off \<Rightarrow> bool" where
  "wanted pm rd p x \<longleftrightarrow> selects pm rd (streamid (PACKETPTR p x))"

text \<open>No packet of the ring is younger than the latest one.\<close>

definition times_ok :: "param_s \<Rightarrow> bool" where
  "times_ok p \<longleftrightarrow> (\<forall>x \<in> set (live p). pkttime (PACKETPTR p x) \<le> pkttime (PACKETPTR p (latestoffset p)))"

text \<open>The scan over the packets from the \<open>i\<close>-th on finds the first one the reader wants.\<close>

lemma scan_result:
  assumes inv: "ring_inv p" and ne: "\<not> latestoffset p < 0" and t: "times_ok p"
    and i: "i \<le> length (live p)" "0 < i \<or> int (length (live p)) < nslots p"
    and fuel: "length (live p) - i < fuel"
  shows "ReadNext_loop fuel p pm (pkttime (PACKETPTR p (latestoffset p))) (pos p (length (live p)))
       (pos p i) 0 rd =
     Some (case find (wanted pm rd p) (drop i (live p)) of
         Some x \<Rightarrow> (Some x, at_packet rd x (PACKETPTR p x))
       | None \<Rightarrow> (None, if i = length (live p) then rd
                        else at_packet rd (latestoffset p) (PACKETPTR p (latestoffset p))))"
  using i fuel
proof (induction fuel arbitrary: i rd)
  case (Suc fuel)
  show ?case
  proof (cases "i = length (live p)")
    case False
    then have less: "i < length (live p)" using Suc.prems(1) by simp
    note x = live_pos [OF inv less]
    have "pos p i \<in> set (live p)" using x less nth_mem by metis
    then have young: "pkttime (PACKETPTR p (pos p i)) \<le> pkttime (PACKETPTR p (latestoffset p))"
      using t by (simp add: times_ok_def)
    have drop: "drop i (live p) = pos p i # drop (Suc i) (live p)"
      using less x by (simp add: Cons_nth_drop_Suc [symmetric])
    have "pos p i \<noteq> pos p (length (live p))" using pos_eob [OF inv ne Suc.prems(1,2)] False by simp
    moreover have "wanted pm (at_packet rd y h) p = wanted pm rd p" for y h
      by (simp add: wanted_def fun_eq_iff)
    moreover have "Suc i = length (live p) \<Longrightarrow> pos p i = latestoffset p"
      using live_ends(3) [OF inv ne] by (metis diff_Suc_1)
    moreover have "wanted pm rd p (pos p i) \<longleftrightarrow> selects pm rd (streamid (PACKETPTR p (pos p i)))"
      by (simp add: wanted_def)
    ultimately show ?thesis
      using Suc.IH [of "Suc i" "at_packet rd (pos p i) (PACKETPTR p (pos p i))"] Suc.prems less young
        pos_NEXT(2) [OF ring_invD(1) [OF inv], of i] drop False
      by (auto simp: Let_def pattern_skip_eq not_less split: option.splits)
  qed simp
qed simp

text \<open>
  The number of the packet at which the scan of a reader starts: the one after the packet it is
  at, the latest one, or the earliest one (if the ring is not full, else see below).
\<close>

inductive starts_at :: "param_s \<Rightarrow> 're RingReader \<Rightarrow> nat \<Rightarrow> bool" for p where
  after: "i < length (live p) \<Longrightarrow> pktoffset rd = pos p i \<Longrightarrow> starts_at p rd (Suc i)"
| latest: "pktoffset rd < 0 \<Longrightarrow> rd_pktid rd = RINGID_LATEST \<Longrightarrow> 1 < length (live p) \<Longrightarrow>
    starts_at p rd (length (live p) - 1)"
| earliest: "pktoffset rd < 0 \<Longrightarrow> rd_pktid rd = RINGID_EARLIEST \<Longrightarrow>
    int (length (live p)) < nslots p \<Longrightarrow> starts_at p rd 0"

inductive_cases starts_atE: "starts_at p rd i"

lemma start_offset:
  assumes inv: "ring_inv p" and ne: "\<not> latestoffset p < 0" and st: "starts_at p rd i"
  shows "ReadNext_start p rd lp = Inr (pos p i)" "i \<le> length (live p)"
    "0 < i \<or> int (length (live p)) < nslots p"
proof -
  have "ReadNext_start p rd lp = Inr (pos p i) \<and> i \<le> length (live p) \<and>
      (0 < i \<or> int (length (live p)) < nslots p)"
    using st
  proof (cases rule: starts_at.cases)
    case (after j)
    have "valid_off p (pos p j)"
      using after(2) live_pos [OF inv] live_valid [OF ring_invD(1) [OF inv]] nth_mem by metis
    then show ?thesis
      using after pos_NEXT(2) [OF ring_invD(1) [OF inv]]
      by (auto simp: ReadNext_start_def valid_off_def)
  next
    case latest
    then show ?thesis
      using live_ends(3) [OF inv ne] by (auto simp: ReadNext_start_def ringid_defs)
  next
    case earliest
    then show ?thesis
      using live_ends(2) [OF inv ne] by (auto simp: ReadNext_start_def ringid_defs)
  qed
  then show "ReadNext_start p rd lp = Inr (pos p i)" "i \<le> length (live p)"
    "0 < i \<or> int (length (live p)) < nslots p" by auto
qed

definition as_packet :: "RingPacket \<Rightarrow> byte list \<Rightarrow> packet" where
  "as_packet h data = \<lparr>a_pktid = pktid h, a_pkttime = pkttime h, a_datastart = datastart h,
     a_dataend = dataend h, a_streamid = streamid h, a_data = data\<rparr>"

lemma as_packet_live:
  "as_packet (PACKETPTR p x) (a_data (abs_slot (ringmem p x))) = abs_slot (ringmem p x)"
  by (simp add: as_packet_def abs_slot_def PACKETPTR_def)

lemma RingReadNext_eval:
  assumes inv: "ring_inv p" and ne: "\<not> latestoffset p < 0" and t: "times_ok p"
    and st: "starts_at p rd i" and fuel: "length (live p) < fuel"
  shows "RingReadNext fuel p pm rd buf want =
     Some (case find (wanted pm rd p) (drop i (live p)) of
         Some x \<Rightarrow> (pktid (PACKETPTR p x), at_packet rd x (PACKETPTR p x), PACKETPTR p x,
                    if want then Some (a_data (abs_slot (ringmem p x))) else None)
       | None \<Rightarrow> (RINGID_NONE, (if i = length (live p) then rd
             else at_packet rd (latestoffset p) (PACKETPTR p (latestoffset p))), buf, None))"
proof -
  have lat: "latestoffset p \<in> set (live p)"
    using live_hd_last(1,3) [OF ring_invD(1) [OF inv] ring_invD(12,13) [OF inv ne]] last_in_set by metis
  note so = start_offset [OF inv ne st]
  have copy: "copy_header p (PACKETPTR p x) = PACKETPTR p x"
    if "find (wanted pm rd p) (drop i (live p)) = Some x" for x
    using copy_live [OF inv, of x] that in_set_dropD
    by (metis find_Some_iff nth_mem)
  have "length (live p) - i < fuel" using fuel by simp
  note scan = scan_result [OF inv ne t so(2,3) this, of pm rd]
  show ?thesis
    using ne so(1) scan copy
    by (auto simp: RingReadNext_def RingReadPacket_live [OF inv lat] eob_pos [OF inv ne] Let_def
        abs_slot_def PACKETPTR_def split: option.splits)
qed

section \<open>Reading until there is nothing more\<close>

text \<open>At most \<open>k\<close> calls of \<open>RingReadNext\<close>, collecting the packets until one returns none.\<close>

fun read_all ::
  "nat \<Rightarrow> nat \<Rightarrow> param_s \<Rightarrow> 're matcher \<Rightarrow> 're RingReader \<Rightarrow> packet list" where
  "read_all fuel 0 p pm rd = []"
| "read_all fuel (Suc k) p pm rd = (case RingReadNext fuel p pm rd empty_packet True of
     Some (_, rd1, h, Some data) \<Rightarrow> as_packet h data # read_all fuel k p pm rd1
   | _ \<Rightarrow> [])"

lemma find_drop_split:
  "find P (drop i xs) = Some x \<Longrightarrow>
   \<exists>j. i \<le> j \<and> j < length xs \<and> xs ! j = x \<and> filter P (drop i xs) = x # filter P (drop (Suc j) xs)"
proof (induction "length xs - i" arbitrary: i)
  case (Suc n)
  then have less: "i < length xs" by (metis Suc_neq_Zero not_le diff_is_0_eq)
  then have d: "drop i xs = xs ! i # drop (Suc i) xs" by (rule Cons_nth_drop_Suc [symmetric])
  show ?case
  proof (cases "P (xs ! i)")
    case True
    then show ?thesis using Suc.prems d less by auto
  next
    case False
    then have "find P (drop (Suc i) xs) = Some x" using Suc.prems d by simp
    then show ?thesis using Suc.hyps(1) [of "Suc i"] Suc.hyps(2) d False
      by (metis Suc_diff_Suc Suc_inject Suc_leD filter.simps(2) less)
  qed
qed simp

lemma read_all_filter:
  assumes inv: "ring_inv p" and ne: "\<not> latestoffset p < 0" and t: "times_ok p"
    and fuel: "length (live p) < fuel"
  shows "starts_at p rd i \<Longrightarrow> length (live p) - i \<le> k \<Longrightarrow>
    read_all fuel (Suc k) p pm rd =
      map (\<lambda>x. abs_slot (ringmem p x)) (filter (wanted pm rd p) (drop i (live p)))"
proof (induction k arbitrary: rd i)
  case (0 rd i)
  then have "drop i (live p) = []" by simp
  then show ?case using RingReadNext_eval [OF inv ne t 0(1) fuel, of pm empty_packet True] by simp
next
  case (Suc k rd i)
  note ev = RingReadNext_eval [OF inv ne t Suc.prems(1) fuel, of pm empty_packet True]
  show ?case
  proof (cases "find (wanted pm rd p) (drop i (live p))")
    case None
    then have "filter (wanted pm rd p) (drop i (live p)) = []"
      by (simp add: find_None_iff filter_empty_conv)
    then show ?thesis using ev None by simp
  next
    case (Some x)
    then obtain j where j: "i \<le> j" "j < length (live p)" "live p ! j = x"
      "filter (wanted pm rd p) (drop i (live p)) = x # filter (wanted pm rd p) (drop (Suc j) (live p))"
      using find_drop_split by metis
    let ?rd = "at_packet rd x (PACKETPTR p x)"
    have "starts_at p ?rd (Suc j)"
      using j(2,3) live_pos [OF inv j(2)] by (intro starts_at.after) (simp_all add: at_packet_def)
    moreover have "wanted pm ?rd p = wanted pm rd p" by (simp add: wanted_def fun_eq_iff)
    ultimately have "read_all fuel (Suc k) p pm ?rd =
        map (\<lambda>x. abs_slot (ringmem p x)) (filter (wanted pm rd p) (drop (Suc j) (live p)))"
      using Suc.IH [of ?rd "Suc j"] Suc.prems(2) j(1) by simp
    then show ?thesis using ev Some j(4) by (simp add: as_packet_live)
  qed
qed

lemma wanted_queue:
  "map (\<lambda>x. abs_slot (ringmem p x)) (filter (wanted pm rd p) xs)
   = filter (\<lambda>a. selects pm rd (a_streamid a)) (map (\<lambda>x. abs_slot (ringmem p x)) xs)"
  by (induction xs) (simp_all add: wanted_def abs_slot_def PACKETPTR_def)

lemma read_all_queue:
  assumes "ring_inv p" "\<not> latestoffset p < 0" "times_ok p" "length (live p) < fuel" "starts_at p rd i"
  shows "read_all fuel (Suc (length (live p))) p pm rd =
    filter (\<lambda>a. selects pm rd (a_streamid a)) (drop i (ring_queue p))"
  using read_all_filter [OF assms(1-5), of "length (live p)"]
  by (simp add: wanted_queue ring_queue_def drop_map)

section \<open>The search by identifier\<close>

definition id_at :: "param_s \<Rightarrow> nat \<Rightarrow> u64" where
  "id_at p i = pktid (PACKETPTR p (pos p i))"

text \<open>The unwrapped offset of the code, brought back into the ring, is the offset of the packet.\<close>

lemma unwrap_pos:
  assumes inv: "ring_inv p" and ne: "\<not> latestoffset p < 0" and m: "0 \<le> m" "m < nslots p"
  shows "(let ringmod = maxoffset p + uint (config_pktsize p);
              unwrapped = earliestoffset p + m * uint (pktsize p)
          in if unwrapped \<ge> ringmod then unwrapped - ringmod else unwrapped) = pos p (nat m)"
proof -
  note g = ring_geomD [OF ring_invD(1) [OF inv]]
  obtain e where e: "0 \<le> e" "e < nslots p" "earliestoffset p = e * slotsize p" "earliestoffset p div slotsize p = e"
    by (rule valid_offE [OF ring_invD(1,12) [OF inv]]) (use ne in simp)
  have rm: "maxoffset p + uint (config_pktsize p) = nslots p * slotsize p"
    using g(2,3,7) by (simp add: left_diff_distrib)
  have un: "earliestoffset p + m * uint (pktsize p) = (e + m) * slotsize p"
    using e(3) g(7) by (simp add: distrib_right)
  have cmp: "nslots p * slotsize p \<le> (e + m) * slotsize p \<longleftrightarrow> nslots p \<le> e + m"
    using g(1) by simp
  have "(e + m) mod nslots p = (if nslots p \<le> e + m then e + m - nslots p else e + m)"
  proof (cases "nslots p \<le> e + m")
    case True
    have "(e + m) mod nslots p = (e + m - nslots p + nslots p) mod nslots p" by simp
    also have "\<dots> = (e + m - nslots p) mod nslots p" by (rule mod_add_self2)
    also have "\<dots> = e + m - nslots p" using True e(2) m(2) by (intro mod_pos_pos_trivial) auto
    finally show ?thesis using True by simp
  qed (use e m in \<open>simp add: mod_pos_pos_trivial\<close>)
  then show ?thesis
    using m e(4) unfolding rm un Let_def cmp by (simp add: pos_def left_diff_distrib)
qed

lemma search_step:
  assumes "ring_inv p" "\<not> latestoffset p < 0" "0 \<le> low" "low \<le> high" "high < int (length (live p))"
  shows "FindOffset_search p pid low high =
    (let m = low + (high - low) div 2
     in if id_at p (nat m) = pid then Some (pos p (nat m))
        else if id_at p (nat m) < pid then FindOffset_search p pid (m + 1) high
        else FindOffset_search p pid low (m - 1))"
proof -
  let ?m = "low + (high - low) div 2"
  have "0 \<le> ?m" "?m < nslots p" using assms(3-5) live_ends(4) [OF assms(1,2)] by auto
  from unwrap_pos [OF assms(1,2) this] assms(4) show ?thesis
    by (subst FindOffset_search.simps) (simp only: Let_def id_at_def if_True)
qed

lemma search_sound:
  assumes "ring_inv p" "\<not> latestoffset p < 0"
  shows "0 \<le> low \<Longrightarrow> high < int (length (live p)) \<Longrightarrow> FindOffset_search p pid low high = Some x \<Longrightarrow>
    \<exists>i < length (live p). x = pos p i \<and> id_at p i = pid"
proof (induction "nat (high - low + 1)" arbitrary: low high rule: less_induct)
  case less
  show ?case
  proof (cases "low \<le> high")
    case False
    then show ?thesis using less.prems(3) by (simp add: FindOffset_search.simps)
  next
    case True
    let ?m = "low + (high - low) div 2"
    note st = search_step [OF assms less.prems(1) True less.prems(2), of pid]
    have m: "low \<le> ?m" "?m \<le> high" "nat ?m < length (live p)" using True less.prems(1,2) by auto
    consider "id_at p (nat ?m) = pid" | "id_at p (nat ?m) < pid" | "pid < id_at p (nat ?m)" by force
    then show ?thesis
    proof cases
      case 1
      then show ?thesis using st less.prems(3) m(3) by (auto simp: Let_def)
    next
      case 2
      then have "FindOffset_search p pid (?m + 1) high = Some x"
        using st less.prems(3) by (auto simp: Let_def)
      then show ?thesis using less.prems(1,2) less.hyps [of high "?m + 1"] m by simp
    next
      case 3
      then have "FindOffset_search p pid low (?m - 1) = Some x"
        using st less.prems(3) by (auto simp: Let_def)
      then show ?thesis using less.prems(1,2) less.hyps [of "?m - 1" low] m by simp
    qed
  qed
qed

definition ids_ascend :: "param_s \<Rightarrow> bool" where
  "ids_ascend p \<longleftrightarrow> (\<forall>i j. i < j \<longrightarrow> j < length (live p) \<longrightarrow> id_at p i < id_at p j)"

lemma search_complete:
  assumes "ring_inv p" "\<not> latestoffset p < 0" "ids_ascend p" "i < length (live p)"
  shows "0 \<le> low \<Longrightarrow> high < int (length (live p)) \<Longrightarrow> low \<le> int i \<Longrightarrow> int i \<le> high \<Longrightarrow>
    FindOffset_search p (id_at p i) low high \<noteq> None"
proof (induction "nat (high - low + 1)" arbitrary: low high rule: less_induct)
  case less
  then have le: "low \<le> high" by simp
  let ?m = "low + (high - low) div 2"
  note st = search_step [OF assms(1,2) less.prems(1) le less.prems(2), of "id_at p i"]
  have m: "low \<le> ?m" "?m \<le> high" "nat ?m < length (live p)" using le less.prems(1,2) by auto
  consider "nat ?m = i" | "nat ?m < i" | "i < nat ?m" by force
  then show ?case
  proof cases
    case 1
    then show ?thesis using st by (simp add: Let_def)
  next
    case 2
    then have "id_at p (nat ?m) < id_at p i" using assms(3,4) by (simp add: ids_ascend_def)
    then show ?thesis using 2 st less.prems less.hyps [of high "?m + 1"] m by (auto simp: Let_def)
  next
    case 3
    then have "id_at p i < id_at p (nat ?m)" using assms(3) m(3) by (simp add: ids_ascend_def)
    then show ?thesis using 3 st less.prems less.hyps [of "?m - 1" low] m by (auto simp: Let_def)
  qed
qed

lemma back_result:
  assumes "ring_inv p" "\<not> latestoffset p < 0"
  shows "0 < k \<Longrightarrow> k \<le> length (live p) \<Longrightarrow> k \<le> fuel \<Longrightarrow>
    \<exists>r. FindOffset_back fuel p pid (pos p k) = Some r \<and>
      (case r of Some x \<Rightarrow> \<exists>i < k. x = pos p i \<and> id_at p i = pid | None \<Rightarrow> \<forall>i < k. id_at p i \<noteq> pid)"
proof (induction fuel arbitrary: k)
  case (Suc fuel)
  then obtain j where j: "k = Suc j" by (cases k) auto
  have prev: "PREVOFFSET (pos p k) (maxoffset p) (pktsize p) = pos p j"
    using pos_PREV(1) [OF ring_invD(1) [OF assms(1)]] j by simp
  have first: "pos p j = earliestoffset p \<longleftrightarrow> j = 0"
    using pos_inj [OF ring_invD(1) [OF assms(1)], of j 0] live_ends [OF assms] Suc.prems(2) j by auto
  consider "id_at p j = pid" | "id_at p j \<noteq> pid" "j = 0" | "id_at p j \<noteq> pid" "0 < j" by force
  then show ?case
  proof cases
    case 1
    then show ?thesis using prev j by (auto simp: Let_def id_at_def)
  next
    case 2
    then show ?thesis using prev j first by (simp add: Let_def id_at_def)
  next
    case 3
    then have step: "FindOffset_back (Suc fuel) p pid (pos p k) = FindOffset_back fuel p pid (pos p j)"
      using prev first by (simp add: Let_def id_at_def)
    obtain r where r: "FindOffset_back fuel p pid (pos p j) = Some r"
      "case r of Some x \<Rightarrow> \<exists>i < j. x = pos p i \<and> id_at p i = pid | None \<Rightarrow> \<forall>i < j. id_at p i \<noteq> pid"
      using Suc.IH [of j] Suc.prems j 3 by auto
    moreover have "i < k \<longleftrightarrow> i < j \<or> i = j" for i using j by auto
    ultimately show ?thesis using step 3(1) by (auto split: option.splits)
  qed
qed simp


lemma id_at_live: "ring_inv p \<Longrightarrow> i < length (live p) \<Longrightarrow> id_at p i = pktid (PACKETPTR p (live p ! i))"
  by (simp add: id_at_def live_pos)

lemma pos_nonneg: "ring_geom p \<Longrightarrow> 0 \<le> pos p i"
  using ring_geomD(1,4) [of p] by (simp add: pos_def)

lemma count_from_offsets:
  assumes inv: "ring_inv p" and ne: "\<not> latestoffset p < 0"
  shows "((if latestoffset p < earliestoffset p
           then latestoffset p + (maxoffset p + uint (config_pktsize p)) else latestoffset p)
          - earliestoffset p) div uint (pktsize p) = int (length (live p)) - 1"
proof -
  note g = ring_geomD [OF ring_invD(1) [OF inv]]
  obtain e where e: "0 \<le> e" "e < nslots p" "earliestoffset p = e * slotsize p" "earliestoffset p div slotsize p = e"
    by (rule valid_offE [OF ring_invD(1,12) [OF inv]]) (use ne in simp)
  obtain l where l: "0 \<le> l" "l < nslots p" "latestoffset p = l * slotsize p" "latestoffset p div slotsize p = l"
    by (rule valid_offE [OF ring_invD(1,13) [OF inv]]) (use ne in simp)
  have n: "int (length (live p)) = (if e \<le> l then l - e else l - e + nslots p) + 1"
    using mod_near [of l "nslots p" e] e l ne by (simp add: live_def live_count_def)
  have rm: "maxoffset p + uint (config_pktsize p) = nslots p * slotsize p"
    using g(2,3,7) by (simp add: left_diff_distrib)
  have cmp: "l * slotsize p < e * slotsize p \<longleftrightarrow> l < e" using g(1) by simp
  have "(if latestoffset p < earliestoffset p then latestoffset p + nslots p * slotsize p else latestoffset p)
      - earliestoffset p = ((if e \<le> l then l - e else l - e + nslots p)) * slotsize p"
    unfolding e(3) l(3) cmp by (simp add: left_diff_distrib distrib_right)
  then show ?thesis unfolding rm using n g(1,7) by simp
qed

text \<open>
  The search finds a packet with the identifier if there is one, provided that the identifiers
  ascend or that the earliest is greater than the latest, which makes the search linear.
\<close>

definition ids_searchable :: "param_s \<Rightarrow> bool" where
  "ids_searchable p \<longleftrightarrow> ids_ascend p \<or> id_at p (length (live p) - 1) < id_at p 0"

lemma FindOffset_result:
  assumes inv: "ring_inv p" and ne: "\<not> latestoffset p < 0" and fuel: "length (live p) \<le> fuel"
  shows "\<exists>r. FindOffsetForID fuel p pid pt0 = Some r \<and>
    (r = (-1, pt0) \<and> (ids_searchable p \<longrightarrow> (\<forall>i < length (live p). id_at p i \<noteq> pid)) \<or>
     (\<exists>i < length (live p). r = (pos p i, pkttime (PACKETPTR p (pos p i))) \<and> id_at p i = pid))"
proof -
  let ?n = "length (live p)"
  note ends = live_ends [OF inv ne]
  have mem: "earliestoffset p \<in> set (live p)" "latestoffset p \<in> set (live p)"
    using ends live_pos [OF inv, of 0] live_pos [OF inv, of "?n - 1"]
      nth_mem [of 0 "live p"] nth_mem [of "?n - 1" "live p"] by simp_all
  have ids: "fst (RingReadPacket p (earliestoffset p) empty_packet False) = id_at p 0"
    "fst (RingReadPacket p (latestoffset p) empty_packet False) = id_at p (?n - 1)"
    using RingReadPacket_live [OF inv] mem ends by (simp_all add: id_at_def)
  have pos: "\<not> earliestoffset p < 0" using ends(2) pos_nonneg [OF ring_invD(1) [OF inv], of 0] by simp
  show ?thesis
  proof (cases "id_at p 0 \<le> id_at p (?n - 1)")
    case False
    have "NEXTOFFSET (latestoffset p) (maxoffset p) (pktsize p) = pos p ?n"
      using eob_pos [OF inv ne] ring_geomD(2) [OF ring_invD(1) [OF inv]] by simp
    then show ?thesis
      using back_result [OF inv ne ends(1) le_refl fuel, of pid] False ids pos ne
      by (fastforce simp: FindOffsetForID_def Let_def split: option.splits)
  next
    case True
    let ?s = "FindOffset_search p pid 0 (int ?n - 1)"
    have asc: "ids_searchable p \<longleftrightarrow> ids_ascend p" using True by (auto simp: ids_searchable_def)
    have bounds: "id_at p 0 \<le> id_at p i \<and> id_at p i \<le> id_at p (?n - 1)"
      if "ids_ascend p" "i < ?n" for i
    proof -
      have "i < ?n - 1 \<or> i = ?n - 1" "?n - 1 < ?n" using that(2) by arith+
      then have "i = 0 \<or> id_at p 0 < id_at p i" "i = ?n - 1 \<or> id_at p i < id_at p (?n - 1)"
        using that unfolding ids_ascend_def by blast+
      then show ?thesis by auto
    qed
    have all: "FindOffsetForID fuel p pid pt0 = Some (if pid < id_at p 0 \<or> pid > id_at p (?n - 1) then (-1, pt0)
        else (case ?s of None \<Rightarrow> (-1, pt0) | Some x \<Rightarrow> (x, pkttime (PACKETPTR p x))))"
      using True ids pos ne count_from_offsets [OF inv ne]
      by (simp add: FindOffsetForID_def Let_def)
    show ?thesis
    proof (cases ?s)
      case None
      then have "\<forall>i < ?n. id_at p i \<noteq> pid" if "ids_ascend p"
        using search_complete [OF inv ne that, of _ 0 "int ?n - 1"] by fastforce
      then show ?thesis using all None asc by auto
    next
      case (Some x)
      then obtain i where "i < ?n" "x = pos p i" "id_at p i = pid"
        using search_sound [OF inv ne _ _ Some] by auto
      then show ?thesis using all Some asc bounds by fastforce
    qed
  qed
qed

section \<open>Positioned reading\<close>

lemma empty_offsets: "ring_inv p \<Longrightarrow> latestoffset p < 0 \<Longrightarrow> FindOffsetForID fuel p pid pt0 = Some (-1, pt0)"
  by (simp add: FindOffsetForID_def ring_invD(11))

text \<open>One reader operation for a packet that is there and one that is not.\<close>

lemma RingRead_found:
  assumes inv: "ring_inv p" and fuel: "length (live p) \<le> fuel" and max: "reqid \<le> RINGID_MAXIMUM"
    and s: "ids_searchable p"
    and ex: "\<exists>i < length (live p). id_at p i = reqid"
  shows "\<exists>i < length (live p). id_at p i = reqid \<and>
    RingRead fuel p rd reqid buf want = Some (reqid, at_packet rd (pos p i) (PACKETPTR p (pos p i)),
      PACKETPTR p (pos p i), if want then Some (a_data (abs_slot (ringmem p (pos p i)))) else None)"
proof -
  have ne: "\<not> latestoffset p < 0" using ex live_empty by fastforce
  obtain i where i: "i < length (live p)" "id_at p i = reqid"
    "FindOffsetForID fuel p reqid 0 = Some (pos p i, pkttime (PACKETPTR p (pos p i)))"
    using FindOffset_result [OF inv ne fuel, of reqid 0] s ex by auto
  have x: "pos p i \<in> set (live p)" using live_pos [OF inv i(1)] i(1) nth_mem by metis
  have "\<not> pos p i < 0" using pos_nonneg [OF ring_invD(1) [OF inv], of i] by simp
  moreover have "reqid \<noteq> RINGID_ERROR" "reqid \<noteq> RINGID_NONE" using max by (auto simp: ringid_defs)
  ultimately have "RingRead fuel p rd reqid buf want =
     Some (reqid, rd\<lparr>pktoffset := offset (PACKETPTR p (pos p i)), rd_pktid := pktid (PACKETPTR p (pos p i)),
        rd_pkttime := pkttime (PACKETPTR p (pos p i))\<rparr>,
      PACKETPTR p (pos p i), if want then Some (a_data (abs_slot (ringmem p (pos p i)))) else None)"
    using i max RingReadPacket_live [OF inv x, of buf want]
    by (simp add: RingRead_def id_at_def Let_def not_less)
  then show ?thesis using i ring_invD(7) [OF inv x] by (auto simp: at_packet_def)
qed

lemma RingRead_missing:
  assumes inv: "ring_inv p" and fuel: "length (live p) \<le> fuel" and max: "reqid \<le> RINGID_MAXIMUM"
    and no: "\<forall>i < length (live p). id_at p i \<noteq> reqid"
  shows "RingRead fuel p rd reqid buf want = Some (RINGID_NONE, rd, buf, None)"
proof (cases "latestoffset p < 0")
  case True
  then show ?thesis using leD [OF max] by (simp add: RingRead_def empty_offsets [OF inv])
next
  case False
  then show ?thesis using FindOffset_result [OF inv False fuel, of reqid 0] no leD [OF max]
    by (auto simp: RingRead_def)
qed

lemma RingPosition_found:
  assumes inv: "ring_inv p" and fuel: "length (live p) \<le> fuel" and s: "ids_searchable p"
    and i: "i < length (live p)" "id_at p i \<le> RINGID_MAXIMUM"
    and uniq: "\<forall>j < length (live p). id_at p j = id_at p i \<longrightarrow> j = i"
    and want: "pid = id_at p i \<or> pid = RINGID_EARLIEST \<and> i = 0 \<or> pid = RINGID_LATEST \<and> i = length (live p) - 1"
    and pt: "pt = NSTUNSET \<or> pt = NSTERROR \<or> pt = pkttime (PACKETPTR p (pos p i))"
  shows "RingPosition fuel p rd pid pt = Some (id_at p i, at_packet rd (pos p i) (PACKETPTR p (pos p i)))"
proof -
  have ne: "\<not> latestoffset p < 0" using i live_empty by fastforce
  note ends = live_ends [OF inv ne]
  have mem: "earliestoffset p \<in> set (live p)" "latestoffset p \<in> set (live p)"
    using ends live_pos [OF inv, of 0] live_pos [OF inv, of "length (live p) - 1"]
      nth_mem [of 0 "live p"] nth_mem [of "length (live p) - 1" "live p"] by simp_all
  have f: "FindOffsetForID fuel p (id_at p i) 0 = Some (pos p i, pkttime (PACKETPTR p (pos p i)))"
    using FindOffset_result [OF inv ne fuel, of "id_at p i" 0] s i uniq by auto
  have "(if pid = RINGID_EARLIEST then fst (RingReadPacket p (earliestoffset p) empty_packet False)
      else if pid = RINGID_LATEST then fst (RingReadPacket p (latestoffset p) empty_packet False) else pid)
      = id_at p i"
    using want ends(2,3) i(2) RingReadPacket_live [OF inv mem(1)] RingReadPacket_live [OF inv mem(2)]
    by (auto simp: id_at_def ringid_defs)
  then show ?thesis
    using f ne i(2) pt pos_nonneg [OF ring_invD(1) [OF inv], of i]
    by (auto simp: RingPosition_def Let_def id_at_def at_packet_def not_less)
qed

section \<open>Positioning by data time\<close>

lemma find_append: "find P (xs @ ys) = (case find P xs of None \<Rightarrow> find P ys | Some x \<Rightarrow> Some x)"
  by (induction xs) auto

text \<open>Packet \<open>i\<close> is one that the reader wants and that ends after the time.\<close>

definition hit :: "param_s \<Rightarrow> 're matcher \<Rightarrow> 're RingReader \<Rightarrow> nstime \<Rightarrow> nat \<Rightarrow> bool" where
  "hit p pm rd t i \<longleftrightarrow> selects pm rd (streamid (PACKETPTR p (pos p i))) \<and> t < dataend (PACKETPTR p (pos p i))"

definition earlier :: "param_s \<Rightarrow> nat \<Rightarrow> off option" where
  "earlier p i = (if i = 0 then None else Some (pos p (i - 1)))"

lemma After_loop_result:
  assumes inv: "ring_inv p" and ne: "\<not> latestoffset p < 0"
  shows "i < length (live p) \<Longrightarrow> length (live p) - i \<le> n \<Longrightarrow>
    RingAfter_loop n p pm rd t (pos p i) (earlier p i) q i =
     (case find (hit p pm rd t) [i..<length (live p)] of
        Some j \<Rightarrow> (earlier p j, Some (pos p j), j)
      | None \<Rightarrow> (Some (latestoffset p), Some (latestoffset p), length (live p) - 1))"
proof (induction n arbitrary: i q)
  case (Suc n)
  have up: "[i..<length (live p)] = i # [Suc i..<length (live p)]" by (rule upt_conv_Cons [OF Suc.prems(1)])
  have step: "RingAfter_loop (Suc n) p pm rd t (pos p i) (earlier p i) q i =
      (if hit p pm rd t i then (earlier p i, Some (pos p i), i)
       else if pos p i = latestoffset p then (Some (pos p i), Some (pos p i), i)
       else RingAfter_loop n p pm rd t (pos p (Suc i)) (Some (pos p i)) (Some (pos p i)) (Suc i))"
    using pos_NEXT(2) [OF ring_invD(1) [OF inv], of i] by (auto simp: Let_def pattern_skip_eq hit_def)
  have last: "pos p i = latestoffset p \<longleftrightarrow> i = length (live p) - 1"
    using pos_inj [OF ring_invD(1) [OF inv], of i "length (live p) - 1"] live_ends [OF inv ne] Suc.prems(1)
    by auto
  have nx: "earlier p (Suc i) = Some (pos p i)" by (simp add: earlier_def)
  show ?case
  proof (cases "hit p pm rd t i")
    case True
    then show ?thesis using step up by simp
  next
    case no: False
    show ?thesis
    proof (cases "i = length (live p) - 1")
      case True
      then have "[Suc i..<length (live p)] = []" by simp
      then show ?thesis using no up last True unfolding step by simp
    next
      case False
      have lt: "Suc i < length (live p)" "length (live p) - Suc i \<le> n" using Suc.prems False by auto
      have "RingAfter_loop (Suc n) p pm rd t (pos p i) (earlier p i) q i =
          RingAfter_loop n p pm rd t (pos p (Suc i)) (Some (pos p i)) (Some (pos p i)) (Suc i)"
        using no step last False by simp
      also have "\<dots> = (case find (hit p pm rd t) [Suc i..<length (live p)] of
          Some j \<Rightarrow> (earlier p j, Some (pos p j), j)
        | None \<Rightarrow> (Some (latestoffset p), Some (latestoffset p), length (live p) - 1))"
        using Suc.IH [OF lt, of "Some (pos p i)"] nx by simp
      finally show ?thesis using no up by simp
    qed
  qed
qed simp

lemma RingAfter_result:
  assumes inv: "ring_inv p" and ne: "\<not> latestoffset p < 0"
  shows "RingAfter p pm rd t whence =
    (let k = (case find (hit p pm rd t) [0..<length (live p)] of
                None \<Rightarrow> length (live p) - 1
              | Some j \<Rightarrow> if whence = 0 then j - 1 else j)
     in (id_at p k, at_packet rd (pos p k) (PACKETPTR p (pos p k))))"
proof -
  let ?n = "length (live p)"
  note ends = live_ends [OF inv ne]
  have off: "offset (PACKETPTR p (pos p i)) = pos p i" if "i < ?n" for i
    using ring_invD(7) [OF inv] live_pos [OF inv that] that nth_mem by metis
  have "unat (maxpackets p) = nat (nslots p)"
    using ring_geomD(5) [OF ring_invD(1) [OF inv]] by (metis nat_uint_eq)
  then have fuel: "?n - 0 \<le> unat (maxpackets p)" using ends(4) by simp
  have loop: "RingAfter_loop (unat (maxpackets p)) p pm rd t (earliestoffset p) None None 0 =
     (case find (hit p pm rd t) [0..<?n] of
        Some j \<Rightarrow> (earlier p j, Some (pos p j), j)
      | None \<Rightarrow> (Some (latestoffset p), Some (latestoffset p), ?n - 1))"
    using After_loop_result [OF inv ne ends(1) fuel, of pm rd t None] ends(2) by (simp add: earlier_def)
  have "\<not> earliestoffset p < 0" using ends(2) pos_nonneg [OF ring_invD(1) [OF inv]] by (simp add: not_less)
  then have start: "RingAfter p pm rd t whence = (case RingAfter_loop (unat (maxpackets p)) p pm rd t
        (earliestoffset p) None None 0 of
          (_, None, _) \<Rightarrow> (RINGID_NONE, rd)
        | (pkt0, Some off1, skipped) \<Rightarrow>
            (let o1 = (if whence = 0 \<and> skipped > 0 then the pkt0 else off1);
                 pkt = PACKETPTR p o1
             in (pktid pkt, at_packet rd (offset pkt) pkt)))"
    using ne by (simp add: RingAfter_def)
  show ?thesis
  proof (cases "find (hit p pm rd t) [0..<?n]")
    case None
    then show ?thesis using start loop ends(1,3) off [of "?n - 1"] by (simp add: id_at_def Let_def)
  next
    case (Some j)
    then have "j < ?n" by (auto simp: find_Some_iff)
    then show ?thesis using start loop Some off [of j] off [of "j - 1"]
      by (auto simp: id_at_def Let_def earlier_def)
  qed
qed

text \<open>The backward scan stops at a wanted packet that starts before the time.\<close>

primrec rev_stop :: "(nat \<Rightarrow> bool) \<Rightarrow> nat \<Rightarrow> nat" where
  "rev_stop early 0 = 0"
| "rev_stop early (Suc i) = (if early (Suc i) then Suc i else rev_stop early i)"

definition starts_before :: "param_s \<Rightarrow> 're matcher \<Rightarrow> 're RingReader \<Rightarrow> nstime \<Rightarrow> nat \<Rightarrow> bool" where
  "starts_before p pm rd t i \<longleftrightarrow>
     selects pm rd (streamid (PACKETPTR p (pos p i))) \<and> datastart (PACKETPTR p (pos p i)) < t"

lemma rev_stop_le: "rev_stop e i \<le> i"
  by (induction i) (auto intro: le_SucI)

lemma AfterRev_loop_result:
  assumes inv: "ring_inv p" and ne: "\<not> latestoffset p < 0"
  shows "i < length (live p) \<Longrightarrow>
    fst (RingAfterRev_loop n p pm rd t (pos p i) best) =
     (case find (hit p pm rd t) [max (rev_stop (starts_before p pm rd t) i) (Suc i - n)..<Suc i] of
        Some j \<Rightarrow> Some (pos p j)
      | None \<Rightarrow> best)"
proof (induction n arbitrary: i best)
  case 0
  have "rev_stop e i \<le> Suc i" for e using rev_stop_le [of e i] by simp
  then show ?case by (simp add: max_absorb2)
next
  case (Suc n)
  let ?e = "starts_before p pm rd t" and ?h = "hit p pm rd t"
  define best1 where "best1 = (if ?h i then Some (pos p i) else best)"
  have first: "pos p i = earliestoffset p \<longleftrightarrow> i = 0"
    using pos_inj [OF ring_invD(1) [OF inv], of i 0] live_ends [OF inv ne] Suc.prems by auto
  have step: "RingAfterRev_loop (Suc n) p pm rd t (pos p i) best =
      (if ?e i \<or> i = 0 then (best1, pos p i)
       else RingAfterRev_loop n p pm rd t (pos p (i - 1)) best1)"
    using first pos_PREV(2) [OF ring_invD(1) [OF inv], of "i - 1"]
    by (auto simp: Let_def pattern_skip_eq hit_def starts_before_def best1_def)
  show ?case
  proof (cases "?e i \<or> i = 0")
    case True
    then have "max (rev_stop ?e i) (Suc i - Suc n) = i" by (cases i) auto
    then show ?thesis using step True by (simp add: best1_def)
  next
    case False
    then obtain j where j: "i = Suc j" by (cases i) auto
    have lo: "max (rev_stop ?e i) (Suc i - Suc n) = max (rev_stop ?e j) (Suc j - n)" using False j by simp
    have "max (rev_stop ?e j) (Suc j - n) \<le> Suc j" using rev_stop_le [of ?e j] by simp
    then have "[max (rev_stop ?e j) (Suc j - n)..<Suc i] = [max (rev_stop ?e j) (Suc j - n)..<Suc j] @ [i]"
      using j by simp
    then show ?thesis
      using Suc.IH [of j best1] Suc.prems step False j lo
      by (auto simp: best1_def find_append split: option.splits)
  qed
qed


lemma RingAfterRev_result:
  assumes inv: "ring_inv p" and ne: "\<not> latestoffset p < 0" and w: "whence \<noteq> 0"
  defines "n \<equiv> length (live p)"
  shows "RingAfterRev p pm rd t pktlimit whence =
    (case find (hit p pm rd t) [max (rev_stop (starts_before p pm rd t) (n - 1)) (n - unat pktlimit)..<n] of
       None \<Rightarrow> (RINGID_NONE, rd)
     | Some k \<Rightarrow> (id_at p k, at_packet rd (pos p k) (PACKETPTR p (pos p k))))"
proof -
  note ends = live_ends [OF inv ne, folded n_def]
  have "\<not> earliestoffset p < 0" using ends(2) pos_nonneg [OF ring_invD(1) [OF inv]] by (simp add: not_less)
  moreover have "Suc (n - 1) = n" using ends(1) by simp
  then have "fst (RingAfterRev_loop (unat pktlimit) p pm rd t (latestoffset p) None) =
      (case find (hit p pm rd t) [max (rev_stop (starts_before p pm rd t) (n - 1)) (n - unat pktlimit)..<n] of
         Some j \<Rightarrow> Some (pos p j) | None \<Rightarrow> None)"
    using AfterRev_loop_result [OF inv ne, of "n - 1" "unat pktlimit" pm rd t None] ends(1,3)
    by (simp only: n_def)
  ultimately show ?thesis
    using w ne by (cases "RingAfterRev_loop (unat pktlimit) p pm rd t (latestoffset p) None")
      (auto simp: RingAfterRev_def id_at_def Let_def split: option.splits)
qed

end
