(* ===== verification/RS_RingInit.thy ===== *)
theory RS_RingInit
  imports RS_RingReadThms
begin

text \<open>
  Opening and closing of the ring: \<open>RingInitialize\<close> and \<open>RingShutdown\<close> of
  \<open>ringserver-4/src/ring.c\<close>, with the binary header at the start of the packet buffer (\<open>pRBV3_*\<close>
  in \<open>ring.h\<close>).  The operating system's answers are fields of an environment record.  The buffer
  is modelled as its header bytes and the slots behind them, cut by the configured packet size.
\<close>

section \<open>The buffer header\<close>

text \<open>\<open>memcpy\<close> from and to an integer of \<open>n\<close> bytes, least significant byte first.\<close>

fun le_bytes :: "nat \<Rightarrow> nat \<Rightarrow> byte list" where
  "le_bytes 0 v = []"
| "le_bytes (Suc n) v = of_nat (v mod 256) # le_bytes n (v div 256)"

fun le_value :: "byte list \<Rightarrow> nat" where
  "le_value [] = 0"
| "le_value (b # bs) = unat b + 256 * le_value bs"

definition load_le :: "byte list \<Rightarrow> nat \<Rightarrow> nat \<Rightarrow> nat" where
  "load_le buf at n = le_value (take n (drop at buf))"

definition store_bytes :: "nat \<Rightarrow> byte list \<Rightarrow> byte list \<Rightarrow> byte list" where
  "store_bytes at bs buf = take at buf @ bs @ drop (at + length bs) buf"

definition RING_SIGNATURE :: "byte list" where "RING_SIGNATURE = [0x52, 0x49, 0x4E, 0x47]"
definition RING_SIGNATURE_LENGTH :: nat where "RING_SIGNATURE_LENGTH = 4"
definition RING_VERSION :: u16 where "RING_VERSION = 3"
definition RBV3_HEADERSIZE :: nat where "RBV3_HEADERSIZE = 64"

definition pRBV3_SIGNATURE :: "byte list \<Rightarrow> byte list" where
  "pRBV3_SIGNATURE ring = take RING_SIGNATURE_LENGTH ring"
definition pRBV3_VERSION :: "byte list \<Rightarrow> u16" where "pRBV3_VERSION ring = of_nat (load_le ring 4 2)"
definition pRBV3_RINGSIZE :: "byte list \<Rightarrow> u64" where "pRBV3_RINGSIZE ring = of_nat (load_le ring 8 8)"
definition pRBV3_PKTSIZE :: "byte list \<Rightarrow> u32" where "pRBV3_PKTSIZE ring = of_nat (load_le ring 16 4)"
definition pRBV3_MAXPACKETS :: "byte list \<Rightarrow> u64" where "pRBV3_MAXPACKETS ring = of_nat (load_le ring 24 8)"
definition pRBV3_MAXOFFSET :: "byte list \<Rightarrow> off" where
  "pRBV3_MAXOFFSET ring = sint (of_nat (load_le ring 32 8) :: u64)"
definition pRBV3_HEADERSIZE :: "byte list \<Rightarrow> u32" where "pRBV3_HEADERSIZE ring = of_nat (load_le ring 40 4)"
definition pRBV3_EARLIESTOFFSET :: "byte list \<Rightarrow> off" where
  "pRBV3_EARLIESTOFFSET ring = sint (of_nat (load_le ring 48 8) :: u64)"
definition pRBV3_LATESTOFFSET :: "byte list \<Rightarrow> off" where
  "pRBV3_LATESTOFFSET ring = sint (of_nat (load_le ring 56 8) :: u64)"

lemmas pRBV3_defs = pRBV3_SIGNATURE_def pRBV3_VERSION_def pRBV3_RINGSIZE_def pRBV3_PKTSIZE_def
  pRBV3_MAXPACKETS_def pRBV3_MAXOFFSET_def pRBV3_HEADERSIZE_def pRBV3_EARLIESTOFFSET_def
  pRBV3_LATESTOFFSET_def

definition load_header :: "byte list \<Rightarrow> param_s \<Rightarrow> param_s" where
  "load_header ring p = p\<lparr>version := pRBV3_VERSION ring, ringsize := pRBV3_RINGSIZE ring,
     pktsize := pRBV3_PKTSIZE ring, maxpackets := pRBV3_MAXPACKETS ring,
     maxoffset := pRBV3_MAXOFFSET ring, headersize := pRBV3_HEADERSIZE ring,
     earliestoffset := pRBV3_EARLIESTOFFSET ring, latestoffset := pRBV3_LATESTOFFSET ring\<rparr>"

text \<open>The clearing of the header and the nine copies at the end of \<open>RingShutdown\<close>.\<close>

definition store_header :: "param_s \<Rightarrow> byte list \<Rightarrow> byte list" where
  "store_header p ring =
     (store_bytes 56 (le_bytes 8 (unat (of_int (latestoffset p) :: u64))) \<circ>
      store_bytes 48 (le_bytes 8 (unat (of_int (earliestoffset p) :: u64))) \<circ>
      store_bytes 40 (le_bytes 4 (unat (headersize p))) \<circ>
      store_bytes 32 (le_bytes 8 (unat (of_int (maxoffset p) :: u64))) \<circ>
      store_bytes 24 (le_bytes 8 (unat (maxpackets p))) \<circ>
      store_bytes 16 (le_bytes 4 (unat (pktsize p))) \<circ>
      store_bytes 8 (le_bytes 8 (unat (ringsize p))) \<circ>
      store_bytes 4 (le_bytes 2 (unat (version p))) \<circ>
      store_bytes 0 RING_SIGNATURE)
     (store_bytes 0 (replicate RBV3_HEADERSIZE 0) ring)"

section \<open>The environment\<close>

record ring_config =
  volatilering :: bool
  memorymapring :: bool
  cf_ringsize :: u64
  cf_pktsize :: u32

text \<open>
  The files as they are found and the outcomes of the system calls.  \<open>f_header\<close> and \<open>f_slots\<close> are
  the contents of the ring file, \<open>junk_header\<close> and \<open>junk_slots\<close> those of a buffer that is not read
  from it, \<open>s_records\<close> the records of the stream file, after which \<open>s_read_error\<close> tells a failed
  \<open>read\<close> from the end of the file.
\<close>

record init_env =
  names_given :: bool
  pagesize :: int
  open_ok :: bool
  stat_ok :: bool
  f_size :: int
  f_header :: "byte list"
  f_slots :: memory
  truncate_ok :: bool
  seek_ok :: bool
  write_ok :: bool
  mmap_ok :: bool
  buffer_ok :: bool
  read_ok :: bool
  junk_header :: "byte list"
  junk_slots :: memory
  tree_ok :: bool
  s_open_ok :: bool
  s_stat_ok :: bool
  s_size :: int
  s_records :: "(RingStream \<times> bool) list"
  s_read_error :: bool

section \<open>RingInitialize\<close>

partial_function (option) header_pages :: "int \<Rightarrow> u32 \<Rightarrow> u32 option" where
  "header_pages pgsize h =
     (if unat h < RBV3_HEADERSIZE then header_pages pgsize (of_int (uint h + pgsize)) else Some h)"

definition init_maxpackets :: "ring_config \<Rightarrow> u32 \<Rightarrow> u64" where
  "init_maxpackets cfg hsize = (cf_ringsize cfg - ucast hsize) div ucast (cf_pktsize cfg)"

definition init_maxoffset :: "ring_config \<Rightarrow> u32 \<Rightarrow> off" where
  "init_maxoffset cfg hsize = sint ((init_maxpackets cfg hsize - 1) * ucast (cf_pktsize cfg))"

text \<open>The file part: \<open>Inl\<close> an early return value, \<open>Inr (ringinit, replacing)\<close>.\<close>

definition open_ring_file :: "ring_config \<Rightarrow> init_env \<Rightarrow> u32 \<Rightarrow> int + bool \<times> bool" where
  "open_ring_file cfg env hsize =
     (if volatilering cfg then Inr (False, False)
      else if \<not> open_ok env then Inl (-1)
      else if \<not> stat_ok env then Inl (-1)
      else (let header = f_header env;
                changed = (f_size env > 0 \<and> int RBV3_HEADERSIZE \<le> f_size env \<and>
                  pRBV3_SIGNATURE header = RING_SIGNATURE \<and> pRBV3_VERSION header = RING_VERSION \<and>
                  (pRBV3_RINGSIZE header \<noteq> cf_ringsize cfg \<or> pRBV3_PKTSIZE header \<noteq> cf_pktsize cfg \<or>
                   pRBV3_HEADERSIZE header \<noteq> hsize))
            in if changed \<and> pRBV3_PKTSIZE header \<le> cf_pktsize cfg then Inl (uint RING_VERSION)
               else if f_size env \<noteq> uint (cf_ringsize cfg) then
                 (if f_size env > uint (cf_ringsize cfg) \<and> \<not> truncate_ok env then Inl (-1)
                  else if \<not> seek_ok env then Inl (-1)
                  else if \<not> write_ok env then Inl (-1)
                  else Inr (True, f_size env > 0))
               else Inr (False, False)))"

text \<open>The buffer: \<open>Inr (ringinit, header bytes, slots)\<close>.\<close>

definition map_ring_file ::
  "ring_config \<Rightarrow> init_env \<Rightarrow> bool \<Rightarrow> int + bool \<times> byte list \<times> memory" where
  "map_ring_file cfg env ringinit =
     (if memorymapring cfg \<and> \<not> volatilering cfg then
        (if \<not> mmap_ok env then Inl (-1)
         else if ringinit then Inr (ringinit, junk_header env, junk_slots env)
         else Inr (ringinit, f_header env, f_slots env))
      else if \<not> buffer_ok env then Inl (-2)
      else (let ringinit1 = (if volatilering cfg then True else ringinit)
            in if \<not> ringinit1 then
                 (if \<not> read_ok env then Inl (-1) else Inr (ringinit1, f_header env, f_slots env))
               else Inr (ringinit1, junk_header env, junk_slots env)))"

text \<open>The loop over the stream file; the boolean of a record is whether its allocations succeed.\<close>

fun load_streams ::
  "(RingStream \<times> bool) list \<Rightarrow> param_s \<Rightarrow> bool \<Rightarrow> param_s \<times> bool" where
  "load_streams [] p corrupt = (p, corrupt)"
| "load_streams ((stream, malloc_ok) # recs) p corrupt =
     (case AddStreamIdx malloc_ok (streamidx p) stream of
        None \<Rightarrow> load_streams recs p True
      | Some idx \<Rightarrow> load_streams recs
          (p\<lparr>streamidx := idx, streamcount := streamcount p + 1\<rparr>) corrupt)"

definition recover_streams :: "init_env \<Rightarrow> param_s \<Rightarrow> (int \<times> param_s) + (param_s \<times> bool)" where
  "recover_streams env p =
     (if \<not> s_open_ok env then Inl (-1, p)
      else if \<not> s_stat_ok env then Inl (-1, p)
      else if s_size env > 0 then
        (let (p1, corrupt) = load_streams (s_records env) p False
         in if s_read_error env then Inl (-1, p1) else Inr (p1, corrupt))
      else Inl (-1, p))"

text \<open>The comparison of one end of the ring with the packet and the stream found there.\<close>

definition end_corrupt :: "param_s \<Rightarrow> off \<Rightarrow> bool" where
  "end_corrupt p x \<longleftrightarrow> x \<ge> 0 \<and>
     (offset (PACKETPTR p x) \<noteq> x \<or> GetStreamIdx (streamidx p) (streamid (PACKETPTR p x)) = None)"

definition ring_corrupt :: "param_s \<Rightarrow> bool \<Rightarrow> bool" where
  "ring_corrupt p corrupt \<longleftrightarrow>
     (let c1 = (corrupt \<or> earliestoffset p > maxoffset p);
          c2 = (c1 \<or> latestoffset p > maxoffset p);
          c3 = (if \<not> c2 then end_corrupt p (earliestoffset p) else c2)
      in if \<not> c3 then end_corrupt p (latestoffset p) else c3)"

definition header_differs :: "ring_config \<Rightarrow> u64 \<Rightarrow> off \<Rightarrow> u32 \<Rightarrow> byte list \<Rightarrow> param_s \<Rightarrow> bool" where
  "header_differs cfg mxpackets mxoffset hsize header p \<longleftrightarrow>
     pRBV3_SIGNATURE header \<noteq> RING_SIGNATURE \<or> version p \<noteq> RING_VERSION \<or>
     ringsize p \<noteq> cf_ringsize cfg \<or> pktsize p \<noteq> cf_pktsize cfg \<or>
     maxpackets p \<noteq> mxpackets \<or> maxoffset p \<noteq> mxoffset \<or> headersize p \<noteq> hsize"

definition reset_ring :: "ring_config \<Rightarrow> u64 \<Rightarrow> off \<Rightarrow> u32 \<Rightarrow> param_s \<Rightarrow> param_s" where
  "reset_ring cfg mxpackets mxoffset hsize p =
     p\<lparr>version := RING_VERSION, ringsize := cf_ringsize cfg, pktsize := cf_pktsize cfg,
       maxpackets := mxpackets, maxoffset := mxoffset, headersize := hsize,
       earliestoffset := -1, latestoffset := -1\<rparr>"

text \<open>
  From the mapped buffer on.  A corrupted ring leaves \<open>param\<close> as it is but for the destroyed index.
\<close>

definition init_param ::
  "ring_config \<Rightarrow> init_env \<Rightarrow> u64 \<Rightarrow> off \<Rightarrow> u32 \<Rightarrow> bool \<Rightarrow> byte list \<Rightarrow> memory \<Rightarrow> param_s \<Rightarrow> int \<times> param_s" where
  "init_param cfg env mxpackets mxoffset hsize ringinit header slots p =
     (if \<not> ringinit \<and> pRBV3_SIGNATURE header = RING_SIGNATURE \<and> pRBV3_VERSION header \<noteq> RING_VERSION
      then (uint (pRBV3_VERSION header), p)
      else if \<not> tree_ok env then (-1, p)
      else (let p1 = load_header header
                  (p\<lparr>streamidx := Map.empty, ringmem := slots, config_pktsize := cf_pktsize cfg\<rparr>);
                recovered =
                  (if ringinit \<or> header_differs cfg mxpackets mxoffset hsize header p1
                   then Inr (reset_ring cfg mxpackets mxoffset hsize p1, False)
                   else if earliestoffset p1 \<ge> 0 then recover_streams env p1
                   else Inr (p1, False))
            in case recovered of
                 Inl r \<Rightarrow> r
               | Inr (p2, corrupt) \<Rightarrow>
                   if ring_corrupt p2 corrupt then (-1, p2\<lparr>streamidx := Map.empty\<rparr>) else (0, p2)))"

text \<open>
  The result is the return value and the new \<open>param\<close>; there is none if the computation of the
  header size never ends or \<open>config.pktsize\<close> is zero, by which the code divides.
\<close>

definition RingInitialize :: "ring_config \<Rightarrow> init_env \<Rightarrow> param_s \<Rightarrow> (int \<times> param_s) option" where
  "RingInitialize cfg env p =
     (if \<not> volatilering cfg \<and> \<not> names_given env then Some (-2, p)
      else if pagesize env < 0 then Some (-2, p)
      else (case header_pages (pagesize env) (of_int (pagesize env)) of
          None \<Rightarrow> None
        | Some hsize \<Rightarrow>
            if cf_ringsize cfg < ucast (hsize + 2 * cf_pktsize cfg) then Some (-2, p)
            else if cf_pktsize cfg = 0 then None
            else (let mxpackets = init_maxpackets cfg hsize;
                      mxoffset = init_maxoffset cfg hsize
                  in case open_ring_file cfg env hsize of
                       Inl rv \<Rightarrow> Some (rv, p)
                     | Inr (ringinit, _) \<Rightarrow>
                         (case map_ring_file cfg env ringinit of
                            Inl rv \<Rightarrow> Some (rv, p)
                          | Inr (ringinit1, header, slots) \<Rightarrow>
                              Some (init_param cfg env mxpackets mxoffset hsize ringinit1 header slots p)))))"

lemmas init_defs = RingInitialize_def open_ring_file_def map_ring_file_def init_param_def Let_def

section \<open>RingShutdown\<close>

text \<open>
  What ends up in the files: the records written to the stream file, in the order in which the
  streams are popped, the header bytes and the slots.  \<open>w_ok i\<close> is whether the \<open>i\<close>-th record is
  written; the destruction of the locks succeeds.
\<close>

record shutdown_env =
  sd_args_ok :: bool
  sd_open_ok :: bool
  sd_write_ok :: "nat \<Rightarrow> bool"
  sd_close_ok :: bool
  sd_unmap_ok :: bool
  sd_seek_ok :: bool
  sd_ring_write_ok :: bool
  sd_ring_close_ok :: bool

definition RingShutdown ::
  "ring_config \<Rightarrow> shutdown_env \<Rightarrow> byte list \<Rightarrow> param_s \<Rightarrow> int \<times> RingStream list \<times> (byte list \<times> memory) option" where
  "RingShutdown cfg env header p =
     (if \<not> volatilering cfg \<and> \<not> sd_args_ok env then (-1, [], None)
      else if volatilering cfg then (0, [], None)
      else (let streams = RBBuildStack (streamidx p);
                rv0 = (if \<not> sd_open_ok env then -1 else 0 :: int);
                written = (if sd_open_ok env
                  then map snd (filter (\<lambda>(i, _). sd_write_ok env i) (enumerate 0 streams)) else []);
                rv1 = (if sd_open_ok env \<and> (length written < length streams \<or> \<not> sd_close_ok env)
                       then -1 else rv0);
                header1 = store_header p header;
                rv2 = (if memorymapring cfg then (if \<not> sd_unmap_ok env then -1 else rv1)
                       else if \<not> sd_seek_ok env \<or> \<not> sd_ring_write_ok env then -1 else rv1);
                rv3 = (if \<not> sd_ring_close_ok env then -1 else rv2)
            in (rv3, written,
                if memorymapring cfg \<or> (sd_seek_ok env \<and> sd_ring_write_ok env)
                then Some (header1, ringmem p) else None)))"

section \<open>The header round trip\<close>

lemma length_le_bytes [simp]: "length (le_bytes n v) = n"
  by (induction n arbitrary: v) auto

lemma le_value_bytes: "le_value (le_bytes n v) = v mod 256 ^ n"
proof (induction n arbitrary: v)
  case (Suc n)
  have "unat (of_nat (v mod 256) :: byte) = v mod 256" by (simp add: unat_of_nat)
  then show ?case using Suc by (simp add: mod_mult2_eq)
qed simp

lemma load_le_store_same:
  "at + n \<le> length buf \<Longrightarrow> length bs = n \<Longrightarrow> load_le (store_bytes at bs buf) at n = le_value bs"
  by (simp add: load_le_def store_bytes_def)

lemma load_le_store_other:
  assumes "at + length bs \<le> length buf" "at' + n \<le> at \<or> at + length bs \<le> at'"
  shows "load_le (store_bytes at bs buf) at' n = load_le buf at' n"
proof -
  have "take n (drop at' (store_bytes at bs buf)) = take n (drop at' buf)"
  proof (cases "at' + n \<le> at")
    case True
    then have "take (at' + n) (store_bytes at bs buf) = take (at' + n) buf"
      using assms(1) by (simp add: store_bytes_def)
    then show ?thesis by (metis add.commute take_drop)
  next
    case False
    then have "at + length bs \<le> at'" using assms(2) by simp
    then have "drop at' (store_bytes at bs buf) = drop at' buf"
      using assms(1) by (simp add: store_bytes_def)
    then show ?thesis by simp
  qed
  then show ?thesis by (simp add: load_le_def)
qed

lemma length_store_bytes [simp]: "at + length bs \<le> length buf \<Longrightarrow> length (store_bytes at bs buf) = length buf"
  by (simp add: store_bytes_def)

lemma take_store_other: "n \<le> at \<Longrightarrow> at \<le> length buf \<Longrightarrow> take n (store_bytes at bs buf) = take n buf"
  by (simp add: store_bytes_def)

lemma sint_of_int_in_range:
  "- (2 ^ 63) \<le> x \<Longrightarrow> x < 2 ^ 63 \<Longrightarrow> sint (of_int x :: u64) = x"
  by (simp add: signed_of_int signed_take_bit_int_eq_self_iff)

lemma unat_mod: "unat (w :: 'a::len word) mod 2 ^ LENGTH('a) = unat w"
  by (simp add: unsigned_less)

lemma store_load_header:
  assumes len: "RBV3_HEADERSIZE \<le> length ring"
    and r: "- (2 ^ 63) \<le> maxoffset p" "maxoffset p < 2 ^ 63"
      "- (2 ^ 63) \<le> earliestoffset p" "earliestoffset p < 2 ^ 63"
      "- (2 ^ 63) \<le> latestoffset p" "latestoffset p < 2 ^ 63"
  shows "pRBV3_SIGNATURE (store_header p ring) = RING_SIGNATURE"
    "pRBV3_VERSION (store_header p ring) = version p"
    "pRBV3_RINGSIZE (store_header p ring) = ringsize p"
    "pRBV3_PKTSIZE (store_header p ring) = pktsize p"
    "pRBV3_MAXPACKETS (store_header p ring) = maxpackets p"
    "pRBV3_MAXOFFSET (store_header p ring) = maxoffset p"
    "pRBV3_HEADERSIZE (store_header p ring) = headersize p"
    "pRBV3_EARLIESTOFFSET (store_header p ring) = earliestoffset p"
    "pRBV3_LATESTOFFSET (store_header p ring) = latestoffset p"
proof -
  note h = store_header_def load_le_store_same load_le_store_other le_value_bytes RBV3_HEADERSIZE_def
    RING_SIGNATURE_def
  have l: "64 \<le> length ring" using len by (simp add: RBV3_HEADERSIZE_def)
  have m: "unat (v :: u64) mod 18446744073709551616 = unat v"
    "unat (u :: u32) mod 4294967296 = unat u" "unat (w :: u16) mod 65536 = unat w" for v u w
    using unat_mod [of v] unat_mod [of u] unat_mod [of w] by simp_all
  show "pRBV3_SIGNATURE (store_header p ring) = RING_SIGNATURE"
    using l by (simp add: store_header_def pRBV3_SIGNATURE_def take_store_other RBV3_HEADERSIZE_def
        RING_SIGNATURE_LENGTH_def RING_SIGNATURE_def) (simp add: store_bytes_def)
  show "pRBV3_VERSION (store_header p ring) = version p"
    "pRBV3_RINGSIZE (store_header p ring) = ringsize p"
    "pRBV3_PKTSIZE (store_header p ring) = pktsize p"
    "pRBV3_MAXPACKETS (store_header p ring) = maxpackets p"
    "pRBV3_HEADERSIZE (store_header p ring) = headersize p"
    using l by (simp_all add: pRBV3_defs h m)
  show "pRBV3_MAXOFFSET (store_header p ring) = maxoffset p"
    "pRBV3_EARLIESTOFFSET (store_header p ring) = earliestoffset p"
    "pRBV3_LATESTOFFSET (store_header p ring) = latestoffset p"
    using l r by (simp_all add: pRBV3_defs h m sint_of_int_in_range)
qed

section \<open>The geometry that the configuration gives\<close>

text \<open>The size test of the code, without the wrap-around of its 32-bit sum.\<close>

definition config_fits :: "ring_config \<Rightarrow> u32 \<Rightarrow> bool" where
  "config_fits cfg hsize \<longleftrightarrow> int sizeof_RingPacket \<le> uint (cf_pktsize cfg) \<and>
     uint hsize + 2 * uint (cf_pktsize cfg) < 2 ^ 32 \<and>
     uint hsize + 2 * uint (cf_pktsize cfg) \<le> uint (cf_ringsize cfg) \<and> uint (cf_ringsize cfg) < 2 ^ 63"

lemma uint_ucast_u64 [simp]: "uint (ucast (x :: u32) :: u64) = uint x"
  by (simp add: uint_up_ucast is_up)

lemma header_pages_one:
  assumes "int RBV3_HEADERSIZE \<le> ps" "ps < 2 ^ 32"
  shows "header_pages ps (of_int ps) = Some (of_int ps)"
proof -
  have "uint (of_int ps :: u32) = ps"
    using assms by (simp add: uint_word_of_int RBV3_HEADERSIZE_def)
  then have "\<not> unat (of_int ps :: u32) < RBV3_HEADERSIZE"
    using assms(1) by (simp add: unat_eq_nat_uint RBV3_HEADERSIZE_def)
  then show ?thesis by (subst header_pages.simps) simp
qed

lemma config_size_test:
  assumes "config_fits cfg h"
  shows "\<not> cf_ringsize cfg < ucast (h + 2 * cf_pktsize cfg)" "cf_pktsize cfg \<noteq> 0"
proof -
  have "uint h + 2 * uint (cf_pktsize cfg) < 2 ^ 32" "0 \<le> uint h"
    using assms by (simp_all add: config_fits_def)
  then have "2 * uint (cf_pktsize cfg) < 2 ^ 32" by linarith
  then have "uint (2 * cf_pktsize cfg) = 2 * uint (cf_pktsize cfg)"
    using uint_mult_lem [of "2 :: u32" "cf_pktsize cfg"] by simp
  then have "uint (h + 2 * cf_pktsize cfg) = uint h + 2 * uint (cf_pktsize cfg)"
    using assms uint_add_lem [of h "2 * cf_pktsize cfg"] by (simp add: config_fits_def)
  then show "\<not> cf_ringsize cfg < ucast (h + 2 * cf_pktsize cfg)"
    using assms by (simp add: config_fits_def word_less_def)
  show "cf_pktsize cfg \<noteq> 0"
    using assms by (auto simp: config_fits_def)
qed

lemma init_geometry:
  assumes fit: "config_fits cfg h"
  shows "uint (init_maxpackets cfg h) = (uint (cf_ringsize cfg) - uint h) div uint (cf_pktsize cfg)"
    "init_maxoffset cfg h = (uint (init_maxpackets cfg h) - 1) * uint (cf_pktsize cfg)"
    "2 \<le> uint (init_maxpackets cfg h)"
    "uint (init_maxpackets cfg h) * uint (cf_pktsize cfg) < 2 ^ 63"
proof -
  let ?R = "uint (cf_ringsize cfg)" and ?h = "uint h" and ?S = "uint (cf_pktsize cfg)"
  let ?N = "uint (init_maxpackets cfg h)"
  have f: "120 \<le> ?S" "?h + 2 * ?S \<le> ?R" "?R < 2 ^ 63"
    using fit by (simp_all add: config_fits_def)
  have sub: "uint (cf_ringsize cfg - ucast h) = ?R - ?h"
    using f by (subst uint_sub_lem [THEN iffD1]) (simp_all add: )
  show N: "?N = (?R - ?h) div ?S"
    by (simp add: init_maxpackets_def uint_div sub )
  have "2 * ?S div ?S \<le> (?R - ?h) div ?S" using f by (intro zdiv_mono1) auto
  then show two: "2 \<le> ?N" using f N by simp
  have "?R - ?h = ?N * ?S + (?R - ?h) mod ?S" "0 \<le> (?R - ?h) mod ?S" using f(1) N by simp_all
  moreover have "0 \<le> ?h" by simp
  ultimately show bnd: "?N * ?S < 2 ^ 63" using f(3) by linarith
  have one: "uint (init_maxpackets cfg h - 1) = ?N - 1"
    using two by (subst uint_sub_lem [THEN iffD1]) simp_all
  have le: "(?N - 1) * ?S < 2 ^ 63" using bnd f(1) by (simp add: left_diff_distrib)
  have "uint ((init_maxpackets cfg h - 1) * ucast (cf_pktsize cfg)) = (?N - 1) * ?S"
    using le one by (subst uint_mult_lem [THEN iffD1]) (simp_all add: )
  moreover have "0 \<le> (?N - 1) * ?S" using two by simp
  ultimately show "init_maxoffset cfg h = (?N - 1) * ?S"
    using le by (simp add: init_maxoffset_def sint_uint signed_take_bit_int_eq_self_iff)
qed

lemma init_geom:
  assumes fit: "config_fits cfg h"
    and p: "pktsize p = cf_pktsize cfg" "config_pktsize p = cf_pktsize cfg"
      "maxpackets p = init_maxpackets cfg h" "maxoffset p = init_maxoffset cfg h"
  shows "ring_geom p" "nslots p = uint (init_maxpackets cfg h)"
proof -
  note g = init_geometry [OF fit]
  have S: "120 \<le> uint (cf_pktsize cfg)" using fit by (simp add: config_fits_def)
  show N: "nslots p = uint (init_maxpackets cfg h)"
    using S p(1,4) g(2) by (simp add: nslots_def slotsize_def)
  have "1 * uint (cf_pktsize cfg) \<le> (uint (init_maxpackets cfg h) - 1) * uint (cf_pktsize cfg)"
    using g(3) by (intro mult_right_mono) auto
  then show "ring_geom p"
    using S p g(2,4) N by (simp add: ring_geom_def slotsize_def left_diff_distrib)
qed

section \<open>A new ring\<close>

lemma empty_ring_inv:
  assumes "ring_geom p" "earliestoffset p = -1" "latestoffset p = -1" "streamidx p = Map.empty"
    "streamcount p = 0" "\<And>x. length (payload (ringmem p x)) = payload_room p"
  shows "ring_inv p" "ring_queue p = []"
proof -
  have "live p = []" using assms(3) by (simp add: live_def)
  then show "ring_inv p" "ring_queue p = []"
    using assms by (simp_all add: ring_inv_def ring_hdrs_def links_ok_def index_ok_def ring_queue_def)
qed

definition slots_of :: "u32 \<Rightarrow> memory \<Rightarrow> bool" where
  "slots_of pksize m \<longleftrightarrow> (\<forall>x. length (payload (m x)) = unat pksize - sizeof_RingPacket)"

lemma RingInitialize_eval:
  assumes "volatilering cfg \<or> names_given env" "int RBV3_HEADERSIZE \<le> pagesize env" "pagesize env < 2 ^ 32"
    and "config_fits cfg h" "h = of_int (pagesize env)"
    and "open_ring_file cfg env h = Inr (ri, rep)" "map_ring_file cfg env ri = Inr (ri1, header, slots)"
  shows "RingInitialize cfg env p = Some (init_param cfg env (init_maxpackets cfg h) (init_maxoffset cfg h)
     h ri1 header slots p)"
proof -
  have "\<not> pagesize env < 0" "\<not> (\<not> volatilering cfg \<and> \<not> names_given env)" using assms(1,2) by auto
  then show ?thesis
    using config_size_test [OF assms(4)] header_pages_one [OF assms(2,3)] assms(5,6,7)
    by (cases "volatilering cfg") (simp_all add: RingInitialize_def Let_def)
qed

text \<open>The parameters that \<open>RingInitialize\<close> sets and \<open>RingWrite\<close> never changes.\<close>

definition of_config :: "ring_config \<Rightarrow> u32 \<Rightarrow> param_s \<Rightarrow> bool" where
  "of_config cfg h p \<longleftrightarrow> version p = RING_VERSION \<and> ringsize p = cf_ringsize cfg \<and>
     pktsize p = cf_pktsize cfg \<and> maxpackets p = init_maxpackets cfg h \<and>
     maxoffset p = init_maxoffset cfg h \<and> headersize p = h"

lemma RingInitialize_reset:
  assumes vol: "volatilering cfg \<or> names_given env \<and> open_ok env \<and> stat_ok env \<and> f_size env = 0 \<and>
      seek_ok env \<and> write_ok env \<and> (memorymapring cfg \<longrightarrow> mmap_ok env)"
    and env: "buffer_ok env" "tree_ok env" "slots_of (cf_pktsize cfg) (junk_slots env)"
    and pg: "int RBV3_HEADERSIZE \<le> pagesize env" "pagesize env < 2 ^ 32"
    and fit: "config_fits cfg (of_int (pagesize env))"
  shows "\<exists>p'. RingInitialize cfg env p = Some (0, p') \<and>
    (streamcount p = 0 \<longrightarrow> ring_inv p' \<and> ring_queue p' = []) \<and>
    streamidx p' = Map.empty \<and> streamcount p' = streamcount p \<and>
    nslots p' = uint (init_maxpackets cfg (of_int (pagesize env))) \<and> pktsize p' = cf_pktsize cfg \<and>
    of_config cfg (of_int (pagesize env)) p'"
proof -
  let ?h = "of_int (pagesize env) :: u32"
  let ?p' = "reset_ring cfg (init_maxpackets cfg ?h) (init_maxoffset cfg ?h) ?h (load_header (junk_header env)
       (p\<lparr>streamidx := Map.empty, ringmem := junk_slots env, config_pktsize := cf_pktsize cfg\<rparr>))"
  have "120 \<le> uint (cf_pktsize cfg)" "uint ?h + 2 * uint (cf_pktsize cfg) \<le> uint (cf_ringsize cfg)"
    "0 \<le> uint ?h" using fit by (simp_all add: config_fits_def)
  then have R: "uint (cf_ringsize cfg) \<noteq> 0" by linarith
  have "0 \<le> (uint (init_maxpackets cfg ?h) - 1) * uint (cf_pktsize cfg)"
    using init_geometry(3) [OF fit] by simp
  then have "\<not> init_maxoffset cfg ?h < -1" using init_geometry(2) [OF fit] by linarith
  then have "init_param cfg env (init_maxpackets cfg ?h) (init_maxoffset cfg ?h) ?h True (junk_header env)
      (junk_slots env) p = (0, ?p')"
    using env(2) by (simp add: init_param_def Let_def ring_corrupt_def end_corrupt_def reset_ring_def)
  moreover have "\<exists>ri rep. open_ring_file cfg env ?h = Inr (ri, rep) \<and>
      map_ring_file cfg env ri = Inr (True, junk_header env, junk_slots env)"
  proof (cases "volatilering cfg")
    case True
    then show ?thesis using env(1)
      by (intro exI [of _ False]) (simp add: open_ring_file_def map_ring_file_def)
  next
    case False
    have "\<not> 0 > uint (cf_ringsize cfg)" by simp
    then have "open_ring_file cfg env ?h = Inr (True, False)"
      using False vol R by (simp add: open_ring_file_def Let_def)
    then show ?thesis using False vol env(1)
      by (intro exI [of _ True] exI [of _ False]) (simp add: map_ring_file_def)
  qed
  moreover have "volatilering cfg \<or> names_given env" using vol by auto
  ultimately have "RingInitialize cfg env p = Some (0, ?p')"
    using RingInitialize_eval [OF _ pg fit refl] by metis
  moreover have geom: "ring_geom ?p'" "nslots ?p' = uint (init_maxpackets cfg ?h)"
    using init_geom [OF fit, of ?p'] by (simp_all add: reset_ring_def load_header_def)
  moreover have "length (payload (ringmem ?p' x)) = payload_room ?p'" for x
    using env(3) by (simp add: slots_of_def reset_ring_def load_header_def payload_room_def slotsize_def)
  then have "streamcount p = 0 \<longrightarrow> ring_inv ?p' \<and> ring_queue ?p' = []"
    using empty_ring_inv [OF geom(1)] by (simp_all add: reset_ring_def load_header_def)
  moreover have "streamidx ?p' = Map.empty" "streamcount ?p' = streamcount p"
    by (simp_all add: reset_ring_def load_header_def)
  moreover have "pktsize ?p' = cf_pktsize cfg" "of_config cfg ?h ?p'"
    by (simp_all add: reset_ring_def of_config_def)
  ultimately show ?thesis by blast
qed

lemma RingInitialize_new:
  assumes vol: "volatilering cfg \<or> names_given env \<and> open_ok env \<and> stat_ok env \<and> f_size env = 0 \<and>
      seek_ok env \<and> write_ok env \<and> (memorymapring cfg \<longrightarrow> mmap_ok env)"
    and env: "buffer_ok env" "tree_ok env" "slots_of (cf_pktsize cfg) (junk_slots env)"
    and pg: "int RBV3_HEADERSIZE \<le> pagesize env" "pagesize env < 2 ^ 32"
    and fit: "config_fits cfg (of_int (pagesize env))" and cnt: "streamcount p = 0"
  shows "\<exists>p'. RingInitialize cfg env p = Some (0, p') \<and> ring_inv p' \<and> ring_queue p' = [] \<and>
    nslots p' = uint (init_maxpackets cfg (of_int (pagesize env))) \<and> pktsize p' = cf_pktsize cfg \<and>
    of_config cfg (of_int (pagesize env)) p'"
  using RingInitialize_reset [OF vol env pg fit, of p] cnt by auto

section \<open>Every stream is filed under the key of its identifier\<close>

definition index_keyed :: "(u64 \<rightharpoonup> RingStream) \<Rightarrow> bool" where
  "index_keyed idx \<longleftrightarrow> (\<forall>k st. idx k = Some st \<longrightarrow> FNVhash64 (Some (st_streamid st)) = k)"

lemma index_keyed_upd:
  "index_keyed idx \<Longrightarrow> FNVhash64 (Some (st_streamid st)) = k \<Longrightarrow> index_keyed (idx(k \<mapsto> st))"
  by (simp add: index_keyed_def)

lemma index_keyed_del: "index_keyed idx \<Longrightarrow> index_keyed (idx(k := None))"
  by (simp add: index_keyed_def)

lemma RingWrite_evict_keyed:
  "index_keyed (streamidx p) \<Longrightarrow> index_keyed (streamidx (snd (RingWrite_evict p x)))"
  by (auto simp: RingWrite_evict_def Let_def index_defs index_keyed_def split: option.splits)

lemma RingWrite_store_keyed:
  assumes "index_keyed (streamidx p)"
  shows "index_keyed (streamidx (snd (RingWrite_store ok e p h d)))"
proof (cases "streamidx p (FNVhash64 (Some (streamid h)))")
  case None
  then show ?thesis using assms
    by (cases ok) (auto simp: RingWrite_store_def Let_def index_defs new_stream_def intro: index_keyed_upd)
next
  case (Some st)
  then have "FNVhash64 (Some (st_streamid st)) = FNVhash64 (Some (streamid h))"
    using assms by (simp add: index_keyed_def)
  then show ?thesis using assms Some
    by (auto simp: RingWrite_store_def Let_def index_defs intro: index_keyed_upd)
qed

lemma RingWrite_keyed:
  assumes "index_keyed (streamidx p)" "RingWrite ok now p h d n = (rv, p', h')"
  shows "index_keyed (streamidx p')"
proof -
  obtain ok1 p1 where ev: "RingWrite_evict p (fst (RingWrite_next p)) = (ok1, p1)" by fastforce
  have k1: "index_keyed (streamidx p1)"
    using RingWrite_evict_keyed [OF assms(1), of "fst (RingWrite_next p)"] ev by simp
  show ?thesis
  proof (cases "sizeof_RingPacket + unat n > unat (pktsize p) \<or> \<not> ok1")
    case True
    then show ?thesis using assms ev k1
      by (auto simp: RingWrite_def Let_def split: prod.splits if_splits)
  next
    case False
    then obtain h1 where "RingWrite_store ok (earliestoffset p < 0) p1 h1 (take (unat n) d) = (rv, p')"
      using assms(2) ev by (auto simp: RingWrite_def Let_def split: prod.splits if_splits)
    then show ?thesis using RingWrite_store_keyed [OF k1] by (metis snd_conv)
  qed
qed

lemma RingWrite_evict_params:
  "of_config cfg hs (snd (RingWrite_evict p x)) = of_config cfg hs p"
  by (auto simp: RingWrite_evict_def of_config_def Let_def split: option.splits)

lemma RingWrite_store_params:
  "of_config cfg hs (snd (RingWrite_store ok e p h d)) = of_config cfg hs p"
  by (auto simp: RingWrite_store_def of_config_def Let_def split: option.splits)

lemma RingWrite_params:
  assumes "RingWrite ok now p h d n = (rv, p', h')"
  shows "of_config cfg hs p' = of_config cfg hs p"
proof -
  obtain ok1 p1 where ev: "RingWrite_evict p (fst (RingWrite_next p)) = (ok1, p1)" by fastforce
  have k1: "of_config cfg hs p1 = of_config cfg hs p"
    using RingWrite_evict_params [of cfg hs p "fst (RingWrite_next p)"] ev by simp
  show ?thesis
  proof (cases "sizeof_RingPacket + unat n > unat (pktsize p) \<or> \<not> ok1")
    case True
    then show ?thesis using assms ev k1
      by (auto simp: RingWrite_def Let_def split: prod.splits if_splits)
  next
    case False
    then obtain h1 where "RingWrite_store ok (earliestoffset p < 0) p1 h1 (take (unat n) d) = (rv, p')"
      using assms ev by (auto simp: RingWrite_def Let_def split: prod.splits if_splits)
    then show ?thesis using RingWrite_store_params k1 by (metis snd_conv)
  qed
qed

section \<open>Closing and opening again\<close>

lemma load_streams_eval:
  "load_streams (map (\<lambda>st. (st, True)) xs) p c =
   (p\<lparr>streamidx := fold (\<lambda>st idx. UpdStreamIdx idx (st_streamid st) st) xs (streamidx p),
      streamcount := streamcount p + of_nat (length xs)\<rparr>, c)"
  by (induction xs arbitrary: p) (simp_all add: AddStreamIdx_Upd add.assoc)

lemma fold_index:
  assumes "index_keyed idx" "set ks \<subseteq> dom idx"
  shows "fold (\<lambda>st idx. UpdStreamIdx idx (st_streamid st) st) (map (the \<circ> idx) ks) m = m ++ (idx |` set ks)"
  using assms(2)
proof (induction ks arbitrary: m)
  case (Cons k ks)
  then obtain st where st: "idx k = Some st" by auto
  then have key: "FNVhash64 (Some (st_streamid st)) = k" using assms(1) by (simp add: index_keyed_def)
  have "m(k \<mapsto> st) ++ idx |` set ks = m ++ idx |` set (k # ks)"
    using st by (intro ext) (auto simp: map_add_def restrict_map_def split: option.splits)
  moreover have "UpdStreamIdx m (st_streamid st) st = m(k \<mapsto> st)"
    by (simp only: UpdStreamIdx_def key)
  ultimately show ?case using Cons.IH [of "m(k \<mapsto> st)"] Cons.prems st
    by (simp del: fun_upd_apply)
qed simp

lemma streams_round_trip:
  assumes "index_keyed idx" "finite (dom idx)"
  shows "fold (\<lambda>st idx. UpdStreamIdx idx (st_streamid st) st) (RBBuildStack idx) Map.empty = idx"
    "length (RBBuildStack idx) = card (dom idx)"
  using assms fold_index [OF assms(1), of "sorted_list_of_set (dom idx)" Map.empty]
  by (simp_all add: RBBuildStack_def restrict_map_def fun_eq_iff dom_def map_add_def split: option.splits)

lemma index_has_stream:
  assumes "ring_inv p" "x \<in> set (live p)"
  shows "GetStreamIdx (streamidx p) (streamid (PACKETPTR p x)) \<noteq> None"
proof -
  let ?k = "key_of (PACKETPTR p x)"
  have "PACKETPTR p x \<in> set (of_key ?k (ring_hdrs p))"
    using assms(2) by (simp add: of_key_set ring_hdrs_def)
  moreover have "entry_for (of_key ?k (ring_hdrs p)) (streamidx p ?k)"
    using ring_invD(3) [OF assms(1)] by (simp add: index_ok_def)
  ultimately have "streamidx p ?k \<noteq> None" by (cases "streamidx p ?k") auto
  then show ?thesis by (simp add: GetStreamIdx_def key_of_def)
qed

lemma ring_not_corrupt:
  assumes inv: "ring_inv p" shows "\<not> ring_corrupt p False"
proof (cases "latestoffset p < 0")
  case True
  have "0 \<le> maxoffset p" using ring_geomD(1,3,4) [OF ring_invD(1) [OF inv]] by simp
  then show ?thesis using True ring_invD(11) [OF inv True]
    by (simp add: ring_corrupt_def end_corrupt_def)
next
  case False
  note g = ring_invD(1) [OF inv] and v = ring_invD(12,13) [OF inv False]
  have "earliestoffset p \<in> set (live p)" "latestoffset p \<in> set (live p)"
    using live_hd_last [OF g v] hd_in_set last_in_set by metis+
  then have "\<not> end_corrupt p (earliestoffset p)" "\<not> end_corrupt p (latestoffset p)"
    using ring_invD(7) [OF inv] index_has_stream [OF inv] by (auto simp: end_corrupt_def)
  then show ?thesis using v by (simp add: ring_corrupt_def valid_off_def)
qed

definition shutdown_works :: "shutdown_env \<Rightarrow> bool" where
  "shutdown_works env \<longleftrightarrow> sd_args_ok env \<and> sd_open_ok env \<and> (\<forall>i. sd_write_ok env i) \<and> sd_close_ok env \<and>
     sd_unmap_ok env \<and> sd_seek_ok env \<and> sd_ring_write_ok env \<and> sd_ring_close_ok env"

text \<open>The environment of a start that finds the files of a shutdown and meets no failure.\<close>

definition restart_env ::
  "ring_config \<Rightarrow> init_env \<Rightarrow> RingStream list \<Rightarrow> byte list \<Rightarrow> memory \<Rightarrow> bool" where
  "restart_env cfg env streams header slots \<longleftrightarrow>
     names_given env \<and> open_ok env \<and> stat_ok env \<and> mmap_ok env \<and> buffer_ok env \<and> read_ok env \<and>
     tree_ok env \<and> s_open_ok env \<and> s_stat_ok env \<and> \<not> s_read_error env \<and>
     f_size env = uint (cf_ringsize cfg) \<and> f_header env = header \<and> f_slots env = slots \<and>
     s_records env = map (\<lambda>st. (st, True)) streams \<and> (streams \<noteq> [] \<longrightarrow> 0 < s_size env)"

lemma RingShutdown_eval:
  assumes "shutdown_works env" "\<not> volatilering cfg"
  shows "RingShutdown cfg env header p = (0, RBBuildStack (streamidx p), Some (store_header p header, ringmem p))"
  using assms by (simp add: RingShutdown_def shutdown_works_def Let_def split_def)

lemma empty_index:
  assumes "ring_inv p" "latestoffset p < 0"
  shows "streamidx p = Map.empty" "streamcount p = 0"
proof -
  show e: "streamidx p = Map.empty"
  proof
    fix k
    have "entry_for (of_key k (ring_hdrs p)) (streamidx p k)"
      using ring_invD(3) [OF assms(1)] by (simp add: index_ok_def)
    then show "streamidx p k = None"
      using live_empty [OF assms(2)] by (cases "streamidx p k") (simp_all add: ring_hdrs_def)
  qed
  show "streamcount p = 0" using ring_invD(5) [OF assms(1)] e by simp
qed

lemma restart_same:
  assumes inv: "ring_inv p" and keyed: "index_keyed (streamidx p)"
    and cfg: "of_config cfg h p" "h = of_int (pagesize env)" "config_fits cfg h" "\<not> volatilering cfg"
    and pg: "int RBV3_HEADERSIZE \<le> pagesize env" "pagesize env < 2 ^ 32"
    and hd: "RBV3_HEADERSIZE \<le> length header"
    and env: "restart_env cfg env (RBBuildStack (streamidx p)) (store_header p header) (ringmem p)"
    and p0: "streamcount p0 = 0"
  shows "RingInitialize cfg env p0 = Some (0, p)"
proof -
  let ?header = "store_header p header"
  note g = ring_geomD [OF ring_invD(1) [OF inv]]
  have "0 \<le> (nslots p - 1) * slotsize p" using g(1,4) by simp
  then have "0 \<le> maxoffset p" using g(3) by simp
  then have range: "- (2 ^ 63) \<le> maxoffset p" "maxoffset p < 2 ^ 63"
      "- (2 ^ 63) \<le> earliestoffset p" "earliestoffset p < 2 ^ 63"
      "- (2 ^ 63) \<le> latestoffset p" "latestoffset p < 2 ^ 63"
    using g(1,6) ring_invD(11-13) [OF inv] ring_invD(9) [OF inv]
    by (auto simp: valid_off_def)
  note hdr = store_load_header [OF hd range]
  have opened: "open_ring_file cfg env h = Inr (False, False)"
    "map_ring_file cfg env False = Inr (False, ?header, ringmem p)"
    using env cfg(1,4) hdr
    by (simp_all add: open_ring_file_def map_ring_file_def restart_env_def of_config_def Let_def)
  let ?q = "p0\<lparr>streamidx := Map.empty, ringmem := ringmem p, config_pktsize := cf_pktsize cfg\<rparr>"
  have q: "load_header ?header ?q = p\<lparr>streamidx := Map.empty, streamcount := 0\<rparr>"
    using hdr cfg(1) g(2) p0 by (simp add: load_header_def of_config_def)
  have "streamcount p = of_nat (length (RBBuildStack (streamidx p)))"
    using streams_round_trip(2) [OF keyed ring_invD(4) [OF inv]] ring_invD(5) [OF inv] by simp
  then have loaded: "load_streams (s_records env) (p\<lparr>streamidx := Map.empty, streamcount := 0\<rparr>) False = (p, False)"
    using env streams_round_trip(1) [OF keyed ring_invD(4) [OF inv]]
    by (simp add: restart_env_def load_streams_eval)
  have "init_param cfg env (init_maxpackets cfg h) (init_maxoffset cfg h) h False ?header (ringmem p) p0 = (0, p)"
  proof (cases "latestoffset p < 0")
    case True
    then have "p\<lparr>streamidx := Map.empty, streamcount := 0\<rparr> = p"
      using empty_index [OF inv True] by simp
    then show ?thesis
      using True ring_invD(11) [OF inv True] hdr cfg(1) q env ring_not_corrupt [OF inv]
      by (simp add: init_param_def header_differs_def of_config_def restart_env_def Let_def)
  next
    case False
    have "earliestoffset p \<in> set (live p)"
      using live_hd_last [OF ring_invD(1) [OF inv] ring_invD(12,13) [OF inv False]] hd_in_set by metis
    then have "streamidx p \<noteq> Map.empty"
      using index_has_stream [OF inv] by (auto simp: GetStreamIdx_def)
    then have "RBBuildStack (streamidx p) \<noteq> []"
      using ring_invD(4) [OF inv] by (simp add: RBBuildStack_def)
    then show ?thesis
      using False ring_invD(12) [OF inv False] hdr cfg(1) q env ring_not_corrupt [OF inv] loaded
      by (simp add: init_param_def header_differs_def of_config_def restart_env_def recover_streams_def
          valid_off_def Let_def)
  qed
  then show ?thesis
    using RingInitialize_eval [OF _ pg cfg(3,2) opened] env by (simp add: restart_env_def)
qed

end
