(* ===== verification/RS_RingRuns.thy ===== *)
theory RS_RingRuns
  imports RS_RingInit
begin

text \<open>
  Runs of the ring: every outcome of one \<open>RingWrite\<close>, sequences of writes, and what a reader that
  follows the writers gets.
\<close>

section \<open>Every outcome of RingWrite\<close>

lemma store_found:
  "streamidx p (key_of h) \<noteq> None \<Longrightarrow> RingWrite_store ok we p h data = RingWrite_store True we p h data"
  by (auto simp: RingWrite_store_def index_defs key_of_def)

lemma RingWrite_too_large:
  "unat (pktsize p) < sizeof_RingPacket + unat n \<Longrightarrow> RingWrite ok now p h data n = (-1, p, h)"
  by (simp add: RingWrite_def)

text \<open>The packet handed to the last part of the routine has the stream of the caller's packet.\<close>

lemma RingWrite_unfold:
  assumes inv: "ring_inv p" and fits: "sizeof_RingPacket + unat n \<le> unat (pktsize p)"
  shows "\<exists>p1 h1. ring_inv p1 \<and> key_of h1 = key_of h \<and>
    ring_queue p1 = (if length (ring_queue p) = nat (nslots p) then tl (ring_queue p) else ring_queue p) \<and>
    (\<forall>ok. RingWrite ok now p h data n =
       (let (rv, p2) = RingWrite_store ok (earliestoffset p < 0) p1 h1 (take (unat n) data) in (rv, p2, h1)))"
proof -
  define x where "x = fst (RingWrite_next p)"
  define h1 where "h1 = h\<lparr>pktid := (if pktid h = RINGID_NONE then snd (RingWrite_next p) else pktid h),
      offset := x, pkttime := now, nextinstream := -1\<rparr>"
  obtain p1 where p1: "RingWrite_evict p x = (True, p1)" "ring_inv p1"
    "ring_queue p1 = (if length (ring_queue p) = nat (nslots p) then tl (ring_queue p) else ring_queue p)"
    using evict_inv [OF inv x_def] by blast
  have "RingWrite ok now p h data n =
      (let (rv, p2) = RingWrite_store ok (earliestoffset p < 0) p1 h1 (take (unat n) data) in (rv, p2, h1))" for ok
    using fits p1(1) by (simp add: RingWrite_def h1_def x_def Let_def split_def)
  moreover have "key_of h1 = key_of h" by (simp add: h1_def key_of_def)
  ultimately show ?thesis using p1(2,3) by blast
qed

lemma key_in_queue:
  assumes inv: "ring_inv p" and none: "streamidx p k = None" and a: "a \<in> set (ring_queue p)"
  shows "FNVhash64 (Some (a_streamid a)) \<noteq> k"
proof
  assume k: "FNVhash64 (Some (a_streamid a)) = k"
  obtain x where x: "x \<in> set (live p)" "a = abs_slot (ringmem p x)" using a by (auto simp: ring_queue_def)
  then have "key_of (PACKETPTR p x) = k" using k by (simp add: key_of_def abs_slot_def PACKETPTR_def)
  then show False using index_has_stream [OF inv x(1)] none by (simp add: GetStreamIdx_def key_of_def)
qed

lemma RingWrite_any:
  assumes inv: "ring_inv p" and len: "unat (datasize h) \<le> length data" "length (streamid h) < MAXSTREAMID"
    and wr: "RingWrite ok now p h data (datasize h) = (rv, p', h')"
  shows "ring_inv p' \<and>
    (rv = -1 \<and> unat (pktsize p) < sizeof_RingPacket + unat (datasize h) \<and> p' = p \<or>
     rv = 0 \<and> ring_queue p' = fifo_push (nat (nslots p)) (ring_queue p) (written p now h data) \<or>
     rv = -2 \<and> \<not> ok \<and>
       ring_queue p' = (if length (ring_queue p) = nat (nslots p) then tl (ring_queue p) else ring_queue p) \<and>
       (\<forall>a \<in> set (ring_queue p'). FNVhash64 (Some (a_streamid a)) \<noteq> FNVhash64 (Some (streamid h))))"
proof (cases "unat (pktsize p) < sizeof_RingPacket + unat (datasize h)")
  case True
  then show ?thesis using wr inv RingWrite_too_large [OF True] by simp
next
  case False
  then have fits: "sizeof_RingPacket + unat (datasize h) \<le> unat (pktsize p)" by simp
  obtain p1 h1 where p1: "ring_inv p1" "key_of h1 = key_of h"
    "ring_queue p1 = (if length (ring_queue p) = nat (nslots p) then tl (ring_queue p) else ring_queue p)"
    and un: "\<And>ok. RingWrite ok now p h data (datasize h) =
       (let (rv, p2) = RingWrite_store ok (earliestoffset p < 0) p1 h1 (take (unat (datasize h)) data)
        in (rv, p2, h1))"
    using RingWrite_unfold [OF inv fits, of h now data] by blast
  show ?thesis
  proof (cases "ok \<or> streamidx p1 (key_of h1) \<noteq> None")
    case True
    then have "RingWrite ok now p h data (datasize h) = RingWrite True now p h data (datasize h)"
      using un [of ok] un [of True] store_found [of p1 h1 ok] by auto
    then show ?thesis using RingWrite_ok [OF inv fits len, of now] wr by auto
  next
    case False
    then have "RingWrite ok now p h data (datasize h) = (-2, p1, h1)"
      using un [of False] store_no_memory [of p1 h1] by simp
    then show ?thesis
      using wr p1 False key_in_queue [OF p1(1), of "key_of h1"] by (auto simp: key_of_def)
  qed
qed

section \<open>Sequences of writes\<close>

text \<open>
  Writers hold the ring lock, so concurrent writes are a sequence of calls.  A call is given by the
  time, the caller's packet and its data.
\<close>

type_synonym call = "nstime \<times> RingPacket \<times> byte list"

fun write_all :: "param_s \<Rightarrow> call list \<Rightarrow> int list \<times> param_s" where
  "write_all p [] = ([], p)"
| "write_all p ((now, h, data) # ws) =
     (let (rv, p1, _) = RingWrite True now p h data (datasize h);
          (rvs, p2) = write_all p1 ws
      in (rv # rvs, p2))"

lemma write_all_keeps:
  assumes "index_keyed (streamidx p)" "of_config cfg hs p"
  shows "index_keyed (streamidx (snd (write_all p ws))) \<and> of_config cfg hs (snd (write_all p ws))"
  using assms
proof (induction ws arbitrary: p)
  case (Cons w ws)
  obtain now h data where w: "w = (now, h, data)" by (cases w)
  obtain rv p1 h1 where wr: "RingWrite True now p h data (datasize h) = (rv, p1, h1)"
    by (metis prod_cases3)
  show ?case
    using Cons.IH [of p1] Cons.prems RingWrite_keyed [OF Cons.prems(1) wr] RingWrite_params [OF wr, of cfg hs] wr
    by (simp add: w split_def Let_def)
qed simp

definition call_ok :: "param_s \<Rightarrow> call \<Rightarrow> bool" where
  "call_ok p = (\<lambda>(now, h, data). sizeof_RingPacket + unat (datasize h) \<le> unat (pktsize p) \<and>
     unat (datasize h) \<le> length data \<and> length (streamid h) < MAXSTREAMID)"

text \<open>What the calls append, from the identifier \<open>id\<close> on that the first of them would assign.\<close>

definition id_after :: "u64 \<Rightarrow> u64" where
  "id_after i = (if i + 1 > RINGID_MAXIMUM then 1 else i + 1)"

fun log_from :: "u64 \<Rightarrow> call list \<Rightarrow> packet list" where
  "log_from i [] = []"
| "log_from i ((now, h, data) # ws) =
     (let j = (if pktid h = RINGID_NONE then i else pktid h)
      in \<lparr>a_pktid = j, a_pkttime = now, a_datastart = datastart h, a_dataend = dataend h,
          a_streamid = streamid h, a_data = take (unat (datasize h)) data\<rparr> # log_from (id_after j) ws)"

definition last_n :: "nat \<Rightarrow> 'a list \<Rightarrow> 'a list" where
  "last_n n xs = drop (length xs - n) xs"

lemma length_log_from [simp]: "length (log_from i ws) = length ws"
  by (induction i ws rule: log_from.induct) (auto simp: Let_def)

lemma fifo_push_last_n:
  "0 < n \<Longrightarrow> length q \<le> n \<Longrightarrow> fifo_push n q x = last_n n (q @ [x])"
  by (cases q) (auto simp: fifo_push_def last_n_def)

lemma last_n_append: "last_n n (last_n n q @ xs) = last_n n (q @ xs)"
  by (cases "length q \<le> n") (simp_all add: last_n_def add.commute)

lemma next_id_push: "next_id (fifo_push n q a) = id_after (a_pktid a)"
  by (simp add: next_id_def fifo_push_def id_after_def Let_def)

lemma queue_le: "ring_inv p \<Longrightarrow> length (ring_queue p) \<le> nat (nslots p)"
  using length_live_le [OF ring_invD(1)] by (fastforce simp: length_ring_queue)

lemma nslots_cong: "maxoffset p' = maxoffset p \<Longrightarrow> pktsize p' = pktsize p \<Longrightarrow> nslots p' = nslots p"
  by (simp add: nslots_def slotsize_def)

lemma write_all_queue:
  assumes "ring_inv p" "\<forall>w \<in> set ws. call_ok p w"
  shows "\<exists>p'. write_all p ws = (replicate (length ws) 0, p') \<and> ring_inv p' \<and>
    ring_queue p' = last_n (nat (nslots p)) (ring_queue p @ log_from (next_id (ring_queue p)) ws) \<and>
    maxoffset p' = maxoffset p \<and> pktsize p' = pktsize p"
  using assms
proof (induction ws arbitrary: p)
  case Nil
  then show ?case using queue_le [OF Nil(1)] by (simp add: last_n_def)
next
  case (Cons w ws)
  obtain now h data where w: "w = (now, h, data)" by (cases w)
  have ok: "sizeof_RingPacket + unat (datasize h) \<le> unat (pktsize p)" "unat (datasize h) \<le> length data"
    "length (streamid h) < MAXSTREAMID"
    using Cons.prems(2) by (auto simp: w call_ok_def)
  let ?a = "written p now h data"
  obtain p1 h1 where wr: "RingWrite True now p h data (datasize h) = (0, p1, h1)" and inv1: "ring_inv p1"
    and q1: "ring_queue p1 = fifo_push (nat (nslots p)) (ring_queue p) ?a"
    and same: "maxoffset p1 = maxoffset p" "pktsize p1 = pktsize p"
    using RingWrite_ok [OF Cons.prems(1) ok, of now] by blast
  have N: "nslots p1 = nslots p" by (rule nslots_cong [OF same])
  have "\<forall>w \<in> set ws. call_ok p1 w" using Cons.prems(2) same(2) by (auto simp: call_ok_def)
  then obtain p' where p': "write_all p1 ws = (replicate (length ws) 0, p')" "ring_inv p'"
    "ring_queue p' = last_n (nat (nslots p)) (ring_queue p1 @ log_from (next_id (ring_queue p1)) ws)"
    "maxoffset p' = maxoffset p1" "pktsize p' = pktsize p1"
    using Cons.IH [OF inv1] N by auto
  have "0 < nat (nslots p)" using ring_geomD(4) [OF ring_invD(1) [OF Cons.prems(1)]] by simp
  then have "ring_queue p1 = last_n (nat (nslots p)) (ring_queue p @ [?a])"
    using fifo_push_last_n queue_le [OF Cons.prems(1)] q1 by simp
  moreover have "next_id (ring_queue p1) = id_after (a_pktid ?a)" by (simp add: q1 next_id_push)
  moreover have "log_from (next_id (ring_queue p)) (w # ws) = ?a # log_from (id_after (a_pktid ?a)) ws"
    by (simp add: w written_def Let_def)
  ultimately show ?case using p' wr same by (simp add: w last_n_append)
qed

section \<open>A reader that follows the writers\<close>

definition advance :: "param_s \<Rightarrow> nat \<Rightarrow> off \<Rightarrow> off" where
  "advance p k x = ((\<lambda>x. NEXTOFFSET x (maxoffset p) (pktsize p)) ^^ k) x"

lemma advance_Suc:
  "advance p (Suc k) x = advance p k (NEXTOFFSET x (maxoffset p) (pktsize p))"
  by (simp add: advance_def funpow_Suc_right del: funpow.simps)

lemma advance_cong:
  "maxoffset p1 = maxoffset p \<Longrightarrow> pktsize p1 = pktsize p \<Longrightarrow> advance p1 = advance p"
  by (simp add: advance_def fun_eq_iff)

lemma advance_pos: "ring_geom p \<Longrightarrow> advance p k (pos p i) = pos p (i + k)"
  by (induction k) (simp_all add: advance_def pos_NEXT)

lemma valid_pos:
  assumes "ring_geom p" "valid_off p x"
  shows "\<exists>i. x = pos p i"
proof -
  obtain k where k: "0 \<le> k" "k < nslots p" "x = k * slotsize p" by (rule valid_offE [OF assms])
  let ?e = "earliestoffset p div slotsize p"
  have "0 \<le> (k - ?e) mod nslots p" using k by simp
  then have "pos p (nat ((k - ?e) mod nslots p)) = ((?e + (k - ?e)) mod nslots p) * slotsize p"
    by (simp add: pos_def mod_simps)
  then show ?thesis using k by (metis add.commute diff_add_cancel mod_pos_pos_trivial)
qed

lemma advance_inj:
  assumes "ring_geom p" "advance p k (pos p i) = advance p k (pos p j)"
  shows "pos p i = pos p j"
  using assms(2)
proof (induction k arbitrary: i j)
  case (Suc k)
  have "advance p k (pos p (Suc i)) = advance p k (pos p (Suc j))"
    using Suc.prems advance_pos [OF assms(1)] by simp
  then have "pos p (Suc i) = pos p (Suc j)" by (rule Suc.IH)
  then show ?case using pos_PREV(1) [OF assms(1)] by metis
qed (simp add: advance_def)

lemma write_all_latest:
  assumes "ring_inv p" "\<forall>w \<in> set ws. call_ok p w" "0 \<le> latestoffset p"
  shows "latestoffset (snd (write_all p ws)) = advance p (length ws) (latestoffset p)"
  using assms
proof (induction ws arbitrary: p)
  case (Cons w ws)
  obtain now h data where w: "w = (now, h, data)" by (cases w)
  have ok: "sizeof_RingPacket + unat (datasize h) \<le> unat (pktsize p)" "unat (datasize h) \<le> length data"
    "length (streamid h) < MAXSTREAMID"
    using Cons.prems(2) by (auto simp: w call_ok_def)
  obtain p1 h1 where wr: "RingWrite True now p h data (datasize h) = (0, p1, h1)" and inv1: "ring_inv p1"
    and same: "maxoffset p1 = maxoffset p" "pktsize p1 = pktsize p"
    and lat: "latestoffset p1 = fst (RingWrite_next p)"
    using RingWrite_ok [OF Cons.prems(1) ok, of now] by blast
  have next1: "latestoffset p1 = NEXTOFFSET (latestoffset p) (maxoffset p) (pktsize p)"
    using write_next_eval [OF Cons.prems(1)] Cons.prems(3) lat by simp
  have "valid_off p (latestoffset p)" using ring_invD(13) [OF Cons.prems(1)] Cons.prems(3) by simp
  then have "0 \<le> latestoffset p1"
    using next_valid [OF ring_invD(1) [OF Cons.prems(1)]] next1 by (simp add: valid_off_def)
  moreover have "\<forall>w \<in> set ws. call_ok p1 w" using Cons.prems(2) same(2) by (auto simp: call_ok_def)
  ultimately have "latestoffset (snd (write_all p1 ws)) = advance p1 (length ws) (latestoffset p1)"
    using Cons.IH inv1 by blast
  then show ?case using wr next1 advance_cong [OF same]
    by (simp add: w split_def Let_def advance_Suc)
qed (simp add: advance_def)

lemma log_from_times [simp]: "map a_pkttime (log_from i ws) = map fst ws"
  by (induction i ws rule: log_from.induct) (auto simp: Let_def)

lemma sorted_times_ok:
  assumes inv: "ring_inv p" and s: "sorted (map a_pkttime (ring_queue p))"
  shows "times_ok p"
  unfolding times_ok_def
proof
  fix x assume x: "x \<in> set (live p)"
  then have ne: "\<not> latestoffset p < 0" using live_empty by fastforce
  obtain i where i: "i < length (live p)" "x = live p ! i" using x by (metis in_set_conv_nth)
  have "map a_pkttime (ring_queue p) ! i \<le> map a_pkttime (ring_queue p) ! (length (live p) - 1)"
    using s i(1) by (intro sorted_nth_mono) (auto simp: length_ring_queue)
  then show "pkttime (PACKETPTR p x) \<le> pkttime (PACKETPTR p (latestoffset p))"
    using i live_ends(1,3) [OF inv ne] live_pos [OF inv, of "length (live p) - 1"]
    by (simp add: ring_queue_def abs_slot_def PACKETPTR_def)
qed

lemma reader_follows:
  assumes inv: "ring_inv p" and ok: "\<forall>w \<in> set ws. call_ok p w" and ne: "0 \<le> latestoffset p"
    and few: "int (length ws) < nslots p" and at: "pktoffset rd = latestoffset p"
    and clock: "sorted (map a_pkttime (ring_queue p) @ map fst ws)"
    and fuel: "nat (nslots p) < fuel"
  defines "p' \<equiv> snd (write_all p ws)"
  shows "read_all fuel (Suc (nat (nslots p))) p' pm rd =
    filter (\<lambda>a. selects pm rd (a_streamid a)) (log_from (next_id (ring_queue p)) ws)"
proof -
  let ?L = "log_from (next_id (ring_queue p)) ws" and ?N = "nat (nslots p)"
  have inv': "ring_inv p'" and q': "ring_queue p' = last_n ?N (ring_queue p @ ?L)"
    and same: "maxoffset p' = maxoffset p" "pktsize p' = pktsize p"
    using write_all_queue [OF inv ok] by (auto simp: p'_def)
  note g' = ring_invD(1) [OF inv'] and N = nslots_cong [OF same]
  have Q: "0 < length (ring_queue p)" using live_ends(1) [OF inv] ne by (simp add: length_ring_queue)
  have len: "length (live p') = min ?N (length (ring_queue p) + length ws)"
    using arg_cong [OF q', of length] by (simp add: length_ring_queue last_n_def) arith
  define j where "j = length (live p') - 1 - length ws"
  have j: "j + length ws = length (live p') - 1" "Suc j = length (live p') - length ws" "j < length (live p')"
  proof -
    have "length ws < ?N" "0 < length (ring_queue p)" using few Q by auto
    then have "length ws < length (live p')" using len by simp
    then show "j + length ws = length (live p') - 1" "Suc j = length (live p') - length ws"
      "j < length (live p')" by (auto simp: j_def)
  qed
  have ne': "\<not> latestoffset p' < 0" using j(3) live_empty [of p'] by fastforce
  have vp: "valid_off p' (latestoffset p)"
    using ring_invD(13) [OF inv] ne same by (simp add: valid_off_def slotsize_def)
  obtain i where i: "latestoffset p = pos p' i" using valid_pos [OF g' vp] by blast
  have "advance p' (length ws) (pos p' i) = latestoffset p'"
    using write_all_latest [OF inv ok ne] i same by (simp add: p'_def advance_def)
  also have "\<dots> = advance p' (length ws) (pos p' j)"
    using live_ends(3) [OF inv' ne'] j(1) by (simp add: advance_pos [OF g'])
  finally have start: "starts_at p' rd (Suc j)"
    using advance_inj [OF g'] i at starts_at.after [OF j(3), of rd] by simp
  have "sorted (map a_pkttime (ring_queue p @ ?L))" using clock by simp
  then have "sorted (map a_pkttime (ring_queue p'))"
    unfolding q' last_n_def drop_map [symmetric] by (rule sorted_wrt_drop)
  then have "times_ok p'" by (rule sorted_times_ok [OF inv'])
  then have "read_all fuel (Suc ?N) p' pm rd =
      map (\<lambda>x. abs_slot (ringmem p' x)) (filter (wanted pm rd p') (drop (Suc j) (live p')))"
    using len fuel by (intro read_all_filter [OF inv' ne' _ _ start]) auto
  also have "\<dots> = filter (\<lambda>a. selects pm rd (a_streamid a)) (drop (Suc j) (ring_queue p'))"
    by (simp add: wanted_queue ring_queue_def drop_map)
  also have "drop (Suc j) (ring_queue p') = ?L"
    using j(2) len few Q by (simp add: q' last_n_def min_def split: if_splits)
  finally show ?thesis .
qed

end
