(* ===== verification/RS_RingRace.thy ===== *)
theory RS_RingRace
  imports RS_RingRuns
begin

text \<open>
  Reading without a lock.  A slot changes in small steps: a writer replaces the header (with a later
  packet time), then the payload, and may at any time rewrite the link of the header to the next
  packet of its stream.  The flag is whether a writer is between header and payload.
\<close>

section \<open>The steps of the writers on one slot\<close>

inductive wstep :: "slot \<times> bool \<Rightarrow> slot \<times> bool \<Rightarrow> bool" where
  header: "pkttime (hdr s) < pkttime h \<Longrightarrow> wstep (s, False) (s\<lparr>hdr := h\<rparr>, True)"
| payload: "wstep (s, True) (s\<lparr>payload := overlay (payload s) data\<rparr>, False)"
| link: "wstep (s, busy) (s\<lparr>hdr := (hdr s)\<lparr>nextinstream := x\<rparr>\<rparr>, busy)"

inductive_cases wstep_idleE: "wstep (s, False) t"

abbreviation wsteps :: "slot \<times> bool \<Rightarrow> slot \<times> bool \<Rightarrow> bool" where
  "wsteps \<equiv> wstep\<^sup>*\<^sup>*"

text \<open>Two states of a slot that differ in the link at most.\<close>

definition same_packet :: "slot \<Rightarrow> slot \<Rightarrow> bool" where
  "same_packet s t \<longleftrightarrow> (\<exists>x. t = s\<lparr>hdr := (hdr s)\<lparr>nextinstream := x\<rparr>\<rparr>)"

lemma same_packet_refl: "same_packet s s"
  unfolding same_packet_def by (rule exI [of _ "nextinstream (hdr s)"]) simp

lemma same_packet_trans: "same_packet s t \<Longrightarrow> same_packet t u \<Longrightarrow> same_packet s u"
  by (auto simp: same_packet_def)

lemma same_packet_abs: "same_packet s t \<Longrightarrow> abs_slot t = abs_slot s"
  by (auto simp: same_packet_def abs_slot_def)

lemma wstep_time: "wstep a b \<Longrightarrow> pkttime (hdr (fst a)) \<le> pkttime (hdr (fst b))"
  by (induction rule: wstep.induct) auto

lemma wsteps_time: "wsteps a b \<Longrightarrow> pkttime (hdr (fst a)) \<le> pkttime (hdr (fst b))"
  by (induction rule: rtranclp.induct) (auto dest: wstep_time)

text \<open>As long as the packet time stays, an idle slot stays idle and its packet the same.\<close>

lemma wsteps_idle:
  assumes "wsteps a b" "a = (s, False)"
  shows "pkttime (hdr s) < pkttime (hdr (fst b)) \<or> same_packet s (fst b) \<and> \<not> snd b"
  using assms
proof (induction rule: rtranclp_induct)
  case base
  then show ?case by (simp add: same_packet_refl)
next
  case (step b c)
  obtain t busy where b: "b = (t, busy)" by (cases b)
  show ?case
  proof (cases "pkttime (hdr s) < pkttime (hdr t)")
    case True
    then show ?thesis using wstep_time [OF step.hyps(2)] b by auto
  next
    case False
    then have t: "same_packet s t" "\<not> busy" using step b by auto
    then have "pkttime (hdr t) = pkttime (hdr s)" by (auto simp: same_packet_def)
    moreover have "wstep (t, False) c" using step.hyps(2) b t(2) by simp
    ultimately show ?thesis
      by (elim wstep_idleE) (use t in \<open>auto simp: same_packet_def\<close>)
  qed
qed

section \<open>What the reader copies\<close>

lemma copy_header_same_packet:
  "same_packet s t \<Longrightarrow> abs_slot \<lparr>hdr = copy_header p (hdr t), payload = pl\<rparr> =
     abs_slot \<lparr>hdr = copy_header p (hdr s), payload = pl\<rparr>"
  by (auto simp: same_packet_def copy_header_def abs_slot_def Let_def)

text \<open>
  If the reader's first look at an idle slot is followed by any steps of writers, the reader
  either notices (and returns none) or has copied one packet, whole.
\<close>

lemma read_not_torn:
  assumes idle: "m0 off = s" and w1: "wsteps (s, False) (m1 off, b1)"
    and w2: "wsteps (m1 off, b1) (m2 off, b2)" and w3: "wsteps (m2 off, b2) (m3 off, b3)"
    and res: "RingReadPacket_il m0 m1 m2 m3 p off buf True = (rv, packet, data)"
    and ok: "rv \<noteq> RINGID_NONE" "rv \<noteq> RINGID_ERROR"
  shows "rv = pktid (hdr s) \<and>
    as_packet packet (the data) = abs_slot \<lparr>hdr = copy_header p (hdr s), payload = payload s\<rparr>"
proof -
  have off: "0 \<le> off" "off \<le> maxoffset p"
    using res ok by (auto simp: RingReadPacket_il_def split: if_splits)
  then have same: "pkttime (hdr s) = pkttime (hdr (m3 off))"
    and rv: "rv = pktid (copy_header p (hdr (m1 off)))" "packet = copy_header p (hdr (m1 off))"
      "data = Some (take (unat (datasize (copy_header p (hdr (m1 off))))) (payload (m2 off)))"
    using res ok idle by (auto simp: RingReadPacket_il_def Let_def split: if_splits)
  note w13 = rtranclp_trans [OF w2 w3]
  have "pkttime (hdr (m1 off)) \<le> pkttime (hdr s)" "pkttime (hdr (m2 off)) \<le> pkttime (hdr s)"
    using wsteps_time [OF w13] wsteps_time [OF w3] same by simp_all
  then have m1: "same_packet s (m1 off)" and m2: "same_packet s (m2 off)"
    using wsteps_idle [OF w1 refl] wsteps_idle [OF rtranclp_trans [OF w1 w2] refl] by auto
  have p2: "payload (m2 off) = payload s" using m2 by (auto simp: same_packet_def)
  have "datasize (copy_header p (hdr (m1 off))) = datasize (copy_header p (hdr s))"
    using m1 by (auto simp: same_packet_def copy_header_def Let_def)
  then show ?thesis
    using m1 rv p2 copy_header_same_packet [OF m1, of p "payload s"]
    by (auto simp: as_packet_def abs_slot_def same_packet_def)
qed

section \<open>RingWrite takes these steps\<close>

lemma wsteps_store_mem:
  assumes "pkttime (hdr (m (offset h))) < pkttime h" "po \<noteq> offset h"
  shows "wsteps (m x, False) (store_mem m po h data x, False)"
proof (cases "x = offset h")
  case True
  have "wstep (m x, False) ((m x)\<lparr>hdr := h\<rparr>, True)" using assms(1) True by (intro wstep.header) simp
  moreover have "wstep ((m x)\<lparr>hdr := h\<rparr>, True)
      ((m x)\<lparr>hdr := h, payload := overlay (payload (m x)) data\<rparr>, False)"
    using wstep.payload [of "(m x)\<lparr>hdr := h\<rparr>" data] by simp
  moreover have "store_mem m po h data x = (m x)\<lparr>hdr := h, payload := overlay (payload (m x)) data\<rparr>"
    using assms(2) True by (simp add: store_mem_new)
  ultimately show ?thesis by (metis r_into_rtranclp rtranclp.rtrancl_into_rtrancl)
next
  case False
  then have "store_mem m po h data x = m x \<or>
      store_mem m po h data x = (m x)\<lparr>hdr := (hdr (m x))\<lparr>nextinstream := offset h\<rparr>\<rparr>"
    by (simp add: store_mem_def Let_def)
  then show ?thesis using wstep.link [of "m x" False "offset h"] by auto
qed


lemma write_target_fresh:
  assumes inv: "ring_inv p" and x: "write_target p x"
  shows "0 \<le> x" "x \<notin> set (live p)"
proof -
  let ?p' = "p\<lparr>latestoffset := x, earliestoffset := (if latestoffset p < 0 then x else earliestoffset p)\<rparr>"
  have "ring_geom ?p'" "slotsize ?p' = slotsize p" "nslots ?p' = nslots p"
    using ring_invD(1) [OF inv] by (simp_all add: ring_geom_def slotsize_def nslots_def)
  then show "0 \<le> x" "x \<notin> set (live p)"
    using write_target_live(1,2) [OF inv x, of ?p'] by (auto simp: valid_off_def)
qed

lemma RingWrite_memory:
  assumes inv: "ring_inv p" and wr: "RingWrite ok now p h data (datasize h) = (0, p', h')"
    and later: "pkttime (PACKETPTR p (fst (RingWrite_next p))) < now"
  shows "wsteps (ringmem p x, False) (ringmem p' x, False)"
proof -
  define y where "y = fst (RingWrite_next p)"
  obtain p1 where ev: "RingWrite_evict p y = (True, p1)" and inv1: "ring_inv p1" and wt: "write_target p1 y"
    using evict_inv [OF inv y_def] by blast
  have mem1: "ringmem p1 = ringmem p"
    using ev by (auto simp: RingWrite_evict_def Let_def split: if_splits option.splits)
  define h1 where "h1 = h\<lparr>pktid := (if pktid h = RINGID_NONE then snd (RingWrite_next p) else pktid h),
      offset := y, pkttime := now, nextinstream := -1\<rparr>"
  let ?po = "st_latestoffset (stream_for p1 h1)"
  have st: "RingWrite_store ok (earliestoffset p < 0) p1 h1 (take (unat (datasize h)) data) = (0, p')"
    using wr ev by (auto simp: RingWrite_def y_def h1_def Let_def split: if_splits prod.splits)
  then have "RingWrite_store True (earliestoffset p < 0) p1 h1 (take (unat (datasize h)) data) = (0, p')"
    using store_found [of p1 h1 ok] store_no_memory [of p1 h1] by (cases ok) fastforce+
  then have "ringmem p' = store_mem (ringmem p) ?po h1 (take (unat (datasize h)) data)"
    by (auto simp: store_eval mem1)
  moreover have "?po \<noteq> offset h1"
  proof
    assume po: "?po = offset h1"
    have "0 \<le> y" "y \<notin> set (live p1)"
      using wt write_target_fresh [OF inv1 wt] by auto
    then show False using previous_packet [OF inv1, of h1] po by (cases "of_key (key_of h1) (ring_hdrs p1) = []") (auto simp: h1_def)
  qed
  moreover have "pkttime (hdr (ringmem p (offset h1))) < pkttime h1"
    using later by (simp add: h1_def y_def PACKETPTR_def)
  ultimately show ?thesis by (simp add: wsteps_store_mem)
qed

end
