(* ===== verification/RS_RingProps.thy ===== *)
theory RS_RingProps
  imports RS_RingRace
begin

text \<open>
  The properties of the ring, with a small ring on which they are instantiated: three slots of 128
  bytes behind a header page, as \<open>RingInitialize\<close> makes it.
\<close>

section \<open>A small ring\<close>

definition demo_cfg :: ring_config where
  "demo_cfg = \<lparr>volatilering = True, memorymapring = False, cf_ringsize = 4480, cf_pktsize = 128\<rparr>"

definition demo_slots :: memory where
  "demo_slots = (\<lambda>_. \<lparr>hdr = empty_packet, payload = replicate 8 0\<rparr>)"

definition demo_env :: init_env where
  "demo_env = \<lparr>names_given = True, pagesize = 4096, open_ok = True, stat_ok = True, f_size = 0,
     f_header = [], f_slots = demo_slots, truncate_ok = True, seek_ok = True, write_ok = True,
     mmap_ok = True, buffer_ok = True, read_ok = True, junk_header = replicate 4096 0,
     junk_slots = demo_slots, tree_ok = True, s_open_ok = True, s_stat_ok = True, s_size = 0,
     s_records = [], s_read_error = False\<rparr>"

definition zero_param :: param_s where
  "zero_param = \<lparr>ringmem = demo_slots, pktsize = 0, maxpackets = 0, maxoffset = 0,
     earliestoffset = 0, latestoffset = 0, streamidx = Map.empty, streamcount = 0,
     config_pktsize = 0, version = 0, ringsize = 0, headersize = 0\<rparr>"

definition demo_ring :: param_s where
  "demo_ring = snd (the (RingInitialize demo_cfg demo_env zero_param))"

text \<open>A packet without an identifier whose payload is the bytes \<open>data\<close>.\<close>

definition demo_packet :: "string \<Rightarrow> byte list \<Rightarrow> RingPacket" where
  "demo_packet sid data = \<lparr>offset = -1, pktid = RINGID_NONE, pkttime = 0, datastart = 0, dataend = 10,
     nextinstream = -1, datasize = of_nat (length data), streamid = sid\<rparr>"

lemma demo_fits: "config_fits demo_cfg 4096"
  by (simp add: config_fits_def demo_cfg_def)

lemma demo_ring:
  "ring_inv demo_ring" "ring_queue demo_ring = []" "nslots demo_ring = 3" "pktsize demo_ring = 128"
  "latestoffset demo_ring < 0"
proof -
  have "\<exists>p'. RingInitialize demo_cfg demo_env zero_param = Some (0, p') \<and> ring_inv p' \<and>
      ring_queue p' = [] \<and> nslots p' = uint (init_maxpackets demo_cfg (of_int (pagesize demo_env))) \<and>
      pktsize p' = cf_pktsize demo_cfg \<and> of_config demo_cfg (of_int (pagesize demo_env)) p'"
    by (rule RingInitialize_new)
      (use demo_fits in \<open>simp_all add: demo_cfg_def demo_env_def zero_param_def slots_of_def demo_slots_def
        RBV3_HEADERSIZE_def\<close>)
  then show d: "ring_inv demo_ring" "ring_queue demo_ring = []" "nslots demo_ring = 3"
      "pktsize demo_ring = 128"
    by (auto simp: demo_ring_def init_maxpackets_def demo_cfg_def demo_env_def)
  show "latestoffset demo_ring < 0"
    using live_ends(1) [OF d(1)] d(2) by (auto simp: ring_queue_def)
qed

section \<open>Writing\<close>

text \<open>
  C1: On a sound ring, writing a packet that fits returns 0, keeps the ring sound, and appends the
  packet to the ring's queue with the assigned identifier and the current time, dropping the
  earliest packet exactly when every slot is in use: \<open>RingWrite\<close> refines a bounded queue.
\<close>

theorem RingWrite_refines_queue:
  assumes "ring_inv p" "sizeof_RingPacket + unat (datasize h) \<le> unat (pktsize p)"
    and "unat (datasize h) \<le> length data" "length (streamid h) < MAXSTREAMID"
  shows "\<exists>p' h'. RingWrite True now p h data (datasize h) = (0, p', h') \<and> ring_inv p' \<and>
    ring_queue p' = fifo_push (nat (nslots p)) (ring_queue p) (written p now h data)"
  using RingWrite_ok [OF assms] by blast

lemma demo_call:
  "length data \<le> 8 \<Longrightarrow> length sid < MAXSTREAMID \<Longrightarrow> call_ok demo_ring (now, demo_packet sid data, data)"
  by (simp add: call_ok_def demo_packet_def demo_ring unat_of_nat)

theorem RingWrite_refines_queue_witness:
  "\<exists>p' h'. RingWrite True 7 demo_ring (demo_packet ''X/T'' [1, 2]) [1, 2] 2 = (0, p', h') \<and> ring_inv p' \<and>
    ring_queue p' = [\<lparr>a_pktid = 1, a_pkttime = 7, a_datastart = 0, a_dataend = 10,
      a_streamid = ''X/T'', a_data = [1, 2]\<rparr>]"
  using RingWrite_refines_queue [of demo_ring "demo_packet ''X/T'' [1, 2]" "[1, 2]" 7]
  by (simp add: demo_ring demo_packet_def MAXSTREAMID_def fifo_push_def written_def next_id_def)


lemma demo_write_refused:
  "fst (RingWrite False 7 demo_ring (demo_packet ''X/T'' [1]) [1] 1) = -2"
  using demo_ring empty_index(1) [OF demo_ring(1,5)]
  by (simp add: RingWrite_def RingWrite_evict_def RingWrite_store_def index_defs Let_def split_def)


text \<open>
  C9: After any sequence of writes that fit, all of them have returned 0 and the ring holds exactly
  the last packets of everything it held or was given, in order and unaltered, as many as it has
  slots.
\<close>

theorem ring_holds_last_packets:
  assumes "ring_inv p" "\<forall>w \<in> set ws. call_ok p w"
  shows "\<exists>p'. write_all p ws = (replicate (length ws) 0, p') \<and> ring_inv p' \<and>
    ring_queue p' = last_n (nat (nslots p)) (ring_queue p @ log_from (next_id (ring_queue p)) ws)"
  using write_all_queue [OF assms] by blast

definition demo_calls :: "call list" where
  "demo_calls = [(1, demo_packet ''A/T'' [1], [1]), (2, demo_packet ''B/T'' [2, 3], [2, 3]),
     (3, demo_packet ''A/T'' [], []), (5, demo_packet ''B/T'' [4], [4])]"

lemma demo_calls_ok: "\<forall>w \<in> set demo_calls. call_ok demo_ring w"
  by (simp add: demo_calls_def demo_call MAXSTREAMID_def)

theorem ring_holds_last_packets_witness:
  "\<exists>p'. write_all demo_ring demo_calls = ([0, 0, 0, 0], p') \<and>
    map a_data (ring_queue p') = [[2, 3], [], [4]] \<and> map a_pktid (ring_queue p') = [2, 3, 4]"
  using ring_holds_last_packets [OF demo_ring(1) demo_calls_ok]
  by (auto simp: demo_ring demo_calls_def demo_packet_def last_n_def Let_def next_id_def id_after_def
      ringid_defs)

lemma ids_log:
  assumes "\<forall>w \<in> set ws. pktid (fst (snd w)) = RINGID_NONE" "unat i + length ws \<le> unat RINGID_MAXIMUM"
  shows "map (unat \<circ> a_pktid) (log_from i ws) = [unat i..<unat i + length ws]"
  using assms
proof (induction ws arbitrary: i)
  case (Cons w ws)
  obtain now h data where w: "w = (now, h, data)" by (cases w)
  have "unat i + 1 \<le> unat RINGID_MAXIMUM" using Cons.prems(2) by simp
  then have u: "unat (i + 1) = unat i + 1"
    by (simp add: ringid_defs unat_word_ariths)
  then have "id_after i = i + 1" using Cons.prems(2) by (simp add: id_after_def word_less_nat_alt)
  moreover have "[unat i..<unat i + Suc (length ws)] = unat i # [Suc (unat i)..<Suc (unat i) + length ws]"
    by (simp add: upt_conv_Cons del: upt_Suc)
  ultimately show ?case using Cons.IH [of "i + 1"] Cons.prems u
    by (simp add: w Let_def del: upt_Suc)
qed simp

text \<open>
  Packets that come without an identifier get consecutive ones, so the identifiers in the ring
  ascend from the earliest to the latest packet until the counter reaches the reserved values.
\<close>

theorem assigned_ids_ascend:
  assumes "ring_inv p" "\<forall>w \<in> set ws. call_ok p w" "\<forall>w \<in> set ws. pktid (fst (snd w)) = RINGID_NONE"
    and "sorted_wrt (<) (map a_pktid (ring_queue p))"
    and "unat (next_id (ring_queue p)) + length ws \<le> unat RINGID_MAXIMUM"
    and "\<forall>a \<in> set (ring_queue p). a_pktid a < next_id (ring_queue p)"
  shows "sorted_wrt (<) (map a_pktid (ring_queue (snd (write_all p ws))))"
proof -
  let ?L = "log_from (next_id (ring_queue p)) ws"
  have ids: "map (unat \<circ> a_pktid) ?L = [unat (next_id (ring_queue p))..<unat (next_id (ring_queue p)) + length ws]"
    by (rule ids_log [OF assms(3,5)])
  have "sorted_wrt (<) (map (unat \<circ> a_pktid) (ring_queue p @ ?L))"
    using assms(4,6) by (auto simp: sorted_wrt_append ids sorted_wrt_map word_less_nat_alt)
  then have "sorted_wrt (<) (map a_pktid (ring_queue p @ ?L))"
    by (simp only: sorted_wrt_map word_less_nat_alt comp_def)
  then show ?thesis
    using write_all_queue [OF assms(1,2)] sorted_wrt_drop
    by (auto simp: last_n_def drop_map [symmetric] simp del: map_append drop_append)
qed


theorem assigned_ids_ascend_witness:
  "sorted_wrt (<) (map a_pktid (ring_queue (snd (write_all demo_ring demo_calls))))"
  by (rule assigned_ids_ascend [OF demo_ring(1) demo_calls_ok])
    (simp_all add: demo_ring demo_calls_def demo_packet_def next_id_def ringid_defs)

section \<open>Opening and closing\<close>

text \<open>
  With a configuration that leaves room for two packets, starting without files (or with a
  volatile ring) gives a sound, empty ring with as many slots as fit behind the header.
\<close>

theorem RingInitialize_makes_ring:
  assumes "volatilering cfg \<or> names_given env \<and> open_ok env \<and> stat_ok env \<and> f_size env = 0 \<and>
      seek_ok env \<and> write_ok env \<and> (memorymapring cfg \<longrightarrow> mmap_ok env)"
    and "buffer_ok env" "tree_ok env" "slots_of (cf_pktsize cfg) (junk_slots env)"
    and "int RBV3_HEADERSIZE \<le> pagesize env" "pagesize env < 2 ^ 32"
    and "config_fits cfg (of_int (pagesize env))" "streamcount p = 0"
  shows "\<exists>p'. RingInitialize cfg env p = Some (0, p') \<and> ring_inv p' \<and> ring_queue p' = [] \<and>
    nslots p' = (uint (cf_ringsize cfg) - uint (of_int (pagesize env) :: u32)) div uint (cf_pktsize cfg)"
  using RingInitialize_new [OF assms] init_geometry(1) [OF assms(7)] by auto

theorem RingInitialize_makes_ring_witness:
  "\<exists>p'. RingInitialize demo_cfg demo_env zero_param = Some (0, p') \<and> ring_inv p' \<and>
    ring_queue p' = [] \<and> nslots p' = 3"
  using RingInitialize_makes_ring [of demo_cfg demo_env zero_param] demo_fits
  by (simp add: demo_cfg_def demo_env_def zero_param_def slots_of_def demo_slots_def RBV3_HEADERSIZE_def)

text \<open>
  C8: Shutting the ring down and starting it again with the same configuration gives back the very
  same ring: every packet, the stream index, the counters and both ends.
\<close>

theorem shutdown_restart_round_trip:
  assumes "ring_inv p" "index_keyed (streamidx p)" "of_config cfg h p" "h = of_int (pagesize ienv)"
    and "config_fits cfg h" "\<not> volatilering cfg" "int RBV3_HEADERSIZE \<le> pagesize ienv"
    and "pagesize ienv < 2 ^ 32" "RBV3_HEADERSIZE \<le> length header" "shutdown_works senv"
    and "RingShutdown cfg senv header p = (rv, streams, Some (header', slots))"
    and "restart_env cfg ienv streams header' slots" "streamcount p0 = 0"
  shows "rv = 0 \<and> RingInitialize cfg ienv p0 = Some (0, p)"
proof -
  have "rv = 0" "streams = RBBuildStack (streamidx p)" "header' = store_header p header" "slots = ringmem p"
    using RingShutdown_eval [OF assms(10,6), of header p] assms(11) by auto
  then show ?thesis using restart_same [OF assms(1-9) _ assms(13)] assms(12) by simp
qed


text \<open>The same ring in files, with the four calls written to it.\<close>

definition file_cfg :: ring_config where
  "file_cfg = demo_cfg\<lparr>volatilering := False\<rparr>"

definition file_ring :: param_s where
  "file_ring = snd (write_all (snd (the (RingInitialize file_cfg demo_env zero_param))) demo_calls)"

definition file_shutdown :: shutdown_env where
  "file_shutdown = \<lparr>sd_args_ok = True, sd_open_ok = True, sd_write_ok = (\<lambda>_. True), sd_close_ok = True,
     sd_unmap_ok = True, sd_seek_ok = True, sd_ring_write_ok = True, sd_ring_close_ok = True\<rparr>"

definition file_restart :: "RingStream list \<Rightarrow> byte list \<Rightarrow> memory \<Rightarrow> init_env" where
  "file_restart streams header slots = demo_env\<lparr>f_size := 4480, f_header := header, f_slots := slots,
     s_size := 144 * int (length streams), s_records := map (\<lambda>st. (st, True)) streams\<rparr>"

lemma file_ring:
  "ring_inv file_ring" "index_keyed (streamidx file_ring)" "of_config file_cfg 4096 file_ring"
  "map a_data (ring_queue file_ring) = [[2, 3], [], [4]]"
proof -
  have "\<exists>p'. RingInitialize file_cfg demo_env zero_param = Some (0, p') \<and> ring_inv p' \<and>
      ring_queue p' = [] \<and> nslots p' = uint (init_maxpackets file_cfg (of_int (pagesize demo_env))) \<and>
      pktsize p' = cf_pktsize file_cfg \<and> of_config file_cfg (of_int (pagesize demo_env)) p'"
    by (rule RingInitialize_new)
      (simp_all add: file_cfg_def demo_cfg_def demo_env_def zero_param_def slots_of_def demo_slots_def
        RBV3_HEADERSIZE_def config_fits_def)
  then obtain p where p: "RingInitialize file_cfg demo_env zero_param = Some (0, p)" "ring_inv p"
    "ring_queue p = []" "nslots p = 3" "pktsize p = 128" "of_config file_cfg 4096 p"
    by (auto simp: init_maxpackets_def file_cfg_def demo_cfg_def demo_env_def)
  have "latestoffset p < 0" using live_ends(1) [OF p(2)] p(3) by (auto simp: ring_queue_def)
  then have keyed: "index_keyed (streamidx p)" by (simp add: empty_index [OF p(2)] index_keyed_def)
  have f: "file_ring = snd (write_all p demo_calls)" by (simp add: file_ring_def p(1))
  have "\<forall>w \<in> set demo_calls. call_ok p w"
    using demo_calls_ok p(5) demo_ring(4) by (simp add: call_ok_def split_def)
  from write_all_queue [OF p(2) this] show "ring_inv file_ring" "map a_data (ring_queue file_ring) = [[2, 3], [], [4]]"
    by (auto simp: f p(3,4) demo_calls_def demo_packet_def last_n_def Let_def)
  show "index_keyed (streamidx file_ring)" "of_config file_cfg 4096 file_ring"
    using write_all_keeps [OF keyed p(6)] by (simp_all add: f)
qed

theorem shutdown_restart_round_trip_witness:
  "\<exists>streams header slots. RingShutdown file_cfg file_shutdown (replicate 4096 0) file_ring =
       (0, streams, Some (header, slots)) \<and>
     RingInitialize file_cfg (file_restart streams header slots) zero_param = Some (0, file_ring)"
proof -
  have works: "shutdown_works file_shutdown" by (simp add: shutdown_works_def file_shutdown_def)
  obtain rv streams header slots where sd: "RingShutdown file_cfg file_shutdown (replicate 4096 0) file_ring =
      (rv, streams, Some (header, slots))"
    using RingShutdown_eval [OF works, of file_cfg] by (auto simp: file_cfg_def)
  have "restart_env file_cfg (file_restart streams header slots) streams header slots"
    by (auto simp: restart_env_def file_restart_def demo_env_def file_cfg_def demo_cfg_def)
  then have "rv = 0 \<and> RingInitialize file_cfg (file_restart streams header slots) zero_param = Some (0, file_ring)"
    using shutdown_restart_round_trip [where ienv = "file_restart streams header slots" and ?p0.0 = zero_param,
        OF file_ring(1-3) _ _ _ _ _ _ works sd]
    by (simp add: file_restart_def demo_env_def file_cfg_def demo_cfg_def config_fits_def
        RBV3_HEADERSIZE_def zero_param_def)
  then show ?thesis using sd by blast
qed

section \<open>Reading\<close>


text \<open>A reader of everything, at the beginning of the ring or behind the packet at an offset.\<close>

definition start_reader :: "string RingReader" where
  "start_reader = \<lparr>pktoffset = -1, rd_pktid = RINGID_EARLIEST, rd_pkttime = NSTUNSET,
     allowed = None, forbidden = None, rd_match = None, reject = None\<rparr>"

definition prefix_matcher :: "string matcher" where
  "prefix_matcher re sid = (if take (length re) sid = re then 0 else -1)"

lemma demo_run:
  assumes "length ws \<le> 3" "\<forall>w \<in> set ws. call_ok demo_ring w"
  shows "ring_inv (snd (write_all demo_ring ws))"
    "ring_queue (snd (write_all demo_ring ws)) = log_from 1 ws" "nslots (snd (write_all demo_ring ws)) = 3"
    "length (live (snd (write_all demo_ring ws))) = length ws"
    "pktsize (snd (write_all demo_ring ws)) = 128"
proof -
  obtain p' where p': "write_all demo_ring ws = (replicate (length ws) 0, p')" "ring_inv p'"
    "ring_queue p' = last_n 3 (log_from 1 ws)" "maxoffset p' = maxoffset demo_ring"
    "pktsize p' = pktsize demo_ring"
    using write_all_queue [OF demo_ring(1) assms(2)] by (auto simp: demo_ring next_id_def)
  show "ring_inv (snd (write_all demo_ring ws))"
    and q: "ring_queue (snd (write_all demo_ring ws)) = log_from 1 ws"
    using p' assms(1) by (simp_all add: last_n_def)
  show "pktsize (snd (write_all demo_ring ws)) = 128" using p'(1,5) demo_ring(4) by simp
  show "nslots (snd (write_all demo_ring ws)) = 3"
    using p'(1) nslots_cong [OF p'(4,5)] demo_ring(3) by simp
  show "length (live (snd (write_all demo_ring ws))) = length ws"
    using arg_cong [OF q, of length] by (simp add: length_ring_queue)
qed

text \<open>The small ring with two packets, and filled by three whose times are given.\<close>

definition two_ring :: param_s where
  "two_ring = snd (write_all demo_ring
     [(1, demo_packet ''A/T'' [1], [1]), (2, demo_packet ''B/T'' [2, 3], [2, 3])])"

definition three_ring :: "nstime \<Rightarrow> nstime \<Rightarrow> nstime \<Rightarrow> param_s" where
  "three_ring t1 t2 t3 = snd (write_all demo_ring [(t1, demo_packet ''A/T'' [1], [1]),
     (t2, demo_packet ''B/T'' [2], [2]), (t3, demo_packet ''C/T'' [3], [3])])"

definition demo_entry :: "u64 \<Rightarrow> nstime \<Rightarrow> string \<Rightarrow> byte list \<Rightarrow> packet" where
  "demo_entry i t sid data = \<lparr>a_pktid = i, a_pkttime = t, a_datastart = 0, a_dataend = 10,
     a_streamid = sid, a_data = data\<rparr>"

lemma two_ring:
  "ring_inv two_ring" "ring_queue two_ring = [demo_entry 1 1 ''A/T'' [1], demo_entry 2 2 ''B/T'' [2, 3]]"
  "nslots two_ring = 3" "length (live two_ring) = 2" "pktsize two_ring = 128"
proof -
  let ?ws = "[(1, demo_packet ''A/T'' [1], [1]), (2, demo_packet ''B/T'' [2, 3], [2, 3])]"
  have ok: "length ?ws \<le> 3" "\<forall>w \<in> set ?ws. call_ok demo_ring w" by (simp_all add: demo_call MAXSTREAMID_def)
  note run = demo_run [OF ok, folded two_ring_def]
  show "ring_inv two_ring" "nslots two_ring = 3" "length (live two_ring) = 2" "pktsize two_ring = 128"
    "ring_queue two_ring = [demo_entry 1 1 ''A/T'' [1], demo_entry 2 2 ''B/T'' [2, 3]]"
    using run by (simp_all add: demo_packet_def demo_entry_def id_after_def ringid_defs)
qed

lemma three_ring:
  "ring_inv (three_ring t1 t2 t3)" "nslots (three_ring t1 t2 t3) = 3" "length (live (three_ring t1 t2 t3)) = 3"
  "ring_queue (three_ring t1 t2 t3) = [demo_entry 1 t1 ''A/T'' [1], demo_entry 2 t2 ''B/T'' [2],
     demo_entry 3 t3 ''C/T'' [3]]"
proof -
  let ?ws = "[(t1, demo_packet ''A/T'' [1], [1]), (t2, demo_packet ''B/T'' [2], [2]),
     (t3, demo_packet ''C/T'' [3], [3])]"
  have ok: "length ?ws \<le> 3" "\<forall>w \<in> set ?ws. call_ok demo_ring w" by (simp_all add: demo_call MAXSTREAMID_def)
  note run = demo_run [OF ok, folded three_ring_def]
  show "ring_inv (three_ring t1 t2 t3)" "nslots (three_ring t1 t2 t3) = 3"
    "length (live (three_ring t1 t2 t3)) = 3"
    "ring_queue (three_ring t1 t2 t3) = [demo_entry 1 t1 ''A/T'' [1], demo_entry 2 t2 ''B/T'' [2],
       demo_entry 3 t3 ''C/T'' [3]]"
    using run by (simp_all add: demo_packet_def demo_entry_def id_after_def ringid_defs)
qed




text \<open>
  C26: A reader that waits at the eventual earliest packet of a ring that has become full is never
  given a packet: the offset of the earliest packet is also the end of the buffer for the scan.
\<close>

theorem earliest_of_full_ring_starves:
  assumes "ring_inv p" "int (length (live p)) = nslots p"
    and "pktoffset rd < 0" "rd_pktid rd = RINGID_EARLIEST"
  shows "RingReadNext (Suc fuel) p pm rd buf want = Some (RINGID_NONE, rd, buf, None)"
proof -
  have ne: "\<not> latestoffset p < 0"
    using assms(2) live_empty ring_geomD(4) [OF ring_invD(1) [OF assms(1)]] by fastforce
  have "pos p (length (live p)) = pos p 0" using assms(2) by (simp add: pos_def)
  then have "NEXTOFFSET (latestoffset p) (maxoffset p) (config_pktsize p) = earliestoffset p"
    using eob_pos [OF assms(1) ne] live_ends(2) [OF assms(1) ne] by simp
  then show ?thesis using ne assms(3,4)
    by (simp add: RingReadNext_def ReadNext_start_def Let_def split_def ringid_defs)
qed

theorem earliest_of_full_ring_starves_witness:
  "RingReadNext 9 demo_ring prefix_matcher (start_reader\<lparr>rd_pktid := RINGID_NEXT\<rparr>) empty_packet True =
     Some (RINGID_NONE, start_reader, empty_packet, None) \<and>
   RingReadNext 9 (three_ring 1 2 3) prefix_matcher start_reader empty_packet True =
     Some (RINGID_NONE, start_reader, empty_packet, None)"
proof
  show "RingReadNext 9 demo_ring prefix_matcher (start_reader\<lparr>rd_pktid := RINGID_NEXT\<rparr>) empty_packet True =
     Some (RINGID_NONE, start_reader, empty_packet, None)"
    by (simp add: RingReadNext_def demo_ring start_reader_def)
  show "RingReadNext 9 (three_ring 1 2 3) prefix_matcher start_reader empty_packet True =
     Some (RINGID_NONE, start_reader, empty_packet, None)"
    using earliest_of_full_ring_starves [OF three_ring(1) _ _ _, of 1 2 3 start_reader 8 prefix_matcher]
    by (simp add: three_ring start_reader_def numeral_eq_Suc)
qed

text \<open>
  The scan between the two oldest packets when the second is younger than the latest: every look at
  it sends the scan back, and every look at the first one resets the count that is to stop it.
\<close>

lemma scan_bounces:
  assumes inv: "ring_inv p" and len: "2 < length (live p)" "int (length (live p)) < nslots p"
    and old: "pkttime (PACKETPTR p (pos p 0)) \<le> lt" and young: "lt < pkttime (PACKETPTR p (pos p 1))"
  shows "\<not> wanted pm rd p (pos p 0) \<Longrightarrow>
    ReadNext_loop fuel p pm lt (pos p (length (live p))) (pos p 0) skipped rd = None \<and>
    ReadNext_loop fuel p pm lt (pos p (length (live p))) (pos p 1) 0 rd = None"
proof (induction fuel arbitrary: skipped rd)
  case (Suc fuel)
  have ne: "\<not> latestoffset p < 0" using len live_empty [of p] by fastforce
  have l: "0 \<noteq> length (live p)" "1 \<noteq> length (live p)" "0 \<le> length (live p)" "1 \<le> length (live p)"
    using len(1) by linarith+
  have eob: "pos p 0 \<noteq> pos p (length (live p))" "pos p 1 \<noteq> pos p (length (live p))"
    using pos_eob [OF inv ne l(3)] pos_eob [OF inv ne l(4)] l(1,2) len(2) by blast+
  let ?rd = "at_packet rd (pos p 0) (PACKETPTR p (pos p 0))"
  have rej: "\<not> wanted pm ?rd p (pos p 0)" "pattern_skip pm rd (streamid (PACKETPTR p (pos p 0))) False"
    using Suc.prems by (simp_all add: wanted_def pattern_skip_eq)
  have "NEXTOFFSET (pos p 0) (maxoffset p) (config_pktsize p) = pos p 1"
    using pos_NEXT(2) [OF ring_invD(1) [OF inv], of 0] by simp
  then have "ReadNext_loop (Suc fuel) p pm lt (pos p (length (live p))) (pos p 0) skipped rd = None"
    using Suc.IH [OF rej(1)] eob rej(2) old by (simp add: Let_def)
  moreover have "\<not> 100 \<le> (0 :: u32) + 1" by (simp add: word_le_nat_alt)
  then have "ReadNext_loop (Suc fuel) p pm lt (pos p (length (live p))) (pos p 1) 0 rd = None"
    using Suc.IH [OF Suc.prems] eob young live_ends(2) [OF inv ne] by (simp add: Let_def)
  ultimately show ?case by blast
qed simp

text \<open>
  C25: If the clock of the writers has gone back while the ring was not full, \<open>RingReadNext\<close> need
  not return: a reader that does not want the earliest packet, at it or before it, when the packet
  after it is younger than the latest one, scans these two for ever, however long it is given.
\<close>

theorem clock_step_back_hangs_reader:
  assumes "ring_inv p" "2 < length (live p)" "int (length (live p)) < nslots p"
    and "pktoffset rd = pos p 0 \<or> pktoffset rd < 0 \<and> rd_pktid rd = RINGID_EARLIEST"
    and "\<not> selects pm rd (streamid (PACKETPTR p (pos p 0)))"
    and "pkttime (PACKETPTR p (pos p 0)) \<le> pkttime (PACKETPTR p (latestoffset p))"
    and "pkttime (PACKETPTR p (latestoffset p)) < pkttime (PACKETPTR p (pos p 1))"
  shows "RingReadNext fuel p pm rd buf want = None"
proof -
  have ne: "\<not> latestoffset p < 0" using assms(2) live_empty [of p] by fastforce
  have "0 < length (live p)" using assms(2) by linarith
  then have start: "starts_at p rd 0 \<or> starts_at p rd (Suc 0)"
    using assms(3,4) starts_at.earliest [of rd p] starts_at.after [of 0 p rd] by blast
  have lat: "latestoffset p \<in> set (live p)"
    using live_hd_last(1,3) [OF ring_invD(1) [OF assms(1)] ring_invD(12,13) [OF assms(1) ne]] last_in_set
    by metis
  obtain x where x: "ReadNext_start p rd (PACKETPTR p (latestoffset p)) = Inr x" "x = pos p 0 \<or> x = pos p 1"
    using start start_offset(1) [OF assms(1) ne] by (metis One_nat_def)
  have "\<not> wanted pm rd p (pos p 0)" using assms(5) by (simp add: wanted_def)
  from scan_bounces [OF assms(1-3,6,7) this]
  have "ReadNext_loop fuel p pm (pkttime (PACKETPTR p (latestoffset p))) (pos p (length (live p))) x 0 rd = None"
    using x(2) by auto
  then show ?thesis
    using ne x(1) unfolding RingReadNext_def RingReadPacket_live [OF assms(1) lat] eob_pos [OF assms(1) ne] Let_def
    by simp
qed

text \<open>A ring of four slots with three packets, the clock having stepped back after the second.\<close>

definition wide_cfg :: ring_config where
  "wide_cfg = demo_cfg\<lparr>cf_ringsize := 4608\<rparr>"

definition wide_ring :: param_s where
  "wide_ring = snd (write_all (snd (the (RingInitialize wide_cfg demo_env zero_param)))
     [(10, demo_packet ''A/T'' [1], [1]), (20, demo_packet ''B/T'' [2], [2]), (15, demo_packet ''C/T'' [3], [3])])"

lemma wide_ring:
  "ring_inv wide_ring" "nslots wide_ring = 4" "length (live wide_ring) = 3"
  "map a_pkttime (ring_queue wide_ring) = [10, 20, 15]"
  "map a_streamid (ring_queue wide_ring) = [''A/T'', ''B/T'', ''C/T'']"
proof -
  let ?ws = "[(10, demo_packet ''A/T'' [1], [1]), (20, demo_packet ''B/T'' [2], [2]),
     (15, demo_packet ''C/T'' [3], [3])] :: call list"
  have "\<exists>p'. RingInitialize wide_cfg demo_env zero_param = Some (0, p') \<and> ring_inv p' \<and>
      ring_queue p' = [] \<and> nslots p' = uint (init_maxpackets wide_cfg (of_int (pagesize demo_env))) \<and>
      pktsize p' = cf_pktsize wide_cfg \<and> of_config wide_cfg (of_int (pagesize demo_env)) p'"
    by (rule RingInitialize_new)
      (simp_all add: wide_cfg_def demo_cfg_def demo_env_def zero_param_def slots_of_def demo_slots_def
        RBV3_HEADERSIZE_def config_fits_def)
  then obtain p where p: "RingInitialize wide_cfg demo_env zero_param = Some (0, p)" "ring_inv p"
    "ring_queue p = []" "nslots p = 4" "pktsize p = 128"
    by (auto simp: init_maxpackets_def wide_cfg_def demo_cfg_def demo_env_def)
  have w: "wide_ring = snd (write_all p ?ws)" by (simp add: wide_ring_def p(1))
  have ok: "\<forall>w \<in> set ?ws. call_ok p w" by (simp add: call_ok_def demo_packet_def MAXSTREAMID_def p(5))
  obtain p' where p': "write_all p ?ws = (replicate (length ?ws) 0, p')" "ring_inv p'"
    "ring_queue p' = last_n (nat (nslots p)) (ring_queue p @ log_from (next_id (ring_queue p)) ?ws)"
    "maxoffset p' = maxoffset p" "pktsize p' = pktsize p"
    using write_all_queue [OF p(2) ok] by blast
  have w': "wide_ring = p'" using w p'(1) by simp
  have q: "ring_queue p' = log_from 1 ?ws"
    using p'(3) by (simp add: p(3,4) next_id_def last_n_def del: log_from.simps)
  show "ring_inv wide_ring" "nslots wide_ring = 4" using p'(2) nslots_cong [OF p'(4,5)] p(4) w' by simp_all
  show "map a_pkttime (ring_queue wide_ring) = [10, 20, 15]"
    "map a_streamid (ring_queue wide_ring) = [''A/T'', ''B/T'', ''C/T'']"
    by (simp_all add: w' q demo_packet_def Let_def)
  show "length (live wide_ring) = 3" using arg_cong [OF q, of length] w'
    by (simp add: length_ring_queue del: log_from.simps)
qed

lemma packet_nth:
  assumes "ring_inv p" "i < length (live p)"
  shows "pkttime (PACKETPTR p (pos p i)) = map a_pkttime (ring_queue p) ! i"
    "streamid (PACKETPTR p (pos p i)) = map a_streamid (ring_queue p) ! i"
    "dataend (PACKETPTR p (pos p i)) = map a_dataend (ring_queue p) ! i"
    "id_at p i = map a_pktid (ring_queue p) ! i"
  using assms live_pos [OF assms] by (simp_all add: ring_queue_def abs_slot_def PACKETPTR_def id_at_def)

theorem clock_step_back_hangs_reader_witness:
  "\<forall>fuel. RingReadNext fuel wide_ring prefix_matcher (start_reader\<lparr>rd_match := Some ''C''\<rparr>) empty_packet True = None"
proof
  fix fuel
  have lat: "latestoffset wide_ring = pos wide_ring 2"
    using live_ends(3) [OF wide_ring(1)] live_empty [of wide_ring] wide_ring(3) by fastforce
  show "RingReadNext fuel wide_ring prefix_matcher (start_reader\<lparr>rd_match := Some ''C''\<rparr>) empty_packet True = None"
    by (rule clock_step_back_hangs_reader [OF wide_ring(1)])
      (simp_all add: wide_ring lat packet_nth start_reader_def selects_def prefix_matcher_def
        Let_def MAXSTREAMID_def)
qed

text \<open>
  A reader whose packet has been overwritten is not sent back to the earliest packet: it goes on
  behind the offset where its packet was, and never gets the packets in the ring before that place,
  although they have not been overwritten.
\<close>

theorem lapped_reader_loses_packets:
  assumes "ring_inv p" "times_ok p" "i < length (live p)" "pktoffset rd = pos p i"
    and "\<forall>a \<in> set (ring_queue p). a_pktid a \<noteq> rd_pktid rd" "length (live p) < fuel"
  shows "read_all fuel (Suc (length (live p))) p pm rd =
    filter (\<lambda>a. selects pm rd (a_streamid a)) (drop (Suc i) (ring_queue p))"
proof -
  have "\<not> latestoffset p < 0" using assms(3) live_empty [of p] by fastforce
  then show ?thesis
    using read_all_queue [OF assms(1) _ assms(2,6) starts_at.after [OF assms(3,4)]] by simp
qed


lemma lap_returns:
  assumes "ring_inv p" "\<forall>w \<in> set ws. call_ok p w" "0 \<le> latestoffset p" "int (length ws) = nslots p"
  shows "latestoffset (snd (write_all p ws)) = latestoffset p"
proof -
  note g = ring_invD(1) [OF assms(1)]
  obtain i where i: "latestoffset p = pos p i"
    using valid_pos [OF g ring_invD(13) [OF assms(1)]] assms(3) by auto
  have "pos p (i + length ws) = pos p i"
    using assms(4) by (simp add: pos_def add.assoc [symmetric])
  then show ?thesis using write_all_latest [OF assms(1-3)] i advance_pos [OF g] by simp
qed

definition one_ring :: param_s where
  "one_ring = snd (write_all demo_ring [(1, demo_packet ''A/T'' [1], [1])])"

lemma one_ring:
  "ring_inv one_ring" "nslots one_ring = 3" "length (live one_ring) = 1" "pktsize one_ring = 128"
  "ring_queue one_ring = [demo_entry 1 1 ''A/T'' [1]]"
proof -
  let ?ws = "[(1, demo_packet ''A/T'' [1], [1])] :: call list"
  have ok: "length ?ws \<le> 3" "\<forall>w \<in> set ?ws. call_ok demo_ring w" by (simp_all add: demo_call MAXSTREAMID_def)
  note run = demo_run [OF ok, folded one_ring_def]
  show "ring_inv one_ring" "nslots one_ring = 3" "length (live one_ring) = 1" "pktsize one_ring = 128"
    "ring_queue one_ring = [demo_entry 1 1 ''A/T'' [1]]"
    using run by (simp_all add: demo_packet_def demo_entry_def)
qed

definition lap_calls :: "call list" where
  "lap_calls = [(2, demo_packet ''B/T'' [2], [2]), (3, demo_packet ''C/T'' [3], [3]), (4, demo_packet ''A/T'' [4], [4])]"

text \<open>The reader has read the only packet of the ring; three more overwrite it.\<close>

theorem lapped_reader_loses_packets_witness:
  "map a_pktid (ring_queue (snd (write_all one_ring lap_calls))) = [2, 3, 4] \<and>
   read_all 4 4 (snd (write_all one_ring lap_calls)) prefix_matcher
     (start_reader\<lparr>pktoffset := latestoffset one_ring, rd_pktid := 1\<rparr>) = []"
proof -
  let ?rd = "start_reader\<lparr>pktoffset := latestoffset one_ring, rd_pktid := 1\<rparr>"
  have ok: "\<forall>w \<in> set lap_calls. call_ok one_ring w"
    by (simp add: lap_calls_def call_ok_def demo_packet_def MAXSTREAMID_def one_ring)
  obtain p where p: "write_all one_ring lap_calls = (replicate (length lap_calls) 0, p)" "ring_inv p"
    "ring_queue p = last_n (nat (nslots one_ring)) (ring_queue one_ring @ log_from (next_id (ring_queue one_ring)) lap_calls)"
    "maxoffset p = maxoffset one_ring" "pktsize p = pktsize one_ring"
    using write_all_queue [OF one_ring(1) ok] by blast
  have q: "ring_queue p = [demo_entry 2 2 ''B/T'' [2], demo_entry 3 3 ''C/T'' [3], demo_entry 4 4 ''A/T'' [4]]"
    by (simp add: p(3) one_ring next_id_def demo_entry_def lap_calls_def demo_packet_def last_n_def Let_def
        id_after_def ringid_defs)
  have len: "length (live p) = 3" using arg_cong [OF q, of length] by (simp add: length_ring_queue)
  have "0 \<le> latestoffset one_ring" using one_ring(3) live_empty [of one_ring] by fastforce
  moreover have "int (length lap_calls) = nslots one_ring" by (simp add: lap_calls_def one_ring)
  ultimately have "latestoffset p = latestoffset one_ring"
    using lap_returns [OF one_ring(1) ok] p(1) by simp
  then have at: "pktoffset ?rd = pos p 2"
    using live_ends(3) [OF p(2)] live_empty [of p] len by fastforce
  have "sorted (map a_pkttime (ring_queue p))" by (simp add: q demo_entry_def)
  then have "read_all 4 (Suc (length (live p))) p prefix_matcher ?rd =
      filter (\<lambda>a. selects prefix_matcher ?rd (a_streamid a)) (drop (Suc 2) (ring_queue p))"
    using lapped_reader_loses_packets [OF p(2) sorted_times_ok [OF p(2)] _ at] len
    by (simp add: q demo_entry_def)
  then show ?thesis by (simp add: p(1) q len demo_entry_def numeral_eq_Suc)
qed

lemma queue_ids: "ring_inv p \<Longrightarrow> a_pktid ` set (ring_queue p) = id_at p ` {..<length (live p)}"
proof -
  assume inv: "ring_inv p"
  have "map a_pktid (ring_queue p) = map (id_at p) [0..<length (live p)]"
    by (rule nth_equalityI) (simp_all add: packet_nth(4) [OF inv] length_ring_queue)
  then have "set (map a_pktid (ring_queue p)) = set (map (id_at p) [0..<length (live p)])" by simp
  then show ?thesis by (simp add: atLeast0LessThan)
qed

lemma find_in_set: "find P xs = Some x \<Longrightarrow> x \<in> set xs"
  by (induction xs) (auto split: if_splits)

section \<open>Finding packets\<close>

text \<open>
  \<open>FindOffsetForID\<close> ends within one step per packet.  The offset it returns is always that of a
  packet in the ring with the identifier, with its time; if the identifiers ascend, or the earliest
  is greater than the latest (the counter has wrapped), it finds every packet that is there.
\<close>

theorem FindOffsetForID_correct:
  assumes "ring_inv p" "length (live p) \<le> fuel"
  shows "\<exists>r. FindOffsetForID fuel p pid pt0 = Some r \<and>
    (r = (-1, pt0) \<and> (ids_searchable p \<longrightarrow> pid \<notin> a_pktid ` set (ring_queue p)) \<or>
     (\<exists>i < length (live p). r = (live p ! i, a_pkttime (ring_queue p ! i)) \<and> a_pktid (ring_queue p ! i) = pid))"
proof (cases "latestoffset p < 0")
  case True
  then show ?thesis using empty_offsets [OF assms(1)] by (simp add: ring_queue_def live_empty)
next
  case False
  from FindOffset_result [OF assms(1) False assms(2), of pid pt0] show ?thesis
    unfolding queue_ids [OF assms(1)]
    by (elim exE conjE disjE)
      (auto simp: live_pos [OF assms(1)] packet_nth [OF assms(1)] length_ring_queue)
qed

lemma ids_ascend_queue:
  assumes "ring_inv p"
  shows "ids_ascend p \<longleftrightarrow> sorted_wrt (<) (map a_pktid (ring_queue p))"
  using packet_nth(4) [OF assms]
  by (auto simp: ids_ascend_def sorted_wrt_iff_nth_less length_ring_queue)

theorem FindOffsetForID_correct_witness:
  "FindOffsetForID 3 (three_ring 1 2 3) 2 0 = Some (live (three_ring 1 2 3) ! 1, 2)"
proof -
  let ?p = "three_ring 1 2 3"
  have "ids_searchable ?p"
    by (simp add: ids_searchable_def ids_ascend_queue three_ring demo_entry_def)
  then obtain i where "i < 3" "a_pktid (ring_queue ?p ! i) = 2"
    "FindOffsetForID 3 ?p 2 0 = Some (live ?p ! i, a_pkttime (ring_queue ?p ! i))"
    using FindOffsetForID_correct [OF three_ring(1), of 1 2 3 3 2 0] by (auto simp: three_ring demo_entry_def)
  then show ?thesis
    by (auto simp: three_ring demo_entry_def numeral_eq_Suc less_Suc_eq)
qed

text \<open>
  \<open>RingRead\<close> for the identifier of a packet in the ring delivers that packet whole and moves the
  reader to it.
\<close>

theorem RingRead_delivers:
  assumes "ring_inv p" "length (live p) \<le> fuel" "reqid \<le> RINGID_MAXIMUM" "ids_searchable p"
    and "reqid \<in> a_pktid ` set (ring_queue p)"
  shows "\<exists>a \<in> set (ring_queue p). a_pktid a = reqid \<and> (\<exists>rd' h. RingRead fuel p rd reqid buf True =
    Some (reqid, rd', h, Some (a_data a)) \<and> as_packet h (a_data a) = a \<and>
    rd_pktid rd' = reqid \<and> rd_pkttime rd' = a_pkttime a \<and> pktoffset rd' \<in> set (live p))"
proof -
  from assms(5) obtain j where "j < length (live p)" "id_at p j = reqid"
    by (auto simp: queue_ids [OF assms(1)])
  then obtain i where i: "i < length (live p)" "id_at p i = reqid"
    "RingRead fuel p rd reqid buf True = Some (reqid, at_packet rd (pos p i) (PACKETPTR p (pos p i)),
      PACKETPTR p (pos p i), Some (a_data (abs_slot (ringmem p (pos p i)))))"
    using RingRead_found [OF assms(1-4), of rd buf True] by auto
  let ?a = "abs_slot (ringmem p (pos p i))"
  have "ring_queue p ! i = ?a" "pos p i \<in> set (live p)"
    using i(1) live_pos [OF assms(1) i(1)] by (auto simp: ring_queue_def) (metis nth_mem)
  then have "?a \<in> set (ring_queue p)" using i(1) nth_mem [of i "ring_queue p"] by (simp add: length_ring_queue)
  moreover have "a_pktid ?a = reqid" using i(2) by (simp add: id_at_def abs_slot_def PACKETPTR_def)
  ultimately show ?thesis
    using i \<open>pos p i \<in> set (live p)\<close> as_packet_live [of p "pos p i"]
    by (intro bexI [of _ ?a]) (auto simp: at_packet_def abs_slot_def PACKETPTR_def id_at_def)
qed

theorem RingRead_delivers_witness:
  "\<exists>rd' h. RingRead 3 (three_ring 1 2 3) start_reader 2 empty_packet True = Some (2, rd', h, Some [2]) \<and>
    streamid h = ''B/T''"
proof -
  let ?p = "three_ring 1 2 3"
  have "ids_searchable ?p"
    by (simp add: ids_searchable_def ids_ascend_queue three_ring demo_entry_def)
  then have "\<exists>a \<in> set (ring_queue ?p). a_pktid a = 2 \<and> (\<exists>rd' h. RingRead 3 ?p start_reader 2 empty_packet True =
      Some (2, rd', h, Some (a_data a)) \<and> as_packet h (a_data a) = a \<and>
      rd_pktid rd' = 2 \<and> rd_pkttime rd' = a_pkttime a \<and> pktoffset rd' \<in> set (live ?p))"
    by (intro RingRead_delivers three_ring(1)) (simp_all add: three_ring demo_entry_def ringid_defs)
  then show ?thesis by (auto simp: three_ring demo_entry_def as_packet_def)
qed

section \<open>Positioning by time\<close>

text \<open>The number of the first packet of a queue that the reader wants and that ends after the time.\<close>

definition first_after :: "'re matcher \<Rightarrow> 're RingReader \<Rightarrow> nstime \<Rightarrow> packet list \<Rightarrow> nat option" where
  "first_after pm rd t q = find (\<lambda>i. selects pm rd (a_streamid (q ! i)) \<and> t < a_dataend (q ! i)) [0..<length q]"

lemma hit_queue:
  "ring_inv p \<Longrightarrow> i < length (live p) \<Longrightarrow>
   hit p pm rd t i \<longleftrightarrow> selects pm rd (a_streamid (ring_queue p ! i)) \<and> t < a_dataend (ring_queue p ! i)"
  by (simp add: hit_def packet_nth length_ring_queue)

lemma first_after_hit:
  "ring_inv p \<Longrightarrow> first_after pm rd t (ring_queue p) = find (hit p pm rd t) [0..<length (live p)]"
  unfolding first_after_def length_ring_queue by (rule find_cong) (auto simp: hit_queue)

definition reader_at :: "param_s \<Rightarrow> 're RingReader \<Rightarrow> nat \<Rightarrow> 're RingReader" where
  "reader_at p rd k = rd\<lparr>pktoffset := live p ! k, rd_pktid := a_pktid (ring_queue p ! k),
     rd_pkttime := a_pkttime (ring_queue p ! k)\<rparr>"

lemma at_packet_reader:
  "ring_inv p \<Longrightarrow> k < length (live p) \<Longrightarrow> at_packet rd (pos p k) (PACKETPTR p (pos p k)) = reader_at p rd k"
  by (simp add: at_packet_def reader_at_def live_pos packet_nth(1) packet_nth(4) [unfolded id_at_def] length_ring_queue)

lemma RingAfter_reader:
  assumes "ring_inv p" "\<not> latestoffset p < 0"
    and k_def: "k = (case first_after pm rd t (ring_queue p) of
      None \<Rightarrow> length (live p) - 1
    | Some j \<Rightarrow> if whence = 0 then j - 1 else j)"
  shows "RingAfter p pm rd t whence = (a_pktid (ring_queue p ! k), reader_at p rd k)" "k < length (live p)"
proof -
  have n: "0 < length (live p)" using live_ends(1) [OF assms(1,2)] .
  have j: "j < length (live p)" if "first_after pm rd t (ring_queue p) = Some j" for j
    using that by (auto simp: first_after_def find_Some_iff length_ring_queue)
  show k: "k < length (live p)" using n j by (auto simp: k_def split: option.splits)
  have "RingAfter p pm rd t whence = (id_at p k, at_packet rd (pos p k) (PACKETPTR p (pos p k)))"
    using RingAfter_result [OF assms(1,2), of pm rd t whence] by (simp add: k_def first_after_hit [OF assms(1)] Let_def)
  then show "RingAfter p pm rd t whence = (a_pktid (ring_queue p ! k), reader_at p rd k)"
    using k by (simp add: at_packet_reader [OF assms(1)] packet_nth(4) [OF assms(1)] length_ring_queue)
qed

text \<open>
  On a ring that is not empty, \<open>RingAfter\<close> goes to the first packet that the reader wants and
  that ends after the time (to the one before it for \<open>whence\<close> 0, if there is one), and to the
  latest packet if there is none: it never reports that no packet was found.
\<close>

theorem RingAfter_position:
  assumes "ring_inv p" "\<not> latestoffset p < 0"
  shows "RingAfter p pm rd t whence =
    (let k = (case first_after pm rd t (ring_queue p) of
                None \<Rightarrow> length (ring_queue p) - 1
              | Some j \<Rightarrow> if whence = 0 then j - 1 else j)
     in (a_pktid (ring_queue p ! k), reader_at p rd k))"
  unfolding Let_def length_ring_queue by (rule RingAfter_reader(1) [OF assms refl])

theorem RingAfter_position_witness:
  "fst (RingAfter (three_ring 1 2 3) prefix_matcher (start_reader\<lparr>rd_match := Some ''B''\<rparr>) 5 1) = 2 \<and>
   fst (RingAfter (three_ring 1 2 3) prefix_matcher (start_reader\<lparr>rd_match := Some ''B''\<rparr>) 50 1) = 3"
proof -
  have ne: "\<not> latestoffset (three_ring 1 2 3) < 0"
    using three_ring(3) [of 1 2 3] live_empty [of "three_ring 1 2 3"] by fastforce
  show ?thesis
    unfolding RingAfter_position [OF three_ring(1) ne]
    by (simp add: three_ring first_after_def demo_entry_def selects_def prefix_matcher_def start_reader_def
        MAXSTREAMID_def Let_def upt_rec)
qed

text \<open>
  A reader positioned with \<open>whence\<close> 0, so that reading on gives the first packet after the
  time, gets every wanted packet from that one on, except when that one is the earliest of the
  ring: then it is at the packet it was to get, and never gets it.
\<close>

theorem RingAfter_then_read:
  assumes "ring_inv p" "times_ok p" "length (live p) < fuel"
    and "first_after pm rd t (ring_queue p) = Some j"
  shows "read_all fuel (Suc (length (live p))) p pm (snd (RingAfter p pm rd t 0)) =
    filter (\<lambda>a. selects pm rd (a_streamid a)) (drop (if j = 0 then 1 else j) (ring_queue p))"
proof -
  have j: "j < length (live p)"
    using assms(4) by (auto simp: first_after_def find_Some_iff length_ring_queue)
  then have ne: "\<not> latestoffset p < 0" using live_empty [of p] by fastforce
  have jk: "j - 1 < length (live p)" using j by simp
  have "snd (RingAfter p pm rd t 0) = reader_at p rd (j - 1)"
    using RingAfter_reader(1) [OF assms(1) ne refl, of pm rd t 0] assms(4) by simp
  moreover have "starts_at p (reader_at p rd (j - 1)) (Suc (j - 1))"
    by (rule starts_at.after [OF jk]) (use live_pos [OF assms(1) jk] in \<open>simp add: reader_at_def\<close>)
  moreover have "selects pm (reader_at p rd k) = selects pm rd" for k
    by (simp add: fun_eq_iff selects_def reader_at_def)
  moreover have "Suc (j - 1) = (if j = 0 then 1 else j)" by simp
  ultimately show ?thesis
    using read_all_queue [OF assms(1) ne assms(2,3), of "reader_at p rd (j - 1)" "Suc (j - 1)" pm]
    by simp
qed

theorem RingAfter_then_read_witness:
  "map a_data (ring_queue (three_ring 1 2 3)) = [[1], [2], [3]] \<and>
   map a_data (read_all 4 4 (three_ring 1 2 3) prefix_matcher
     (snd (RingAfter (three_ring 1 2 3) prefix_matcher start_reader 5 0))) = [[2], [3]]"
proof -
  let ?p = "three_ring 1 2 3"
  have "sorted (map a_pkttime (ring_queue ?p))" by (simp add: three_ring demo_entry_def)
  then have t: "times_ok ?p" by (rule sorted_times_ok [OF three_ring(1)])
  have "first_after prefix_matcher start_reader 5 (ring_queue ?p) = Some 0"
    by (simp add: first_after_def three_ring demo_entry_def selects_def start_reader_def upt_rec)
  moreover have "length (live ?p) < 4" "Suc (length (live ?p)) = 4" by (simp_all add: three_ring)
  ultimately have "read_all 4 4 ?p prefix_matcher (snd (RingAfter ?p prefix_matcher start_reader 5 0)) =
      filter (\<lambda>a. selects prefix_matcher start_reader (a_streamid a)) (drop 1 (ring_queue ?p))"
    using RingAfter_then_read [OF three_ring(1) t, of 4 prefix_matcher start_reader 5 0] by simp
  then show ?thesis by (simp add: three_ring demo_entry_def selects_def start_reader_def)
qed

text \<open>
  \<open>RingAfterRev\<close> with \<open>whence\<close> 1 looks at the latest \<open>pktlimit\<close> packets at most, back to the first
  wanted one that starts before the time, and goes to the earliest of these that the reader wants
  and that ends after the time; if there is none it reports so and leaves the reader.
\<close>

theorem RingAfterRev_position:
  assumes "ring_inv p" "\<not> latestoffset p < 0" "whence \<noteq> 0"
  shows "RingAfterRev p pm rd t pktlimit whence =
    (let n = length (ring_queue p);
         early = (\<lambda>i. selects pm rd (a_streamid (ring_queue p ! i)) \<and> a_datastart (ring_queue p ! i) < t);
         lo = max (rev_stop early (n - 1)) (n - unat pktlimit)
     in case find (\<lambda>i. selects pm rd (a_streamid (ring_queue p ! i)) \<and> t < a_dataend (ring_queue p ! i)) [lo..<n] of
          None \<Rightarrow> (RINGID_NONE, rd)
        | Some k \<Rightarrow> (a_pktid (ring_queue p ! k), reader_at p rd k))"
proof -
  let ?n = "length (live p)"
  let ?early = "\<lambda>i. selects pm rd (a_streamid (ring_queue p ! i)) \<and> a_datastart (ring_queue p ! i) < t"
  let ?late = "\<lambda>i. selects pm rd (a_streamid (ring_queue p ! i)) \<and> t < a_dataend (ring_queue p ! i)"
  have n: "0 < ?n" using live_ends(1) [OF assms(1,2)] .
  have st: "starts_before p pm rd t i = ?early i" if "i < ?n" for i
    using that live_pos [OF assms(1) that]
    by (simp add: starts_before_def ring_queue_def abs_slot_def PACKETPTR_def)
  have "rev_stop (starts_before p pm rd t) i = rev_stop ?early i" if "i < ?n" for i
    using that by (induction i) (auto simp: st)
  then have lo: "rev_stop (starts_before p pm rd t) (?n - 1) = rev_stop ?early (?n - 1)" using n by simp
  have f: "find (hit p pm rd t) [lo..<?n] = find ?late [lo..<?n]" for lo
    by (rule find_cong) (auto simp: hit_queue [OF assms(1)])
  let ?lo = "max (rev_stop ?early (?n - 1)) (?n - unat pktlimit)"
  have at: "(id_at p k, at_packet rd (pos p k) (PACKETPTR p (pos p k))) = (a_pktid (ring_queue p ! k), reader_at p rd k)"
    if "find ?late [?lo..<?n] = Some k" for k
  proof -
    have "k \<in> set [?lo..<?n]" by (rule find_in_set [OF that])
    then have "k < ?n" unfolding set_upt atLeastLessThan_iff by blast
    then show ?thesis
      by (simp add: at_packet_reader [OF assms(1)] packet_nth(4) [OF assms(1)] length_ring_queue)
  qed
  show ?thesis
    unfolding RingAfterRev_result [OF assms] lo f length_ring_queue Let_def
    using at by (cases "find ?late [?lo..<?n]") (simp_all only: option.case)
qed

lemma rev_stop_numeral:
  "rev_stop e (numeral k) = (if e (numeral k) then numeral k else rev_stop e (pred_numeral k))"
  by (simp add: numeral_eq_Suc)

theorem RingAfterRev_position_witness:
  "fst (RingAfterRev (three_ring 1 2 3) prefix_matcher start_reader 0 2 1) = 2 \<and>
   fst (RingAfterRev (three_ring 1 2 3) prefix_matcher start_reader 50 2 1) = RINGID_NONE"
proof -
  have "\<not> latestoffset (three_ring 1 2 3) < 0"
    using three_ring(3) [of 1 2 3] live_empty [of "three_ring 1 2 3"] by fastforce
  note rev = RingAfterRev_position [OF three_ring(1) this one_neq_zero]
  show ?thesis
    unfolding rev
    by (simp add: three_ring demo_entry_def selects_def start_reader_def upt_rec rev_stop_numeral Let_def)
qed

section \<open>Reading while others write\<close>


definition demo_slot :: slot where
  "demo_slot = \<lparr>hdr = (demo_packet ''A/T'' [1, 2])\<lparr>offset := 0, pktid := 5, pkttime := 9\<rparr>,
     payload = [1, 2, 0, 0, 0, 0, 0, 0]\<rparr>"


text \<open>
  \<open>RingWrite\<close> changes every slot of the buffer by steps of that kind only, so that the readers'
  guarantee holds against it, as long as its clock is ahead of the packet it replaces.
\<close>

theorem RingWrite_takes_steps:
  assumes "ring_inv p" "RingWrite malloc_ok now p h data (datasize h) = (0, p', h')"
    and "pkttime (PACKETPTR p (fst (RingWrite_next p))) < now"
  shows "wsteps (ringmem p x, False) (ringmem p' x, False)"
  by (rule RingWrite_memory [OF assms])

theorem RingWrite_takes_steps_witness:
  "\<exists>p' h'. RingWrite True 7 demo_ring (demo_packet ''X/T'' [1]) [1] 1 = (0, p', h') \<and>
    (\<forall>x. wsteps (ringmem demo_ring x, False) (ringmem p' x, False))"
proof -
  let ?h = "demo_packet ''X/T'' [1]"
  obtain p' h' where w: "RingWrite True 7 demo_ring ?h [1] (datasize ?h) = (0, p', h')"
    using RingWrite_ok [OF demo_ring(1), of ?h "[1]" 7] by (auto simp: demo_ring demo_packet_def MAXSTREAMID_def)
  have mem: "ringmem demo_ring = demo_slots"
  proof -
    have "RingInitialize demo_cfg demo_env zero_param = Some (init_param demo_cfg demo_env
        (init_maxpackets demo_cfg 4096) (init_maxoffset demo_cfg 4096) 4096 True (replicate 4096 0) demo_slots zero_param)"
      by (rule RingInitialize_eval [where ri = False and rep = False])
        (use demo_fits in \<open>simp_all add: demo_cfg_def demo_env_def open_ring_file_def map_ring_file_def RBV3_HEADERSIZE_def\<close>)
    then show ?thesis
      by (auto simp: demo_ring_def init_param_def reset_ring_def load_header_def Let_def demo_env_def)
  qed
  have "pkttime (PACKETPTR demo_ring (fst (RingWrite_next demo_ring))) < 7"
    by (simp add: PACKETPTR_def mem demo_slots_def empty_packet_def)
  then show ?thesis
    using RingWrite_takes_steps [OF demo_ring(1) w] w by (auto simp: demo_packet_def)
qed

section \<open>The stream count after a failed start\<close>

text \<open>
  \<open>RingInitialize\<close> adds to the stream count and never sets it: a start that resets the ring, such
  as the second one after an automatic recovery, keeps the count of the first one with an empty
  index, so the ring then reports streams that it does not hold.
\<close>

theorem recovery_keeps_stream_count:
  assumes "volatilering cfg \<or> names_given env \<and> open_ok env \<and> stat_ok env \<and> f_size env = 0 \<and>
      seek_ok env \<and> write_ok env \<and> (memorymapring cfg \<longrightarrow> mmap_ok env)"
    and "buffer_ok env" "tree_ok env" "slots_of (cf_pktsize cfg) (junk_slots env)"
    and "int RBV3_HEADERSIZE \<le> pagesize env" "pagesize env < 2 ^ 32"
    and "config_fits cfg (of_int (pagesize env))"
  shows "\<exists>p'. RingInitialize cfg env p = Some (0, p') \<and> streamidx p' = Map.empty \<and>
    streamcount p' = streamcount p"
  using RingInitialize_reset [OF assms] by blast


text \<open>
  The files of a ring whose packets have been wiped: the start fails and leaves the number of
  streams it read; the start after the recovery, without files, succeeds and keeps that number.
\<close>

definition wiped_env :: init_env where
  "wiped_env = file_restart (RBBuildStack (streamidx file_ring)) (store_header file_ring (replicate 4096 0)) demo_slots"

lemma wiped_start:
  "\<exists>p1. RingInitialize file_cfg wiped_env zero_param = Some (-1, p1) \<and> streamcount p1 = streamcount file_ring"
proof -
  let ?header = "store_header file_ring (replicate 4096 0)"
  note inv = file_ring(1)
  have ne: "\<not> latestoffset file_ring < 0"
    using file_ring(4) live_empty [of file_ring] by (auto simp: ring_queue_def)
  note g = ring_geomD [OF ring_invD(1) [OF inv]] and v = ring_invD(12,13) [OF inv ne]
  have range: "- (2 ^ 63) \<le> maxoffset file_ring" "maxoffset file_ring < 2 ^ 63"
      "- (2 ^ 63) \<le> earliestoffset file_ring" "earliestoffset file_ring < 2 ^ 63"
      "- (2 ^ 63) \<le> latestoffset file_ring" "latestoffset file_ring < 2 ^ 63"
    using g(1,6) v by (auto simp: valid_off_def)
  have "RBV3_HEADERSIZE \<le> length (replicate 4096 (0 :: byte))" by (simp add: RBV3_HEADERSIZE_def)
  note hdr = store_load_header [OF this range]
  note cfg = file_ring(3) [unfolded of_config_def]
  let ?q = "zero_param\<lparr>streamidx := Map.empty, ringmem := demo_slots, config_pktsize := 128\<rparr>"
  have q: "load_header ?header ?q = file_ring\<lparr>streamidx := Map.empty, streamcount := 0, ringmem := demo_slots\<rparr>"
    using hdr cfg g(2) by (simp add: load_header_def zero_param_def file_cfg_def demo_cfg_def)
  have opened: "open_ring_file file_cfg wiped_env 4096 = Inr (False, False)"
    "map_ring_file file_cfg wiped_env False = Inr (False, ?header, demo_slots)"
    using hdr cfg
    by (simp_all add: open_ring_file_def map_ring_file_def wiped_env_def file_restart_def demo_env_def
        file_cfg_def demo_cfg_def Let_def)
  have rt: "fold (\<lambda>st idx. UpdStreamIdx idx (st_streamid st) st) (RBBuildStack (streamidx file_ring)) Map.empty = streamidx file_ring"
    "of_nat (length (RBBuildStack (streamidx file_ring))) = streamcount file_ring"
    using streams_round_trip [OF file_ring(2) ring_invD(4) [OF inv]] ring_invD(5) [OF inv] by simp_all
  have "earliestoffset file_ring \<in> set (live file_ring)"
    using live_hd_last [OF ring_invD(1) [OF inv] v] hd_in_set by metis
  then have "streamidx file_ring \<noteq> Map.empty" using index_has_stream [OF inv] by (auto simp: GetStreamIdx_def)
  then have some: "RBBuildStack (streamidx file_ring) \<noteq> []" using ring_invD(4) [OF inv] by (simp add: RBBuildStack_def)
  have "0 \<le> earliestoffset file_ring" using v by (simp add: valid_off_def)
  then have "init_param file_cfg wiped_env (init_maxpackets file_cfg 4096) (init_maxoffset file_cfg 4096) 4096
      False ?header demo_slots zero_param = (-1, file_ring\<lparr>streamidx := Map.empty, ringmem := demo_slots\<rparr>)"
    using hdr cfg q rt some
    by (simp add: init_param_def header_differs_def recover_streams_def wiped_env_def file_restart_def
        demo_env_def load_streams_eval ring_corrupt_def end_corrupt_def PACKETPTR_def demo_slots_def
        empty_packet_def Let_def file_cfg_def demo_cfg_def)
  moreover have "RingInitialize file_cfg wiped_env zero_param = Some (init_param file_cfg wiped_env
      (init_maxpackets file_cfg 4096) (init_maxoffset file_cfg 4096) 4096 False ?header demo_slots zero_param)"
    by (rule RingInitialize_eval [OF _ _ _ _ _ opened])
      (simp_all add: wiped_env_def file_restart_def demo_env_def RBV3_HEADERSIZE_def file_cfg_def demo_cfg_def
        config_fits_def)
  ultimately show ?thesis by simp
qed

theorem recovery_keeps_stream_count_witness:
  "\<exists>p1 p2. RingInitialize file_cfg wiped_env zero_param = Some (-1, p1) \<and>
    RingInitialize file_cfg demo_env p1 = Some (0, p2) \<and> streamidx p2 = Map.empty \<and>
    streamcount p2 = streamcount file_ring"
proof -
  obtain p1 where p1: "RingInitialize file_cfg wiped_env zero_param = Some (-1, p1)"
    "streamcount p1 = streamcount file_ring" using wiped_start by blast
  moreover have "\<exists>p2. RingInitialize file_cfg demo_env p1 = Some (0, p2) \<and> streamidx p2 = Map.empty \<and>
      streamcount p2 = streamcount p1"
    by (rule recovery_keeps_stream_count)
      (simp_all add: file_cfg_def demo_cfg_def demo_env_def slots_of_def demo_slots_def RBV3_HEADERSIZE_def
        config_fits_def)
  ultimately show ?thesis by auto
qed

end
