(* ===== verification/RS_Glob.thy ===== *)
theory RS_Glob
  imports RS_Prelude "HOL-Library.Char_ord"
begin

text \<open>
  The glob matcher of \<open>ringserver-4/src/generic.c\<close> (\<open>GlobMatch\<close> and \<open>_match_charclass\<close>), which
  selects stations, streams and labels of SeedLink requests, with a reference matcher on parsed
  patterns and the proof that the two agree.  Pointers into the string and the pattern are the
  suffixes that they head.
\<close>

section \<open>The code\<close>

text \<open>The main loop of the class parser; the result is \<open>matched\<close> and the rest of the pattern.\<close>

fun charclass_loop :: "char \<Rightarrow> string \<Rightarrow> bool \<Rightarrow> bool \<times> string" where
  "charclass_loop c [] matched = (matched, [])"
| "charclass_loop c (pc # p) matched =
     (if pc = CHR '']'' then (matched, pc # p)
      else if p \<noteq> [] \<and> hd p = CHR ''-'' \<and> tl p \<noteq> [] \<and> hd (tl p) \<noteq> CHR '']'' \<and> pc \<le> hd (tl p)
      then charclass_loop c (tl (tl p)) (matched \<or> (pc \<le> c \<and> c \<le> hd (tl p)))
      else charclass_loop c p (matched \<or> c = pc))"

text \<open>The result is whether \<open>c\<close> matches, and the new value of \<open>*pp\<close>.\<close>

definition match_charclass :: "string \<Rightarrow> char \<Rightarrow> bool \<times> string" where
  "match_charclass pp c =
     (let negate = (pp \<noteq> [] \<and> (hd pp = CHR ''^'' \<or> hd pp = CHR ''!''));
          p1 = (if negate then tl pp else pp);
          (m2, p2) = (if p1 \<noteq> [] \<and> hd p1 = CHR '']'' then (c = CHR '']'', tl p1) else (False, p1));
          (m3, p3) = (if p2 \<noteq> [] \<and> hd p2 = CHR ''-'' then (m2 \<or> c = CHR ''-'', tl p2) else (m2, p2));
          (m4, p4) = charclass_loop c p3 m3
      in if p4 = [] then (False, p4)
         else (if negate then \<not> m4 else m4, tl p4))"

text \<open>
  The variables of the last star: \<open>star_p + 1\<close>, \<open>star_s\<close> and \<open>star_skip\<close> (no literal is \<open>None\<close>).
\<close>

type_synonym star = "string \<times> string \<times> char option"

text \<open>\<open>strchr\<close>: the string from the first occurrence of a character on.\<close>

definition strchr :: "string \<Rightarrow> char \<Rightarrow> string option" where
  "strchr s c = (let r = dropWhile (\<lambda>x. x \<noteq> c) s in if r = [] then None else Some r)"

definition star_literal :: "string \<Rightarrow> char option" where
  "star_literal p = (case p of
     [] \<Rightarrow> None
   | c # q \<Rightarrow> (if c = CHR 0x5C \<and> q \<noteq> [] then Some (hd q)
              else if c = CHR ''?'' \<or> c = CHR ''['' then None else Some c))"

text \<open>
  The label \<open>star_backtrack\<close>: \<open>Inl\<close> the return value, or the string, the pattern and the star to go
  on with.
\<close>

definition star_backtrack :: "star option \<Rightarrow> bool + (string \<times> string \<times> star option)" where
  "star_backtrack st = (case st of
     None \<Rightarrow> Inl False
   | Some (star_p, star_s, star_skip) \<Rightarrow>
      (case star_s of
         [] \<Rightarrow> Inl False
       | _ # s1 \<Rightarrow>
          (case star_skip of
             Some l \<Rightarrow> (case strchr s1 l of
                 None \<Rightarrow> Inl False
               | Some found \<Rightarrow> Inr (found, star_p, Some (star_p, found, star_skip)))
           | None \<Rightarrow> (if s1 = [] then Inl False
                     else Inr (s1, star_p, Some (star_p, s1, star_skip))))))"

text \<open>One pass of the loop.\<close>

definition GlobMatch_step ::
  "string \<Rightarrow> string \<Rightarrow> star option \<Rightarrow> bool + (string \<times> string \<times> star option)" where
  "GlobMatch_step str pattern st = (case pattern of
     [] \<Rightarrow> (if str = [] then Inl True else if st \<noteq> None then star_backtrack st else Inl False)
   | c # p \<Rightarrow>
      (if c = CHR ''?'' then (if str = [] then star_backtrack st else Inr (tl str, p, st))
       else if c = CHR ''*'' then
         (let p1 = dropWhile (\<lambda>x. x = CHR ''*'') p
          in if p1 = [] then Inl True
             else (case star_literal p1 of
                 None \<Rightarrow> Inr (str, p1, Some (p1, str, None))
               | Some l \<Rightarrow> (case strchr str l of
                     None \<Rightarrow> Inl False
                   | Some found \<Rightarrow> Inr (found, p1, Some (p1, found, Some l)))))
       else if c = CHR ''['' then
         (if str = [] then star_backtrack st
          else (let (ok, pp) = match_charclass p (hd str)
                in if ok then Inr (tl str, pp, st) else star_backtrack st))
       else (let (lit, p1) = (if c = CHR 0x5C \<and> p \<noteq> [] then (hd p, tl p) else (c, p))
             in if str = [] \<or> hd str \<noteq> lit then star_backtrack st else Inr (tl str, p1, st))))"

partial_function (option) GlobMatch_loop :: "string \<Rightarrow> string \<Rightarrow> star option \<Rightarrow> bool option" where
  "GlobMatch_loop str pattern st = (case GlobMatch_step str pattern st of
     Inl r \<Rightarrow> Some r
   | Inr (s, p, st1) \<Rightarrow> GlobMatch_loop s p st1)"

definition GlobMatch :: "string option \<Rightarrow> string option \<Rightarrow> bool option" where
  "GlobMatch str pattern = (case (str, pattern) of
     (Some s, Some p) \<Rightarrow> GlobMatch_loop s p None
   | _ \<Rightarrow> Some False)"

section \<open>The reference\<close>

text \<open>A class is its negation flag and its ranges; a pattern is a list of elements.\<close>

datatype elem = Star | One "char \<Rightarrow> bool"

definition in_ranges :: "(char \<times> char) list \<Rightarrow> char \<Rightarrow> bool" where
  "in_ranges rs c \<longleftrightarrow> (\<exists>(a, b) \<in> set rs. a \<le> c \<and> c \<le> b)"

fun ranges :: "string \<Rightarrow> (char \<times> char) list \<times> string" where
  "ranges [] = ([], [])"
| "ranges [x] = (if x = CHR '']'' then ([], [x]) else ([(x, x)], []))"
| "ranges [x, d] = (if x = CHR '']'' then ([], [x, d])
     else (let (rs, r) = ranges [d] in ((x, x) # rs, r)))"
| "ranges (x # d # y # q) = (if x = CHR '']'' then ([], x # d # y # q)
     else if d = CHR ''-'' \<and> y \<noteq> CHR '']'' \<and> x \<le> y then (let (rs, r) = ranges q in ((x, y) # rs, r))
     else (let (rs, r) = ranges (d # y # q) in ((x, x) # rs, r)))"

definition leading :: "char \<Rightarrow> string \<Rightarrow> (char \<times> char) list \<times> string" where
  "leading x p = (case p of y # q \<Rightarrow> (if y = x then ([(x, x)], q) else ([], p)) | [] \<Rightarrow> ([], p))"

text \<open>The class after a bracket: the characters it accepts and what follows its end.\<close>

definition glob_class :: "string \<Rightarrow> (char \<Rightarrow> bool) \<times> string" where
  "glob_class p =
     (let (neg, p1) = (case p of x # q \<Rightarrow> (if x \<in> {CHR ''^'', CHR ''!''} then (True, q) else (False, p))
                                | [] \<Rightarrow> (False, p));
          (r1, p2) = leading CHR '']'' p1;
          (r2, p3) = leading CHR ''-'' p2;
          (r3, p4) = ranges p3
      in (case p4 of [] \<Rightarrow> (\<lambda>_. False, [])
                   | _ # q \<Rightarrow> (\<lambda>c. in_ranges (r1 @ r2 @ r3) c \<noteq> neg, q)))"

text \<open>The elements of a pattern; a backslash at the end stands for itself.\<close>

lemma ranges_length: "length (snd (ranges p)) \<le> length p"
  by (induction p rule: ranges.induct) (auto simp: split_def Let_def)

lemma leading_length: "length (snd (leading x p)) \<le> length p"
  by (auto simp: leading_def split: list.splits)

lemma glob_class_length: "length (snd (glob_class p)) \<le> length p"
proof -
  define p1 where "p1 = (case p of x # q \<Rightarrow> (if x \<in> {CHR ''^'', CHR ''!''} then q else p) | [] \<Rightarrow> p)"
  define p4 where "p4 = snd (ranges (snd (leading CHR ''-'' (snd (leading CHR '']'' p1)))))"
  have "length p4 \<le> length p1"
    unfolding p4_def using ranges_length leading_length le_trans by blast
  moreover have "length p1 \<le> length p" by (auto simp: p1_def split: list.splits)
  moreover have "snd (glob_class p) = tl p4"
    by (auto simp: glob_class_def p1_def p4_def Let_def split_def split: list.splits)
  ultimately show ?thesis by simp
qed

function elems :: "string \<Rightarrow> elem list" where
  "elems [] = []"
| "elems (c # p) =
     (if c = CHR ''?'' then One (\<lambda>_. True) # elems p
      else if c = CHR ''*'' then Star # elems p
      else if c = CHR ''['' then One (fst (glob_class p)) # elems (snd (glob_class p))
      else if c = CHR 0x5C \<and> p \<noteq> [] then One (\<lambda>x. x = hd p) # elems (tl p)
      else One (\<lambda>x. x = c) # elems p)"
  by pat_completeness auto
termination
  by (relation "measure length") (auto simp: glob_class_length le_imp_less_Suc)

declare elems.simps(2) [simp del]

fun glob :: "elem list \<Rightarrow> string \<Rightarrow> bool" where
  "glob [] s \<longleftrightarrow> s = []"
| "glob (Star # es) s \<longleftrightarrow> (\<exists>n \<le> length s. glob es (drop n s))"
| "glob (One P # es) s \<longleftrightarrow> s \<noteq> [] \<and> P (hd s) \<and> glob es (tl s)"

section \<open>Classes agree\<close>

lemma charclass_ranges:
  "charclass_loop c p m = (m \<or> in_ranges (fst (ranges p)) c, snd (ranges p))"
  by (induction p arbitrary: m rule: ranges.induct)
    (auto simp: in_ranges_def split_def Let_def)

lemma in_ranges_simps [simp]:
  "\<not> in_ranges [] c"
  "in_ranges (rs @ rs') c \<longleftrightarrow> in_ranges rs c \<or> in_ranges rs' c"
  "in_ranges ((a, b) # rs) c \<longleftrightarrow> (a \<le> c \<and> c \<le> b) \<or> in_ranges rs c"
  by (auto simp: in_ranges_def)

lemma leading_code:
  "(if p \<noteq> [] \<and> hd p = x then (m \<or> c = x, tl p) else (m, p)) =
   (m \<or> in_ranges (fst (leading x p)) c, snd (leading x p))"
  by (cases p) (auto simp: leading_def)

lemma leading_code_first:
  "(if p \<noteq> [] \<and> hd p = x then (c = x, tl p) else (False, p)) =
   (in_ranges (fst (leading x p)) c, snd (leading x p))"
  by (cases p) (auto simp: leading_def)

lemma match_charclass_class: "match_charclass p c = (fst (glob_class p) c, snd (glob_class p))"
proof -
  define neg where "neg \<longleftrightarrow> p \<noteq> [] \<and> (hd p = CHR ''^'' \<or> hd p = CHR ''!'')"
  define p1 where "p1 = (if neg then tl p else p)"
  have code: "match_charclass p c =
     (let (r1, p2) = leading CHR '']'' p1; (r2, p3) = leading CHR ''-'' p2; (r3, p4) = ranges p3
      in if p4 = [] then (False, p4) else (in_ranges (r1 @ r2 @ r3) c \<noteq> neg, tl p4))"
    unfolding match_charclass_def neg_def [symmetric] Let_def p1_def [symmetric]
      leading_code leading_code_first charclass_ranges split_def fst_conv snd_conv
    by simp
  have neg: "(case p of [] \<Rightarrow> (False, p)
      | x # q \<Rightarrow> if x \<in> {CHR ''^'', CHR ''!''} then (True, q) else (False, p)) = (neg, p1)"
    by (cases p) (auto simp: neg_def p1_def)
  show ?thesis
    unfolding code glob_class_def neg Let_def split_def fst_conv snd_conv
    by (simp split: list.split)
qed

section \<open>The loop keeps the meaning of the pattern\<close>

text \<open>
  \<open>glob_sem\<close> is what the rest of the search decides: after a star only matches through that star
  count, because every match through an earlier star also passes through it.
\<close>

definition glob_sem :: "string \<Rightarrow> string \<Rightarrow> star option \<Rightarrow> bool" where
  "glob_sem str pat st = (case st of
     None \<Rightarrow> glob (elems pat) str
   | Some (star_p, star_s, _) \<Rightarrow> glob (Star # elems star_p) star_s)"

text \<open>
  What lies between the star and the current position has matched, and the byte to skip to is the
  first element after the star.
\<close>

definition glob_inv :: "string \<Rightarrow> string \<Rightarrow> star option \<Rightarrow> bool" where
  "glob_inv str pat st \<longleftrightarrow> (\<forall>star_p star_s skip. st = Some (star_p, star_s, skip) \<longrightarrow>
     length pat \<le> length star_p \<and>
     (\<exists>pre u. elems star_p = pre @ elems pat \<and> star_s = u @ str
        \<and> list_all2 (\<lambda>e x. \<exists>P. e = One P \<and> P x) pre u) \<and>
     (\<exists>P es. elems star_p = One P # es \<and> (\<forall>l. skip = Some l \<longrightarrow> P = (\<lambda>x. x = l))))"

definition glob_measure :: "(string \<times> string \<times> star option) \<Rightarrow> nat \<times> nat \<times> nat" where
  "glob_measure = (\<lambda>(str, pat, st). case st of
     None \<Rightarrow> (Suc (length pat), 0, length pat)
   | Some (star_p, star_s, _) \<Rightarrow> (length star_p, length star_s, length pat))"

definition glob_order :: "((string \<times> string \<times> star option) \<times> (string \<times> string \<times> star option)) set" where
  "glob_order = inv_image (less_than <*lex*> less_than <*lex*> less_than) glob_measure"

lemma wf_glob_order: "wf glob_order"
  unfolding glob_order_def by (intro wf_inv_image wf_lex_prod wf_less_than)

lemma glob_Star: "glob (Star # es) s \<longleftrightarrow> glob es s \<or> s \<noteq> [] \<and> glob (Star # es) (tl s)"
proof (cases s)
  case (Cons x s1)
  have "(\<exists>n \<le> length s. glob es (drop n s)) \<longleftrightarrow> glob es s \<or> (\<exists>n \<le> length s1. glob es (drop n s1))"
    unfolding Cons by (metis Suc_le_mono drop0 drop_Suc_Cons le0 length_Cons not0_implies_Suc)
  then show ?thesis by (simp add: Cons)
qed simp

lemma glob_Star_suffix: "glob (Star # es) (drop n s) \<Longrightarrow> glob (Star # es) s"
proof (induction n arbitrary: s)
  case (Suc n)
  then show ?case
    by (cases s) (metis drop_Nil, metis drop_Suc_Cons glob_Star list.distinct(1) list.sel(3))
qed simp

lemma glob_Star_Star: "glob (Star # Star # es) s = glob (Star # es) s"
  using glob_Star_suffix glob_Star by (metis glob.simps(2))

lemma glob_prefix:
  "list_all2 (\<lambda>e x. \<exists>P. e = One P \<and> P x) pre u \<Longrightarrow> glob (pre @ es) (u @ s) = glob es s"
  by (induction rule: list_all2_induct) auto

lemma glob_prefix_drop:
  "list_all (\<lambda>e. \<exists>P. e = One P) pre \<Longrightarrow> glob (pre @ es) s \<Longrightarrow> glob es (drop (length pre) s)"
  by (induction pre arbitrary: s) (auto simp: drop_Suc)

lemma glob_last_star:
  assumes "list_all2 (\<lambda>e x. \<exists>P. e = One P \<and> P x) pre u"
  shows "glob (Star # pre @ Star # es) (u @ s) = glob (Star # es) s"
proof
  have len: "length pre = length u" using assms by (rule list_all2_lengthD)
  have one: "list_all (\<lambda>e. \<exists>P. e = One P) pre"
    using assms by (induction rule: list_all2_induct) auto
  assume "glob (Star # pre @ Star # es) (u @ s)"
  then obtain n where "glob (pre @ Star # es) (drop n (u @ s))" by auto
  then have "glob (Star # es) (drop (length u) (drop n (u @ s)))"
    using glob_prefix_drop [OF one] len by metis
  moreover have "drop (length u) (drop n (u @ s)) = drop (n + length u) (u @ s)"
    by (simp only: drop_drop add.commute)
  moreover have "drop (n + length u) (u @ s) = drop n s" by simp
  ultimately show "glob (Star # es) s" using glob_Star_suffix by metis
next
  assume "glob (Star # es) s"
  then have "glob (pre @ Star # es) (u @ s)" using glob_prefix [OF assms] by blast
  then show "glob (Star # pre @ Star # es) (u @ s)" using glob_Star by blast
qed

lemma strchr_None: "strchr s c = None \<longleftrightarrow> c \<notin> set s"
  by (auto simp: strchr_def Let_def dropWhile_eq_Nil_conv)

lemma strchr_Some:
  "strchr s c = Some r \<Longrightarrow> \<exists>u. s = u @ r \<and> c \<notin> set u \<and> r \<noteq> [] \<and> hd r = c"
proof -
  assume "strchr s c = Some r"
  then have r: "r = dropWhile (\<lambda>x. x \<noteq> c) s" "r \<noteq> []"
    unfolding strchr_def Let_def by (simp_all split: if_splits del: dropWhile_eq_Nil_conv)
  have "c \<notin> set (takeWhile (\<lambda>x. x \<noteq> c) s)" by (auto dest: set_takeWhileD)
  moreover have "hd r = c" using hd_dropWhile [of "\<lambda>x. x \<noteq> c" s] r by simp
  moreover have "s = takeWhile (\<lambda>x. x \<noteq> c) s @ r" using r(1) by simp
  ultimately show ?thesis using r(2) by blast
qed

lemma glob_Star_step: "s \<noteq> [] \<Longrightarrow> \<not> glob es s \<Longrightarrow> glob (Star # es) s = glob (Star # es) (tl s)"
  using glob_Star by blast

lemma glob_skip_none: "l \<notin> set s \<Longrightarrow> \<not> glob (Star # One (\<lambda>x. x = l) # es) s"
proof (induction s)
  case (Cons x s)
  then show ?case
    by (subst glob_Star_step) (auto simp del: glob.simps(2))
qed simp

lemma glob_skip:
  "l \<notin> set u \<Longrightarrow> glob (Star # One (\<lambda>x. x = l) # es) (u @ r) = glob (Star # One (\<lambda>x. x = l) # es) r"
proof (induction u)
  case (Cons x u)
  then show ?case
    by (subst append_Cons, subst glob_Star_step) (auto simp del: glob.simps(2))
qed simp

text \<open>What one pass has to guarantee.\<close>

definition glob_ok ::
  "string \<Rightarrow> string \<Rightarrow> star option \<Rightarrow> bool + (string \<times> string \<times> star option) \<Rightarrow> bool" where
  "glob_ok str pat st res \<longleftrightarrow> (case res of
     Inl r \<Rightarrow> r = glob_sem str pat st
   | Inr (s, p, st1) \<Rightarrow> glob_sem s p st1 = glob_sem str pat st \<and> glob_inv s p st1
       \<and> ((s, p, st1), (str, pat, st)) \<in> glob_order)"

lemma glob_backtrack:
  assumes inv: "glob_inv str pat st" and no: "\<not> glob (elems pat) str"
  shows "glob_ok str pat st (star_backtrack st)"
proof (cases st)
  case None
  then show ?thesis using no by (simp add: glob_ok_def star_backtrack_def glob_sem_def)
next
  case (Some t)
  obtain sp ss sk where t: "st = Some (sp, ss, sk)" using Some by (cases t) auto
  obtain pre u where pre: "elems sp = pre @ elems pat" "ss = u @ str"
      "list_all2 (\<lambda>e x. \<exists>P. e = One P \<and> P x) pre u"
    using inv t unfolding glob_inv_def by blast
  obtain P es where P: "elems sp = One P # es" "\<forall>l. sk = Some l \<longrightarrow> P = (\<lambda>x. x = l)"
    using inv t unfolding glob_inv_def by blast
  have no_here: "\<not> glob (elems sp) ss" using glob_prefix [OF pre(3)] pre no by simp
  have sem: "glob_sem str pat st = glob (Star # elems sp) ss" by (simp add: glob_sem_def t)
  have inv': "glob_inv r sp (Some (sp, r, sk))" for r
    unfolding glob_inv_def using P by (auto intro!: exI [of _ "[]"])
  show ?thesis
  proof (cases ss)
    case Nil
    then have "star_backtrack st = Inl False" by (simp add: star_backtrack_def t)
    moreover have "\<not> glob (Star # elems sp) ss" using Nil no_here by simp
    ultimately show ?thesis by (simp add: glob_ok_def sem del: glob.simps)
  next
    case (Cons x s1)
    have sem1: "glob (Star # elems sp) ss = glob (Star # elems sp) s1"
      using glob_Star_step [OF _ no_here] Cons by simp
    show ?thesis
    proof (cases sk)
      case None
      then show ?thesis
      proof (cases "s1 = []")
        case True
        then have "star_backtrack st = Inl False" by (simp add: star_backtrack_def t Cons None)
        moreover have "\<not> glob (Star # elems sp) s1" using True P(1) by simp
        ultimately show ?thesis by (simp add: glob_ok_def sem sem1 del: glob.simps)
      next
        case False
        then have "star_backtrack st = Inr (s1, sp, Some (sp, s1, sk))"
          by (simp add: star_backtrack_def t Cons None)
        then show ?thesis using inv' Cons sem1
          by (simp add: glob_ok_def sem glob_sem_def glob_order_def glob_measure_def t del: glob.simps)
      qed
    next
      case (Some l)
      have el: "elems sp = One (\<lambda>x. x = l) # es" using P Some by simp
      show ?thesis
      proof (cases "strchr s1 l")
        case None
        then have "star_backtrack st = Inl False" by (simp add: star_backtrack_def t Cons Some)
        moreover have "\<not> glob (Star # elems sp) s1"
          using None glob_skip_none unfolding el strchr_None by blast
        ultimately show ?thesis by (simp add: glob_ok_def sem sem1 del: glob.simps)
      next
        case found: (Some r)
        obtain v where v: "s1 = v @ r" "l \<notin> set v" using strchr_Some [OF found] by blast
        have "glob (Star # elems sp) s1 = glob (Star # elems sp) r"
          unfolding v(1) el by (rule glob_skip [OF v(2)])
        moreover have "star_backtrack st = Inr (r, sp, Some (sp, r, sk))"
          by (simp add: star_backtrack_def t Cons Some found)
        moreover have "length r < length ss" using v Cons by simp
        ultimately show ?thesis using inv' sem1
          by (simp add: glob_ok_def sem glob_sem_def glob_order_def glob_measure_def t del: glob.simps)
      qed
    qed
  qed
qed

text \<open>A matched character moves both positions by one element.\<close>

lemma glob_advance:
  assumes inv: "glob_inv (x # s) pat st" and el: "elems pat = One P # elems p" and P: "P x"
    and len: "length p < length pat"
  shows "glob_ok (x # s) pat st (Inr (s, p, st))"
proof (cases st)
  case None
  then show ?thesis using el P len
    by (simp add: glob_ok_def glob_sem_def glob_inv_def glob_order_def glob_measure_def)
next
  case (Some t)
  obtain sp ss sk where t: "st = Some (sp, ss, sk)" using Some by (cases t) auto
  obtain pre u where pre: "elems sp = pre @ elems pat" "ss = u @ x # s"
      "list_all2 (\<lambda>e x. \<exists>P. e = One P \<and> P x) pre u"
    using inv t unfolding glob_inv_def by blast
  have "elems sp = (pre @ [One P]) @ elems p" "ss = (u @ [x]) @ s"
      "list_all2 (\<lambda>e x. \<exists>P. e = One P \<and> P x) (pre @ [One P]) (u @ [x])"
    using pre el P by (auto intro: list_all2_appendI)
  then have "glob_inv s p st"
    using inv len unfolding glob_inv_def t by (auto simp del: append_assoc)
  then show ?thesis using len
    by (simp add: glob_ok_def glob_sem_def t glob_order_def glob_measure_def)
qed

lemma glob_collapse:
  "glob (Star # elems p) s = glob (Star # elems (dropWhile (\<lambda>x. x = CHR ''*'') p)) s"
proof (induction p)
  case (Cons c p)
  show ?case
  proof (cases "c = CHR ''*''")
    case True
    then have "elems (c # p) = Star # elems p" by (simp add: elems.simps(2))
    then show ?thesis using Cons glob_Star_Star True by simp
  qed simp
qed simp

lemma star_first:
  assumes "p \<noteq> []" "hd p \<noteq> CHR ''*''"
  shows "\<exists>P es. elems p = One P # es \<and> (\<forall>l. star_literal p = Some l \<longrightarrow> P = (\<lambda>x. x = l))"
  using assms by (cases p) (auto simp: elems.simps(2) star_literal_def)

lemma glob_new_star:
  assumes inv: "glob_inv str pat st" and pat: "pat = CHR ''*'' # p"
  shows "glob_ok str pat st (GlobMatch_step str pat st)"
proof -
  define p1 where "p1 = dropWhile (\<lambda>x. x = CHR ''*'') p"
  have len1: "length p1 < length pat" by (simp add: p1_def pat le_imp_less_Suc length_dropWhile_le)
  have el: "elems pat = Star # elems p" by (simp add: pat elems.simps(2))
  have collapse: "glob (Star # elems p) str = glob (Star # elems p1) str"
    unfolding p1_def by (rule glob_collapse)
  have sem: "glob_sem str pat st = glob (Star # elems p1) str"
  proof (cases st)
    case None
    then show ?thesis by (simp add: glob_sem_def el collapse del: glob.simps)
  next
    case (Some t)
    obtain sp ss sk where t: "st = Some (sp, ss, sk)" using Some by (cases t) auto
    obtain pre u where pre: "elems sp = pre @ elems pat" "ss = u @ str"
        "list_all2 (\<lambda>e x. \<exists>P. e = One P \<and> P x) pre u"
      using inv t unfolding glob_inv_def by blast
    have "glob_sem str pat st = glob (Star # pre @ Star # elems p) (u @ str)"
      by (simp add: glob_sem_def t pre el del: glob.simps)
    also have "\<dots> = glob (Star # elems p) str" by (rule glob_last_star [OF pre(3)])
    finally show ?thesis unfolding collapse .
  qed
  have ord: "((s, p1, Some (p1, s, sk)), (str, pat, st)) \<in> glob_order" for s sk
  proof (cases st)
    case (Some t)
    obtain sp ss sk' where t: "st = Some (sp, ss, sk')" using Some by (cases t) auto
    then have "length pat \<le> length sp" using inv unfolding glob_inv_def by blast
    then show ?thesis using len1 by (simp add: glob_order_def glob_measure_def t)
  qed (use len1 in \<open>simp add: glob_order_def glob_measure_def\<close>)
  have step: "GlobMatch_step str pat st =
      (if p1 = [] then Inl True
       else (case star_literal p1 of
           None \<Rightarrow> Inr (str, p1, Some (p1, str, None))
         | Some l \<Rightarrow> (case strchr str l of
               None \<Rightarrow> Inl False
             | Some found \<Rightarrow> Inr (found, p1, Some (p1, found, Some l)))))"
    unfolding p1_def by (simp add: GlobMatch_step_def pat Let_def)
  show ?thesis
  proof (cases "p1 = []")
    case True
    then have "GlobMatch_step str pat st = Inl True" by (simp add: step)
    moreover have "glob (Star # elems p1) str" by (simp add: True) (rule exI [of _ "length str"], simp)
    ultimately show ?thesis by (simp add: glob_ok_def sem del: glob.simps)
  next
    case False
    then have "hd p1 \<noteq> CHR ''*''" using hd_dropWhile [of "\<lambda>x. x = CHR ''*''" p] by (simp add: p1_def)
    then obtain P es where P: "elems p1 = One P # es"
        "\<forall>l. star_literal p1 = Some l \<longrightarrow> P = (\<lambda>x. x = l)"
      using star_first False by blast
    have inv1: "glob_inv s p1 (Some (p1, s, star_literal p1))" for s
      using P unfolding glob_inv_def by (auto intro!: exI [of _ "[]"])
    show ?thesis
    proof (cases "star_literal p1")
      case None
      then have "GlobMatch_step str pat st = Inr (str, p1, Some (p1, str, None))"
        using False by (simp add: step)
      then show ?thesis using inv1 [of str] ord sem None
        by (simp add: glob_ok_def glob_sem_def del: glob.simps)
    next
      case (Some l)
      have el1: "elems p1 = One (\<lambda>x. x = l) # es" using P Some by simp
      show ?thesis
      proof (cases "strchr str l")
        case None
        then have "GlobMatch_step str pat st = Inl False"
          using False Some by (simp add: step)
        moreover have "\<not> glob (Star # elems p1) str"
          using None glob_skip_none unfolding el1 strchr_None by blast
        ultimately show ?thesis by (simp add: glob_ok_def sem del: glob.simps)
      next
        case found: (Some r)
        obtain v where v: "str = v @ r" "l \<notin> set v" using strchr_Some [OF found] by blast
        have "glob (Star # elems p1) str = glob (Star # elems p1) r"
          unfolding v(1) el1 by (rule glob_skip [OF v(2)])
        moreover have "GlobMatch_step str pat st = Inr (r, p1, Some (p1, r, Some l))"
          using False Some found by (simp add: step)
        ultimately show ?thesis using inv1 [of r] ord sem Some
          by (simp add: glob_ok_def glob_sem_def del: glob.simps)
      qed
    qed
  qed
qed

lemma GlobMatch_step_ok:
  assumes inv: "glob_inv str pat st"
  shows "glob_ok str pat st (GlobMatch_step str pat st)"
proof (cases pat)
  case Nil
  show ?thesis
  proof (cases str)
    case empty: Nil
    have "glob_sem [] [] st"
    proof (cases st)
      case (Some t)
      obtain sp ss sk where t: "st = Some (sp, ss, sk)" using Some by (cases t) auto
      obtain pre u where pre: "elems sp = pre @ []" "ss = u @ []"
          "list_all2 (\<lambda>e x. \<exists>P. e = One P \<and> P x) pre u"
        using inv t Nil empty unfolding glob_inv_def by auto
      have "glob (elems sp) ss" using glob_prefix [OF pre(3), of "[]" "[]"] pre by simp
      then have "glob (Star # elems sp) ss" using glob_Star by blast
      then show ?thesis by (simp add: glob_sem_def t del: glob.simps)
    qed (simp add: glob_sem_def)
    then show ?thesis by (simp add: GlobMatch_step_def Nil empty glob_ok_def)
  next
    case (Cons x s)
    have "GlobMatch_step str pat st = star_backtrack st"
      by (cases st) (simp_all add: GlobMatch_step_def Nil Cons star_backtrack_def)
    then show ?thesis using glob_backtrack [OF inv] Nil Cons by simp
  qed
next
  case (Cons c p)
  consider (star) "c = CHR ''*''" | (one) P p1 where "elems pat = One P # elems p1"
      "length p1 < length pat"
      "GlobMatch_step str pat st =
        (if str = [] \<or> \<not> P (hd str) then star_backtrack st else Inr (tl str, p1, st))"
  proof (cases "c = CHR ''['' ")
    case True
    then show ?thesis
      using that(2) [of "fst (glob_class p)" "snd (glob_class p)"] glob_class_length [of p]
      by (simp add: Cons elems.simps(2) GlobMatch_step_def match_charclass_class le_imp_less_Suc)
  next
    case False
    show ?thesis
    proof (cases "c = CHR ''?'' \<or> c = CHR ''*''")
      case True
      then show ?thesis
        using that(1) that(2) [of "\<lambda>_. True" p]
        by (auto simp add: Cons elems.simps(2) GlobMatch_step_def)
    next
      case special: False
      show ?thesis
      proof (cases "c = CHR 0x5C \<and> p \<noteq> []")
        case True
        then show ?thesis
          using that(2) [of "\<lambda>x. x = hd p" "tl p"] special False
          by (simp add: Cons elems.simps(2) GlobMatch_step_def)
      next
        case esc: False
        show ?thesis
          by (rule that(2) [of "\<lambda>x. x = c" p])
            (use special False in \<open>simp_all add: Cons elems.simps(2) GlobMatch_step_def if_not_P [OF esc]\<close>)
      qed
    qed
  qed
  then show ?thesis
  proof cases
    case star
    then show ?thesis using glob_new_star [OF inv] Cons by simp
  next
    case one
    show ?thesis
    proof (cases "str = [] \<or> \<not> P (hd str)")
      case True
      then show ?thesis using glob_backtrack [OF inv] one by auto
    next
      case False
      then obtain x s where "str = x # s" "P x" by (cases str) auto
      then show ?thesis using glob_advance [of x s pat st] inv one by simp
    qed
  qed
qed

lemma GlobMatch_loop_sem: "glob_inv str pat st \<Longrightarrow> GlobMatch_loop str pat st = Some (glob_sem str pat st)"
proof (induction "(str, pat, st)" arbitrary: str pat st rule: wf_induct_rule [OF wf_glob_order])
  case 1
  have ok: "glob_ok str pat st (GlobMatch_step str pat st)" by (rule GlobMatch_step_ok [OF 1(2)])
  show ?case
  proof (cases "GlobMatch_step str pat st")
    case (Inl r)
    then show ?thesis using ok by (subst GlobMatch_loop.simps) (simp add: glob_ok_def)
  next
    case (Inr q)
    obtain s p st1 where q: "q = (s, p, st1)" by (cases q) auto
    have "GlobMatch_loop s p st1 = Some (glob_sem s p st1)"
      by (rule 1(1)) (use ok Inr q in \<open>auto simp: glob_ok_def\<close>)
    then show ?thesis using ok Inr q by (subst GlobMatch_loop.simps) (simp add: glob_ok_def)
  qed
qed

text \<open>
  C20: \<open>GlobMatch\<close> always returns, and its answer is that of the declarative reading of the pattern:
  the string splits into pieces that the pattern's elements match, with a star standing for any
  piece, whatever the skipping and backtracking of the loop.
\<close>

theorem GlobMatch_correct: "GlobMatch (Some s) (Some p) = Some (glob (elems p) s)"
  by (simp add: GlobMatch_def GlobMatch_loop_sem glob_inv_def glob_sem_def)

end
