(* ===== verification/RS_Text.thy ===== *)
theory RS_Text
  imports RS_Prelude
begin

text \<open>
  The text routines of the C library that the command parsers and the reply builders use, in the C
  locale: character classes, comparison without case, \<open>strtoull\<close>/\<open>strtoll\<close> and the decimal
  conversions of \<open>snprintf\<close>.  They are models of the library and map to no line of the program; a C
  string is the list of its characters before the terminating NUL.
\<close>

section \<open>Characters\<close>

definition ord :: "char \<Rightarrow> nat" where "ord c = of_char c"

definition isspace :: "char \<Rightarrow> bool" where
  "isspace c \<longleftrightarrow> ord c = 32 \<or> 9 \<le> ord c \<and> ord c \<le> 13"

definition tolower :: "char \<Rightarrow> char" where
  "tolower c = (if 65 \<le> ord c \<and> ord c \<le> 90 then char_of (ord c + 32) else c)"

definition strcasecmp_eq :: "string \<Rightarrow> string \<Rightarrow> bool" where
  "strcasecmp_eq s t \<longleftrightarrow> map tolower s = map tolower t"

definition digit_value :: "char \<Rightarrow> nat option" where
  "digit_value c =
     (if 48 \<le> ord c \<and> ord c \<le> 57 then Some (ord c - 48)
      else if 97 \<le> ord c \<and> ord c \<le> 122 then Some (ord c - 87)
      else if 65 \<le> ord c \<and> ord c \<le> 90 then Some (ord c - 55)
      else None)"

definition is_digit :: "nat \<Rightarrow> char \<Rightarrow> bool" where
  "is_digit base c \<longleftrightarrow> (case digit_value c of None \<Rightarrow> False | Some d \<Rightarrow> d < base)"

section \<open>Scanning numbers\<close>

definition digits_value :: "nat \<Rightarrow> string \<Rightarrow> nat" where
  "digits_value base ds = foldl (\<lambda>v c. v * base + the (digit_value c)) 0 ds"

text \<open>
  The subject sequence of \<open>strtoull\<close> and \<open>strtoll\<close>: sign, magnitude and what follows it, or nothing
  when there are no digits (then \<open>endptr\<close> is the start).  Base 16 takes an optional \<open>0x\<close>.
\<close>

definition hex_prefix :: "string \<Rightarrow> bool" where
  "hex_prefix s \<longleftrightarrow> 3 \<le> length s \<and> s ! 0 = CHR ''0'' \<and> tolower (s ! 1) = CHR ''x'' \<and> is_digit 16 (s ! 2)"

definition strto :: "nat \<Rightarrow> string \<Rightarrow> (bool \<times> nat \<times> string) option" where
  "strto base s =
     (let s1 = dropWhile isspace s;
          neg = (s1 \<noteq> [] \<and> hd s1 = CHR ''-'');
          s2 = (if s1 \<noteq> [] \<and> (hd s1 = CHR ''-'' \<or> hd s1 = CHR ''+'') then tl s1 else s1);
          s3 = (if base = 16 \<and> hex_prefix s2 then drop 2 s2 else s2);
          ds = takeWhile (is_digit base) s3
      in if ds = [] then None
         else Some (neg, digits_value base ds, dropWhile (is_digit base) s3))"

text \<open>
  \<open>strtoull\<close> with the checks every caller makes (\<open>errno\<close>, \<open>endptr\<close> moved, nothing left): the value,
  or nothing.  A minus sign negates modulo \<open>2 ^ 64\<close>.
\<close>

definition strtoull_all :: "nat \<Rightarrow> string \<Rightarrow> u64 option" where
  "strtoull_all base s = (case strto base s of
     None \<Rightarrow> None
   | Some (neg, v, rest) \<Rightarrow>
      (if v \<ge> 2 ^ 64 \<or> rest \<noteq> [] then None
       else Some (if neg then - of_nat v else of_nat v)))"

definition strtoll_all :: "nat \<Rightarrow> string \<Rightarrow> int option" where
  "strtoll_all base s = (case strto base s of
     None \<Rightarrow> None
   | Some (neg, v, rest) \<Rightarrow>
      (let x = (if neg then - int v else int v)
       in if x < - (2 ^ 63) \<or> 2 ^ 63 \<le> x \<or> rest \<noteq> [] then None else Some x))"

section \<open>Printing numbers\<close>

definition digit_char :: "nat \<Rightarrow> char" where "digit_char d = char_of (48 + d)"

function dec :: "nat \<Rightarrow> string" where
  "dec n = (if n < 10 then [digit_char n] else dec (n div 10) @ [digit_char (n mod 10)])"
  by pat_completeness auto
termination by (relation "measure id") auto

declare dec.simps [simp del]

definition dec_int :: "int \<Rightarrow> string" where
  "dec_int x = (if x < 0 then CHR ''-'' # dec (nat (- x)) else dec (nat x))"

section \<open>Printing and scanning\<close>

lemma ord_digit_char: "d < 10 \<Longrightarrow> ord (digit_char d) = 48 + d"
  by (simp add: ord_def digit_char_def)

lemma digit_value_char: "d < 10 \<Longrightarrow> digit_value (digit_char d) = Some d"
  by (simp add: digit_value_def ord_digit_char)

lemma is_digit_char: "d < 10 \<Longrightarrow> is_digit 10 (digit_char d)"
  by (simp add: is_digit_def digit_value_char)

lemma dec_digits: "list_all (is_digit 10) (dec n) \<and> dec n \<noteq> []"
proof (induction n rule: dec.induct)
  case (1 n)
  show ?case using 1 by (subst (1 2) dec.simps) (simp add: is_digit_char)
qed

lemma dec_nonempty [simp]: "dec n \<noteq> []"
  using dec_digits by blast

lemma dec_is_digit: "c \<in> set (dec n) \<Longrightarrow> is_digit 10 c"
  using dec_digits by (auto simp: list_all_iff)

lemma digits_value_snoc:
  "digits_value base (ds @ [c]) = digits_value base ds * base + the (digit_value c)"
  by (simp add: digits_value_def)

lemma digits_value_dec [simp]: "digits_value 10 (dec n) = n"
proof (induction n rule: dec.induct)
  case (1 n)
  then show ?case
    by (subst dec.simps)
      (auto simp: digits_value_snoc digit_value_char digits_value_def)
qed

lemma dec_inj: "dec m = dec n \<longleftrightarrow> m = n"
  by (metis digits_value_dec)

lemma is_digit_ord: "is_digit 10 c \<longleftrightarrow> 48 \<le> ord c \<and> ord c \<le> 57"
  by (auto simp: is_digit_def digit_value_def split: option.splits)

lemma ord_simps [simp]:
  "ord CHR '' '' = 32" "ord CHR ''-'' = 45" "ord CHR ''+'' = 43" "ord CHR 0x0D = 13" "ord CHR 0x0A = 10"
  by (simp_all add: ord_def)

lemma is_digit_not: "is_digit 10 c \<Longrightarrow> \<not> isspace c \<and> c \<noteq> CHR ''-'' \<and> c \<noteq> CHR ''+''"
  unfolding is_digit_ord isspace_def using ord_simps by auto

lemma strto_digits:
  assumes "ds \<noteq> []" "list_all (is_digit 10) ds" "rest = [] \<or> \<not> is_digit 10 (hd rest)"
  shows "strto 10 (ds @ rest) = Some (False, digits_value 10 ds, rest)"
proof -
  obtain c cs where ds: "ds = c # cs" using assms(1) by (cases ds) auto
  have c: "\<not> isspace c" "c \<noteq> CHR ''-''" "c \<noteq> CHR ''+''"
    using assms(2) is_digit_not unfolding ds by auto
  have all: "\<And>x. x \<in> set ds \<Longrightarrow> is_digit 10 x" using assms(2) by (auto simp: list_all_iff)
  have "takeWhile (is_digit 10) (ds @ rest) = ds" "dropWhile (is_digit 10) (ds @ rest) = rest"
    using all assms(3) by (cases rest, simp_all)+
  then show ?thesis using c ds unfolding strto_def Let_def by simp
qed

lemma strto_neg_digits:
  assumes "ds \<noteq> []" "list_all (is_digit 10) ds"
  shows "strto 10 (CHR ''-'' # ds) = Some (True, digits_value 10 ds, [])"
proof -
  have all: "takeWhile (is_digit 10) ds = ds" "\<forall>x \<in> set ds. is_digit 10 x"
    using assms(2) by (auto simp: list_all_iff takeWhile_eq_all_conv)
  have "\<not> isspace CHR ''-''" by (simp add: isspace_def)
  then show ?thesis
    using assms(1) all(2) by (simp add: strto_def Let_def takeWhile_eq_all_conv [THEN iffD2])
qed

lemma strtoull_dec: "n < 2 ^ 64 \<Longrightarrow> strtoull_all 10 (dec n) = Some (of_nat n)"
  using strto_digits [of "dec n" "[]"] dec_digits by (simp add: strtoull_all_def)

lemma strtoll_dec_int:
  "- (2 ^ 63) \<le> x \<Longrightarrow> x < 2 ^ 63 \<Longrightarrow> strtoll_all 10 (dec_int x) = Some x"
  using strto_digits [of "dec (nat x)" "[]"] strto_neg_digits [of "dec (nat (- x))"] dec_digits
  by (auto simp: strtoll_all_def dec_int_def)

lemma dec_no_space: "c \<in> set (dec n) \<Longrightarrow> \<not> isspace c"
  using dec_is_digit is_digit_not by blast

end
