(* ===== verification/RS_CmdToken.thy ===== *)
theory RS_CmdToken
  imports RS_Text
begin

text \<open>
  The command tokenizer of \<open>ringserver-4/src/cmdtoken.c\<close>.  The working copy \<open>buf\<close> is kept as the
  bytes of the C buffer up to and including the final NUL, and \<open>argv\<close> as positions in it, so that
  the in-place termination of the tokens is part of the model.
\<close>

section \<open>The code\<close>

definition CMDTOKEN_MAX_TOKENS :: nat where "CMDTOKEN_MAX_TOKENS = 16"
definition CMDTOKEN_MAX_LINE :: nat where "CMDTOKEN_MAX_LINE = 8096"

abbreviation NUL :: char where "NUL \<equiv> CHR 0x00"

record CmdToken =
  buf :: string
  orig :: string
  argc :: nat
  argv :: "nat list"
  overflow :: bool

definition IS_TOKEN_SEP :: "char \<Rightarrow> bool" where
  "IS_TOKEN_SEP c \<longleftrightarrow> c = CHR '' '' \<or> c = CHR 0x09 \<or> c = CHR 0x0D \<or> c = CHR 0x0A"

text \<open>The byte at a position, and the C string that starts there.\<close>

definition byte_at :: "string \<Rightarrow> nat \<Rightarrow> char" where
  "byte_at b p = (if p < length b then b ! p else NUL)"

definition cstr :: "string \<Rightarrow> nat \<Rightarrow> string" where
  "cstr b p = takeWhile (\<lambda>c. c \<noteq> NUL) (drop p b)"

definition in_token :: "char \<Rightarrow> bool" where "in_token c \<longleftrightarrow> c \<noteq> NUL \<and> \<not> IS_TOKEN_SEP c"

text \<open>The inner loops: past the separators, and to the end of the token.\<close>

definition skip_seps :: "string \<Rightarrow> nat \<Rightarrow> nat" where
  "skip_seps b p = p + length (takeWhile IS_TOKEN_SEP (drop p b))"

definition token_end :: "string \<Rightarrow> nat \<Rightarrow> nat" where
  "token_end b p = p + length (takeWhile in_token (drop p b))"

lemma skip_seps_ge: "p \<le> skip_seps b p" by (simp add: skip_seps_def)
lemma token_end_ge: "p \<le> token_end b p" by (simp add: token_end_def)

function parse_loop :: "CmdToken \<Rightarrow> nat \<Rightarrow> CmdToken" where
  "parse_loop cmd p =
     (if byte_at (buf cmd) p = NUL then cmd
      else let p1 = skip_seps (buf cmd) p
      in if byte_at (buf cmd) p1 = NUL then cmd
      else if argc cmd \<ge> CMDTOKEN_MAX_TOKENS then cmd\<lparr>overflow := True\<rparr>
      else let cmd1 = cmd\<lparr>argv := argv cmd @ [p1], argc := argc cmd + 1\<rparr>;
               p2 = token_end (buf cmd) p1
      in if byte_at (buf cmd) p2 \<noteq> NUL
         then parse_loop (cmd1\<lparr>buf := (buf cmd)[p2 := NUL]\<rparr>) (p2 + 1)
         else cmd1)"
  by pat_completeness auto
termination
proof (relation "measure (\<lambda>(cmd, p). length (buf cmd) - p)")
  show "wf (measure (\<lambda>(cmd, p). length (buf cmd) - p))" by simp
next
  fix cmd :: CmdToken and p x cmd1 z
  assume "\<not> byte_at (buf cmd) p = NUL" "x = skip_seps (buf cmd) p" "z = token_end (buf cmd) x"
  moreover from this have "p < length (buf cmd)" by (simp add: byte_at_def split: if_splits)
  moreover from calculation have "p \<le> z" using skip_seps_ge token_end_ge le_trans by metis
  ultimately show "((cmd1\<lparr>buf := (buf cmd)[z := NUL]\<rparr>, z + 1), cmd, p)
      \<in> measure (\<lambda>(cmd, p). length (buf cmd) - p)" by auto
qed

declare parse_loop.simps [simp del]

text \<open>The caller's record is cleared first, so only the line decides the result.\<close>

definition cmdtoken_parse :: "string \<Rightarrow> CmdToken option" where
  "cmdtoken_parse line =
     (if length line \<ge> CMDTOKEN_MAX_LINE then None
      else Some (parse_loop \<lparr>buf = line @ [NUL], orig = line, argc = 0, argv = [], overflow = False\<rparr> 0))"

definition arg :: "CmdToken \<Rightarrow> nat \<Rightarrow> string" where
  "arg cmd i = cstr (buf cmd) (argv cmd ! i)"

definition cmdtoken_eq :: "CmdToken \<Rightarrow> int \<Rightarrow> string \<Rightarrow> bool" where
  "cmdtoken_eq cmd i s \<longleftrightarrow> \<not> (i < 0 \<or> int (argc cmd) \<le> i) \<and> arg cmd (nat i) = s"

definition cmdtoken_eq_nocase :: "CmdToken \<Rightarrow> int \<Rightarrow> string \<Rightarrow> bool" where
  "cmdtoken_eq_nocase cmd i s \<longleftrightarrow>
     \<not> (i < 0 \<or> int (argc cmd) \<le> i) \<and> strcasecmp_eq (arg cmd (nat i)) s"

text \<open>The scan of the unmodified line; the result is the suffix that starts with token \<open>n\<close>.\<close>

function rest_loop :: "string \<Rightarrow> nat \<Rightarrow> nat \<Rightarrow> string option" where
  "rest_loop p found n =
     (if p = [] then None
      else let p1 = dropWhile IS_TOKEN_SEP p
      in if p1 = [] then None
      else if found = n then Some p1
      else rest_loop (dropWhile (\<lambda>c. \<not> IS_TOKEN_SEP c) p1) (found + 1) n)"
  by pat_completeness auto
termination
proof (relation "measure (\<lambda>(p, _). length p)")
  fix p :: string and found n :: nat and p1
  assume p1: "p1 = dropWhile IS_TOKEN_SEP p" "p1 \<noteq> []"
  then have "\<not> IS_TOKEN_SEP (hd p1)" using hd_dropWhile by blast
  then have "length (dropWhile (\<lambda>c. \<not> IS_TOKEN_SEP c) p1) < length p1"
    using p1(2) by (cases p1) (auto simp: length_dropWhile_le le_imp_less_Suc)
  also have "\<dots> \<le> length p" by (simp add: p1(1) length_dropWhile_le)
  finally show "((dropWhile (\<lambda>c. \<not> IS_TOKEN_SEP c) p1, found + 1, n), p, found, n) \<in> measure (\<lambda>(p, _). length p)"
    by simp
qed auto

declare rest_loop.simps [simp del]

definition cmdtoken_rest_after :: "CmdToken \<Rightarrow> int \<Rightarrow> string option" where
  "cmdtoken_rest_after cmd n =
     (if n < 0 \<or> int (argc cmd) \<le> n then None else rest_loop (orig cmd) 0 (nat n))"

text \<open>The base is 10 or 16 at every call.\<close>

definition signed_first :: "string \<Rightarrow> bool" where
  "signed_first t \<longleftrightarrow> t \<noteq> [] \<and> (hd t = CHR ''-'' \<or> hd t = CHR ''+'')"

definition cmdtoken_u32 :: "CmdToken \<Rightarrow> int \<Rightarrow> nat \<Rightarrow> u32 option" where
  "cmdtoken_u32 cmd i base =
     (if i < 0 \<or> int (argc cmd) \<le> i then None
      else if signed_first (arg cmd (nat i)) then None
      else (case strtoull_all base (arg cmd (nat i)) of
          None \<Rightarrow> None
        | Some val \<Rightarrow> if val > 0xFFFFFFFF then None else Some (ucast val)))"

definition cmdtoken_u64 :: "CmdToken \<Rightarrow> int \<Rightarrow> nat \<Rightarrow> u64 option" where
  "cmdtoken_u64 cmd i base =
     (if i < 0 \<or> int (argc cmd) \<le> i then None
      else if signed_first (arg cmd (nat i)) then None
      else strtoull_all base (arg cmd (nat i)))"

definition cmdtoken_i64 :: "CmdToken \<Rightarrow> int \<Rightarrow> nat \<Rightarrow> int option" where
  "cmdtoken_i64 cmd i base =
     (if i < 0 \<or> int (argc cmd) \<le> i then None else strtoll_all base (arg cmd (nat i)))"

section \<open>The tokens of a line\<close>

function toks :: "string \<Rightarrow> string list" where
  "toks s = (let r = dropWhile IS_TOKEN_SEP s
     in if r = [] then []
        else takeWhile (\<lambda>c. \<not> IS_TOKEN_SEP c) r # toks (dropWhile (\<lambda>c. \<not> IS_TOKEN_SEP c) r))"
  by pat_completeness auto
termination
proof (relation "measure length")
  fix s r
  assume r: "r = dropWhile IS_TOKEN_SEP s" "r \<noteq> []"
  then have "\<not> IS_TOKEN_SEP (hd r)" using hd_dropWhile by blast
  then have "length (dropWhile (\<lambda>c. \<not> IS_TOKEN_SEP c) r) < length r"
    using r(2) by (cases r) (auto simp: length_dropWhile_le le_imp_less_Suc)
  also have "\<dots> \<le> length s" by (simp add: r(1) length_dropWhile_le)
  finally show "(dropWhile (\<lambda>c. \<not> IS_TOKEN_SEP c) r, s) \<in> measure length" by simp
qed auto

declare toks.simps [simp del]

lemma toks_unfold:
  assumes "r = dropWhile IS_TOKEN_SEP s" "r \<noteq> []"
  shows "toks s = takeWhile (\<lambda>c. \<not> IS_TOKEN_SEP c) r # toks (dropWhile (\<lambda>c. \<not> IS_TOKEN_SEP c) r)"
  using assms by (subst toks.simps) (simp add: Let_def)

lemma toks_blank: "dropWhile IS_TOKEN_SEP s = [] \<Longrightarrow> toks s = []"
  by (subst toks.simps) (simp add: Let_def)

lemma toks_sep: "IS_TOKEN_SEP x \<Longrightarrow> toks (x # s) = toks s"
  by (subst (1 2) toks.simps) simp

lemma toks_dropWhile: "toks (dropWhile IS_TOKEN_SEP s) = toks s"
  by (induction s) (auto simp: toks_sep)

section \<open>The tokenizer finds the tokens\<close>

lemma byte_at_drop: "drop p b \<noteq> [] \<Longrightarrow> byte_at b p = hd (drop p b)"
  by (simp add: byte_at_def hd_drop_conv_nth)

lemma NUL_not_sep [simp]: "\<not> IS_TOKEN_SEP NUL" by (simp add: IS_TOKEN_SEP_def)

lemma cstr_before:
  assumes "i \<le> q" "q < length b" "b ! q = NUL"
  shows "cstr b i = takeWhile (\<lambda>c. c \<noteq> NUL) (drop i (take (Suc q) b))"
proof -
  have "b ! q \<in> set (drop i (take (Suc q) b))"
    using assms by (auto simp: in_set_conv_nth intro!: exI [of _ "q - i"])
  then have "takeWhile (\<lambda>c. c \<noteq> NUL) (drop i (take (Suc q) b) @ drop (Suc q) b) =
      takeWhile (\<lambda>c. c \<noteq> NUL) (drop i (take (Suc q) b))"
    using assms(3) by (intro takeWhile_append1) auto
  moreover have "drop i b = drop i (take (Suc q) b) @ drop (Suc q) b"
    using assms by (metis append_take_drop_id drop_append diff_is_0_eq drop_0 le_SucI length_take min.absorb2
        Suc_leI)
  ultimately show ?thesis by (simp add: cstr_def)
qed

lemma cstr_update_after:
  assumes "i \<le> q" "q < length b" "b ! q = NUL" "q < j"
  shows "cstr (b[j := x]) i = cstr b i"
proof -
  have "take (Suc q) (b[j := x]) = take (Suc q) b" using assms(4) by simp
  moreover have "(b[j := x]) ! q = NUL" using assms by simp
  ultimately show ?thesis using cstr_before [of i q b] cstr_before [of i q "b[j := x]"] assms by simp
qed

lemma in_token_takeWhile:
  assumes "NUL \<notin> set r"
  shows "takeWhile in_token (r @ [NUL]) = takeWhile (\<lambda>c. \<not> IS_TOKEN_SEP c) r"
  using assms by (induction r) (auto simp: in_token_def)

lemma sep_takeWhile: "takeWhile IS_TOKEN_SEP (s @ [NUL]) = takeWhile IS_TOKEN_SEP s"
  by (induction s) auto

lemma drop_takeWhile: "drop (length (takeWhile P s)) (s @ t) = dropWhile P s @ t"
  by (induction s) auto

text \<open>Every token recorded so far ends before the position of the scan.\<close>

definition parse_inv :: "CmdToken \<Rightarrow> nat \<Rightarrow> string \<Rightarrow> bool" where
  "parse_inv c p s \<longleftrightarrow> drop p (buf c) = s @ [NUL] \<and> NUL \<notin> set s \<and> argc c = length (argv c)
     \<and> (\<forall>i \<in> set (argv c). \<exists>q < p. i \<le> q \<and> buf c ! q = NUL)"

definition args :: "CmdToken \<Rightarrow> string list" where
  "args c = map (cstr (buf c)) (argv c)"

lemma parse_token:
  assumes inv: "parse_inv c p s" and r: "r = dropWhile IS_TOKEN_SEP s" "r \<noteq> []"
    and tok: "tok = takeWhile (\<lambda>c. \<not> IS_TOKEN_SEP c) r" "u = dropWhile (\<lambda>c. \<not> IS_TOKEN_SEP c) r"
    and p1: "p1 = skip_seps (buf c) p" and p2: "p2 = token_end (buf c) p1"
  shows "drop p1 (buf c) = tok @ u @ [NUL]" "drop p2 (buf c) = u @ [NUL]" "p2 = p1 + length tok"
    "cstr (buf c) p1 = tok @ u" "NUL \<notin> set (tok @ u)" "p2 < length (buf c)"
proof -
  have d: "drop p (buf c) = s @ [NUL]" and no: "NUL \<notin> set s" using inv by (auto simp: parse_inv_def)
  have "p1 = p + length (takeWhile IS_TOKEN_SEP s)" by (simp add: p1 skip_seps_def d sep_takeWhile)
  then have "drop p1 (buf c) = drop (length (takeWhile IS_TOKEN_SEP s)) (drop p (buf c))"
    by (simp add: add.commute)
  then have d1: "drop p1 (buf c) = r @ [NUL]" unfolding d r(1) by (simp only: drop_takeWhile)
  have nor: "NUL \<notin> set r" using no unfolding r(1) by (meson set_dropWhileD)
  show p2': "p2 = p1 + length tok" by (simp add: p2 token_end_def d1 in_token_takeWhile nor tok)
  have split: "r = tok @ u" by (simp add: tok)
  show d1': "drop p1 (buf c) = tok @ u @ [NUL]" using d1 split by simp
  have "drop p2 (buf c) = drop (length tok) (drop p1 (buf c))" by (simp add: p2' add.commute)
  then show d2: "drop p2 (buf c) = u @ [NUL]" by (simp add: d1')
  then show "p2 < length (buf c)" by (metis Nil_is_append_conv drop_all leI list.discI)
  show nor': "NUL \<notin> set (tok @ u)" using nor split by simp
  have "cstr (buf c) p1 = takeWhile (\<lambda>c. c \<noteq> NUL) ((tok @ u) @ [NUL])"
    by (simp add: cstr_def d1')
  also have "\<dots> = tok @ u @ takeWhile (\<lambda>c. c \<noteq> NUL) [NUL]"
    using nor' by (subst takeWhile_append2) auto
  finally show "cstr (buf c) p1 = tok @ u" by simp
qed

lemma parse_loop_spec:
  assumes "parse_inv c p s" "argc c \<le> CMDTOKEN_MAX_TOKENS"
  shows "args (parse_loop c p) = args c @ take (CMDTOKEN_MAX_TOKENS - argc c) (toks s) \<and>
    argc (parse_loop c p) = length (argv (parse_loop c p)) \<and>
    (overflow (parse_loop c p) \<longleftrightarrow> overflow c \<or> CMDTOKEN_MAX_TOKENS < argc c + length (toks s)) \<and>
    orig (parse_loop c p) = orig c"
  using assms
proof (induction c p arbitrary: s rule: parse_loop.induct)
  case (1 c p)
  note inv = 1(2) and le = 1(3)
  have d: "drop p (buf c) = s @ [NUL]" "NUL \<notin> set s" "argc c = length (argv c)"
    using inv by (auto simp: parse_inv_def)
  show ?case
  proof (cases "dropWhile IS_TOKEN_SEP s = []")
    case True
    have "skip_seps (buf c) p = length (takeWhile IS_TOKEN_SEP s) + p"
      by (simp add: skip_seps_def d(1) sep_takeWhile)
    then have "drop (skip_seps (buf c) p) (buf c) = drop (length (takeWhile IS_TOKEN_SEP s)) (drop p (buf c))"
      by (simp only: drop_drop)
    also have "\<dots> = [NUL]" unfolding d(1) drop_takeWhile True by simp
    finally have "drop (skip_seps (buf c) p) (buf c) = [NUL]" .
    then have "byte_at (buf c) (skip_seps (buf c) p) = NUL" by (simp add: byte_at_drop)
    then have "parse_loop c p = c" by (subst parse_loop.simps) simp
    then show ?thesis using d le by (simp add: toks_blank True)
  next
    case False
    define r where "r = dropWhile IS_TOKEN_SEP s"
    define tok where "tok = takeWhile (\<lambda>c. \<not> IS_TOKEN_SEP c) r"
    define u where "u = dropWhile (\<lambda>c. \<not> IS_TOKEN_SEP c) r"
    define p1 where "p1 = skip_seps (buf c) p"
    define p2 where "p2 = token_end (buf c) p1"
    have r: "r \<noteq> []" using False r_def by simp
    note tk = parse_token [OF inv r_def r tok_def u_def p1_def p2_def]
    have "\<not> IS_TOKEN_SEP (hd r)" using hd_dropWhile False by (simp add: r_def hd_dropWhile)
    then have tok1: "tok \<noteq> []" using r by (cases r) (auto simp: tok_def)
    have toks: "toks s = tok # toks u" using toks_unfold [OF r_def r] by (simp add: tok_def u_def)
    have at1: "byte_at (buf c) p1 \<noteq> NUL"
      using tok1 tk(1,5) by (cases tok) (auto simp: byte_at_drop)
    have "s \<noteq> []" using False by auto
    then have at0: "byte_at (buf c) p \<noteq> NUL"
      using d(1,2) by (cases s) (auto simp: byte_at_drop)
    have pp1: "p \<le> p1" by (simp add: p1_def skip_seps_ge)
    show ?thesis
    proof (cases "argc c \<ge> CMDTOKEN_MAX_TOKENS")
      case True
      then have "parse_loop c p = c\<lparr>overflow := True\<rparr>"
        using at0 at1 by (subst parse_loop.simps) (simp add: p1_def)
      then show ?thesis using True le d(3) toks by (simp add: args_def)
    next
      case room: False
      define c1 where "c1 = c\<lparr>argv := argv c @ [p1], argc := argc c + 1\<rparr>"
      show ?thesis
      proof (cases u)
        case Nil
        then have at2: "byte_at (buf c) p2 = NUL" using tk(2) by (simp add: byte_at_drop)
        then have "parse_loop c p = c1"
          using at0 at1 room
          by (subst parse_loop.simps) (simp add: p1_def [symmetric] p2_def [symmetric] c1_def Let_def)
        moreover have "toks u = []" using Nil by (simp add: toks_blank)
        ultimately show ?thesis using toks tk(4) Nil d(3) room
          by (auto simp: args_def c1_def)
      next
        case (Cons x u1)
        have x: "IS_TOKEN_SEP x"
          using hd_dropWhile [of "\<lambda>c. \<not> IS_TOKEN_SEP c" r] Cons unfolding u_def
          by (metis list.sel(1) list.discI)
        have at2: "byte_at (buf c) p2 \<noteq> NUL" using tk(2,5) Cons by (auto simp: byte_at_drop)
        define c2 where "c2 = c1\<lparr>buf := (buf c)[p2 := NUL]\<rparr>"
        have step: "parse_loop c p = parse_loop c2 (p2 + 1)"
          using at0 at1 at2 room
          by (subst parse_loop.simps) (simp add: p1_def [symmetric] p2_def [symmetric] c1_def c2_def Let_def)
        have tok_no: "\<And>y. y \<in> set tok \<Longrightarrow> y \<noteq> NUL" using tk(5) by auto
        have "drop p1 (buf c2) = (drop p1 (buf c))[length tok := NUL]"
          using tk(3) by (simp add: c2_def drop_update_swap)
        also have "\<dots> = tok @ NUL # u1 @ [NUL]" by (simp add: tk(1) Cons list_update_append)
        finally have new: "cstr (buf c2) p1 = tok" using tok_no by (simp add: cstr_def takeWhile_append2)
        have old: "cstr (buf c2) i = cstr (buf c) i" if i: "i \<in> set (argv c)" for i
        proof -
          obtain q where q: "q < p" "i \<le> q" "buf c ! q = NUL" using inv i by (auto simp: parse_inv_def)
          then show ?thesis using pp1 tk(3,6) cstr_update_after [of i q "buf c" p2] by (simp add: c2_def)
        qed
        have args2: "args c2 = args c @ [tok]"
          using new old by (simp add: args_def c2_def c1_def)
        have "drop (Suc p2) (buf c2) = u1 @ [NUL]"
        proof -
          have "drop (Suc p2) (buf c2) = drop (Suc p2) (buf c)" by (simp add: c2_def)
          also have "\<dots> = tl (drop p2 (buf c))" by (simp add: drop_Suc tl_drop)
          finally show ?thesis using tk(2) Cons by simp
        qed
        moreover have "\<exists>q < Suc p2. i \<le> q \<and> buf c2 ! q = NUL" if i: "i \<in> set (argv c2)" for i
          using i tk(3,6) by (intro exI [of _ p2]) (use inv pp1 in \<open>force simp: c2_def c1_def parse_inv_def\<close>)
        ultimately have inv2: "parse_inv c2 (p2 + 1) u1"
          using tk(5) Cons d(3) by (simp add: parse_inv_def c2_def c1_def)
        have le2: "argc c2 \<le> CMDTOKEN_MAX_TOKENS" using room by (simp add: c2_def c1_def)
        note IH = 1(1) [OF _ p1_def _ _ c1_def p2_def, folded c2_def, OF _ _ _ _ inv2 le2]
        have IH: "args (parse_loop c2 (p2 + 1)) = args c2 @ take (CMDTOKEN_MAX_TOKENS - argc c2) (toks u1) \<and>
            argc (parse_loop c2 (p2 + 1)) = length (argv (parse_loop c2 (p2 + 1))) \<and>
            (overflow (parse_loop c2 (p2 + 1)) \<longleftrightarrow> overflow c2 \<or> CMDTOKEN_MAX_TOKENS < argc c2 + length (toks u1)) \<and>
            orig (parse_loop c2 (p2 + 1)) = orig c2"
          using IH at0 at1 at2 room by blast
        have more: "CMDTOKEN_MAX_TOKENS - argc c = Suc (CMDTOKEN_MAX_TOKENS - argc c2)"
          using room by (simp add: c2_def c1_def)
        have "toks u = toks u1" using Cons x toks_sep by simp
        then show ?thesis using IH args2 toks unfolding step more
          by (simp add: c2_def c1_def)
      qed
    qed
  qed
qed

lemma cmdtoken_parse_run:
  assumes "NUL \<notin> set line"
  shows "case cmdtoken_parse line of
      None \<Rightarrow> 8096 \<le> length line
    | Some cmd \<Rightarrow> length line < 8096 \<and> argc cmd = min 16 (length (toks line))
        \<and> map (arg cmd) [0..<argc cmd] = take 16 (toks line)
        \<and> (overflow cmd \<longleftrightarrow> 16 < length (toks line)) \<and> orig cmd = line"
proof (cases "length line \<ge> CMDTOKEN_MAX_LINE")
  case True
  then show ?thesis by (simp add: cmdtoken_parse_def CMDTOKEN_MAX_LINE_def)
next
  case False
  define c where "c = \<lparr>buf = line @ [NUL], orig = line, argc = 0, argv = [], overflow = False\<rparr>"
  define d where "d = parse_loop c 0"
  have "parse_inv c 0 line" using assms by (simp add: parse_inv_def c_def)
  from parse_loop_spec [OF this]
  have s: "args d = take 16 (toks line)" "argc d = length (argv d)"
      "overflow d \<longleftrightarrow> 16 < length (toks line)" "orig d = line"
    unfolding d_def by (simp_all add: c_def args_def CMDTOKEN_MAX_TOKENS_def)
  have "map (arg d) [0..<argc d] = args d"
    unfolding args_def s(2) by (rule nth_equalityI) (simp_all add: arg_def)
  moreover have "argc d = min 16 (length (toks line))"
    using arg_cong [OF s(1), of length] s(2) by (simp add: args_def min.commute)
  moreover have "cmdtoken_parse line = Some d"
    using False by (simp add: cmdtoken_parse_def d_def c_def)
  ultimately show ?thesis using s False by (simp add: CMDTOKEN_MAX_LINE_def)
qed

text \<open>Words joined by single spaces are taken apart again.\<close>

fun unwords :: "string list \<Rightarrow> string" where
  "unwords [] = []"
| "unwords [w] = w"
| "unwords (w # v # ws) = w @ CHR '' '' # unwords (v # ws)"

definition word_ok :: "string \<Rightarrow> bool" where
  "word_ok w \<longleftrightarrow> w \<noteq> [] \<and> (\<forall>c \<in> set w. c \<noteq> NUL \<and> \<not> IS_TOKEN_SEP c)"

lemma toks_word:
  assumes "word_ok w" "r = [] \<or> IS_TOKEN_SEP (hd r)"
  shows "toks (w @ r) = w # toks r"
proof -
  have d: "dropWhile IS_TOKEN_SEP (w @ r) = w @ r" using assms(1) by (cases w) (auto simp: word_ok_def)
  have "takeWhile (\<lambda>c. \<not> IS_TOKEN_SEP c) (w @ r) = w" "dropWhile (\<lambda>c. \<not> IS_TOKEN_SEP c) (w @ r) = r"
    using assms by (cases r; auto simp: word_ok_def)+
  then show ?thesis using toks_unfold [OF d [symmetric]] assms(1) by (simp add: word_ok_def)
qed

lemma toks_unwords: "\<forall>w \<in> set ws. word_ok w \<Longrightarrow> toks (unwords ws) = ws"
proof (induction ws rule: unwords.induct)
  case 1
  then show ?case by (simp add: toks_blank)
next
  case (2 w)
  then show ?case using toks_word [of w "[]"] by (simp add: toks_blank)
next
  case (3 w v ws)
  have "IS_TOKEN_SEP CHR '' ''" by (simp add: IS_TOKEN_SEP_def)
  then show ?case using 3 toks_word [of w "CHR '' '' # unwords (v # ws)"] by (simp add: toks_sep)
qed

lemma unwords_no_NUL: "\<forall>w \<in> set ws. word_ok w \<Longrightarrow> NUL \<notin> set (unwords ws)"
  by (induction ws rule: unwords.induct) (auto simp: word_ok_def)

lemma cmdtoken_parse_words:
  assumes "\<forall>w \<in> set ws. word_ok w" "length ws \<le> 16" "length (unwords ws) < 8096"
  shows "\<exists>cmd. cmdtoken_parse (unwords ws) = Some cmd \<and> argc cmd = length ws \<and> \<not> overflow cmd
    \<and> orig cmd = unwords ws \<and> (\<forall>i < length ws. arg cmd i = ws ! i)"
proof -
  note r = cmdtoken_parse_run [OF unwords_no_NUL [OF assms(1)]]
  obtain cmd where cmd: "cmdtoken_parse (unwords ws) = Some cmd"
    using r assms(3) by (cases "cmdtoken_parse (unwords ws)") auto
  then have a: "argc cmd = length ws" "map (arg cmd) [0..<argc cmd] = ws" "\<not> overflow cmd" "orig cmd = unwords ws"
    using r assms(2) toks_unwords [OF assms(1)] by auto
  have "arg cmd i = ws ! i" if "i < length ws" for i
    using arg_cong [OF a(2), of "\<lambda>l. l ! i"] that a(1) by simp
  then show ?thesis using cmd a by blast
qed

text \<open>
  C28: the tokenizer fails exactly on lines of 8096 bytes or more; otherwise the C strings that its
  \<open>argv\<close> points to are the first sixteen maximal runs without separators, \<open>argc\<close> counts them,
  \<open>overflow\<close> says whether there were more, and the unmodified line is kept.
\<close>

theorem cmdtoken_parse_tokens:
  assumes "NUL \<notin> set line"
  shows "case cmdtoken_parse line of
      None \<Rightarrow> 8096 \<le> length line
    | Some cmd \<Rightarrow> length line < 8096 \<and> argc cmd = min 16 (length (toks line))
        \<and> map (arg cmd) [0..<argc cmd] = take 16 (toks line)
        \<and> (overflow cmd \<longleftrightarrow> 16 < length (toks line)) \<and> orig cmd = line"
  by (rule cmdtoken_parse_run [OF assms])

theorem cmdtoken_parse_tokens_witness:
  "case cmdtoken_parse ''READ  5 '' of
      None \<Rightarrow> 8096 \<le> length ''READ  5 ''
    | Some cmd \<Rightarrow> length ''READ  5 '' < 8096 \<and> argc cmd = min 16 (length (toks ''READ  5 ''))
        \<and> map (arg cmd) [0..<argc cmd] = take 16 (toks ''READ  5 '')
        \<and> (overflow cmd \<longleftrightarrow> 16 < length (toks ''READ  5 '')) \<and> orig cmd = ''READ  5 ''"
  by (rule cmdtoken_parse_tokens) simp

section \<open>The rest of the line after some tokens\<close>

lemma rest_loop_spec:
  "found \<le> n \<Longrightarrow> n - found < length (toks p) \<Longrightarrow>
   \<exists>r u. rest_loop p found n = Some r \<and> p = u @ r \<and> r \<noteq> [] \<and> \<not> IS_TOKEN_SEP (hd r)
     \<and> toks r = drop (n - found) (toks p)"
proof (induction p found n rule: rest_loop.induct)
  case (1 p found n)
  define r where "r = dropWhile IS_TOKEN_SEP p"
  have r: "r \<noteq> []"
  proof
    assume "r = []"
    then have "toks p = []" unfolding r_def by (rule toks_blank)
    then show False using 1(3) by simp
  qed
  then have p: "p \<noteq> []" by (auto simp: r_def)
  have hd: "\<not> IS_TOKEN_SEP (hd r)" using hd_dropWhile r unfolding r_def by blast
  have pr: "p = takeWhile IS_TOKEN_SEP p @ r" by (simp add: r_def)
  show ?case
  proof (cases "found = n")
    case True
    have "rest_loop p found n = Some r"
      using True p r by (subst rest_loop.simps) (simp add: r_def [symmetric])
    moreover have "toks r = toks p" unfolding r_def by (rule toks_dropWhile)
    ultimately show ?thesis using True pr r hd by auto
  next
    case False
    define u where "u = dropWhile (\<lambda>c. \<not> IS_TOKEN_SEP c) r"
    have toks: "toks p = takeWhile (\<lambda>c. \<not> IS_TOKEN_SEP c) r # toks u"
      using toks_unfold [OF r_def r] by (simp add: u_def)
    have n: "found + 1 \<le> n" "n - found = Suc (n - (found + 1))" using False 1(2) by auto
    have "n - (found + 1) < length (toks u)" using 1(3) n toks by simp
    then obtain q v where q: "rest_loop u (found + 1) n = Some q" "u = v @ q" "q \<noteq> []"
        "\<not> IS_TOKEN_SEP (hd q)" "toks q = drop (n - (found + 1)) (toks u)"
      using 1(1) [OF p r_def r False] n(1) unfolding u_def by blast
    have "rest_loop p found n = Some q"
      using p r False q(1) by (subst rest_loop.simps) (simp add: r_def [symmetric] u_def [symmetric])
    moreover have "\<exists>w. p = w @ q"
      using pr q(2) takeWhile_dropWhile_id [of "\<lambda>c. \<not> IS_TOKEN_SEP c" r] unfolding u_def
      by (metis append.assoc)
    moreover have "toks q = drop (n - found) (toks p)" using q(5) toks n(2) by simp
    ultimately show ?thesis using q(3,4) by blast
  qed
qed

text \<open>
  For a token number in range, the text after the first \<open>n\<close> tokens is a suffix of the line as
  received that starts with token \<open>n\<close>; its tokens are the remaining ones, beyond the sixteen kept.
\<close>

theorem cmdtoken_rest_after_suffix:
  assumes "NUL \<notin> set line" "cmdtoken_parse line = Some cmd" "0 \<le> n" "n < int (argc cmd)"
  shows "\<exists>r u. cmdtoken_rest_after cmd n = Some r \<and> line = u @ r \<and> \<not> IS_TOKEN_SEP (hd r)
    \<and> toks r = drop (nat n) (toks line)"
proof -
  define c where "c = \<lparr>buf = line @ [NUL], orig = line, argc = 0, argv = [], overflow = False\<rparr>"
  have cmd: "cmd = parse_loop c 0"
    using assms(2) by (simp add: cmdtoken_parse_def c_def split: if_splits)
  have "parse_inv c 0 line" using assms(1) by (simp add: parse_inv_def c_def)
  from parse_loop_spec [OF this]
  have s: "length (argv cmd) = min (length (toks line)) 16" "argc cmd = length (argv cmd)" "orig cmd = line"
    unfolding cmd by (auto simp: c_def args_def CMDTOKEN_MAX_TOKENS_def dest: arg_cong [where f = length])
  then have "nat n - 0 < length (toks line)" using assms(3,4) by simp
  then show ?thesis
    using rest_loop_spec [of 0 "nat n" line] assms(3,4) s(3)
    by (auto simp: cmdtoken_rest_after_def)
qed

lemma rest_example:
  "map_option (\<lambda>cmd. (argc cmd, cmdtoken_rest_after cmd 1)) (cmdtoken_parse ''ID  a b'') = Some (3, Some ''a b'')"
  by code_simp

theorem cmdtoken_rest_after_suffix_witness:
  "\<exists>cmd r u. cmdtoken_parse ''ID  a b'' = Some cmd \<and> cmdtoken_rest_after cmd 1 = Some r
     \<and> ''ID  a b'' = u @ r \<and> toks r = drop 1 (toks ''ID  a b'')"
proof -
  obtain cmd where c: "cmdtoken_parse ''ID  a b'' = Some cmd" "argc cmd = 3"
    using rest_example by auto
  show ?thesis using cmdtoken_rest_after_suffix [OF _ c(1), of 1] c by auto
qed

section \<open>Numeric arguments\<close>

lemma dec_no_sign: "\<not> signed_first (dec n)"
proof -
  have "hd (dec n) \<in> set (dec n)" by simp
  then have "is_digit 10 (hd (dec n))" by (rule dec_is_digit)
  then show ?thesis using is_digit_not by (auto simp: signed_first_def)
qed

lemma cmdtoken_u64_dec:
  "i < argc cmd \<Longrightarrow> arg cmd i = dec n \<Longrightarrow> n < 2 ^ 64 \<Longrightarrow> cmdtoken_u64 cmd (int i) 10 = Some (of_nat n)"
  by (simp add: cmdtoken_u64_def dec_no_sign strtoull_dec)

lemma cmdtoken_i64_dec:
  "i < argc cmd \<Longrightarrow> arg cmd i = dec_int x \<Longrightarrow> - (2 ^ 63) \<le> x \<Longrightarrow> x < 2 ^ 63 \<Longrightarrow>
   cmdtoken_i64 cmd (int i) 10 = Some x"
  by (simp add: cmdtoken_i64_def strtoll_dec_int)

lemma strto_plain:
  assumes "t \<noteq> []" "\<not> isspace (hd t)" "\<not> signed_first t"
  shows "strto 10 t = (let ds = takeWhile (is_digit 10) t in
     if ds = [] then None else Some (False, digits_value 10 ds, dropWhile (is_digit 10) t))"
  using assms by (cases t) (auto simp: strto_def Let_def signed_first_def)

lemma strtoull_plain:
  assumes "t = [] \<or> \<not> isspace (hd t)" "\<not> signed_first t"
  shows "strtoull_all 10 t = (if t \<noteq> [] \<and> list_all (is_digit 10) t \<and> digits_value 10 t < 2 ^ 64
     then Some (of_nat (digits_value 10 t)) else None)"
proof (cases "t = []")
  case True
  then show ?thesis by (simp add: strtoull_all_def strto_def)
next
  case False
  show ?thesis
  proof (cases "list_all (is_digit 10) t")
    case True
    then show ?thesis using strto_digits [OF False True, of "[]"] False
      by (simp add: strtoull_all_def)
  next
    case no: False
    have "dropWhile (is_digit 10) t \<noteq> []" using no by (auto simp: list_all_iff)
    then show ?thesis using strto_plain [of t] assms False no
      by (auto simp: strtoull_all_def Let_def split: if_splits)
  qed
qed

lemma signed_not_digits: "signed_first t \<Longrightarrow> \<not> list_all (is_digit 10) t"
  using is_digit_not by (cases t) (auto simp: signed_first_def)

text \<open>
  An unsigned 64-bit argument that does not start with a space character is accepted exactly
  when it consists of decimal digits only and its value is below \<open>2 ^ 64\<close>; the result is that value,
  so signs, trailing text and overflow are refused rather than read modulo \<open>2 ^ 64\<close>.
\<close>

theorem cmdtoken_u64_exact:
  assumes "i < argc cmd" "arg cmd i = [] \<or> \<not> isspace (hd (arg cmd i))"
  shows "cmdtoken_u64 cmd (int i) 10 =
    (if arg cmd i \<noteq> [] \<and> list_all (is_digit 10) (arg cmd i) \<and> digits_value 10 (arg cmd i) < 2 ^ 64
     then Some (of_nat (digits_value 10 (arg cmd i))) else None)"
proof (cases "signed_first (arg cmd i)")
  case True
  then show ?thesis using assms(1) signed_not_digits by (simp add: cmdtoken_u64_def)
next
  case False
  then show ?thesis using assms strtoull_plain by (simp add: cmdtoken_u64_def)
qed

definition demo_cmd :: CmdToken where
  "demo_cmd = the (cmdtoken_parse ''READ 18446744073709551615 18446744073709551616'')"

theorem cmdtoken_u64_exact_witness:
  "cmdtoken_u64 demo_cmd 1 10 = Some 18446744073709551615 \<and> cmdtoken_u64 demo_cmd 2 10 = None"
proof -
  have ev: "argc demo_cmd = 3"
      "arg demo_cmd 1 = ''18446744073709551615''" "arg demo_cmd 2 = ''18446744073709551616''"
    by code_simp+
  have d: "list_all (is_digit 10) ''18446744073709551615'' = True"
      "digits_value 10 ''18446744073709551615'' = 18446744073709551615"
      "digits_value 10 ''18446744073709551616'' = 18446744073709551616" "\<not> isspace CHR ''1''"
    by (simp_all add: is_digit_def digits_value_def digit_value_def isspace_def ord_def)
  have "cmdtoken_u64 demo_cmd (int 1) 10 = Some 18446744073709551615"
    by (subst cmdtoken_u64_exact) (unfold ev d, simp_all add: d)
  moreover have "cmdtoken_u64 demo_cmd (int 2) 10 = None"
    by (subst cmdtoken_u64_exact) (unfold ev d, simp_all add: d)
  ultimately show ?thesis by simp
qed

text \<open>
  The sign test looks only at the first byte of the token, and vertical tab and form feed are
  space for \<open>strtoull\<close> but no separators for the tokenizer: a negative number behind one of them is
  accepted and read as a value near \<open>2 ^ 64\<close>.
\<close>

theorem cmdtoken_u64_sign_behind_vt:
  "map_option (\<lambda>cmd. cmdtoken_u64 cmd 1 10) (cmdtoken_parse (''READ '' @ [CHR 0x0B] @ ''-5'')) = Some (Some (2 ^ 64 - 5))"
proof -
  have "map_option (\<lambda>cmd. (argc cmd, arg cmd 1)) (cmdtoken_parse (''READ '' @ [CHR 0x0B] @ ''-5''))
      = Some (2, CHR 0x0B # ''-5'')"
    by code_simp
  then obtain cmd where "cmdtoken_parse (''READ '' @ [CHR 0x0B] @ ''-5'') = Some cmd"
      "argc cmd = 2" "arg cmd 1 = CHR 0x0B # ''-5''"
    by auto
  moreover have "strtoull_all 10 (CHR 0x0B # ''-5'') = Some (2 ^ 64 - 5)"
    by (simp add: strtoull_all_def strto_def is_digit_def digits_value_def digit_value_def isspace_def
        ord_def Let_def)
  ultimately show ?thesis by (simp add: cmdtoken_u64_def signed_first_def)
qed

end
