(* ===== verification/RS_Proxy.thy ===== *)
theory RS_Proxy
  imports RS_Prelude
begin

unbundle bit_operations_syntax

text \<open>
  The PROXY protocol parser of \<open>ringserver-4/src/proxyproto.c\<close>, which replaces the peer address of a
  connection by the one that a load balancer announces.  The socket is what it will deliver: events
  with the milliseconds that pass before each, so that the loop around \<open>poll\<close> and \<open>recv\<close> runs
  against every chunking of the data, signals, errors and silence.
\<close>

section \<open>The socket\<close>

text \<open>
  \<open>Data b\<close>: \<open>poll\<close> reports input and \<open>recv\<close> returns bytes of \<open>b\<close>; \<open>Intr\<close>: \<open>poll\<close> fails with \<open>EINTR\<close>;
  \<open>PollErr\<close>: it fails otherwise; \<open>Closed\<close>: \<open>recv\<close> returns 0 or -1.  When the list ends nothing more
  arrives.
\<close>

datatype event = Data "byte list" | Intr | PollErr | Closed

type_synonym sock = "(nat \<times> event) list"

section \<open>The code\<close>

definition PP2_HEADER_LEN :: nat where "PP2_HEADER_LEN = 16"
definition PP2_SIGNATURE :: "byte list" where
  "PP2_SIGNATURE = [0x0D, 0x0A, 0x0D, 0x0A, 0x00, 0x0D, 0x0A, 0x51, 0x55, 0x49, 0x54, 0x0A]"
definition PP2_CMD_LOCAL :: byte where "PP2_CMD_LOCAL = 0"
definition PP2_CMD_PROXY :: byte where "PP2_CMD_PROXY = 1"
definition PP2_FAM_INET :: byte where "PP2_FAM_INET = 1"
definition PP2_FAM_INET6 :: byte where "PP2_FAM_INET6 = 2"
definition PP2_ADDR_LEN_INET :: nat where "PP2_ADDR_LEN_INET = 12"
definition PP2_ADDR_LEN_INET6 :: nat where "PP2_ADDR_LEN_INET6 = 36"
definition PP2_MAX_PAYLOAD :: nat where "PP2_MAX_PAYLOAD = 256"

text \<open>
  The loop of \<open>recv_all\<close> after \<open>el\<close> milliseconds: the bytes received (none on failure), the socket
  afterwards and the time.
\<close>

function recv_loop :: "sock \<Rightarrow> nat \<Rightarrow> nat \<Rightarrow> nat \<Rightarrow> byte list option \<times> sock \<times> nat" where
  "recv_loop s remaining timeout_ms el =
     (if remaining = 0 then (Some [], s, el)
      else if timeout_ms \<le> el then (None, s, el)
      else (case s of
          [] \<Rightarrow> (None, [], timeout_ms)
        | (d, e) # s' \<Rightarrow>
            (if timeout_ms \<le> el + d then (None, (el + d - timeout_ms, e) # s', timeout_ms)
             else (case e of
                 Intr \<Rightarrow> recv_loop s' remaining timeout_ms (el + d)
               | PollErr \<Rightarrow> (None, s', el + d)
               | Closed \<Rightarrow> (None, (0, Closed) # s', el + d)
               | Data b \<Rightarrow>
                   (if b = [] then (None, s', el + d)
                    else let n = min remaining (length b);
                             s1 = (if length b \<le> remaining then s' else (0, Data (drop n b)) # s');
                             (r, q) = recv_loop s1 (remaining - n) timeout_ms (el + d)
                         in (map_option (\<lambda>x. take n b @ x) r, q))))))"
  by pat_completeness auto
termination
  by (relation "inv_image (less_than <*lex*> less_than) (\<lambda>(s, r, _, _). (r, length s))")
    (auto simp: neq_Nil_conv)

declare recv_loop.simps [simp del]

text \<open>
  The address as the C structures keep it: bytes in network order.  \<open>clock\<close> is the time spent.
\<close>

datatype sockaddr = sockaddr_in "byte list" "byte list" | sockaddr_in6 "byte list" "byte list"

record pp =
  sock :: sock
  clock :: nat
  source_addr :: sockaddr
  source_addrlen :: nat
  dest_port :: u16

definition recv_all :: "pp \<Rightarrow> nat \<Rightarrow> nat \<Rightarrow> byte list option \<times> pp" where
  "recv_all st len timeout_ms =
     (let (r, s, el) = recv_loop (sock st) len timeout_ms 0
      in (r, st\<lparr>sock := s, clock := clock st + el\<rparr>))"

definition drain_bytes :: "pp \<Rightarrow> nat \<Rightarrow> nat \<Rightarrow> bool \<times> pp" where
  "drain_bytes st len timeout_ms =
     (if len = 0 then (True, st)
      else let (r, st1) = recv_all st len timeout_ms in (r \<noteq> None, st1))"

definition ntohs :: "byte \<Rightarrow> byte \<Rightarrow> u16" where "ntohs a b = push_bit 8 (ucast a) OR ucast b"

definition get_bytes :: "nat \<Rightarrow> nat \<Rightarrow> byte list \<Rightarrow> byte list" where
  "get_bytes off n b = take n (drop off b)"

text \<open>
  The branches for the two families: \<open>alen\<close> bytes of address, the source address of \<open>asize\<close> bytes,
  the source port at \<open>poff\<close> and the destination port after it.
\<close>

definition read_addr ::
  "(byte list \<Rightarrow> byte list \<Rightarrow> sockaddr) \<Rightarrow> nat \<Rightarrow> nat \<Rightarrow> nat \<Rightarrow> nat \<Rightarrow> nat \<Rightarrow> bool \<Rightarrow> nat \<Rightarrow> pp \<Rightarrow> int \<times> pp" where
  "read_addr mk alen asize poff slen timeout_ms want_port extra st =
     (if extra < alen then (-1, st)
      else case recv_all st alen timeout_ms of
        (None, st1) \<Rightarrow> (-1, st1)
      | (Some addrbuf, st1) \<Rightarrow>
          (let st2 = st1\<lparr>source_addr := mk (get_bytes 0 asize addrbuf) (get_bytes poff 2 addrbuf),
                         source_addrlen := slen\<rparr>;
               st3 = (if want_port then st2\<lparr>dest_port := ntohs (addrbuf ! (poff + 2)) (addrbuf ! (poff + 3))\<rparr>
                      else st2);
               (ok, st4) = drain_bytes st3 (extra - alen) timeout_ms
           in (if ok then 0 else -1, st4)))"

definition ProxyProtocolV2Read :: "nat \<Rightarrow> bool \<Rightarrow> pp \<Rightarrow> int \<times> pp" where
  "ProxyProtocolV2Read timeout_ms want_port st =
     (case recv_all st PP2_HEADER_LEN timeout_ms of
        (None, st1) \<Rightarrow> (-1, st1)
      | (Some hdr, st1) \<Rightarrow>
          (if take 12 hdr \<noteq> PP2_SIGNATURE then (-1, st1)
           else if (hdr ! 12) AND 0xF0 \<noteq> 0x20 then (-1, st1)
           else let cmd = (hdr ! 12) AND 0x0F;
                    family = (drop_bit 4 (hdr ! 13)) AND 0x0F;
                    extra = unat (ntohs (hdr ! 14) (hdr ! 15))
           in if extra > PP2_MAX_PAYLOAD then (-1, st1)
           else if cmd = PP2_CMD_LOCAL then
             (let (ok, st2) = drain_bytes st1 extra timeout_ms in (if ok then 1 else -1, st2))
           else if cmd \<noteq> PP2_CMD_PROXY then (-1, st1)
           else if family = PP2_FAM_INET then
             read_addr sockaddr_in PP2_ADDR_LEN_INET 4 8 16 timeout_ms want_port extra st1
           else if family = PP2_FAM_INET6 then
             read_addr sockaddr_in6 PP2_ADDR_LEN_INET6 16 32 28 timeout_ms want_port extra st1
           else (let (ok, st2) = drain_bytes st1 extra timeout_ms in (if ok then 1 else -1, st2))))"

section \<open>Receiving\<close>

text \<open>A socket that delivers only data, with signals in between; its bytes and its total delay.\<close>

fun good :: "sock \<Rightarrow> bool" where
  "good [] \<longleftrightarrow> True"
| "good ((d, e) # s) \<longleftrightarrow> (e = Intr \<or> (\<exists>b. e = Data b \<and> b \<noteq> [])) \<and> good s"

fun ev_bytes :: "event \<Rightarrow> byte list" where
  "ev_bytes (Data b) = b"
| "ev_bytes _ = []"

definition content :: "sock \<Rightarrow> byte list" where "content s = concat (map (ev_bytes \<circ> snd) s)"
definition delay :: "sock \<Rightarrow> nat" where "delay s = sum_list (map fst s)"

lemma content_simps [simp]: "content [] = []" "content ((d, e) # s) = ev_bytes e @ content s"
  by (simp_all add: content_def)

lemma delay_simps [simp]: "delay [] = 0" "delay ((d, e) # s) = d + delay s"
  by (simp_all add: delay_def)

lemma recv_loop_ok:
  assumes "good s" "n \<le> length (content s)" "el + delay s < t"
  shows "\<exists>s' el'. recv_loop s n t el = (Some (take n (content s)), s', el')
    \<and> content s' = drop n (content s) \<and> good s' \<and> el' + delay s' \<le> el + delay s"
  using assms
proof (induction s n t el rule: recv_loop.induct)
  case (1 s n t el)
  show ?case
  proof (cases "n = 0")
    case True
    then show ?thesis using 1 by (subst recv_loop.simps) simp
  next
    case False
    then obtain d e s' where s: "s = (d, e) # s'" using 1(4) by (cases s) auto
    have t: "el < t" "el + d < t" using 1(5) s by auto
    consider "e = Intr" | b where "e = Data b" "b \<noteq> []" using 1(3) s by auto
    then show ?thesis
    proof cases
      case 1
      have "recv_loop s n t el = recv_loop s' n t (el + d)"
        using False t s 1 by (subst recv_loop.simps) simp
      then show ?thesis
        using "1.IH"(2) [OF False _ s refl _ 1] 1 "1.prems" s t by (auto simp: add.assoc)
    next
      case b: 2
      define m where "m = min n (length b)"
      define s1 where "s1 = (if length b \<le> n then s' else (0, Data (drop m b)) # s')"
      have m: "m > 0" using False b by (simp add: m_def)
      have s1: "good s1" "content s1 = drop m (content s)" "el + d + delay s1 < t"
          "el + d + delay s1 \<le> el + delay s" "n - m \<le> length (content s1)"
        using "1.prems" s b by (auto simp: s1_def m_def min_def)
      obtain s'' el' where r: "recv_loop s1 (n - m) t (el + d) = (Some (take (n - m) (content s1)), s'', el')"
          "content s'' = drop (n - m) (content s1)" "good s''" "el' + delay s'' \<le> el + d + delay s1"
        using "1.IH"(1) [OF False _ s refl _ b m_def s1_def s1(1,5,3)] t by auto
      have "recv_loop s n t el = (Some (take m b @ take (n - m) (content s1)), s'', el')"
        using False t b s r(1) by (subst recv_loop.simps) (simp add: m_def [symmetric] s1_def [symmetric] Let_def)
      moreover have "take m b @ take (n - m) (content s1) = take n (content s)"
        using s b by (simp add: s1(2) m_def min_def take_drop)
      moreover have "drop (n - m) (content s1) = drop n (content s)" by (simp add: s1(2) m_def)
      ultimately show ?thesis using r s1(4) by auto
    qed
  qed
qed

text \<open>On any socket: no more than the bytes asked for are consumed, and the timeout is kept.\<close>

lemma recv_loop_bounds:
  assumes "recv_loop s n t el = (r, s', el')"
  shows "\<exists>k \<le> n. content s' = drop k (content s) \<and> el' \<le> max t el
    \<and> (\<forall>b. r = Some b \<longrightarrow> length b = n \<and> k = n)"
  using assms
proof (induction s n t el arbitrary: r s' el' rule: recv_loop.induct)
  case (1 s n t el)
  show ?case
  proof (cases "n = 0 \<or> t \<le> el \<or> s = []")
    case True
    then show ?thesis using "1.prems" by (subst (asm) recv_loop.simps) (auto split: if_splits)
  next
    case False
    then obtain d e u where s: "s = (d, e) # u" by (cases s) auto
    have n: "n \<noteq> 0" "\<not> t \<le> el" using False by auto
    show ?thesis
    proof (cases "t \<le> el + d \<or> e = PollErr \<or> e = Closed \<or> e = Data []")
      case True
      then show ?thesis using "1.prems" s n
        by (subst (asm) recv_loop.simps) (auto split: if_splits intro!: exI [of _ 0])
    next
      case go: False
      then have d: "\<not> t \<le> el + d" by simp
      consider "e = Intr" | b where "e = Data b" "b \<noteq> []" using go by (cases e) auto
      then show ?thesis
      proof cases
        case 1
        have "recv_loop s n t el = recv_loop u n t (el + d)"
          using n d s 1 by (subst recv_loop.simps) simp
        then show ?thesis using "1.IH"(2) [OF n s refl d 1] "1.prems" d s 1 by auto
      next
        case b: 2
        define m where "m = min n (length b)"
        define s1 where "s1 = (if length b \<le> n then u else (0, Data (drop m b)) # u)"
        obtain r1 q1 e1 where rec: "recv_loop s1 (n - m) t (el + d) = (r1, q1, e1)" by (cases "recv_loop s1 (n - m) t (el + d)") auto
        obtain k where k: "k \<le> n - m" "content q1 = drop k (content s1)" "e1 \<le> max t (el + d)"
            "\<forall>x. r1 = Some x \<longrightarrow> length x = n - m \<and> k = n - m"
          using "1.IH"(1) [OF n s refl d b m_def s1_def rec] by blast
        have step: "recv_loop s n t el = (map_option (\<lambda>x. take m b @ x) r1, q1, e1)"
          using n d b s rec by (subst recv_loop.simps) (simp add: m_def [symmetric] s1_def [symmetric] Let_def)
        have "content s1 = drop m (content s)" using s b by (auto simp: s1_def m_def min_def)
        then have "content q1 = drop (k + m) (content s)" by (simp add: k(2))
        moreover have "m \<le> n" "m \<le> length b" by (simp_all add: m_def)
        ultimately show ?thesis using step "1.prems" k d
          by (intro exI [of _ "k + m"]) auto
      qed
    qed
  qed
qed

lemma recv_all_ok:
  assumes "good (sock st)" "n \<le> length (content (sock st))" "delay (sock st) < t"
  shows "\<exists>s c. recv_all st n t = (Some (take n (content (sock st))), st\<lparr>sock := s, clock := c\<rparr>)
    \<and> content s = drop n (content (sock st)) \<and> good s \<and> delay s < t"
  using recv_loop_ok [of "sock st" n 0 t] assms by (fastforce simp: recv_all_def)

lemma drain_ok:
  assumes "good (sock st)" "n \<le> length (content (sock st))" "delay (sock st) < t"
  shows "\<exists>s c. drain_bytes st n t = (True, st\<lparr>sock := s, clock := c\<rparr>) \<and> content s = drop n (content (sock st))"
proof (cases "n = 0")
  case True
  then show ?thesis by (intro exI [of _ "sock st"] exI [of _ "clock st"]) (simp add: drain_bytes_def)
next
  case False
  then show ?thesis using recv_all_ok [OF assms] by (fastforce simp: drain_bytes_def)
qed

lemma recv_all_bounds:
  assumes "recv_all st n t = (r, st')"
  shows "\<exists>k \<le> n. content (sock st') = drop k (content (sock st)) \<and> clock st' \<le> clock st + t
    \<and> st' = st\<lparr>sock := sock st', clock := clock st'\<rparr> \<and> (\<forall>b. r = Some b \<longrightarrow> length b = n \<and> k = n)"
proof -
  obtain s el where r: "recv_loop (sock st) n t 0 = (r, s, el)" "st' = st\<lparr>sock := s, clock := clock st + el\<rparr>"
    using assms by (auto simp: recv_all_def split: prod.splits)
  show ?thesis using recv_loop_bounds [OF r(1)] r(2) by auto
qed

lemma drain_bounds:
  assumes "drain_bytes st n t = (ok, st')"
  shows "\<exists>k \<le> n. content (sock st') = drop k (content (sock st)) \<and> clock st' \<le> clock st + t
    \<and> st' = st\<lparr>sock := sock st', clock := clock st'\<rparr>"
proof (cases "n = 0")
  case True
  then show ?thesis using assms by (auto simp: drain_bytes_def intro!: exI [of _ 0])
next
  case False
  then show ?thesis using assms recv_all_bounds
    by (fastforce simp: drain_bytes_def split: prod.splits)
qed

section \<open>Round trip\<close>

text \<open>What a proxy sends: the header, the addresses and ports, and further type-length-value data.\<close>

fun pp2_addr :: "sockaddr \<Rightarrow> byte list \<Rightarrow> byte list \<Rightarrow> byte list" where
  "pp2_addr (sockaddr_in a p) dst dport = a @ dst @ p @ dport"
| "pp2_addr (sockaddr_in6 a p) dst dport = a @ dst @ p @ dport"

fun pp2_alen :: "sockaddr \<Rightarrow> nat" where
  "pp2_alen (sockaddr_in _ _) = 4"
| "pp2_alen (sockaddr_in6 _ _) = 16"

fun pp2_family :: "sockaddr \<Rightarrow> byte" where
  "pp2_family (sockaddr_in _ _) = 1"
| "pp2_family (sockaddr_in6 _ _) = 2"

fun pp2_wf :: "sockaddr \<Rightarrow> bool" where
  "pp2_wf (sockaddr_in a p) \<longleftrightarrow> length a = 4 \<and> length p = 2"
| "pp2_wf (sockaddr_in6 a p) \<longleftrightarrow> length a = 16 \<and> length p = 2"

definition pp2_encode :: "byte \<Rightarrow> sockaddr \<Rightarrow> byte list \<Rightarrow> byte list \<Rightarrow> byte list \<Rightarrow> byte list" where
  "pp2_encode proto src dst dport tlv =
     (let n = 2 * pp2_alen src + 4 + length tlv
      in PP2_SIGNATURE @ [0x21, push_bit 4 (pp2_family src) OR (proto AND 0x0F), of_nat (n div 256), of_nat (n mod 256)]
         @ pp2_addr src dst dport @ tlv)"

lemma ntohs_be: "n < 65536 \<Longrightarrow> unat (ntohs (of_nat (n div 256)) (of_nat (n mod 256))) = n"
proof -
  assume n: "n < 65536"
  have hi: "unat (of_nat (n div 256) :: byte) = n div 256" using n by (simp add: unat_of_nat)
  have lo: "unat (of_nat (n mod 256) :: byte) = n mod 256" by (simp add: unat_of_nat)
  let ?h = "push_bit 8 (ucast (of_nat (n div 256) :: byte)) :: u16"
  let ?l = "ucast (of_nat (n mod 256) :: byte) :: u16"
  have "?h AND ?l = 0"
    by (rule bit_word_eqI) (auto simp: bit_simps dest: bit_imp_le_length)
  then have or: "?h OR ?l = ?h + ?l" by (simp add: disjunctive_add_eq_or)
  have h: "unat ?h = 256 * (n div 256)"
    using n by (simp add: unat_word_ariths push_bit_eq_mult unsigned_ucast_eq take_bit_eq_mod hi)
  have l: "unat ?l = n mod 256" by (simp add: unsigned_ucast_eq take_bit_eq_mod lo)
  have "unat (?h + ?l) = (256 * (n div 256) + n mod 256) mod 65536"
    by (simp add: unat_word_ariths h l)
  also have "\<dots> = n" using n by simp
  finally show ?thesis unfolding ntohs_def or by simp
qed

lemma family_nibble: "(drop_bit 4 (push_bit 4 f OR (p AND 0x0F))) AND 0x0F = (take_bit 4 f :: byte)"
proof -
  have m: "(0x0F :: byte) = mask 4" by (simp add: mask_eq_exp_minus_1)
  show ?thesis unfolding m by (rule bit_word_eqI) (auto simp: bit_simps)
qed

lemma pp2_family_nibble: "take_bit 4 (pp2_family a) = pp2_family a"
  by (cases a) (simp_all add: take_bit_eq_mod)

lemma get_bytes_append:
  "length a = off \<Longrightarrow> length b = n \<Longrightarrow> get_bytes off n (a @ b @ c) = b"
  by (simp add: get_bytes_def)

lemma read_addr_ok:
  assumes "length ad + length tlv = extra" "length ad = alen" "good (sock st)"
    "content (sock st) = ad @ tlv @ rest" "delay (sock st) < t"
  shows "\<exists>st'. read_addr mk alen asize poff slen t want extra st = (0, st')
    \<and> source_addr st' = mk (get_bytes 0 asize ad) (get_bytes poff 2 ad) \<and> source_addrlen st' = slen
    \<and> dest_port st' = (if want then ntohs (ad ! (poff + 2)) (ad ! (poff + 3)) else dest_port st)
    \<and> content (sock st') = rest"
proof -
  obtain s c where r: "recv_all st alen t = (Some ad, st\<lparr>sock := s, clock := c\<rparr>)"
      "content s = tlv @ rest" "good s" "delay s < t"
    using recv_all_ok [of st alen t] assms by auto
  define st2 where "st2 = st\<lparr>sock := s, clock := c, source_addr := mk (get_bytes 0 asize ad) (get_bytes poff 2 ad),
      source_addrlen := slen\<rparr>"
  define st3 where "st3 = (if want then st2\<lparr>dest_port := ntohs (ad ! (poff + 2)) (ad ! (poff + 3))\<rparr> else st2)"
  have s3: "sock st3 = s" by (simp add: st3_def st2_def)
  obtain s' c' where d: "drain_bytes st3 (extra - alen) t = (True, st3\<lparr>sock := s', clock := c'\<rparr>)" "content s' = rest"
    using drain_ok [of st3 "extra - alen" t] r assms(1,2) s3 by auto
  have "read_addr mk alen asize poff slen t want extra st =
      (case drain_bytes st3 (extra - alen) t of (ok, st4) \<Rightarrow> (if ok then 0 else -1, st4))"
    using assms(1,2) r(1) unfolding st3_def st2_def by (simp add: read_addr_def Let_def)
  then have "read_addr mk alen asize poff slen t want extra st = (0, st3\<lparr>sock := s', clock := c'\<rparr>)"
    by (simp add: d(1))
  then show ?thesis using d(2) by (auto simp: st3_def st2_def)
qed

lemma read_header:
  assumes len: "2 * pp2_alen src + 4 + length tlv \<le> 256"
    and s: "good (sock st)" "content (sock st) = pp2_encode proto src dst dport tlv @ rest" "delay (sock st) < t"
  defines "n \<equiv> 2 * pp2_alen src + 4 + length tlv"
  shows "\<exists>s1 c1. content s1 = pp2_addr src dst dport @ tlv @ rest \<and> good s1 \<and> delay s1 < t \<and> ProxyProtocolV2Read t want st =
      (if pp2_family src = 1 then read_addr sockaddr_in 12 4 8 16 t want n (st\<lparr>sock := s1, clock := c1\<rparr>)
       else read_addr sockaddr_in6 36 16 32 28 t want n (st\<lparr>sock := s1, clock := c1\<rparr>))"
proof -
  define hdr where "hdr = PP2_SIGNATURE @
      [0x21, push_bit 4 (pp2_family src) OR (proto AND 0x0F), of_nat (n div 256), of_nat (n mod 256)]"
  have lh: "length hdr = 16" by (simp add: hdr_def PP2_SIGNATURE_def)
  have con: "content (sock st) = hdr @ pp2_addr src dst dport @ tlv @ rest"
    using s(2) by (simp add: pp2_encode_def hdr_def n_def Let_def)
  obtain s1 c1 where r: "recv_all st 16 t = (Some hdr, st\<lparr>sock := s1, clock := c1\<rparr>)"
      "content s1 = pp2_addr src dst dport @ tlv @ rest" "good s1" "delay s1 < t"
    using recv_all_ok [of st 16 t] s(1,3) con lh by auto
  have h13: "hdr ! 13 = push_bit 4 (pp2_family src) OR (proto AND 0x0F)"
    by (simp add: hdr_def PP2_SIGNATURE_def)
  have fam: "(drop_bit 4 (hdr ! 13)) AND 0x0F = pp2_family src"
    unfolding h13 family_nibble by (rule pp2_family_nibble)
  have h: "take 12 hdr = PP2_SIGNATURE" "hdr ! 12 = 0x21"
      "hdr ! 14 = of_nat (n div 256)" "hdr ! 15 = of_nat (n mod 256)"
    by (simp_all add: hdr_def PP2_SIGNATURE_def)
  have n: "n \<le> 256" using len by (simp add: n_def)
  have x: "unat (ntohs (of_nat (n div 256)) (of_nat (n mod 256))) = n" using ntohs_be [of n] n by simp
  have "ProxyProtocolV2Read t want st =
      (if pp2_family src = 1 then read_addr sockaddr_in 12 4 8 16 t want n (st\<lparr>sock := s1, clock := c1\<rparr>)
       else read_addr sockaddr_in6 36 16 32 28 t want n (st\<lparr>sock := s1, clock := c1\<rparr>))"
    using n by (cases src)
      (simp_all add: ProxyProtocolV2Read_def PP2_HEADER_LEN_def r(1) h x fam Let_def PP2_MAX_PAYLOAD_def
        PP2_CMD_LOCAL_def PP2_CMD_PROXY_def PP2_FAM_INET_def PP2_FAM_INET6_def
        PP2_ADDR_LEN_INET_def PP2_ADDR_LEN_INET6_def)
  then show ?thesis using r(2-4) by blast
qed

text \<open>
  C29: whatever the pieces in which the bytes arrive and the signals in between, as long as they all
  arrive in time: a header sent for an IPv4 or IPv6 client is read back as exactly that client's
  address and port (and destination port), and the bytes after it are left for the protocol.
\<close>

theorem ProxyProtocolV2Read_round_trip:
  assumes wf: "pp2_wf src" "length dst = pp2_alen src" "dport = [d0, d1]"
    and len: "2 * pp2_alen src + 4 + length tlv \<le> 256"
    and s: "good (sock st)" "content (sock st) = pp2_encode proto src dst dport tlv @ rest" "delay (sock st) < t"
  shows "\<exists>st'. ProxyProtocolV2Read t want st = (0, st') \<and> source_addr st' = src
    \<and> source_addrlen st' = (if pp2_alen src = 4 then 16 else 28)
    \<and> dest_port st' = (if want then ntohs d0 d1 else dest_port st) \<and> content (sock st') = rest"
proof -
  define n where "n = 2 * pp2_alen src + 4 + length tlv"
  obtain s1 c1 where r: "content s1 = pp2_addr src dst dport @ tlv @ rest" "good s1" "delay s1 < t"
    and step: "ProxyProtocolV2Read t want st =
      (if pp2_family src = 1 then read_addr sockaddr_in 12 4 8 16 t want n (st\<lparr>sock := s1, clock := c1\<rparr>)
       else read_addr sockaddr_in6 36 16 32 28 t want n (st\<lparr>sock := s1, clock := c1\<rparr>))"
    using read_header [OF len s] unfolding n_def by blast
  show ?thesis
  proof (cases src)
    case (sockaddr_in a p)
    define ad where "ad = a @ dst @ p @ dport"
    have ad: "length ad = 12" "get_bytes 0 4 ad = a" "get_bytes 8 2 ad = p" "ad ! 10 = d0" "ad ! 11 = d1"
      using wf sockaddr_in by (simp_all add: ad_def get_bytes_def nth_append)
    show ?thesis
      using read_addr_ok [of ad tlv n 12 "st\<lparr>sock := s1, clock := c1\<rparr>" rest t sockaddr_in 4 8 16 want] r ad
      unfolding step by (cases want) (simp_all add: sockaddr_in n_def ad_def [symmetric])
  next
    case (sockaddr_in6 a p)
    define ad where "ad = a @ dst @ p @ dport"
    have ad: "length ad = 36" "get_bytes 0 16 ad = a" "get_bytes 32 2 ad = p" "ad ! 34 = d0" "ad ! 35 = d1"
      using wf sockaddr_in6 by (simp_all add: ad_def get_bytes_def nth_append)
    show ?thesis
      using read_addr_ok [of ad tlv n 36 "st\<lparr>sock := s1, clock := c1\<rparr>" rest t sockaddr_in6 16 32 28 want] r ad
      unfolding step by (cases want) (simp_all add: sockaddr_in6 n_def ad_def [symmetric])
  qed
qed

definition demo_src :: sockaddr where "demo_src = sockaddr_in [192, 0, 2, 7] [0xC0, 0x01]"
definition demo_pp :: pp where
  "demo_pp = \<lparr>sock = [(5, Data (take 7 (pp2_encode 1 demo_src [10, 0, 0, 1] [0x46, 0x50] [4, 0, 0]))), (1, Intr),
       (20, Data (drop 7 (pp2_encode 1 demo_src [10, 0, 0, 1] [0x46, 0x50] [4, 0, 0]) @ [0x49, 0x44]))],
     clock = 0, source_addr = sockaddr_in [10, 0, 0, 2] [0, 80], source_addrlen = 16, dest_port = 0\<rparr>"

theorem ProxyProtocolV2Read_round_trip_witness:
  "\<exists>st'. ProxyProtocolV2Read 100 True demo_pp = (0, st') \<and> source_addr st' = demo_src
    \<and> source_addrlen st' = (if pp2_alen demo_src = 4 then 16 else 28)
    \<and> dest_port st' = (if True then ntohs 0x46 0x50 else dest_port demo_pp) \<and> content (sock st') = [0x49, 0x44]"
proof (rule ProxyProtocolV2Read_round_trip)
  show "content (sock demo_pp) = pp2_encode 1 demo_src [10, 0, 0, 1] [0x46, 0x50] [4, 0, 0] @ [0x49, 0x44]"
    by (simp add: demo_pp_def)
  show "good (sock demo_pp)"
    by (simp add: demo_pp_def pp2_encode_def PP2_SIGNATURE_def Let_def)
qed (simp_all add: demo_src_def demo_pp_def)

section \<open>Bounds\<close>

text \<open>What one call may consume, how long it may take, and what it changes of the result.\<close>

definition within :: "nat \<Rightarrow> nat \<Rightarrow> pp \<Rightarrow> pp \<Rightarrow> bool" where
  "within n ms st st' \<longleftrightarrow>
     (\<exists>k \<le> n. content (sock st') = drop k (content (sock st))) \<and> clock st' \<le> clock st + ms"

lemma within_trans: "within n ms st st' \<Longrightarrow> within n' ms' st' st'' \<Longrightarrow> within (n + n') (ms + ms') st st''"
  unfolding within_def by clarsimp (metis add.commute add_mono drop_drop)

lemma within_mono: "within n ms st st' \<Longrightarrow> n \<le> n' \<Longrightarrow> ms \<le> ms' \<Longrightarrow> within n' ms' st st'"
  unfolding within_def by (meson le_trans add_left_mono)

lemma recv_all_within: "recv_all st n t = (r, st') \<Longrightarrow> within n t st st'"
  using recv_all_bounds unfolding within_def by blast

lemma drain_within: "drain_bytes st n t = (ok, st') \<Longrightarrow> within n t st st'"
  using drain_bounds unfolding within_def by blast

lemma pp_keeps:
  "st1 = st\<lparr>sock := s, clock := c\<rparr> \<Longrightarrow>
   source_addr st1 = source_addr st \<and> source_addrlen st1 = source_addrlen st \<and> dest_port st1 = dest_port st"
  by simp

lemma recv_all_keeps:
  "recv_all st n t = (r, st1) \<Longrightarrow>
   source_addr st1 = source_addr st \<and> source_addrlen st1 = source_addrlen st \<and> dest_port st1 = dest_port st"
  using recv_all_bounds pp_keeps by blast

lemma drain_keeps:
  "drain_bytes st n t = (ok, st1) \<Longrightarrow>
   source_addr st1 = source_addr st \<and> source_addrlen st1 = source_addrlen st \<and> dest_port st1 = dest_port st"
  using drain_bounds pp_keeps by blast

lemma read_addr_within:
  assumes "read_addr mk alen asize poff slen t want extra st = (r, st')" "alen \<le> 36"
  shows "within (max extra 0) (2 * t) st st' \<and> r \<in> {-1, 0}"
proof (cases "extra < alen")
  case True
  then show ?thesis using assms by (auto simp: read_addr_def within_def intro!: exI [of _ 0])
next
  case False
  obtain b st1 where r1: "recv_all st alen t = (b, st1)" by (cases "recv_all st alen t") auto
  have w1: "within alen t st st1" using recv_all_within [OF r1] .
  show ?thesis
  proof (cases b)
    case None
    then show ?thesis using assms r1 False within_mono [OF w1] by (auto simp: read_addr_def)
  next
    case (Some ad)
    define st3 where "st3 = (let st2 = st1\<lparr>source_addr := mk (get_bytes 0 asize ad) (get_bytes poff 2 ad),
         source_addrlen := slen\<rparr>
       in if want then st2\<lparr>dest_port := ntohs (ad ! (poff + 2)) (ad ! (poff + 3))\<rparr> else st2)"
    obtain ok st4 where d: "drain_bytes st3 (extra - alen) t = (ok, st4)" by (cases "drain_bytes st3 (extra - alen) t") auto
    have "(r, st') = (if ok then 0 else -1, st4)"
      using assms(1) r1 Some False d unfolding st3_def by (simp add: read_addr_def Let_def split: if_splits)
    moreover have "within (extra - alen) t st1 st4"
      using drain_within [OF d] by (simp add: within_def st3_def Let_def split: if_splits)
    then have "within (alen + (extra - alen)) (t + t) st st4" by (rule within_trans [OF w1])
    then have "within extra (2 * t) st st4" by (rule within_mono) (use False in simp_all)
    ultimately show ?thesis by auto
  qed
qed

text \<open>The ways in which a call can end once the header has been received.\<close>

lemma ProxyProtocolV2Read_outcomes:
  assumes "ProxyProtocolV2Read t want st = (r, st')" "recv_all st 16 t = (Some hdr, st1)"
  obtains "(r, st') = (-1, st1)"
  | extra ok where "extra \<le> 256" "drain_bytes st1 extra t = (ok, st')" "r = (if ok then 1 else -1)"
  | extra mk alen asize poff slen where "extra \<le> 256" "alen \<le> 36"
    "read_addr mk alen asize poff slen t want extra st1 = (r, st')"
proof -
  define cmd where "cmd = (hdr ! 12) AND 0x0F"
  define family where "family = (drop_bit 4 (hdr ! 13)) AND 0x0F"
  define extra where "extra = unat (ntohs (hdr ! 14) (hdr ! 15))"
  have def: "(r, st') = (if take 12 hdr \<noteq> PP2_SIGNATURE then (-1, st1)
         else if (hdr ! 12) AND 0xF0 \<noteq> 0x20 then (-1, st1)
         else if extra > PP2_MAX_PAYLOAD then (-1, st1)
         else if cmd = PP2_CMD_LOCAL then
           (let (ok, st2) = drain_bytes st1 extra t in (if ok then 1 else -1, st2))
         else if cmd \<noteq> PP2_CMD_PROXY then (-1, st1)
         else if family = PP2_FAM_INET then
           read_addr sockaddr_in PP2_ADDR_LEN_INET 4 8 16 t want extra st1
         else if family = PP2_FAM_INET6 then
           read_addr sockaddr_in6 PP2_ADDR_LEN_INET6 16 32 28 t want extra st1
         else (let (ok, st2) = drain_bytes st1 extra t in (if ok then 1 else -1, st2)))"
    using assms
    by (simp only: ProxyProtocolV2Read_def PP2_HEADER_LEN_def prod.case option.case Let_def cmd_def family_def extra_def)
  show ?thesis
  proof (cases "take 12 hdr \<noteq> PP2_SIGNATURE \<or> (hdr ! 12) AND 0xF0 \<noteq> 0x20 \<or> extra > PP2_MAX_PAYLOAD
      \<or> (cmd \<noteq> PP2_CMD_LOCAL \<and> cmd \<noteq> PP2_CMD_PROXY)")
    case True
    then show ?thesis using def that(1) by (simp split: if_splits)
  next
    case ok: False
    then have ex: "extra \<le> 256" by (simp add: PP2_MAX_PAYLOAD_def)
    show ?thesis
    proof (cases "cmd = PP2_CMD_LOCAL \<or> (family \<noteq> PP2_FAM_INET \<and> family \<noteq> PP2_FAM_INET6)")
      case True
      obtain x y where "drain_bytes st1 extra t = (x, y)" by (cases "drain_bytes st1 extra t")
      then show ?thesis using def ok True that(2) [OF ex] by (simp split: if_splits)
    next
      case False
      show ?thesis
      proof (cases "family = PP2_FAM_INET")
        case True
        then have "(r, st') = read_addr sockaddr_in 12 4 8 16 t want extra st1"
          using def ok False by (simp add: PP2_ADDR_LEN_INET_def)
        then show ?thesis using that(3) [OF ex, of 12] by simp
      next
        case f6: False
        then have "(r, st') = read_addr sockaddr_in6 36 16 32 28 t want extra st1"
          using def ok False by (simp add: PP2_ADDR_LEN_INET6_def)
        then show ?thesis using that(3) [OF ex, of 36] by simp
      qed
    qed
  qed
qed

text \<open>
  Whatever arrives on the socket, a call returns -1, 0 or 1, takes at most the 16 bytes of the
  header and 256 of payload from it, and waits at most three times the timeout; a result of 1
  leaves the address, its length and the port as they were.
\<close>

theorem ProxyProtocolV2Read_bounds:
  assumes "ProxyProtocolV2Read t want st = (r, st')"
  shows "r \<in> {-1, 0, 1} \<and> (\<exists>k \<le> 272. content (sock st') = drop k (content (sock st)))
    \<and> clock st' \<le> clock st + 3 * t
    \<and> (r = 1 \<longrightarrow> source_addr st' = source_addr st \<and> source_addrlen st' = source_addrlen st
          \<and> dest_port st' = dest_port st)"
proof -
  obtain b st1 where r1: "recv_all st 16 t = (b, st1)" by (cases "recv_all st 16 t") auto
  have w1: "within 16 t st st1" using recv_all_within [OF r1] .
  note same1 = recv_all_keeps [OF r1]
  have stop: "within 272 (3 * t) st st1" using within_mono [OF w1] by simp
  have go: "within 272 (3 * t) st st2" if "within n (2 * t) st1 st2" "n \<le> 256" for n st2
    using within_mono [OF within_trans [OF w1 that(1)]] that(2) by simp
  have dr: "within n (2 * t) st1 st2" if "drain_bytes st1 n t = (ok, st2)" for n ok st2
    using within_mono [OF drain_within [OF that]] by simp
  define X where "X \<longleftrightarrow> within 272 (3 * t) st st' \<and> r \<in> {-1, 0, 1} \<and> (r = 1 \<longrightarrow> source_addr st' = source_addr st
      \<and> source_addrlen st' = source_addrlen st \<and> dest_port st' = dest_port st)"
  have X: X
  proof (cases b)
    case None
    then have "r = -1" "st' = st1" using assms r1 by (simp_all add: ProxyProtocolV2Read_def PP2_HEADER_LEN_def)
    then show ?thesis using stop by (simp add: X_def)
  next
    case (Some hdr)
    show ?thesis
    proof (rule ProxyProtocolV2Read_outcomes [OF assms r1 [unfolded Some]])
      assume "(r, st') = (-1, st1)"
      then show ?thesis using stop by (simp add: X_def)
    next
      fix extra ok
      assume d: "extra \<le> 256" "drain_bytes st1 extra t = (ok, st')" "r = (if ok then 1 else -1)"
      then show ?thesis using dr [OF d(2)] drain_keeps [OF d(2)] go same1 by (auto simp: X_def)
    next
      fix extra mk alen asize poff slen
      assume d: "extra \<le> 256" "alen \<le> 36" "read_addr mk alen asize poff slen t want extra st1 = (r, st')"
      have "within extra (2 * t) st1 st'" "r \<in> {-1, 0}" using read_addr_within [OF d(3,2)] by simp_all
      then show ?thesis using go d(1) by (auto simp: X_def)
    qed
  qed
  then show ?thesis unfolding X_def within_def by blast
qed

lemma demo_pp_call:
  "ProxyProtocolV2Read 100 True demo_pp = (0, demo_pp\<lparr>sock := [(0, Data [0x49, 0x44])], clock := 26,
     source_addr := demo_src, dest_port := 0x4650\<rparr>)"
  by code_simp

theorem ProxyProtocolV2Read_bounds_witness:
  "\<exists>k \<le> 272. content [(0, Data [0x49, 0x44])] = drop k (content (sock demo_pp))"
  using ProxyProtocolV2Read_bounds [OF demo_pp_call] by simp

text \<open>A proxy that sends the header and each part of the payload just before the timeout.\<close>

definition slow_pp :: pp where
  "slow_pp = demo_pp\<lparr>sock := (let b = pp2_encode 1 demo_src [10, 0, 0, 1] [0x46, 0x50] [4, 0, 0] in
     [(90, Data (take 16 b)), (90, Data (take 12 (drop 16 b))), (90, Data (drop 28 b))])\<rparr>"

text \<open>
  The timeout is applied to each of the up to three reads, not to the header: with a timeout of
  100 ms a call succeeds after 270 ms, while \<open>proxyproto.h\<close> calls it the maximum time to wait for the
  header to arrive.
\<close>

theorem ProxyProtocolV2Read_waits_longer:
  "fst (ProxyProtocolV2Read 100 True slow_pp) = 0 \<and> clock (snd (ProxyProtocolV2Read 100 True slow_pp)) = 270"
  by code_simp

definition cut_pp :: pp where
  "cut_pp = demo_pp\<lparr>sock := [(5, Data (take 28 (pp2_encode 1 demo_src [10, 0, 0, 1] [0x46, 0x50] [4, 0, 0]))), (1, Closed)]\<rparr>"

lemma ProxyProtocolV2Read_cut:
  "fst (ProxyProtocolV2Read 100 True cut_pp) = -1 \<and> source_addr (snd (ProxyProtocolV2Read 100 True cut_pp)) = demo_src"
  by code_simp

end
