(* ===== verification/RS_Clients.thy ===== *)
theory RS_Clients
  imports RS_RingRead RS_CmdToken
begin

text \<open>
  The receiving side of a client connection, \<open>ringserver-4/src/clients.c\<close>: the receive buffer with
  its consumed prefix, and the framing of DataLink commands and of SeedLink lines on top of it, for
  connections without TLS.  Time is counted in milliseconds; the socket is what it will deliver.
\<close>

section \<open>Bytes and text\<close>

definition to_str :: "byte list \<Rightarrow> string" where "to_str = map (\<lambda>b. char_of (unat b))"
definition to_bytes :: "string \<Rightarrow> byte list" where "to_bytes = map (\<lambda>c. of_nat (ord c))"

lemma to_str_bytes [simp]: "to_str (to_bytes s) = s"
proof -
  have "char_of (unat (of_nat (ord c) :: byte)) = c" for c :: char
  proof -
    have "ord c < 256" by (simp add: ord_def)
    then have "unat (of_nat (ord c) :: byte) = ord c" by (simp add: unat_of_nat)
    then show ?thesis by (simp add: ord_def)
  qed
  then show ?thesis by (simp add: to_str_def to_bytes_def comp_def)
qed

lemma length_to_bytes [simp]: "length (to_bytes s) = length s" "length (to_str b) = length b"
  by (simp_all add: to_bytes_def to_str_def)

lemma to_bytes_append [simp]: "to_bytes (s @ t) = to_bytes s @ to_bytes t"
  by (simp add: to_bytes_def)

section \<open>The connection\<close>

text \<open>
  What the socket will do: each event becomes visible so many milliseconds after the one before it
  was taken.  \<open>Bytes b\<close> are bytes to receive; \<open>Signal\<close> interrupts a \<open>poll\<close>, \<open>PollError\<close> makes it
  fail; \<open>Closed\<close> is the end of the stream, \<open>SockError\<close> an error of \<open>recv\<close>.  Nothing follows the end
  of the list.
\<close>

datatype net_event = Bytes "byte list" | Signal | PollError | Closed | SockError

type_synonym net = "(nat \<times> net_event) list"

text \<open>
  The part of \<open>ClientInfo\<close> that receiving uses: \<open>recvlength\<close> is the length of \<open>recvbuf\<close>, and
  \<open>clock\<close> is the time that \<open>NSnow\<close> shows.
\<close>

record ClientRecvInfo =
  net :: net
  clock :: nat
  socketerr :: int
  recvbuf :: "byte list"
  recvbufsize :: nat
  recvconsumed :: nat
  recvstart :: nat
  lastxchange :: nat
  dlcommand :: "byte list"

text \<open>\<open>config.netiotimeout\<close> in seconds, and \<open>param.shutdownsig\<close>.\<close>

record io_config =
  netiotimeout :: nat
  shutdownsig :: bool

section \<open>System calls\<close>

text \<open>\<open>recv\<close> on the non-blocking socket into \<open>room\<close> bytes.\<close>

datatype recv_res = Got "byte list" | Eagain | Eof | RecvErr

definition sys_recv :: "net \<Rightarrow> nat \<Rightarrow> recv_res \<times> net" where
  "sys_recv s room = (case s of
     [] \<Rightarrow> (Eagain, s)
   | (d, e) # s' \<Rightarrow>
      (if d \<noteq> 0 then (Eagain, s)
       else (case e of
          Bytes b \<Rightarrow>
            (let n = min room (length b)
             in if n = 0 then (Eof, s)
                else (Got (take n b), if n < length b then (0, Bytes (drop n b)) # s' else s'))
        | Closed \<Rightarrow> (Eof, s)
        | SockError \<Rightarrow> (RecvErr, s')
        | _ \<Rightarrow> (Eagain, s))))"

text \<open>\<open>recv\<close> of one byte with \<open>MSG_PEEK\<close> returns 0: the peer has closed.\<close>

definition peek_closed :: "net \<Rightarrow> bool" where
  "peek_closed s \<longleftrightarrow> fst (sys_recv s 1) = Eof"

text \<open>\<open>poll\<close> for input with a timeout; the time it takes is the last component.\<close>

datatype poll_res = Ready | Expired | Interrupted | PollFailed

definition PollSocket :: "net \<Rightarrow> nat \<Rightarrow> poll_res \<times> net \<times> nat" where
  "PollSocket s timeout_ms = (case s of
     [] \<Rightarrow> (Expired, s, timeout_ms)
   | (d, e) # s' \<Rightarrow>
      (if timeout_ms < d then (Expired, (d - timeout_ms, e) # s', timeout_ms)
       else if e = Signal then (Interrupted, s', d)
       else if e = PollError then (PollFailed, s', d)
       else (Ready, (0, e) # s', d)))"

fun event_size :: "net_event \<Rightarrow> nat" where
  "event_size (Bytes b) = length b"
| "event_size _ = 0"

definition net_size :: "net \<Rightarrow> nat" where
  "net_size s = sum_list (map (\<lambda>(d, e). d + 1 + event_size e) s)"

lemma sys_recv_size: "sys_recv s room = (Got b, s') \<Longrightarrow> net_size s' < net_size s"
  by (auto simp: sys_recv_def net_size_def Let_def split: list.splits net_event.splits if_splits)

lemma sys_recv_again: "sys_recv s room = (Eagain, s') \<Longrightarrow> s' = s"
  by (auto simp: sys_recv_def Let_def split: list.splits net_event.splits if_splits)

lemma poll_size:
  "sys_recv s room = (Eagain, s0) \<Longrightarrow> PollSocket s0 T = (r, s', t) \<Longrightarrow> r = Ready \<or> r = Interrupted \<Longrightarrow>
   net_size s' < net_size s"
  by (auto simp: sys_recv_def PollSocket_def net_size_def Let_def
      split: list.splits net_event.splits if_splits)

section \<open>\<open>RecvData\<close>\<close>

text \<open>
  Its loop: \<open>held\<close> bytes are in the buffer, of \<open>cap\<close>, \<open>nread\<close> more have been received.  The result is
  how the loop ended, and the bytes received, the socket and the time.
\<close>

datatype recv_end = Enough | NoData | Timeout | ShutdownTimeout | PeerClosed | Failed

function RecvData_loop ::
  "io_config \<Rightarrow> nat \<Rightarrow> nat \<Rightarrow> bool \<Rightarrow> nat \<Rightarrow> nat \<Rightarrow> nat \<Rightarrow> net \<Rightarrow> nat
   \<Rightarrow> recv_end \<times> byte list \<times> net \<times> nat" where
  "RecvData_loop cfg held requested fulfill cap deadline nread s now =
     (if requested \<le> held + nread then (Enough, [], s, now)
      else (case sys_recv s (cap - held - nread) of
          (Got b, s1) \<Rightarrow>
            (case RecvData_loop cfg held requested fulfill cap deadline (nread + length b) s1 now of
               (r, got, q) \<Rightarrow> (r, b @ got, q))
        | (Eof, s1) \<Rightarrow> (PeerClosed, [], s1, now)
        | (RecvErr, s1) \<Rightarrow> (Failed, [], s1, now)
        | (Eagain, s1) \<Rightarrow>
            (if \<not> fulfill \<and> nread = 0 then (NoData, [], s1, now)
             else if \<not> shutdownsig cfg \<and> deadline < now then (Timeout, [], s1, now)
             else (case PollSocket s1 (netiotimeout cfg * 1000) of
                 (Expired, s2, t) \<Rightarrow> (if shutdownsig cfg then ShutdownTimeout else Timeout, [], s2, now + t)
               | (PollFailed, s2, t) \<Rightarrow> (Failed, [], s2, now + t)
               | (Interrupted, s2, t) \<Rightarrow> RecvData_loop cfg held requested fulfill cap deadline nread s2 (now + t)
               | (Ready, s2, t) \<Rightarrow> RecvData_loop cfg held requested fulfill cap deadline nread s2 (now + t)))))"
  by pat_completeness auto
termination
  by (relation "measure (\<lambda>(cfg, held, requested, fulfill, cap, deadline, nread, s, now). net_size s)")
    (auto dest: sys_recv_size [OF sym] poll_size [OF sym sym disjI1 [OF refl]]
      poll_size [OF sym sym disjI2 [OF refl]])

declare RecvData_loop.simps [simp del]

text \<open>
  The bytes that the C code copies to the caller's buffer are the first \<open>requested\<close> bytes of the
  receive buffer; the callers of the model take them from there.
\<close>

definition RecvData :: "io_config \<Rightarrow> 'a ClientRecvInfo_scheme \<Rightarrow> nat \<Rightarrow> bool \<Rightarrow> int \<times> 'a ClientRecvInfo_scheme" where
  "RecvData cfg c requested fulfill =
     (if length (recvbuf c) \<le> recvconsumed c \<and> peek_closed (net c) then (-2, c\<lparr>socketerr := -2\<rparr>)
      else if requested > recvbufsize c then (-1, c\<lparr>socketerr := -1\<rparr>)
      else let buf = (if recvconsumed c > 0 then
                        (if recvconsumed c < length (recvbuf c) then drop (recvconsumed c) (recvbuf c) else [])
                      else recvbuf c);
               deadline = clock c + netiotimeout cfg * 1000 * 2;
               (r, got, s, now) = RecvData_loop cfg (length buf) requested fulfill (recvbufsize c) deadline 0
                                    (net c) (clock c);
               c1 = c\<lparr>recvbuf := buf, recvconsumed := 0, net := s, clock := now\<rparr>
           in (case r of
                 NoData \<Rightarrow> (0, c1)
               | Timeout \<Rightarrow> (-1, c1\<lparr>socketerr := -1\<rparr>)
               | Failed \<Rightarrow> (-1, c1\<lparr>socketerr := -1\<rparr>)
               | ShutdownTimeout \<Rightarrow> (-2, c1\<lparr>socketerr := -2\<rparr>)
               | PeerClosed \<Rightarrow> (-2, c1\<lparr>socketerr := -2\<rparr>)
               | Enough \<Rightarrow>
                   (int requested,
                    (if got \<noteq> [] then c1\<lparr>recvbuf := buf @ got, lastxchange := now,
                                        recvstart := (if recvstart c1 = 0 then now else recvstart c1)\<rparr>
                     else c1)\<lparr>recvconsumed := requested\<rparr>)))"

definition received :: "'a ClientRecvInfo_scheme \<Rightarrow> nat \<Rightarrow> byte list" where
  "received c requested = take requested (recvbuf c)"

section \<open>DataLink commands\<close>

definition RecvDLCommand :: "io_config \<Rightarrow> 'a ClientRecvInfo_scheme \<Rightarrow> int \<times> 'a ClientRecvInfo_scheme" where
  "RecvDLCommand cfg c =
     (case RecvData cfg c 3 False of (nrecv, c1) \<Rightarrow>
        if nrecv \<noteq> 3 then (nrecv, c1)
        else if \<not> (recvbuf c1 ! 0 = 0x44 \<and> recvbuf c1 ! 1 = 0x4C) then (-1, c1\<lparr>socketerr := -1\<rparr>)
        else let headerlen = unat (recvbuf c1 ! 2)
        in if headerlen < 2 then (-1, c1\<lparr>socketerr := -1\<rparr>)
        else (case RecvData cfg c1 headerlen True of (nrecv2, c2) \<Rightarrow>
           if nrecv2 \<noteq> int headerlen then (nrecv2, c2)
           else (3 + nrecv2, c2\<lparr>dlcommand := received c2 headerlen\<rparr>)))"

section \<open>Lines\<close>

definition MAX_LINE_LENGTH :: nat where "MAX_LINE_LENGTH = 8096"

definition is_term :: "byte \<Rightarrow> bool" where "is_term b \<longleftrightarrow> b = 0x0A \<or> b = 0x0D"

text \<open>\<open>memchr\<close>: the position of a byte.\<close>

definition memchr :: "byte list \<Rightarrow> byte \<Rightarrow> nat option" where
  "memchr b x = (let n = length (takeWhile (\<lambda>y. y \<noteq> x) b) in if n < length b then Some n else None)"

text \<open>The line found at the first terminator: it is ended in place and consumed with its terminators.\<close>

definition take_line :: "'a ClientRecvInfo_scheme \<Rightarrow> nat option \<Rightarrow> nat option \<Rightarrow> int \<times> 'a ClientRecvInfo_scheme" where
  "take_line c cr nl =
     (let firstterminator = (case (nl, cr) of (Some n, Some r) \<Rightarrow> min n r | (Some n, None) \<Rightarrow> n | (_, r) \<Rightarrow> the r);
          last0 = (case (nl, cr) of (Some n, Some r) \<Rightarrow> max n r | (Some n, None) \<Rightarrow> n | (_, r) \<Rightarrow> the r);
          lastterminator = (if firstterminator \<noteq> last0 \<and> firstterminator + 1 \<noteq> last0 then firstterminator else last0)
      in (int firstterminator,
          c\<lparr>recvconsumed := lastterminator + 1, recvbuf := (recvbuf c)[firstterminator := 0]\<rparr>))"

definition RecvLine_search :: "io_config \<Rightarrow> 'a ClientRecvInfo_scheme \<Rightarrow> int \<times> 'a ClientRecvInfo_scheme" where
  "RecvLine_search cfg c =
     (let cr = memchr (recvbuf c) 0x0D; nl = memchr (recvbuf c) 0x0A
      in if cr = None \<and> nl = None then
           (let c1 = c\<lparr>recvconsumed := 0\<rparr>
            in if length (recvbuf c1) \<ge> MAX_LINE_LENGTH then (-1, c1\<lparr>socketerr := -1\<rparr>)
               else if length (recvbuf c1) + 1 > recvbufsize c1 then (-1, c1\<lparr>socketerr := -1\<rparr>)
               else (case RecvData cfg c1 (length (recvbuf c1) + 1) False of (nread, c2) \<Rightarrow>
                 if nread \<le> 0 then (nread, c2)
                 else (let cr2 = memchr (recvbuf c2) 0x0D; nl2 = memchr (recvbuf c2) 0x0A
                       in if cr2 = None \<and> nl2 = None then (0, c2\<lparr>recvconsumed := 0\<rparr>)
                          else take_line c2 cr2 nl2)))
         else take_line c cr nl)"

text \<open>
  The terminators in front are counted up to ten.  (The test for ten is inside the loop, so the
  tenth terminator already ends the connection.)
\<close>

definition RecvLine :: "io_config \<Rightarrow> 'a ClientRecvInfo_scheme \<Rightarrow> int \<times> 'a ClientRecvInfo_scheme" where
  "RecvLine cfg c =
     (case RecvData cfg c 1 False of (nread, c1) \<Rightarrow>
        if nread \<le> 0 then (nread, c1)
        else let skipped = length (takeWhile is_term (recvbuf c1))
        in if skipped \<ge> 10 then (-1, c1\<lparr>socketerr := -1\<rparr>)
        else if skipped > 0 then
          (case RecvData cfg (c1\<lparr>recvconsumed := skipped\<rparr>) 1 False of (nread2, c2) \<Rightarrow>
             if nread2 \<le> 0 then (nread2, c2) else RecvLine_search cfg c2)
        else RecvLine_search cfg c1)"

section \<open>The receive layer is a byte stream\<close>

fun stream :: "net \<Rightarrow> byte list" where
  "stream [] = []"
| "stream ((d, Bytes b) # s) = b @ stream s"
| "stream ((d, Closed) # s) = []"
| "stream ((d, Signal) # s) = stream s"
| "stream ((d, PollError) # s) = stream s"
| "stream ((d, SockError) # s) = stream s"

text \<open>What has not been consumed yet: the rest of the buffer, then what the socket delivers.\<close>

definition pending :: "'a ClientRecvInfo_scheme \<Rightarrow> byte list" where
  "pending c = drop (recvconsumed c) (recvbuf c) @ stream (net c)"

text \<open>Sockets that deliver in time: data and signals only, each within \<open>T\<close> milliseconds.\<close>

definition prompt :: "nat \<Rightarrow> net \<Rightarrow> bool" where
  "prompt T s \<longleftrightarrow> (\<forall>(d, e) \<in> set s. d \<le> T \<and> (e = Signal \<or> (\<exists>b. e = Bytes b \<and> b \<noteq> [])))"

definition total_delay :: "net \<Rightarrow> nat" where "total_delay s = sum_list (map fst s)"

lemma sys_recv_stream: "sys_recv s room = (Got b, s') \<Longrightarrow> stream s = b @ stream s' \<and> b \<noteq> [] \<and> length b \<le> room"
  by (auto simp: sys_recv_def Let_def min_def split: list.splits net_event.splits if_splits)

lemma sys_recv_other:
  "sys_recv s room = (r, s') \<Longrightarrow> r \<in> {Eagain, Eof, RecvErr} \<Longrightarrow> stream s' = stream s"
  by (auto simp: sys_recv_def Let_def split: list.splits net_event.splits if_splits)

lemma stream_delay: "stream ((d, e) # s) = stream ((d', e) # s)"
  by (cases e) simp_all

lemma PollSocket_stream: "PollSocket s T = (r, s', t) \<Longrightarrow> stream s' = stream s"
  by (auto simp: PollSocket_def split: list.splits if_splits) (metis stream_delay)+

text \<open>How the loop ends and what it has taken, on any socket.\<close>

lemma RecvData_loop_stream:
  assumes "RecvData_loop cfg held requested fulfill cap deadline nread s now = (r, got, s', now')"
  shows "stream s = got @ stream s' \<and> (r = Enough \<longrightarrow> requested \<le> held + nread + length got)
    \<and> (r = NoData \<longrightarrow> got = [] \<and> nread = 0 \<and> \<not> fulfill) \<and> now \<le> now'"
  using assms
proof (induction cfg held requested fulfill cap deadline nread s now arbitrary: r got s' now'
    rule: RecvData_loop.induct)
  case (1 cfg held requested fulfill cap deadline nread s now)
  show ?case
  proof (cases "requested \<le> held + nread")
    case True
    then show ?thesis using "1.prems" by (simp add: RecvData_loop.simps)
  next
    case more: False
    obtain x s1 where x: "sys_recv s (cap - held - nread) = (x, s1)" by (cases "sys_recv s (cap - held - nread)")
    show ?thesis
    proof (cases x)
      case (Got b)
      obtain r2 g2 s2 n2 where rec: "RecvData_loop cfg held requested fulfill cap deadline (nread + length b) s1 now
          = (r2, g2, s2, n2)"
        by (metis prod_cases4)
      have "(r, got, s', now') = (r2, b @ g2, s2, n2)"
        using "1.prems" more x Got rec by (simp add: RecvData_loop.simps [of cfg held requested fulfill cap deadline nread])
      moreover note "1.IH"(1) [OF more x [symmetric] Got rec] sys_recv_stream [of s _ b s1] x Got
      ultimately show ?thesis by auto
    next
      case Eagain
      note st = sys_recv_other [OF x]
      obtain y s2 t where y: "PollSocket s1 (netiotimeout cfg * 1000) = (y, s2, t)"
        by (metis prod_cases3)
      note st2 = PollSocket_stream [OF y]
      show ?thesis
      proof (cases "(\<not> fulfill \<and> nread = 0) \<or> (\<not> shutdownsig cfg \<and> deadline < now) \<or> y = Expired \<or> y = PollFailed")
        case True
        then show ?thesis
          using "1.prems" more x Eagain y st st2
          by (auto simp: RecvData_loop.simps [of cfg held requested fulfill cap deadline nread] split: if_splits)
      next
        case False
        then have "RecvData_loop cfg held requested fulfill cap deadline nread s now =
            RecvData_loop cfg held requested fulfill cap deadline nread s2 (now + t)"
          using more x Eagain y
          by (cases y) (auto simp: RecvData_loop.simps [of cfg held requested fulfill cap deadline nread s])
        then have rec: "RecvData_loop cfg held requested fulfill cap deadline nread s2 (now + t) = (r, got, s', now')"
          using "1.prems" by simp
        have go: "\<not> (\<not> fulfill \<and> nread = 0)" "\<not> (\<not> shutdownsig cfg \<and> deadline < now)" using False by auto
        have "stream s2 = got @ stream s' \<and> (r = Enough \<longrightarrow> requested \<le> held + nread + length got)
            \<and> (r = NoData \<longrightarrow> got = [] \<and> nread = 0 \<and> \<not> fulfill) \<and> now + t \<le> now'"
        proof (cases y)
          case Ready
          then show ?thesis using "1.IH"(2) [OF more x [symmetric] Eagain go y [symmetric] _ _ rec] by simp
        next
          case Interrupted
          then show ?thesis using "1.IH"(3) [OF more x [symmetric] Eagain go y [symmetric] _ _ rec] by simp
        qed (use False in auto)
        then show ?thesis using st st2 Eagain by simp
      qed
    next
      case Eof
      then show ?thesis using "1.prems" more x sys_recv_other [OF x]
        by (auto simp: RecvData_loop.simps [of cfg held requested fulfill cap deadline nread])
    next
      case RecvErr
      then show ?thesis using "1.prems" more x sys_recv_other [OF x]
        by (auto simp: RecvData_loop.simps [of cfg held requested fulfill cap deadline nread])
    qed
  qed
qed

text \<open>On a prompt socket with enough data it ends well.\<close>

lemma prompt_simps [simp]:
  "prompt T []"
  "prompt T ((d, e) # s) \<longleftrightarrow> d \<le> T \<and> (e = Signal \<or> (\<exists>b. e = Bytes b \<and> b \<noteq> [])) \<and> prompt T s"
  by (auto simp: prompt_def)

lemma total_delay_simps [simp]: "total_delay [] = 0" "total_delay ((d, e) # s) = d + total_delay s"
  by (simp_all add: total_delay_def)

lemma sys_recv_prompt:
  assumes "prompt T s" "room > 0" "sys_recv s room = (x, s')"
  shows "x \<noteq> Eof \<and> x \<noteq> RecvErr \<and> prompt T s' \<and> total_delay s' = total_delay s"
  using assms by (auto simp: sys_recv_def Let_def min_def split: list.splits net_event.splits if_splits)

lemma PollSocket_prompt:
  assumes "prompt T s" "stream s \<noteq> []" "PollSocket s T = (y, s', t)"
  shows "y \<noteq> Expired \<and> y \<noteq> PollFailed \<and> prompt T s' \<and> t + total_delay s' = total_delay s"
  using assms by (auto simp: PollSocket_def split: list.splits if_splits)

lemma RecvData_loop_prompt:
  assumes "RecvData_loop cfg held requested fulfill cap deadline nread s now = (r, got, s', now')"
    "prompt (netiotimeout cfg * 1000) s" "now + total_delay s \<le> deadline"
    "requested \<le> held + nread + length (stream s)" "requested \<le> cap"
  shows "(r = Enough \<or> r = NoData) \<and> prompt (netiotimeout cfg * 1000) s' \<and> now' + total_delay s' \<le> now + total_delay s"
  using assms
proof (induction cfg held requested fulfill cap deadline nread s now arbitrary: r got s' now'
    rule: RecvData_loop.induct)
  case (1 cfg held requested fulfill cap deadline nread s now)
  let ?T = "netiotimeout cfg * 1000"
  show ?case
  proof (cases "requested \<le> held + nread")
    case True
    then show ?thesis using "1.prems" by (simp add: RecvData_loop.simps)
  next
    case more: False
    obtain x s1 where x: "sys_recv s (cap - held - nread) = (x, s1)" by (cases "sys_recv s (cap - held - nread)")
    have room: "cap - held - nread > 0" using more "1.prems"(5) by simp
    note pr = sys_recv_prompt [OF "1.prems"(2) room x]
    show ?thesis
    proof (cases x)
      case (Got b)
      obtain r2 g2 s2 n2 where rec: "RecvData_loop cfg held requested fulfill cap deadline (nread + length b) s1 now
          = (r2, g2, s2, n2)"
        by (metis prod_cases4)
      have "(r, got, s', now') = (r2, b @ g2, s2, n2)"
        using "1.prems"(1) more x Got rec
        by (simp add: RecvData_loop.simps [of cfg held requested fulfill cap deadline nread])
      then show ?thesis
        using "1.IH"(1) [OF more x [symmetric] Got rec] sys_recv_stream [of s _ b s1] x Got pr "1.prems" by auto
    next
      case Eagain
      obtain y s2 t where y: "PollSocket s1 ?T = (y, s2, t)" by (metis prod_cases3)
      have s1: "s1 = s" using sys_recv_again x Eagain by blast
      have ne: "stream s1 \<noteq> []" using more "1.prems"(4) s1 by auto
      note pp = PollSocket_prompt [OF _ ne y]
      show ?thesis
      proof (cases "\<not> fulfill \<and> nread = 0")
        case True
        then show ?thesis
          using "1.prems" more x Eagain pr
          by (auto simp: RecvData_loop.simps [of cfg held requested _ cap deadline _ s])
      next
        case False
        have go: "\<not> (\<not> shutdownsig cfg \<and> deadline < now)" using "1.prems"(3) by simp
        have yy: "y = Ready \<or> y = Interrupted" using pp pr by (cases y) auto
        then have "RecvData_loop cfg held requested fulfill cap deadline nread s now =
            RecvData_loop cfg held requested fulfill cap deadline nread s2 (now + t)"
          using more x Eagain y go False
          by (cases y) (auto simp: RecvData_loop.simps [of cfg held requested fulfill cap deadline nread s])
        then have rec: "RecvData_loop cfg held requested fulfill cap deadline nread s2 (now + t) = (r, got, s', now')"
          using "1.prems" by simp
        have pre: "prompt ?T s2" "(now + t) + total_delay s2 \<le> deadline"
            "requested \<le> held + nread + length (stream s2)" "now + t + total_delay s2 = now + total_delay s"
          using pp pr s1 "1.prems" PollSocket_stream [OF y] by auto
        have "(r = Enough \<or> r = NoData) \<and> prompt ?T s' \<and> now' + total_delay s' \<le> now + t + total_delay s2"
        proof (cases y)
          case Ready
          show ?thesis
            using "1.IH"(2) [OF more x [symmetric] Eagain False go y [symmetric] Ready refl rec pre(1,2,3) "1.prems"(5)]
            by simp
        next
          case Interrupted
          show ?thesis
            using "1.IH"(3) [OF more x [symmetric] Eagain False go y [symmetric] Interrupted refl rec pre(1,2,3) "1.prems"(5)]
            by simp
        qed (use yy in auto)
        then show ?thesis using pre(4) by simp
      qed
    qed (use pr in auto)
  qed
qed

section \<open>What \<open>RecvData\<close> promises\<close>

text \<open>
  A request that succeeds hands out the next bytes of the stream and consumes them; a request that
  finds nothing leaves the stream as it is.
\<close>

lemma RecvData_contract:
  assumes "RecvData cfg c n fulfill = (k, c')" "n > 0"
  shows "k \<in> {-2, -1, 0, int n}"
    and "k = int n \<Longrightarrow> received c' n = take n (pending c) \<and> pending c' = drop n (pending c)
       \<and> recvconsumed c' = n \<and> n \<le> length (recvbuf c') \<and> recvbuf c' @ stream (net c') = pending c"
    and "k = 0 \<Longrightarrow> pending c' = pending c \<and> recvconsumed c' = 0 \<and> \<not> fulfill"
    and "recvbufsize c' = recvbufsize c \<and> dlcommand c' = dlcommand c"
proof -
  define buf where "buf = (if recvconsumed c > 0 then
      (if recvconsumed c < length (recvbuf c) then drop (recvconsumed c) (recvbuf c) else [])
    else recvbuf c)"
  have buf: "buf = drop (recvconsumed c) (recvbuf c)" by (auto simp: buf_def)
  obtain r got s now where l: "RecvData_loop cfg (length buf) n fulfill (recvbufsize c)
      (clock c + netiotimeout cfg * 1000 * 2) 0 (net c) (clock c) = (r, got, s, now)"
    by (metis prod_cases4)
  note st = RecvData_loop_stream [OF l]
  define c1 where "c1 = c\<lparr>recvbuf := buf, recvconsumed := 0, net := s, clock := now\<rparr>"
  have run: "(k, c') =
     (if length (recvbuf c) \<le> recvconsumed c \<and> peek_closed (net c) then (-2, c\<lparr>socketerr := -2\<rparr>)
      else if n > recvbufsize c then (-1, c\<lparr>socketerr := -1\<rparr>)
      else (case r of
                 NoData \<Rightarrow> (0, c1)
               | Timeout \<Rightarrow> (-1, c1\<lparr>socketerr := -1\<rparr>)
               | Failed \<Rightarrow> (-1, c1\<lparr>socketerr := -1\<rparr>)
               | ShutdownTimeout \<Rightarrow> (-2, c1\<lparr>socketerr := -2\<rparr>)
               | PeerClosed \<Rightarrow> (-2, c1\<lparr>socketerr := -2\<rparr>)
               | Enough \<Rightarrow>
                   (int n,
                    (if got \<noteq> [] then c1\<lparr>recvbuf := buf @ got, lastxchange := now,
                                        recvstart := (if recvstart c1 = 0 then now else recvstart c1)\<rparr>
                     else c1)\<lparr>recvconsumed := n\<rparr>)))"
    using assms(1) unfolding RecvData_def Let_def buf_def [symmetric] l prod.case c1_def by simp
  show "k \<in> {-2, -1, 0, int n}" using run by (cases r) (auto split: if_splits)
  show "recvbufsize c' = recvbufsize c \<and> dlcommand c' = dlcommand c"
    using run by (cases r) (auto simp: c1_def split: if_splits)
  show "k = 0 \<Longrightarrow> pending c' = pending c \<and> recvconsumed c' = 0 \<and> \<not> fulfill"
    using run st assms(2) by (cases r) (auto simp: c1_def pending_def buf split: if_splits)
  assume k: "k = int n"
  then have e: "r = Enough" "recvbuf c' = buf @ got" "net c' = s" "recvconsumed c' = n"
    using run assms(2) by (cases r; auto simp: c1_def split: if_splits)+
  have p: "pending c = (buf @ got) @ stream s" using st by (simp add: pending_def buf)
  show "received c' n = take n (pending c) \<and> pending c' = drop n (pending c)
       \<and> recvconsumed c' = n \<and> n \<le> length (recvbuf c') \<and> recvbuf c' @ stream (net c') = pending c"
    unfolding pending_def [of c'] p received_def using e st by simp
qed

lemma RecvData_prompt:
  assumes "RecvData cfg c n fulfill = (k, c')" "n > 0" "n \<le> recvbufsize c" "n \<le> length (pending c)"
    "prompt (netiotimeout cfg * 1000) (net c)" "total_delay (net c) \<le> netiotimeout cfg * 1000 * 2"
  shows "(k = int n \<or> k = 0 \<and> \<not> fulfill) \<and> prompt (netiotimeout cfg * 1000) (net c')
    \<and> total_delay (net c') \<le> netiotimeout cfg * 1000 * 2"
proof -
  define buf where "buf = (if recvconsumed c > 0 then
      (if recvconsumed c < length (recvbuf c) then drop (recvconsumed c) (recvbuf c) else [])
    else recvbuf c)"
  have buf: "buf = drop (recvconsumed c) (recvbuf c)" by (auto simp: buf_def)
  obtain r got s now where l: "RecvData_loop cfg (length buf) n fulfill (recvbufsize c)
      (clock c + netiotimeout cfg * 1000 * 2) 0 (net c) (clock c) = (r, got, s, now)"
    by (metis prod_cases4)
  note st = RecvData_loop_stream [OF l]
  have len: "n \<le> length buf + 0 + length (stream (net c))" using assms(4) by (simp add: pending_def buf)
  have pr: "(r = Enough \<or> r = NoData) \<and> prompt (netiotimeout cfg * 1000) s \<and> now + total_delay s \<le> clock c + total_delay (net c)"
    by (rule RecvData_loop_prompt [OF l assms(5) _ len assms(3)]) (use assms(6) in simp)
  have open': "\<not> peek_closed (net c)"
    using sys_recv_prompt [OF assms(5), of 1] by (cases "sys_recv (net c) 1") (auto simp: peek_closed_def)
  have run: "(r = Enough \<longrightarrow> k = int n) \<and> (r = NoData \<longrightarrow> k = 0) \<and> net c' = s"
    using assms(1,3) open' pr unfolding RecvData_def Let_def buf_def [symmetric] l prod.case
    by (auto split: if_splits)
  have "now \<ge> clock c" using st by simp
  then show ?thesis using run pr st assms(6) by auto
qed

section \<open>DataLink framing\<close>

text \<open>What a client sends: the two letters, the length and the command.\<close>

definition dl_frame :: "byte list \<Rightarrow> byte list" where
  "dl_frame body = 0x44 # 0x4C # of_nat (length body) # body"

lemma frame_length:
  "take 3 (dl_frame b @ rest) = [0x44, 0x4C, of_nat k] \<Longrightarrow> k \<le> 255 \<Longrightarrow> length b \<le> 255 \<Longrightarrow> k = length b"
proof -
  assume "take 3 (dl_frame b @ rest) = [0x44, 0x4C, of_nat k]" "k \<le> 255" "length b \<le> 255"
  then have "unat (of_nat (length b) :: byte) = unat (of_nat k :: byte)" by (simp add: dl_frame_def)
  then show ?thesis using \<open>k \<le> 255\<close> \<open>length b \<le> 255\<close> by (simp add: unat_of_nat)
qed

lemma dl_frame_inject:
  assumes "dl_frame a @ x = dl_frame b @ y" "length a = length b"
  shows "a = b \<and> x = y"
proof -
  have "a @ x = b @ y" using assms(1) by (simp add: dl_frame_def)
  then show ?thesis using assms(2) append_eq_append_conv [of a b x y] by blast
qed

lemma take3: "length b \<ge> 3 \<Longrightarrow> take 3 b = [b ! 0, b ! 1, b ! 2]"
  by (cases b; cases "tl b"; cases "tl (tl b)") (auto simp: numeral_3_eq_3 numeral_2_eq_2)

lemma RecvDLCommand_cases:
  assumes "RecvDLCommand cfg c = (n, c')"
  obtains (short) "RecvData cfg c 3 False = (n, c')" "n \<noteq> 3"
  | (bad) c1 where "RecvData cfg c 3 False = (3, c1)" "n = -1"
      "\<And>k. take 3 (pending c) = [0x44, 0x4C, of_nat k] \<Longrightarrow> 2 \<le> k \<Longrightarrow> k \<le> 255 \<Longrightarrow> False"
  | (body) c1 k where "RecvData cfg c 3 False = (3, c1)" "take 3 (pending c) = [0x44, 0x4C, of_nat k]"
      "2 \<le> k" "k \<le> 255" "RecvData cfg c1 k True = (n, c')" "n \<noteq> int k"
  | (full) c1 c2 k where "RecvData cfg c 3 False = (3, c1)" "take 3 (pending c) = [0x44, 0x4C, of_nat k]"
      "2 \<le> k" "k \<le> 255" "RecvData cfg c1 k True = (int k, c2)" "n = 3 + int k"
      "c' = c2\<lparr>dlcommand := received c2 k\<rparr>"
proof -
  obtain m c1 where r: "RecvData cfg c 3 False = (m, c1)" by (cases "RecvData cfg c 3 False")
  show ?thesis
  proof (cases "m = 3")
    case False
    then show ?thesis using assms r that(1) by (simp add: RecvDLCommand_def)
  next
    case True
    define k where "k = unat (recvbuf c1 ! 2)"
    have k: "k \<le> 255" using unsigned_less [where 'a = nat, of "recvbuf c1 ! 2"] by (simp add: k_def)
    have got: "take 3 (pending c) = take 3 (recvbuf c1)" "3 \<le> length (recvbuf c1)"
      using RecvData_contract(2) [OF r] True by (auto simp: received_def)
    show ?thesis
    proof (cases "recvbuf c1 ! 0 = 0x44 \<and> recvbuf c1 ! 1 = 0x4C \<and> 2 \<le> k")
      case False
      have "\<not> (take 3 (pending c) = [0x44, 0x4C, of_nat j] \<and> 2 \<le> j \<and> j \<le> 255)" for j
        using False got by (auto simp: take3 k_def unat_of_nat)
      moreover have "n = -1" using assms r True False by (auto simp: RecvDLCommand_def k_def Let_def split: if_splits)
      ultimately show ?thesis using that(2) r True by blast
    next
      case ok: True
      have hdr: "take 3 (pending c) = [0x44, 0x4C, of_nat k]"
        using got ok by (simp add: take3 k_def)
      obtain j c2 where r2: "RecvData cfg c1 k True = (j, c2)" by (cases "RecvData cfg c1 k True")
      have run: "(n, c') = (if j \<noteq> int k then (j, c2) else (3 + j, c2\<lparr>dlcommand := received c2 k\<rparr>))"
        using assms True ok r2 unfolding RecvDLCommand_def r k_def Let_def by simp
      have r3: "RecvData cfg c 3 False = (3, c1)" using r True by simp
      show ?thesis
      proof (cases "j = int k")
        case True
        show ?thesis by (rule that(4) [OF r3 hdr _ k]) (use ok run r2 True in auto)
      next
        case False
        show ?thesis by (rule that(3) [OF r3 hdr _ k]) (use ok run r2 False in auto)
      qed
    qed
  qed
qed

lemma RecvDLCommand_full:
  assumes r1: "RecvData cfg c 3 False = (3, c1)" and hdr: "take 3 (pending c) = [0x44, 0x4C, of_nat k]" and k: "2 \<le> k" "k \<le> 255"
    and r2: "RecvData cfg c1 k True = (int k, c2)" and c': "c' = c2\<lparr>dlcommand := received c2 k\<rparr>"
  shows "pending c = dl_frame (dlcommand c') @ pending c'" "length (dlcommand c') = k"
proof -
  have p1: "pending c1 = drop 3 (pending c)" using RecvData_contract(2) [OF r1] by simp
  have "k > 0" using k by simp
  note got = RecvData_contract(2) [OF r2 this refl]
  have "pending c' = pending c2" by (simp add: c' pending_def)
  then have d: "dlcommand c' = take k (pending c1)" "pending c' = drop k (pending c1)"
    using got c' by simp_all
  have "length (recvbuf c2) \<le> length (pending c1)"
    using arg_cong [OF conjunct2 [OF conjunct2 [OF conjunct2 [OF conjunct2 [OF got]]]], of length] by simp
  then have le: "k \<le> length (pending c1)" using got by simp
  then show l: "length (dlcommand c') = k" using d by simp
  have "pending c = take 3 (pending c) @ take k (pending c1) @ drop k (pending c1)"
    by (simp only: append_take_drop_id p1)
  also have "\<dots> = dl_frame (dlcommand c') @ pending c'"
    unfolding hdr dl_frame_def l unfolding d by simp
  finally show "pending c = dl_frame (dlcommand c') @ pending c'" .
qed

lemma RecvDLCommand_got:
  assumes "RecvDLCommand cfg c = (n, c')"
  shows "n > 0 \<Longrightarrow> \<exists>body. pending c = dl_frame body @ pending c' \<and> dlcommand c' = body
      \<and> 2 \<le> length body \<and> length body \<le> 255 \<and> n = 3 + int (length body)"
    and "n = 0 \<Longrightarrow> pending c' = pending c"
proof -
  have "(n > 0 \<longrightarrow> (\<exists>body. pending c = dl_frame body @ pending c' \<and> dlcommand c' = body
      \<and> 2 \<le> length body \<and> length body \<le> 255 \<and> n = 3 + int (length body))) \<and> (n = 0 \<longrightarrow> pending c' = pending c)"
    using assms
  proof (cases rule: RecvDLCommand_cases)
    case short
    have "n \<le> 0" using RecvData_contract(1) [OF short(1)] short(2) by auto
    then show ?thesis using RecvData_contract(3) [OF short(1)] by auto
  next
    case (bad c1)
    then show ?thesis by simp
  next
    case (body c1 k)
    have "n < 0" using RecvData_contract(1,3) [OF body(5)] body(3,6) by auto
    then show ?thesis by simp
  next
    case (full c1 c2 k)
    note w = RecvDLCommand_full [OF full(1-5,7)]
    have "n = 3 + int (length (dlcommand c'))" "2 \<le> length (dlcommand c')" "length (dlcommand c') \<le> 255" "n > 0"
      using full(3,4,6) w(2) by simp_all
    then show ?thesis using w(1) by auto
  qed
  then show "n > 0 \<Longrightarrow> \<exists>body. pending c = dl_frame body @ pending c' \<and> dlcommand c' = body
      \<and> 2 \<le> length body \<and> length body \<le> 255 \<and> n = 3 + int (length body)" "n = 0 \<Longrightarrow> pending c' = pending c" by blast+
qed

lemma RecvDLCommand_prompt:
  assumes "RecvDLCommand cfg c = (n, c')" "pending c = dl_frame b @ rest" "2 \<le> length b" "length b \<le> 255"
    "255 \<le> recvbufsize c" "prompt (netiotimeout cfg * 1000) (net c)" "total_delay (net c) \<le> netiotimeout cfg * 1000 * 2"
  shows "n = 0 \<or> n = 3 + int (length b) \<and> dlcommand c' = b \<and> pending c' = rest"
  using assms(1)
proof (cases rule: RecvDLCommand_cases)
  case short
  then show ?thesis using RecvData_prompt [OF short(1)] assms(2,5-7) by (auto simp: dl_frame_def)
next
  case (bad c1)
  have "take 3 (pending c) = [0x44, 0x4C, of_nat (length b)]" by (simp add: assms(2) dl_frame_def)
  then show ?thesis using bad(3) assms(3,4) by blast
next
  case (body c1 k)
  note r = RecvData_contract [OF body(1)]
  have kb: "k = length b" using body(2,4) assms(2,4) frame_length by simp
  have "pending c1 = b @ rest" "b \<noteq> []" using r(2) assms(2,3) by (auto simp: dl_frame_def)
  then show ?thesis
    using RecvData_prompt [OF body(5)] RecvData_prompt [OF body(1)] r(4) assms(2-7) body(3,6) kb by (auto simp: dl_frame_def)
next
  case (full c1 c2 k)
  note w = RecvDLCommand_full [OF full(1-5,7)]
  have kb: "k = length b" by (rule frame_length [OF full(2) [unfolded assms(2)] full(4) assms(4)])
  have "dl_frame (dlcommand c') @ pending c' = dl_frame b @ rest" using w(1) assms(2) by (rule trans [OF sym])
  then have "dlcommand c' = b \<and> pending c' = rest" by (rule dl_frame_inject) (simp add: w(2) kb)
  then show ?thesis using full(6) kb by blast
qed

text \<open>
  C18: on any connection, a command that \<open>RecvDLCommand\<close> returns is the body of the frame that heads
  the received byte stream, whatever the pieces in which it arrived, and exactly the frame is
  consumed; when it returns 0 nothing is consumed.  If the frame arrives in time, it is returned
  unless nothing of it could be read yet.
\<close>

theorem RecvDLCommand_framing:
  assumes "RecvDLCommand cfg c = (n, c')"
  shows "(n > 0 \<longrightarrow> (\<exists>body. pending c = dl_frame body @ pending c' \<and> dlcommand c' = body
      \<and> 2 \<le> length body \<and> length body \<le> 255 \<and> n = 3 + int (length body))) \<and>
    (n = 0 \<longrightarrow> pending c' = pending c) \<and>
    (\<forall>body rest. pending c = dl_frame body @ rest \<and> 2 \<le> length body \<and> length body \<le> 255
      \<and> 255 \<le> recvbufsize c \<and> prompt (netiotimeout cfg * 1000) (net c)
      \<and> total_delay (net c) \<le> netiotimeout cfg * 1000 * 2
      \<longrightarrow> n = 0 \<or> dlcommand c' = body \<and> pending c' = rest)"
  using RecvDLCommand_got [OF assms] RecvDLCommand_prompt [OF assms] by blast

definition demo_recv :: ClientRecvInfo where
  "demo_recv = \<lparr>net = [(0, Bytes [0x44]), (7, Signal), (3, Bytes [0x4C, 2, 0x49]), (20, Bytes [0x44, 0x44, 0x4C])],
     clock = 0, socketerr = 0, recvbuf = [], recvbufsize = 512, recvconsumed = 0, recvstart = 0,
     lastxchange = 0, dlcommand = []\<rparr>"
definition demo_io :: io_config where "demo_io = \<lparr>netiotimeout = 10, shutdownsig = False\<rparr>"

lemmas recv_eval = sys_recv_def PollSocket_def peek_closed_def received_def Let_def

lemma demo_first:
  "RecvData_loop demo_io 0 3 False 512 20000 0 (net demo_recv) 0 =
     (Enough, [0x44, 0x4C, 2, 0x49], [(20, Bytes [0x44, 0x44, 0x4C])], 10)"
  by (simp add: demo_recv_def demo_io_def)
    (subst RecvData_loop.simps, simp add: recv_eval)+

lemma demo_second:
  "RecvData_loop demo_io 1 2 True 512 20010 0 [(20, Bytes [0x44, 0x44, 0x4C])] 10 =
     (Enough, [0x44, 0x44, 0x4C], [], 30)"
  by (simp add: demo_io_def) (subst RecvData_loop.simps, simp add: recv_eval)+

theorem RecvDLCommand_framing_witness:
  "\<exists>c'. RecvDLCommand demo_io demo_recv = (5, c') \<and> dlcommand c' = [0x49, 0x44] \<and> pending c' = [0x44, 0x4C]"
proof -
  obtain n c' where r: "RecvDLCommand demo_io demo_recv = (n, c')" by (cases "RecvDLCommand demo_io demo_recv")
  have io: "netiotimeout demo_io = 10" by (simp add: demo_io_def)
  have n: "n = 5"
    using r demo_first demo_second
    by (simp add: demo_recv_def RecvDLCommand_def RecvData_def io recv_eval)
  have "pending demo_recv = dl_frame [0x49, 0x44] @ [0x44, 0x4C]"
    by (simp add: demo_recv_def pending_def dl_frame_def)
  moreover have "255 \<le> recvbufsize demo_recv" "prompt (netiotimeout demo_io * 1000) (net demo_recv)"
      "total_delay (net demo_recv) \<le> netiotimeout demo_io * 1000 * 2"
    by (simp_all add: demo_recv_def io)
  ultimately have "n = 0 \<or> dlcommand c' = [0x49, 0x44] \<and> pending c' = [0x44, 0x4C]"
    using RecvDLCommand_framing [OF r] by auto
  then show ?thesis using r n by simp
qed

section \<open>Lines\<close>

text \<open>The terminators that end one line: one, or two different ones.\<close>

definition line_end :: "byte list \<Rightarrow> bool" where
  "line_end t \<longleftrightarrow> t = [0x0A] \<or> t = [0x0D] \<or> t = [0x0D, 0x0A] \<or> t = [0x0A, 0x0D]"

lemma memchr_None: "memchr b x = None \<longleftrightarrow> x \<notin> set b"
  by (induction b) (auto simp: memchr_def Let_def)

lemma memchr_Some:
  assumes "memchr b x = Some n"
  shows "n < length b \<and> b ! n = x \<and> x \<notin> set (take n b)"
proof -
  have n: "n = length (takeWhile (\<lambda>y. y \<noteq> x) b)" "n < length b"
    using assms by (auto simp: memchr_def Let_def split: if_splits)
  have "b ! n = x" using nth_length_takeWhile [of "\<lambda>y. y \<noteq> x" b] n by simp
  moreover have "take n b = takeWhile (\<lambda>y. y \<noteq> x) b" unfolding n(1) by (rule takeWhile_eq_take [symmetric])
  then have "x \<notin> set (take n b)" by (auto dest: set_takeWhileD)
  ultimately show ?thesis using n by simp
qed

text \<open>Splitting a buffer at its first terminator.\<close>

lemma take_line_split:
  assumes "cr = memchr (recvbuf c) 0x0D" "nl = memchr (recvbuf c) 0x0A" "\<not> (cr = None \<and> nl = None)"
    "take_line c cr nl = (n, c')"
  shows "\<exists>line t. recvbuf c = line @ t @ drop (recvconsumed c') (recvbuf c') \<and> line_end t
    \<and> (\<forall>b \<in> set line. \<not> is_term b) \<and> n = int (length line) \<and> take (length line) (recvbuf c') = line
    \<and> recvbuf c' ! length line = 0 \<and> net c' = net c"
proof -
  define f where "f = (case (nl, cr) of (Some n, Some r) \<Rightarrow> min n r | (Some n, None) \<Rightarrow> n | (_, r) \<Rightarrow> the r)"
  define l0 where "l0 = (case (nl, cr) of (Some n, Some r) \<Rightarrow> max n r | (Some n, None) \<Rightarrow> n | (_, r) \<Rightarrow> the r)"
  define l where "l = (if f \<noteq> l0 \<and> f + 1 \<noteq> l0 then f else l0)"
  have "take_line c cr nl = (int f, c\<lparr>recvconsumed := l + 1, recvbuf := (recvbuf c)[f := 0]\<rparr>)"
    unfolding take_line_def Let_def f_def l0_def l_def by (rule refl)
  then have res: "n = int f" "c' = c\<lparr>recvconsumed := l + 1, recvbuf := (recvbuf c)[f := 0]\<rparr>"
    using assms(4) by (simp_all add: eq_commute)
  have cr1: "b < length (recvbuf c) \<and> recvbuf c ! b = 0x0D \<and> 0x0D \<notin> set (take b (recvbuf c))"
    if "cr = Some b" for b
    using memchr_Some [of "recvbuf c" "0x0D" b] assms(1) that by simp
  have nl1: "b < length (recvbuf c) \<and> recvbuf c ! b = 0x0A \<and> 0x0A \<notin> set (take b (recvbuf c))"
    if "nl = Some b" for b
    using memchr_Some [of "recvbuf c" "0x0A" b] assms(2) that by simp
  have none: "cr = None \<Longrightarrow> 0x0D \<notin> set (recvbuf c)" "nl = None \<Longrightarrow> 0x0A \<notin> set (recvbuf c)"
    using memchr_None [of "recvbuf c"] assms(1,2) by auto
  have fl: "f < length (recvbuf c) \<and> (recvbuf c ! f = 0x0A \<or> recvbuf c ! f = 0x0D)
      \<and> 0x0A \<notin> set (take f (recvbuf c)) \<and> 0x0D \<notin> set (take f (recvbuf c))
      \<and> (l0 = f \<or> f < l0 \<and> l0 < length (recvbuf c) \<and> recvbuf c ! l0 \<noteq> recvbuf c ! f
           \<and> (recvbuf c ! l0 = 0x0A \<or> recvbuf c ! l0 = 0x0D))"
  proof (cases nl; cases cr)
    fix a b assume ab: "nl = Some a" "cr = Some b"
    then have "a \<noteq> b" using cr1 nl1 by fastforce
    then consider "a < b" | "b < a" by linarith
    then show ?thesis
    proof cases
      case 1
      have "take a (recvbuf c) = take a (take b (recvbuf c))" using 1 by simp
      then have "0x0D \<notin> set (take a (recvbuf c))" using cr1 [OF ab(2)] by (metis in_set_takeD)
      then show ?thesis using 1 ab cr1 [OF ab(2)] nl1 [OF ab(1)] by (simp add: f_def l0_def)
    next
      case 2
      have "take b (recvbuf c) = take b (take a (recvbuf c))" using 2 by simp
      then have "0x0A \<notin> set (take b (recvbuf c))" using nl1 [OF ab(1)] by (metis in_set_takeD)
      then show ?thesis using 2 ab cr1 [OF ab(2)] nl1 [OF ab(1)] by (simp add: f_def l0_def)
    qed
  next
    fix a assume a: "nl = Some a" "cr = None"
    then have "0x0D \<notin> set (take a (recvbuf c))" using none by (meson in_set_takeD)
    then show ?thesis using a nl1 [OF a(1)] by (simp add: f_def l0_def)
  next
    fix a assume a: "nl = None" "cr = Some a"
    then have "0x0A \<notin> set (take a (recvbuf c))" using none by (meson in_set_takeD)
    then show ?thesis using a cr1 [OF a(2)] by (simp add: f_def l0_def)
  qed (use assms(3) in simp)
  define line where "line = take f (recvbuf c)"
  have line: "length line = f" "\<forall>b \<in> set line. \<not> is_term b" "take f (recvbuf c') = line" "recvbuf c' ! f = 0"
    using fl res(2) by (auto simp: line_def is_term_def)
  have rest: "drop (recvconsumed c') (recvbuf c') = drop (l + 1) (recvbuf c)"
    using fl by (simp add: res(2) l_def)
  have t: "line_end (take (l + 1 - f) (drop f (recvbuf c))) \<and> f \<le> l"
  proof (cases "l = f")
    case True
    then have "take (l + 1 - f) (drop f (recvbuf c)) = [recvbuf c ! f]"
      using fl by (simp add: take_Suc_conv_app_nth)
    then show ?thesis using fl True by (auto simp: line_end_def)
  next
    case False
    then have l: "l = f + 1" "l0 = f + 1" by (auto simp: l_def split: if_splits)
    then have "take (l + 1 - f) (drop f (recvbuf c)) = [recvbuf c ! f, recvbuf c ! (f + 1)]"
      using fl by (simp add: numeral_2_eq_2 flip: Cons_nth_drop_Suc)
    then show ?thesis using fl l by (auto simp: line_end_def)
  qed
  have "recvbuf c = line @ take (l + 1 - f) (drop f (recvbuf c)) @ drop (l + 1) (recvbuf c)"
  proof -
    have "drop (l + 1) (recvbuf c) = drop (l + 1 - f) (drop f (recvbuf c))" using t by simp
    then show ?thesis unfolding line_def by (simp only: append_take_drop_id)
  qed
  then show ?thesis using rest line t res by (intro exI [of _ line] exI) auto
qed

text \<open>What a search through the buffer leaves of the stream.\<close>

definition line_found :: "byte list \<Rightarrow> int \<Rightarrow> 'a ClientRecvInfo_scheme \<Rightarrow> bool" where
  "line_found s n c' \<longleftrightarrow> (\<exists>line t. s = line @ t @ pending c' \<and> line_end t \<and> (\<forall>b \<in> set line. \<not> is_term b)
     \<and> n = int (length line) \<and> take (length line) (recvbuf c') = line \<and> recvbuf c' ! length line = 0)"

lemma take_line_found:
  assumes "\<not> (memchr (recvbuf c) 0x0D = None \<and> memchr (recvbuf c) 0x0A = None)"
    "take_line c (memchr (recvbuf c) 0x0D) (memchr (recvbuf c) 0x0A) = (n, c')"
  shows "line_found (recvbuf c @ stream (net c)) n c'"
  using take_line_split [OF refl refl assms] unfolding line_found_def pending_def by fastforce

lemma RecvLine_search_now:
  assumes "\<not> (memchr (recvbuf c) 0x0D = None \<and> memchr (recvbuf c) 0x0A = None)"
  shows "RecvLine_search cfg c = take_line c (memchr (recvbuf c) 0x0D) (memchr (recvbuf c) 0x0A)"
  unfolding RecvLine_search_def Let_def by (simp only: assms if_False)

lemma RecvLine_search_cases:
  assumes "RecvLine_search cfg c = (n, c')" "recvbuf c \<noteq> []"
  shows "n < 0 \<or> line_found (recvbuf c @ stream (net c)) n c' \<or> n = 0 \<and> pending c' = recvbuf c @ stream (net c)"
proof (cases "memchr (recvbuf c) 0x0D = None \<and> memchr (recvbuf c) 0x0A = None")
  case False
  then have "take_line c (memchr (recvbuf c) 0x0D) (memchr (recvbuf c) 0x0A) = (n, c')"
    using assms(1) RecvLine_search_now [of c cfg] by simp
  then show ?thesis using take_line_found False by blast
next
  case True
  obtain k c2 where r: "RecvData cfg (c\<lparr>recvconsumed := 0\<rparr>) (length (recvbuf c) + 1) False = (k, c2)"
    by (cases "RecvData cfg (c\<lparr>recvconsumed := 0\<rparr>) (length (recvbuf c) + 1) False")
  note co = RecvData_contract [OF r]
  have p: "pending (c\<lparr>recvconsumed := 0\<rparr>) = recvbuf c @ stream (net c)" by (simp add: pending_def)
  have run: "n < 0 \<or> (n, c') = (if k \<le> 0 then (k, c2)
      else if memchr (recvbuf c2) 0x0D = None \<and> memchr (recvbuf c2) 0x0A = None then (0, c2\<lparr>recvconsumed := 0\<rparr>)
      else take_line c2 (memchr (recvbuf c2) 0x0D) (memchr (recvbuf c2) 0x0A))"
    using assms(1) True r unfolding RecvLine_search_def Let_def by (auto split: if_splits)
  show ?thesis
  proof (cases "n < 0 \<or> k \<le> 0")
    case True
    then show ?thesis using run co(1,3) p by fastforce
  next
    case False
    then have whole: "recvbuf c2 @ stream (net c2) = recvbuf c @ stream (net c)"
      using co(1,2) p by auto
    show ?thesis
    proof (cases "memchr (recvbuf c2) 0x0D = None \<and> memchr (recvbuf c2) 0x0A = None")
      case True
      then show ?thesis using run False whole by (auto simp: pending_def)
    next
      case found: False
      then have "take_line c2 (memchr (recvbuf c2) 0x0D) (memchr (recvbuf c2) 0x0A) = (n, c')"
        using run False by (simp only: found if_False) simp
      then show ?thesis using take_line_found [OF found] whole by simp
    qed
  qed
qed

text \<open>The start of \<open>RecvLine\<close>: the terminators in front are dropped, nothing else.\<close>

lemma RecvLine_cases:
  assumes "RecvLine cfg c = (n, c')"
  obtains (err) "n < 0"
  | (idle) skip where "n = 0" "pending c = skip @ pending c'" "\<forall>b \<in> set skip. is_term b" "length skip < 10"
  | (search) skip c1 where "RecvLine_search cfg c1 = (n, c')" "recvbuf c1 \<noteq> []"
      "pending c = skip @ recvbuf c1 @ stream (net c1)" "\<forall>b \<in> set skip. is_term b" "length skip < 10"
proof -
  obtain k c1 where r: "RecvData cfg c 1 False = (k, c1)" by (cases "RecvData cfg c 1 False")
  note co = RecvData_contract [OF r, simplified]
  define skip where "skip = takeWhile is_term (recvbuf c1)"
  have sk: "recvbuf c1 = skip @ drop (length skip) (recvbuf c1)" "\<forall>b \<in> set skip. is_term b"
    unfolding skip_def by (metis append_take_drop_id takeWhile_eq_take) (meson set_takeWhileD)
  have run: "(n, c') = (if k \<le> 0 then (k, c1) else if length skip \<ge> 10 then (-1, c1\<lparr>socketerr := -1\<rparr>)
      else if length skip > 0 then
        (case RecvData cfg (c1\<lparr>recvconsumed := length skip\<rparr>) 1 False of (j, c2) \<Rightarrow>
             if j \<le> 0 then (j, c2) else RecvLine_search cfg c2)
      else RecvLine_search cfg c1)"
    unfolding assms [symmetric] RecvLine_def r prod.case Let_def skip_def by (rule refl)
  consider "k < 0" | "k = 0" | "k = 1" using co(1) by fastforce
  then show ?thesis
  proof cases
    case 1
    then show ?thesis using run that(1) by simp
  next
    case 2
    then show ?thesis using run co(3) that(2) [of "[]"] by simp
  next
    case 3
    then have p: "pending c = recvbuf c1 @ stream (net c1)" "recvbuf c1 \<noteq> []" using co(2) by auto
    show ?thesis
    proof (cases "length skip \<ge> 10")
      case True
      then show ?thesis using run 3 that(1) by simp
    next
      case few: False
      show ?thesis
      proof (cases "skip = []")
        case True
        show ?thesis by (rule that(3) [of c1 "[]"]) (use run True 3 p in auto)
      next
        case False
        obtain j c2 where r2: "RecvData cfg (c1\<lparr>recvconsumed := length skip\<rparr>) 1 False = (j, c2)"
          by (cases "RecvData cfg (c1\<lparr>recvconsumed := length skip\<rparr>) 1 False")
        note co2 = RecvData_contract [OF r2, simplified]
        have run2: "(n, c') = (if j \<le> 0 then (j, c2) else RecvLine_search cfg c2)"
          using run few False 3 r2 by simp
        have q: "pending c = skip @ pending (c1\<lparr>recvconsumed := length skip\<rparr>)"
          using sk(1) p(1) by (simp add: pending_def)
        consider "j < 0" | "j = 0" | "j = 1" using co2(1) by fastforce
        then show ?thesis
        proof cases
          case 1
          then show ?thesis using run2 that(1) by simp
        next
          case 2
          show ?thesis by (rule that(2) [of skip]) (use run2 2 co2(3) q sk(2) few in auto)
        next
          case j: 3
          show ?thesis by (rule that(3) [of c2 skip]) (use run2 j co2(2) q sk(2) few in auto)
        qed
      qed
    qed
  qed
qed

text \<open>A buffer that already holds a whole line needs no socket.\<close>

lemma RecvData_buffered:
  assumes "recvconsumed c < length (recvbuf c)" "1 \<le> recvbufsize c"
  shows "RecvData cfg c 1 False =
    (1, c\<lparr>recvbuf := drop (recvconsumed c) (recvbuf c), recvconsumed := 1\<rparr>)"
  using assms by (auto simp: RecvData_def RecvData_loop.simps Let_def)

lemma first_term_unique:
  assumes "a @ x # r = b @ y # s" "\<forall>z \<in> set a. \<not> is_term z" "\<forall>z \<in> set b. \<not> is_term z" "is_term x" "is_term y"
  shows "a = b"
proof -
  have w: "takeWhile (\<lambda>z. \<not> is_term z) (l @ z # u) = l" if "\<forall>z \<in> set l. \<not> is_term z" "is_term z" for l z u
    using that by (induction l) auto
  show ?thesis using w [OF assms(2,4)] w [OF assms(3,5)] assms(1) by metis
qed

lemma RecvLine_buffered:
  assumes "RecvLine cfg c = (n, c')"
    and a: "drop (recvconsumed c) (recvbuf c) = line @ x # rest \<and> line \<noteq> [] \<and> is_term x
      \<and> (\<forall>b \<in> set line. \<not> is_term b) \<and> 1 \<le> recvbufsize c"
  shows "n = int (length line) \<and> take (length line) (recvbuf c') = line"
proof -
  from a have "recvconsumed c < length (recvbuf c)" by (metis append_is_Nil_conv drop_eq_Nil2 linorder_not_less)
  then have r: "RecvData cfg c 1 False = (1, c\<lparr>recvbuf := line @ x # rest, recvconsumed := 1\<rparr>)"
    using RecvData_buffered [of c cfg] a by simp
  let ?c = "c\<lparr>recvbuf := line @ x # rest, recvconsumed := 1\<rparr>"
  have m: "\<not> (memchr (recvbuf ?c) 0x0D = None \<and> memchr (recvbuf ?c) 0x0A = None)"
    using a by (auto simp: memchr_None is_term_def)
  have "takeWhile is_term (line @ x # rest) = []" using a by (cases line) auto
  then have "take_line ?c (memchr (recvbuf ?c) 0x0D) (memchr (recvbuf ?c) 0x0A) = (n, c')"
    using assms unfolding RecvLine_def r RecvLine_search_now [OF m, of cfg, symmetric] by simp
  from take_line_split [OF refl refl m this]
  obtain l t where l: "line @ x # rest = l @ t @ drop (recvconsumed c') (recvbuf c')" "line_end t"
      "\<forall>b \<in> set l. \<not> is_term b" "n = int (length l)" "take (length l) (recvbuf c') = l" by auto
  obtain y t' where t: "t = y # t'" "is_term y" using l(2) by (auto simp: line_end_def is_term_def)
  have "line = l" by (rule first_term_unique [of line x rest l y "t' @ drop (recvconsumed c') (recvbuf c')"])
    (use a l t in auto)
  then show ?thesis using l by simp
qed

text \<open>
  What \<open>RecvLine\<close> does to the byte stream on any connection.  A line it returns is the text
  between at most nine leading terminators, which it drops, and its terminator, CR, LF, or the two
  in either order, and it stands NUL-terminated in front of the receive buffer; when it returns 0,
  no text has been dropped.  A line that is wholly in the buffer is returned at once.
\<close>

theorem RecvLine_lines:
  assumes "RecvLine cfg c = (n, c')"
  shows "(n > 0 \<longrightarrow> (\<exists>skip line t. pending c = skip @ line @ t @ pending c' \<and> (\<forall>b \<in> set skip. is_term b)
      \<and> length skip < 10 \<and> line_end t \<and> (\<forall>b \<in> set line. \<not> is_term b) \<and> n = int (length line)
      \<and> take (length line) (recvbuf c') = line \<and> recvbuf c' ! length line = 0)) \<and>
    (n = 0 \<longrightarrow> (\<exists>skip. pending c = skip @ pending c' \<and> (\<forall>b \<in> set skip. is_term b) \<and> length skip < 12)) \<and>
    (\<forall>line x rest. drop (recvconsumed c) (recvbuf c) = line @ x # rest \<and> line \<noteq> [] \<and> is_term x
      \<and> (\<forall>b \<in> set line. \<not> is_term b) \<and> 1 \<le> recvbufsize c
      \<longrightarrow> n = int (length line) \<and> take (length line) (recvbuf c') = line)"
proof (intro conjI)
  show "n > 0 \<longrightarrow> (\<exists>skip line t. pending c = skip @ line @ t @ pending c' \<and> (\<forall>b \<in> set skip. is_term b)
      \<and> length skip < 10 \<and> line_end t \<and> (\<forall>b \<in> set line. \<not> is_term b) \<and> n = int (length line)
      \<and> take (length line) (recvbuf c') = line \<and> recvbuf c' ! length line = 0)"
    using assms
  proof (cases rule: RecvLine_cases)
    case (search skip c1)
    then show ?thesis using RecvLine_search_cases [OF search(1,2)] unfolding line_found_def by fastforce
  qed auto
next
  show "n = 0 \<longrightarrow> (\<exists>skip. pending c = skip @ pending c' \<and> (\<forall>b \<in> set skip. is_term b) \<and> length skip < 12)"
    using assms
  proof (cases rule: RecvLine_cases)
    case (search skip c1)
    then show ?thesis using RecvLine_search_cases [OF search(1,2)]
      by (intro impI) (elim disjE; force simp: line_found_def line_end_def is_term_def)
  qed (auto intro!: exI)
next
  show "\<forall>line x rest. drop (recvconsumed c) (recvbuf c) = line @ x # rest \<and> line \<noteq> [] \<and> is_term x
      \<and> (\<forall>b \<in> set line. \<not> is_term b) \<and> 1 \<le> recvbufsize c
      \<longrightarrow> n = int (length line) \<and> take (length line) (recvbuf c') = line"
    using RecvLine_buffered [OF assms] by blast
qed

definition demo_line :: ClientRecvInfo where
  "demo_line = demo_recv\<lparr>net := [], recvbuf := [0x48, 0x49, 0x0D, 0x0A, 0x42], recvconsumed := 0\<rparr>"

theorem RecvLine_lines_witness:
  "\<exists>c'. RecvLine demo_io demo_line = (2, c') \<and> pending c' = [0x42] \<and> take 2 (recvbuf c') = [0x48, 0x49]"
proof -
  obtain n c' where r: "RecvLine demo_io demo_line = (n, c')" by (cases "RecvLine demo_io demo_line")
  note th = RecvLine_lines [OF r]
  have "drop (recvconsumed demo_line) (recvbuf demo_line) = [0x48, 0x49] @ 0x0D # [0x0A, 0x42]
      \<and> [0x48, 0x49] \<noteq> ([] :: byte list) \<and> is_term 0x0D \<and> (\<forall>b \<in> set [0x48, 0x49]. \<not> is_term b) \<and> 1 \<le> recvbufsize demo_line"
    by (simp add: demo_line_def demo_recv_def is_term_def)
  from th [THEN conjunct2, THEN conjunct2, rule_format, OF this]
  have 1: "n = 2 \<and> take 2 (recvbuf c') = [0x48, 0x49]" by (simp add: numeral_2_eq_2)
  have b: "RecvData demo_io demo_line 1 False = (1, demo_line\<lparr>recvconsumed := 1\<rparr>)"
    using RecvData_buffered [of demo_line demo_io] by (simp add: demo_line_def demo_recv_def)
  have buf: "recvbuf demo_line = [0x48, 0x49, 0x0D, 0x0A, 0x42]" by (simp add: demo_line_def)
  have m: "memchr (recvbuf demo_line) 0x0D = Some 2" "memchr (recvbuf demo_line) 0x0A = Some 3"
    by (simp_all add: buf memchr_def Let_def)
  have "RecvLine demo_io demo_line = take_line (demo_line\<lparr>recvconsumed := 1\<rparr>) (Some 2) (Some 3)"
    using RecvLine_search_now [of "demo_line\<lparr>recvconsumed := 1\<rparr>" demo_io] m
    unfolding RecvLine_def b by (simp add: buf is_term_def)
  then have "c' = demo_line\<lparr>recvbuf := [0x48, 0x49, 0, 0x0A, 0x42], recvconsumed := 4\<rparr>"
    using r by (simp add: take_line_def buf list_update_code numeral_2_eq_2)
  then have "pending c' = [0x42]" by (simp add: pending_def demo_line_def demo_recv_def)
  then show ?thesis using 1 r by blast
qed

end
