(* ===== verification/RS_Send.thy ===== *)
theory RS_Send
  imports RS_Clients
begin

text \<open>
  The sending side of a client connection, \<open>SendDataMB\<close> and \<open>SendData\<close> of
  \<open>ringserver-4/src/clients.c\<close> for connections without TLS: the gathering of several buffers into
  one \<open>writev\<close>, partial writes, and the frame header that a WebSocket connection gets.
\<close>

section \<open>The sending socket\<close>

text \<open>
  The answers of the socket to the calls of \<open>writev\<close>, in order: it takes up to so many bytes; it
  would block, with what the following \<open>poll\<close> returns and the milliseconds it takes; the peer is
  gone (\<open>EPIPE\<close>, \<open>ECONNRESET\<close>); another error.  After the end of the list nothing is taken any
  more.  \<open>wire\<close> is what the socket has taken so far.
\<close>

datatype send_event = Room nat | WouldBlock poll_res nat | SendClosed | SendFailed

record ClientSendInfo = ClientRecvInfo +
  outq :: "send_event list"
  wire :: "byte list"
  websocket :: bool

section \<open>The frame header\<close>

definition be_bytes :: "nat \<Rightarrow> nat \<Rightarrow> byte list" where
  "be_bytes k n = map (\<lambda>i. of_nat (n div 256 ^ (k - 1 - i))) [0..<k]"

definition wsframe :: "nat \<Rightarrow> byte list option" where
  "wsframe totalbuflen =
     (if totalbuflen < 126 then Some [0x82, of_nat totalbuflen]
      else if totalbuflen \<le> 65535 then Some (0x82 # 126 # be_bytes 2 totalbuflen)
      else if totalbuflen < 2 ^ 64 - 1 then Some (0x82 # 127 # be_bytes 8 totalbuflen)
      else None)"

section \<open>The loop over \<open>writev\<close>\<close>

text \<open>The buffers that remain after \<open>rem\<close> bytes have been taken.\<close>

fun iov_advance :: "byte list list \<Rightarrow> nat \<Rightarrow> byte list list" where
  "iov_advance [] rem = []"
| "iov_advance (b # bs) rem = (if rem \<ge> length b then iov_advance bs (rem - length b) else drop rem b # bs)"

text \<open>How the loop is left: with a value of \<open>nsent\<close>, or through one of its returns.\<close>

datatype send_end = SentTo int | Hangup | SendTimeout | SendShutdown | SendPollError

text \<open>The \<open>ssize_t\<close> result of \<open>writev\<close> converted to \<open>int\<close>.\<close>

definition as_int :: "nat \<Rightarrow> int" where "as_int n = sint (of_nat n :: u32)"

fun SendDataMB_loop ::
  "io_config \<Rightarrow> nat \<Rightarrow> nat \<Rightarrow> byte list list \<Rightarrow> send_event list \<Rightarrow> nat \<Rightarrow> int
   \<Rightarrow> send_end \<times> byte list \<times> send_event list \<times> nat" where
  "SendDataMB_loop cfg totalbuflen total_written iov [] now nsent =
     (if total_written \<ge> totalbuflen then (SentTo nsent, [], [], now)
      else (if shutdownsig cfg then SendShutdown else SendTimeout, [], [], now + netiotimeout cfg * 1000))"
| "SendDataMB_loop cfg totalbuflen total_written iov (e # evs) now nsent =
     (if total_written \<ge> totalbuflen then (SentTo nsent, [], e # evs, now)
      else (case e of
          Room n \<Rightarrow>
            (let wv = min n (length (concat iov))
             in if wv > 0 then
                  (case SendDataMB_loop cfg totalbuflen (total_written + wv) (iov_advance iov wv) evs now (as_int wv) of
                     (r, out, q) \<Rightarrow> (r, take wv (concat iov) @ out, q))
                else (SentTo 0, [], evs, now))
        | WouldBlock p t \<Rightarrow>
            (case p of
               Expired \<Rightarrow> (if shutdownsig cfg then SendShutdown else SendTimeout, [], evs, now + t)
             | PollFailed \<Rightarrow> (SendPollError, [], evs, now + t)
             | _ \<Rightarrow> SendDataMB_loop cfg totalbuflen total_written iov evs (now + t) 1)
        | SendClosed \<Rightarrow> (Hangup, [], evs, now)
        | SendFailed \<Rightarrow> (SentTo (-1), [], evs, now)))"

section \<open>\<open>SendDataMB\<close>\<close>

definition MAX_REPLACEMENT_LIST_LENGTH :: nat where "MAX_REPLACEMENT_LIST_LENGTH = 10"

text \<open>
  \<open>nsent0\<close> is the indeterminate value of \<open>nsent\<close>, which is read without having been set when there
  is nothing to send.  The buffers fit the array on the stack: no caller has more than three.
\<close>

definition SendDataMB ::
  "io_config \<Rightarrow> int \<Rightarrow> 'a ClientSendInfo_scheme \<Rightarrow> byte list list \<Rightarrow> bool \<Rightarrow> int \<times> 'a ClientSendInfo_scheme" where
  "SendDataMB cfg nsent0 c buffer no_wsframe =
     (if buffer = [] then (0, c)
      else (let totalbuflen = length (concat buffer);
                framed = (websocket c \<and> \<not> no_wsframe);
                frame = (if framed then wsframe totalbuflen else Some [])
            in case frame of
                 None \<Rightarrow> (-1, c)
               | Some h \<Rightarrow>
                   if framed \<and> length buffer \<ge> MAX_REPLACEMENT_LIST_LENGTH then (-1, c)
                   else (let iov = (if framed then h # buffer else buffer);
                             (r, out, evs, now) = SendDataMB_loop cfg totalbuflen 0 iov (outq c) (clock c) nsent0;
                             c1 = c\<lparr>wire := wire c @ out, outq := evs, clock := now\<rparr>
                         in (case r of
                               SendTimeout \<Rightarrow> (-1, c1\<lparr>socketerr := -1\<rparr>)
                             | SendShutdown \<Rightarrow> (-2, c1\<lparr>socketerr := -2\<rparr>)
                             | SendPollError \<Rightarrow> (-1, c1\<lparr>socketerr := -1\<rparr>)
                             | Hangup \<Rightarrow> (-2, c1\<lparr>socketerr := -2\<rparr>)
                             | SentTo nsent \<Rightarrow>
                                 (if nsent = 0 then (-1, c1\<lparr>socketerr := -1\<rparr>)
                                  else if nsent < 0 then (-1, c1\<lparr>socketerr := -1\<rparr>)
                                  else (0, c1\<lparr>lastxchange := now\<rparr>))))))"

definition SendData ::
  "io_config \<Rightarrow> int \<Rightarrow> 'a ClientSendInfo_scheme \<Rightarrow> byte list \<Rightarrow> bool \<Rightarrow> int \<times> 'a ClientSendInfo_scheme" where
  "SendData cfg nsent0 c buffer no_wsframe = SendDataMB cfg nsent0 c [buffer] no_wsframe"

section \<open>What is sent\<close>

lemma iov_advance_concat: "concat (iov_advance iov n) = drop n (concat iov)"
  by (induction iov n rule: iov_advance.induct) (simp_all add: drop_append)

lemma SendDataMB_loop_prefix:
  assumes "SendDataMB_loop cfg tot done_n iov evs now nsent = (r, out, evs', now')"
  shows "(\<exists>rest. concat iov = out @ rest) \<and> now \<le> now'
    \<and> (\<forall>x. r = SentTo x \<longrightarrow> x > 0 \<longrightarrow> tot \<le> done_n + length out)"
  using assms
proof (induction cfg tot done_n iov evs now nsent arbitrary: r out evs' now' rule: SendDataMB_loop.induct)
  case (1 cfg tot done_n iov now nsent)
  then show ?case by (auto split: if_splits)
next
  case (2 cfg tot done_n iov e evs now nsent)
  show ?case
  proof (cases "done_n \<ge> tot")
    case True
    then show ?thesis using "2.prems" by simp
  next
    case more: False
    show ?thesis
    proof (cases e)
      case (Room n)
      define wv where "wv = min n (length (concat iov))"
      show ?thesis
      proof (cases "wv > 0")
        case True
        obtain r2 o2 e2 n2 where rec: "SendDataMB_loop cfg tot (done_n + wv) (iov_advance iov wv) evs now (as_int wv)
            = (r2, o2, e2, n2)" by (metis prod_cases4)
        have eq: "r = r2" "out = take wv (concat iov) @ o2" "now' = n2"
          using "2.prems" more Room True rec unfolding wv_def by (auto simp: Let_def)
        have ih: "(\<exists>rest. drop wv (concat iov) = o2 @ rest) \<and> now \<le> n2
            \<and> (\<forall>x. r2 = SentTo x \<longrightarrow> x > 0 \<longrightarrow> tot \<le> done_n + wv + length o2)"
          using "2.IH"(1) [OF more Room wv_def True] rec by (simp add: iov_advance_concat)
        then obtain rest where "drop wv (concat iov) = o2 @ rest" by blast
        then have "concat iov = out @ rest" using eq(2) by (metis append_assoc append_take_drop_id)
        moreover have "length out = wv + length o2" using eq(2) by (simp add: wv_def)
        ultimately show ?thesis using ih eq by auto
      next
        case False
        then show ?thesis using "2.prems" more Room by (auto simp: wv_def Let_def)
      qed
    next
      case (WouldBlock p t)
      show ?thesis
      proof (cases "p = Ready \<or> p = Interrupted")
        case True
        then have rec: "SendDataMB_loop cfg tot done_n iov evs (now + t) 1 = (r, out, evs', now')"
          using "2.prems" more WouldBlock by auto
        from True show ?thesis
        proof
          assume "p = Ready"
          from "2.IH"(2) [OF more WouldBlock this rec] show ?thesis by auto
        next
          assume "p = Interrupted"
          from "2.IH"(3) [OF more WouldBlock this rec] show ?thesis by auto
        qed
      next
        case False
        then show ?thesis using "2.prems" more WouldBlock by (cases p) (auto split: if_splits)
      qed
    qed (use "2.prems" more in auto)
  qed
qed

text \<open>A socket that keeps taking data.\<close>

definition willing :: "send_event list \<Rightarrow> bool" where
  "willing evs \<longleftrightarrow> (\<forall>e \<in> set evs. (\<exists>n > 0. e = Room n) \<or> (\<exists>t. e = WouldBlock Ready t \<or> e = WouldBlock Interrupted t))"

fun room :: "send_event \<Rightarrow> nat" where
  "room (Room n) = n"
| "room _ = 0"

definition total_room :: "send_event list \<Rightarrow> nat" where "total_room evs = sum_list (map room evs)"

lemma willing_simps [simp]:
  "willing (e # evs) \<longleftrightarrow> ((\<exists>n > 0. e = Room n) \<or> (\<exists>t. e = WouldBlock Ready t \<or> e = WouldBlock Interrupted t)) \<and> willing evs"
  "total_room (e # evs) = room e + total_room evs" "total_room [] = 0"
  by (auto simp: willing_def total_room_def)

lemma as_int_pos: "0 < n \<Longrightarrow> n < 2 ^ 31 \<Longrightarrow> as_int n > 0"
  by (simp add: as_int_def signed_of_nat signed_take_bit_int_eq_self)

lemma SendDataMB_loop_willing:
  assumes "SendDataMB_loop cfg tot done_n iov evs now nsent = (r, out, evs', now')"
    "willing evs" "tot \<le> done_n + total_room evs" "tot \<le> done_n + length (concat iov)"
    "length (concat iov) < 2 ^ 31" "nsent > 0 \<or> done_n < tot"
  shows "\<exists>x > 0. r = SentTo x"
  using assms
proof (induction cfg tot done_n iov evs now nsent arbitrary: r out evs' now' rule: SendDataMB_loop.induct)
  case (1 cfg tot done_n iov now nsent)
  then show ?case by auto
next
  case (2 cfg tot done_n iov e evs now nsent)
  show ?case
  proof (cases "done_n \<ge> tot")
    case True
    then show ?thesis using "2.prems" by auto
  next
    case more: False
    show ?thesis
    proof (cases e)
      case (Room n)
      define wv where "wv = min n (length (concat iov))"
      have "0 < n" using "2.prems"(2) Room by simp
      moreover have "0 < length (concat iov)" using "2.prems"(4) more by linarith
      ultimately have pos: "wv > 0" unfolding wv_def by linarith
      moreover have "wv < 2 ^ 31" using "2.prems"(5) unfolding wv_def by linarith
      ultimately have pos2: "as_int wv > 0" by (rule as_int_pos)
      obtain r2 o2 e2 n2 where rec: "SendDataMB_loop cfg tot (done_n + wv) (iov_advance iov wv) evs now (as_int wv)
          = (r2, o2, e2, n2)" by (metis prod_cases4)
      have "r = r2" using "2.prems" more Room pos rec unfolding wv_def by (auto simp: Let_def)
      moreover have "\<exists>x > 0. r2 = SentTo x"
        by (rule "2.IH"(1) [OF more Room wv_def pos rec])
          (use "2.prems" Room pos pos2 in \<open>auto simp: iov_advance_concat wv_def\<close>)
      ultimately show ?thesis by simp
    next
      case (WouldBlock p t)
      then have p: "p = Ready \<or> p = Interrupted" using "2.prems" by auto
      then have rec: "SendDataMB_loop cfg tot done_n iov evs (now + t) 1 = (r, out, evs', now')"
        using "2.prems" more WouldBlock by auto
      from p show ?thesis
      proof
        assume "p = Ready"
        show ?thesis by (rule "2.IH"(2) [OF more WouldBlock \<open>p = Ready\<close> rec]) (use "2.prems" WouldBlock in auto)
      next
        assume "p = Interrupted"
        show ?thesis by (rule "2.IH"(3) [OF more WouldBlock \<open>p = Interrupted\<close> rec]) (use "2.prems" WouldBlock in auto)
      qed
    qed (use "2.prems" in auto)
  qed
qed

text \<open>The bytes that should go out: the frame header, if there is one, and the buffers.\<close>

definition to_send :: "'a ClientSendInfo_scheme \<Rightarrow> byte list list \<Rightarrow> bool \<Rightarrow> byte list" where
  "to_send c bufs no_wsframe =
     (if websocket c \<and> \<not> no_wsframe then the (wsframe (length (concat bufs))) @ concat bufs else concat bufs)"

lemma wsframe_size: "n < 2 ^ 31 \<Longrightarrow> \<exists>h. wsframe n = Some h \<and> length h \<le> 10"
  by (auto simp: wsframe_def be_bytes_def)

text \<open>The call unfolded: either it fails before the loop, or the loop decides.\<close>

lemma SendDataMB_run:
  assumes "SendDataMB cfg nsent0 c bufs nows = (rv, c')" "bufs \<noteq> []"
  obtains (early) "rv = -1" "c' = c" "length (concat bufs) < 2 ^ 31 \<Longrightarrow> length bufs \<ge> 10"
  | (run) iov r out evs now where "concat iov = to_send c bufs nows"
      "SendDataMB_loop cfg (length (concat bufs)) 0 iov (outq c) (clock c) nsent0 = (r, out, evs, now)"
      "wire c' = wire c @ out" "rv = 0 \<longleftrightarrow> (\<exists>x > 0. r = SentTo x)" "rv \<in> {0, -1, -2}"
      "rv \<noteq> 0 \<Longrightarrow> socketerr c' = rv" "rv = 0 \<Longrightarrow> socketerr c' = socketerr c \<and> lastxchange c' = clock c'"
proof -
  let ?tot = "length (concat bufs)"
  define framed where "framed = (websocket c \<and> \<not> nows)"
  define frame where "frame = (if framed then wsframe ?tot else Some [])"
  show ?thesis
  proof (cases "frame = None \<or> framed \<and> length bufs \<ge> 10")
    case True
    then have "(rv, c') = (-1, c)"
      using assms unfolding SendDataMB_def Let_def frame_def [symmetric] framed_def [symmetric]
      by (auto simp: MAX_REPLACEMENT_LIST_LENGTH_def split: option.splits)
    moreover have "?tot < 2 ^ 31 \<Longrightarrow> length bufs \<ge> 10"
      using True wsframe_size [of ?tot] by (auto simp: frame_def split: if_splits)
    ultimately show ?thesis using early by simp
  next
    case False
    then obtain h where h: "frame = Some h" "\<not> (framed \<and> length bufs \<ge> 10)" by auto
    define iov where "iov = (if framed then h # bufs else bufs)"
    obtain r out evs now where l: "SendDataMB_loop cfg ?tot 0 iov (outq c) (clock c) nsent0 = (r, out, evs, now)"
      by (metis prod_cases4)
    have iov: "concat iov = to_send c bufs nows"
      using h(1) by (auto simp: iov_def to_send_def frame_def framed_def)
    define c1 where "c1 = c\<lparr>wire := wire c @ out, outq := evs, clock := now\<rparr>"
    have res: "SendDataMB cfg nsent0 c bufs nows = (case r of
          SendTimeout \<Rightarrow> (-1, c1\<lparr>socketerr := -1\<rparr>)
        | SendShutdown \<Rightarrow> (-2, c1\<lparr>socketerr := -2\<rparr>)
        | SendPollError \<Rightarrow> (-1, c1\<lparr>socketerr := -1\<rparr>)
        | Hangup \<Rightarrow> (-2, c1\<lparr>socketerr := -2\<rparr>)
        | SentTo nsent \<Rightarrow>
            (if nsent = 0 then (-1, c1\<lparr>socketerr := -1\<rparr>)
             else if nsent < 0 then (-1, c1\<lparr>socketerr := -1\<rparr>)
             else (0, c1\<lparr>lastxchange := now\<rparr>)))"
      using assms(2) h(2) l unfolding SendDataMB_def Let_def frame_def [symmetric] framed_def [symmetric] h(1) c1_def
      by (auto simp: MAX_REPLACEMENT_LIST_LENGTH_def iov_def [symmetric])
    show ?thesis
      by (rule run [OF iov l])
        (use res assms(1) in \<open>cases r; auto simp: c1_def split: if_splits\<close>)+
  qed
qed


definition demo_send :: "bool \<Rightarrow> send_event list \<Rightarrow> ClientSendInfo" where
  "demo_send ws evs = \<lparr>net = [], clock = 0, socketerr = 0, recvbuf = [], recvbufsize = 512, recvconsumed = 0,
     recvstart = 0, lastxchange = 0, dlcommand = [], outq = evs, wire = [], websocket = ws\<rparr>"


text \<open>
  On a WebSocket connection the loop stops when as many bytes have been taken as the buffers
  hold, although the frame header is sent as well: when the socket first takes exactly the size of
  the payload, the call reports success and the end of the payload, as long as the header, is never
  sent.
\<close>

theorem websocket_tail_lost:
  assumes "websocket c" "wsframe (length msg) = Some h" "length h \<le> length msg" "length msg < 2 ^ 31"
    "outq c = Room (length msg) # evs"
  shows "\<exists>c' lost. SendData cfg nsent0 c msg False = (0, c') \<and> lost \<noteq> [] \<and> length lost = length h
    \<and> wire c' @ lost = wire c @ h @ msg"
proof -
  have h: "h \<noteq> []" using assms(2) by (auto simp: wsframe_def split: if_splits)
  have pos: "0 < length msg" using h assms(3) by (cases msg) auto
  have l: "SendDataMB_loop cfg (length msg) 0 [h, msg] (Room (length msg) # evs) (clock c) nsent0
      = (SentTo (as_int (length msg)), take (length msg) (h @ msg), evs, clock c)"
    using pos by (cases evs) (simp_all add: min_def Let_def)
  have "as_int (length msg) > 0" using as_int_pos pos assms(4) by simp
  then have "SendData cfg nsent0 c msg False = (0, c\<lparr>wire := wire c @ take (length msg) (h @ msg),
      outq := evs, clock := clock c, lastxchange := clock c\<rparr>)"
    using assms(1,2,5) l
    unfolding SendData_def SendDataMB_def MAX_REPLACEMENT_LIST_LENGTH_def
    by (simp add: Let_def del: SendDataMB_loop.simps)
  moreover have "take (length msg) (h @ msg) @ drop (length msg - length h) msg = h @ msg"
    using assms(3) by (metis append_take_drop_id drop_append drop_all append_Nil append_assoc take_all take_append)
  moreover have "drop (length msg - length h) msg \<noteq> []" "length (drop (length msg - length h) msg) = length h"
    using h assms(3) pos by (auto simp: not_le)
  ultimately show ?thesis
    by (intro exI [of _ "c\<lparr>wire := wire c @ take (length msg) (h @ msg), outq := evs, clock := clock c,
        lastxchange := clock c\<rparr>"] exI [of _ "drop (length msg - length h) msg"] conjI) (assumption | simp)+
qed

theorem websocket_tail_lost_witness:
  "\<exists>c' lost. SendData demo_io 0 (demo_send True [Room 3]) [7, 8, 9] False = (0, c') \<and> length lost = 2
     \<and> wire c' @ lost = [0x82, 3, 7, 8, 9]"
proof -
  have "wsframe (length ([7, 8, 9] :: byte list)) = Some [0x82, 3]" by (simp add: wsframe_def)
  from websocket_tail_lost [of "demo_send True [Room 3]", OF _ this, of "[]" demo_io 0]
  have "\<exists>c' lost. SendData demo_io 0 (demo_send True [Room 3]) [7, 8, 9] False = (0, c') \<and> lost \<noteq> []
      \<and> length lost = length ([0x82, 3] :: byte list) \<and> wire c' @ lost = wire (demo_send True [Room 3]) @ [0x82, 3] @ [7, 8, 9]"
    by (simp add: demo_send_def)
  moreover have "wire (demo_send True [Room 3]) = []" by (simp add: demo_send_def)
  ultimately show ?thesis by (auto simp: numeral_2_eq_2)
qed

end
