(* ===== verification/RS_Stack.thy ===== *)
theory RS_Stack
  imports RS_Prelude
begin

text \<open>
  The doubly linked stacks of \<open>ringserver-4/src/stack.c\<close> on an explicit heap of nodes, and their
  abstraction to lists: top first.  A pointer is an address or none; \<open>malloc\<close> is an argument: the
  address of a fresh block, or none when it fails.
\<close>

section \<open>The heap\<close>

type_synonym addr = nat

record 'a StackNode =
  data :: 'a
  prev :: "addr option"
  "next" :: "addr option"

record Stack =
  top :: "addr option"
  tail :: "addr option"

type_synonym 'a heap = "addr \<Rightarrow> 'a StackNode option"

abbreviation node :: "'a heap \<Rightarrow> addr \<Rightarrow> 'a StackNode" where "node h a \<equiv> the (h a)"

definition set_prev :: "'a heap \<Rightarrow> addr \<Rightarrow> addr option \<Rightarrow> 'a heap" where
  "set_prev h a p = h(a \<mapsto> (node h a)\<lparr>prev := p\<rparr>)"

definition set_next :: "'a heap \<Rightarrow> addr \<Rightarrow> addr option \<Rightarrow> 'a heap" where
  "set_next h a p = h(a \<mapsto> (node h a)\<lparr>next := p\<rparr>)"

section \<open>The operations\<close>

definition StackCreate :: Stack where "StackCreate = \<lparr>top = None, tail = None\<rparr>"

definition StackPush :: "Stack \<Rightarrow> 'a heap \<Rightarrow> addr option \<Rightarrow> 'a \<Rightarrow> int \<times> Stack \<times> 'a heap" where
  "StackPush s h malloc x = (case malloc of
     None \<Rightarrow> (-1, s, h)
   | Some a \<Rightarrow> (case top s of
       None \<Rightarrow> (0, \<lparr>top = Some a, tail = Some a\<rparr>, h(a \<mapsto> \<lparr>data = x, prev = None, next = None\<rparr>))
     | Some t \<Rightarrow> (0, s\<lparr>top := Some a\<rparr>,
         set_prev (h(a \<mapsto> \<lparr>data = x, prev = None, next = Some t\<rparr>)) t (Some a))))"

definition StackPop :: "Stack \<Rightarrow> 'a heap \<Rightarrow> 'a option \<times> Stack \<times> 'a heap" where
  "StackPop s h = (case top s of
     None \<Rightarrow> (None, s, h)
   | Some t \<Rightarrow>
      (let s1 = s\<lparr>top := next (node h t)\<rparr>; h1 = h(t := None)
       in (case top s1 of
          None \<Rightarrow> (Some (data (node h t)), s1\<lparr>tail := None\<rparr>, h1)
        | Some u \<Rightarrow> (Some (data (node h t)), s1, set_prev h1 u None))))"

definition StackUnshift :: "Stack \<Rightarrow> 'a heap \<Rightarrow> addr option \<Rightarrow> 'a \<Rightarrow> int \<times> Stack \<times> 'a heap" where
  "StackUnshift s h malloc x = (case malloc of
     None \<Rightarrow> (-1, s, h)
   | Some a \<Rightarrow> (case tail s of
       None \<Rightarrow> (0, \<lparr>top = Some a, tail = Some a\<rparr>, h(a \<mapsto> \<lparr>data = x, prev = None, next = None\<rparr>))
     | Some t \<Rightarrow> (0, s\<lparr>tail := Some a\<rparr>,
         set_next (h(a \<mapsto> \<lparr>data = x, prev = Some t, next = None\<rparr>)) t (Some a))))"

definition StackShift :: "Stack \<Rightarrow> 'a heap \<Rightarrow> 'a option \<times> Stack \<times> 'a heap" where
  "StackShift s h = (case tail s of
     None \<Rightarrow> (None, s, h)
   | Some t \<Rightarrow>
      (let s1 = s\<lparr>tail := prev (node h t)\<rparr>; h1 = h(t := None)
       in (case tail s1 of
          None \<Rightarrow> (Some (data (node h t)), s1\<lparr>top := None\<rparr>, h1)
        | Some u \<Rightarrow> (Some (data (node h t)), s1, set_next h1 u None))))"

text \<open>The nodes that \<open>StackDestroy\<close> frees; the loop ends when the chain does.\<close>

partial_function (option) destroy_loop :: "'a heap \<Rightarrow> addr option \<Rightarrow> 'a heap option" where
  "destroy_loop h x = (case x of
     None \<Rightarrow> Some h
   | Some a \<Rightarrow> destroy_loop (h(a := None)) (next (node h a)))"

definition StackDestroy :: "Stack option \<Rightarrow> 'a heap \<Rightarrow> 'a heap option" where
  "StackDestroy s h = (case s of None \<Rightarrow> Some h | Some t \<Rightarrow> destroy_loop h (top t))"

definition StackNotEmpty :: "Stack option \<Rightarrow> bool" where
  "StackNotEmpty s = (case s of None \<Rightarrow> False | Some t \<Rightarrow> top t \<noteq> None)"

definition StackJoin :: "Stack option \<Rightarrow> Stack option \<Rightarrow> 'a heap \<Rightarrow> Stack option \<times> 'a heap" where
  "StackJoin stack1 stack2 h = (case (stack1, stack2) of
     (None, _) \<Rightarrow> (stack2, h)
   | (_, None) \<Rightarrow> (stack1, h)
   | (Some s1, Some s2) \<Rightarrow>
      (case tail s1 of
         None \<Rightarrow> (Some s2, h)
       | Some t1 \<Rightarrow> (case top s2 of
            None \<Rightarrow> (Some s1, h)
          | Some t2 \<Rightarrow> (Some (s1\<lparr>tail := tail s2\<rparr>), set_prev (set_next h t1 (Some t2)) t2 (Some t1)))))"

section \<open>Chains of nodes\<close>

definition first :: "addr list \<Rightarrow> addr option \<Rightarrow> addr option" where
  "first as z = (case as of [] \<Rightarrow> z | a # _ \<Rightarrow> Some a)"

definition final :: "addr list \<Rightarrow> addr option \<Rightarrow> addr option" where
  "final as z = (if as = [] then z else Some (last as))"

lemma first_simps [simp]: "first [] z = z" "first (a # as) z = Some a" "first (as @ bs) z = first as (first bs z)"
  by (auto simp: first_def split: list.splits)

lemma final_simps [simp]: "final [] z = z" "final (as @ [a]) z = Some a" "final (a # as) z = final as (Some a)"
  "final (as @ bs) z = final bs (final as z)"
  by (auto simp: final_def)

text \<open>The nodes \<open>as\<close> are linked both ways, with \<open>p\<close> before the first and \<open>n\<close> after the last.\<close>

fun links :: "'a heap \<Rightarrow> addr option \<Rightarrow> addr list \<Rightarrow> addr option \<Rightarrow> bool" where
  "links h p [] n \<longleftrightarrow> True"
| "links h p (a # as) n \<longleftrightarrow>
     (\<exists>x. h a = Some x \<and> prev x = p \<and> next x = first as n) \<and> links h (Some a) as n"

lemma links_append: "links h p (as @ bs) n \<longleftrightarrow> links h p as (first bs n) \<and> links h (final as p) bs n"
  by (induction as arbitrary: p) auto

lemma links_upd [simp]: "b \<notin> set as \<Longrightarrow> links (h(b := y)) p as n = links h p as n"
  by (induction as arbitrary: p) auto

lemma links_alloc: "links h p as n \<Longrightarrow> a \<in> set as \<Longrightarrow> h a \<noteq> None"
  by (induction as arbitrary: p) auto

text \<open>What a stack stands for.\<close>

definition contents :: "'a heap \<Rightarrow> addr list \<Rightarrow> 'a list" where
  "contents h as = map (\<lambda>a. data (node h a)) as"

definition stack_at :: "'a heap \<Rightarrow> Stack \<Rightarrow> addr list \<Rightarrow> bool" where
  "stack_at h s as \<longleftrightarrow> distinct as \<and> links h None as None \<and> top s = first as None \<and> tail s = final as None"

definition is_stack :: "'a heap \<Rightarrow> Stack \<Rightarrow> 'a list \<Rightarrow> bool" where
  "is_stack h s xs \<longleftrightarrow> (\<exists>as. stack_at h s as \<and> contents h as = xs)"

lemma contents_simps [simp]:
  "contents h [] = []" "contents h (a # as) = data (node h a) # contents h as"
  "contents h (as @ bs) = contents h as @ contents h bs"
  by (simp_all add: contents_def)

lemma contents_upd [simp]: "b \<notin> set as \<Longrightarrow> contents (h(b := y)) as = contents h as"
  by (auto simp: contents_def)

lemma data_set [simp]: "data (node (set_prev h a p) b) = data (node h b)"
  "data (node (set_next h a p) b) = data (node h b)"
  by (simp_all add: set_prev_def set_next_def)

lemma contents_set_prev [simp]: "contents (set_prev h a p) as = contents h as"
  by (auto simp: contents_def set_prev_def)

lemma contents_set_next [simp]: "contents (set_next h a p) as = contents h as"
  by (auto simp: contents_def set_next_def)

lemma links_set_prev: "links h p (a # as) n \<Longrightarrow> a \<notin> set as \<Longrightarrow> links (set_prev h a q) q (a # as) n"
  by (auto simp: set_prev_def)

lemma links_set_next:
  "links h p (as @ [a]) n \<Longrightarrow> a \<notin> set as \<Longrightarrow> links (set_next h a q) p (as @ [a]) q"
  by (auto simp: set_next_def links_append)

lemma stack_at_Cons: "stack_at h s (a # as) \<Longrightarrow> top s = Some a"
  by (simp add: stack_at_def)

lemma stack_at_empty: "stack_at h s as \<Longrightarrow> top s = None \<longleftrightarrow> as = []" "stack_at h s as \<Longrightarrow> tail s = None \<longleftrightarrow> as = []"
  by (cases as rule: rev_cases; auto simp: stack_at_def first_def split: list.splits)+

section \<open>The operations on lists\<close>

lemma StackCreate_empty: "is_stack h StackCreate []"
  by (auto simp: is_stack_def stack_at_def StackCreate_def intro!: exI [of _ "[]"])

lemma StackPush_at:
  assumes "stack_at h s as" "h a = None"
  shows "\<exists>s' h'. StackPush s h (Some a) x = (0, s', h') \<and> stack_at h' s' (a # as)
    \<and> contents h' (a # as) = x # contents h as \<and> (\<forall>b. b \<notin> set (a # as) \<longrightarrow> h' b = h b)"
proof -
  have new: "a \<notin> set as" using assms links_alloc unfolding stack_at_def by metis
  show ?thesis
  proof (cases as)
    case Nil
    then show ?thesis using assms by (auto simp: StackPush_def stack_at_def)
  next
    case (Cons t u)
    define h1 where "h1 = h(a \<mapsto> \<lparr>data = x, prev = None, next = Some t\<rparr>)"
    have l: "links h1 None (t # u) None" "t \<notin> set u" "a \<noteq> t" "a \<notin> set u"
      using assms(1) new Cons by (auto simp: h1_def stack_at_def)
    have "links (set_prev h1 t (Some a)) None (a # t # u) None"
      using links_set_prev [OF l(1,2), of "Some a"] l(3) by (auto simp: h1_def set_prev_def)
    moreover have "StackPush s h (Some a) x = (0, s\<lparr>top := Some a\<rparr>, set_prev h1 t (Some a))"
      using assms(1) Cons by (simp add: StackPush_def stack_at_def h1_def)
    moreover have "contents h1 (a # as) = x # contents h as" using new by (simp add: h1_def)
    ultimately show ?thesis
      using assms(1) Cons new l by (auto simp: stack_at_def set_prev_def h1_def)
  qed
qed

lemma StackUnshift_at:
  assumes "stack_at h s as" "h a = None"
  shows "\<exists>s' h'. StackUnshift s h (Some a) x = (0, s', h') \<and> stack_at h' s' (as @ [a])
    \<and> contents h' (as @ [a]) = contents h as @ [x] \<and> (\<forall>b. b \<notin> set (a # as) \<longrightarrow> h' b = h b)"
proof -
  have new: "a \<notin> set as" using assms links_alloc unfolding stack_at_def by metis
  show ?thesis
  proof (cases as rule: rev_cases)
    case Nil
    then show ?thesis using assms by (auto simp: StackUnshift_def stack_at_def)
  next
    case (snoc u t)
    define h1 where "h1 = h(a \<mapsto> \<lparr>data = x, prev = Some t, next = None\<rparr>)"
    have l: "links h1 None (u @ [t]) None" "t \<notin> set u" "a \<noteq> t" "a \<notin> set u"
      using assms(1) new snoc by (auto simp: h1_def stack_at_def)
    have "links (set_next h1 t (Some a)) None ((u @ [t]) @ [a]) None"
      using links_set_next [OF l(1,2), of "Some a"] l(3) by (simp add: links_append h1_def set_next_def)
    moreover have "StackUnshift s h (Some a) x = (0, s\<lparr>tail := Some a\<rparr>, set_next h1 t (Some a))"
      using assms(1) snoc by (simp add: StackUnshift_def stack_at_def h1_def)
    moreover have "contents h1 (as @ [a]) = contents h as @ [x]" using new by (simp add: h1_def)
    ultimately show ?thesis
      using assms(1) snoc new l by (cases u) (auto simp: stack_at_def set_next_def h1_def)
  qed
qed

lemma StackPop_at:
  assumes "stack_at h s (a # as)"
  shows "\<exists>s' h'. StackPop s h = (Some (data (node h a)), s', h') \<and> stack_at h' s' as
    \<and> contents h' as = contents h as \<and> h' a = None \<and> (\<forall>b. b \<notin> set (a # as) \<longrightarrow> h' b = h b)"
proof (cases as)
  case Nil
  then show ?thesis using assms by (auto simp: StackPop_def stack_at_def Let_def)
next
  case (Cons t u)
  define h1 where "h1 = h(a := None)"
  have at: "distinct (a # t # u)" "top s = Some a" "tail s = final (t # u) None" "next (node h a) = Some t"
      "links h1 (Some a) (t # u) None"
    using assms Cons by (auto simp: stack_at_def h1_def)
  have "links (set_prev h1 t None) None (t # u) None"
    using links_set_prev [OF at(5)] at(1) by simp
  moreover have "StackPop s h = (Some (data (node h a)), s\<lparr>top := Some t\<rparr>, set_prev h1 t None)"
    by (simp add: StackPop_def at Let_def h1_def)
  moreover have "contents h1 as = contents h as" using at(1) Cons by (simp add: h1_def)
  ultimately show ?thesis using at Cons by (auto simp: stack_at_def set_prev_def h1_def)
qed

lemma StackShift_at:
  assumes "stack_at h s (as @ [a])"
  shows "\<exists>s' h'. StackShift s h = (Some (data (node h a)), s', h') \<and> stack_at h' s' as
    \<and> contents h' as = contents h as \<and> h' a = None \<and> (\<forall>b. b \<notin> set (a # as) \<longrightarrow> h' b = h b)"
proof (cases as rule: rev_cases)
  case Nil
  then show ?thesis using assms by (auto simp: StackShift_def stack_at_def Let_def)
next
  case (snoc u t)
  define h1 where "h1 = h(a := None)"
  have at: "distinct (u @ [t, a])" "tail s = Some a" "top s = first (u @ [t]) None" "prev (node h a) = Some t"
      "links h1 None (u @ [t]) (Some a)"
    using assms snoc by (auto simp: stack_at_def h1_def links_append)
  have "links (set_next h1 t None) None (u @ [t]) None"
    using links_set_next [OF at(5)] at(1) by simp
  moreover have "StackShift s h = (Some (data (node h a)), s\<lparr>tail := Some t\<rparr>, set_next h1 t None)"
    by (simp add: StackShift_def at Let_def h1_def)
  moreover have "contents h1 as = contents h as" using at(1) snoc by (simp add: h1_def)
  ultimately show ?thesis using at snoc by (cases u) (auto simp: stack_at_def set_next_def h1_def)
qed

lemma StackPop_empty: "stack_at h s [] \<Longrightarrow> StackPop s h = (None, s, h)"
  by (simp add: StackPop_def stack_at_def)

lemma StackShift_empty: "stack_at h s [] \<Longrightarrow> StackShift s h = (None, s, h)"
  by (simp add: StackShift_def stack_at_def)

lemma StackJoin_at:
  assumes "stack_at h s as" "stack_at h t bs" "set as \<inter> set bs = {}"
  shows "\<exists>s' h'. StackJoin (Some s) (Some t) h = (Some s', h') \<and> stack_at h' s' (as @ bs)
    \<and> contents h' (as @ bs) = contents h as @ contents h bs"
proof (cases "as = [] \<or> bs = []")
  case True
  then show ?thesis using assms by (auto simp: StackJoin_def stack_at_def final_def split: option.splits if_splits)
next
  case False
  obtain u x where as: "as = u @ [x]" using False by (cases as rule: rev_cases) auto
  obtain y v where bs: "bs = y # v" using False by (cases bs) auto
  define h1 where "h1 = set_next h x (Some y)"
  define h2 where "h2 = set_prev h1 y (Some x)"
  have d: "distinct (u @ [x])" "distinct (y # v)" "x \<notin> set (y # v)" "y \<notin> set (u @ [x])"
    using assms as bs by (auto simp: stack_at_def)
  have a1: "links h1 None (u @ [x]) (Some y)"
    using links_set_next assms(1) d(1) unfolding h1_def as stack_at_def by fastforce
  have b1: "links h1 None (y # v) None" using assms(2) d(3) bs by (simp add: h1_def set_next_def stack_at_def)
  have "links h2 None (u @ [x]) (Some y)" using a1 d(4) by (simp add: h2_def set_prev_def)
  moreover have "links h2 (Some x) (y # v) None"
    using links_set_prev [OF b1] d(2) by (simp add: h2_def)
  ultimately have "links h2 None (as @ bs) None" by (simp add: as bs links_append)
  moreover have "StackJoin (Some s) (Some t) h = (Some (s\<lparr>tail := tail t\<rparr>), h2)"
    using assms as bs by (simp add: StackJoin_def stack_at_def h1_def h2_def)
  moreover have "contents h2 (as @ bs) = contents h as @ contents h bs" by (simp add: h1_def h2_def)
  moreover have "distinct (as @ bs)" using assms by (simp add: stack_at_def)
  moreover have "top s = first (as @ bs) None" "tail t = final (as @ bs) None"
    using assms as bs by (cases u; simp add: stack_at_def)+
  ultimately show ?thesis by (auto simp: stack_at_def)
qed

lemma destroy_chain:
  "links h p as None \<Longrightarrow> distinct as \<Longrightarrow>
   destroy_loop h (first as None) = Some (\<lambda>b. if b \<in> set as then None else h b)"
proof (induction as arbitrary: h p)
  case Nil
  then show ?case by (subst destroy_loop.simps) simp
next
  case (Cons a as)
  have "links (h(a := None)) (Some a) as None" using Cons.prems by simp
  then have "destroy_loop (h(a := None)) (first as None) =
      Some (\<lambda>b. if b \<in> set as then None else (h(a := None)) b)"
    by (rule Cons.IH) (use Cons.prems in simp_all)
  moreover have "next (node h a) = first as None" using Cons.prems by auto
  ultimately show ?case by (subst destroy_loop.simps) (auto simp: fun_eq_iff)
qed

section \<open>The contract with the clients of stacks\<close>

text \<open>
  What a routine that fills and empties a stack relies on: a representation of lists, top first, that
  the operations act on as they should.
\<close>

locale stack_contract =
  fixes rep :: "'m \<Rightarrow> 'a list \<Rightarrow> bool"
    and create :: 'm
    and push :: "'m \<Rightarrow> 'a \<Rightarrow> 'm"
    and unshift :: "'m \<Rightarrow> 'a \<Rightarrow> 'm"
    and pop :: "'m \<Rightarrow> 'a option \<times> 'm"
  assumes rep_create: "rep create []"
    and rep_push: "rep m xs \<Longrightarrow> rep (push m x) (x # xs)"
    and rep_unshift: "rep m xs \<Longrightarrow> rep (unshift m x) (xs @ [x])"
    and rep_pop: "rep m xs \<Longrightarrow> fst (pop m) = (case xs of [] \<Rightarrow> None | x # _ \<Rightarrow> Some x) \<and> rep (snd (pop m)) (tl xs)"
begin

lemma unshift_all: "rep m xs \<Longrightarrow> rep (foldl unshift m ys) (xs @ ys)"
proof (induction ys arbitrary: m xs)
  case (Cons y ys)
  show ?case using Cons.IH [OF rep_unshift [OF Cons.prems, of y]] by simp
qed simp

lemma push_all: "rep m xs \<Longrightarrow> rep (foldl push m ys) (rev ys @ xs)"
proof (induction ys arbitrary: m xs)
  case (Cons y ys)
  show ?case using Cons.IH [OF rep_push [OF Cons.prems, of y]] by simp
qed simp

lemma filled: "rep (foldl unshift create xs) xs"
  using unshift_all [OF rep_create] by simp

lemma pop_Cons: "rep m (x # xs) \<Longrightarrow> \<exists>m'. pop m = (Some x, m') \<and> rep m' xs"
  using rep_pop [of m "x # xs"] by (cases "pop m") auto

lemma pop_Nil: "rep m [] \<Longrightarrow> \<exists>m'. pop m = (None, m') \<and> rep m' []"
  using rep_pop [of m "[]"] by (cases "pop m") auto

end

text \<open>
  The stacks of the program provide it, on a heap whose blocks are handed out in ascending order;
  \<open>brk\<close> is the next free address.
\<close>

type_synonym 'a smem = "Stack \<times> 'a heap \<times> addr"

definition smem_rep :: "'a smem \<Rightarrow> 'a list \<Rightarrow> bool" where
  "smem_rep m xs \<longleftrightarrow> (case m of (s, h, brk) \<Rightarrow> is_stack h s xs \<and> (\<forall>a \<ge> brk. h a = None))"

definition smem_create :: "'a smem" where "smem_create = (StackCreate, Map.empty, 0)"

definition smem_push :: "'a smem \<Rightarrow> 'a \<Rightarrow> 'a smem" where
  "smem_push m x = (case m of (s, h, brk) \<Rightarrow> case StackPush s h (Some brk) x of (rv, s', h') \<Rightarrow> (s', h', Suc brk))"

definition smem_unshift :: "'a smem \<Rightarrow> 'a \<Rightarrow> 'a smem" where
  "smem_unshift m x = (case m of (s, h, brk) \<Rightarrow> case StackUnshift s h (Some brk) x of (rv, s', h') \<Rightarrow> (s', h', Suc brk))"

definition smem_pop :: "'a smem \<Rightarrow> 'a option \<times> 'a smem" where
  "smem_pop m = (case m of (s, h, brk) \<Rightarrow> case StackPop s h of (r, s', h') \<Rightarrow> (r, (s', h', brk)))"

lemma stack_at_low: "stack_at h s as \<Longrightarrow> (\<forall>a \<ge> brk. h a = None) \<Longrightarrow> a \<in> set as \<Longrightarrow> a < brk"
  using links_alloc unfolding stack_at_def by (metis not_le)

lemma smem_added:
  assumes "stack_at h' s' bs" "contents h' bs = ys" "set bs = insert brk (set as)"
    "\<forall>b. b \<notin> set (brk # as) \<longrightarrow> h' b = h b" "\<forall>a \<ge> brk. h a = None" "\<forall>a \<in> set as. a < brk"
  shows "smem_rep (s', h', Suc brk) ys"
proof -
  have "h' a = None" if "Suc brk \<le> a" for a
  proof -
    have "a \<notin> set (brk # as)" using that assms(6) by auto
    then have "h' a = h a" using assms(4) by blast
    then show ?thesis using assms(5) that by simp
  qed
  then show ?thesis using assms(1,2) by (auto simp: smem_rep_def is_stack_def)
qed

lemma smem_rep_push:
  assumes "smem_rep m xs"
  shows "smem_rep (smem_push m x) (x # xs)"
proof -
  obtain s h brk as where m: "m = (s, h, brk)" "stack_at h s as" "contents h as = xs" "\<forall>a \<ge> brk. h a = None"
    using assms by (cases m) (auto simp: smem_rep_def is_stack_def)
  obtain s' h' where r: "StackPush s h (Some brk) x = (0, s', h')" "stack_at h' s' (brk # as)"
      "contents h' (brk # as) = x # contents h as" "\<forall>b. b \<notin> set (brk # as) \<longrightarrow> h' b = h b"
    using StackPush_at [OF m(2), of brk x] m(4) by auto
  have "smem_rep (s', h', Suc brk) (x # xs)"
    by (rule smem_added [OF r(2) _ _ r(4) m(4)]) (use r(3) m(3) stack_at_low [OF m(2,4)] in auto)
  then show ?thesis using m(1) r(1) by (simp add: smem_push_def)
qed

lemma smem_rep_unshift:
  assumes "smem_rep m xs"
  shows "smem_rep (smem_unshift m x) (xs @ [x])"
proof -
  obtain s h brk as where m: "m = (s, h, brk)" "stack_at h s as" "contents h as = xs" "\<forall>a \<ge> brk. h a = None"
    using assms by (cases m) (auto simp: smem_rep_def is_stack_def)
  obtain s' h' where r: "StackUnshift s h (Some brk) x = (0, s', h')" "stack_at h' s' (as @ [brk])"
      "contents h' (as @ [brk]) = contents h as @ [x]" "\<forall>b. b \<notin> set (brk # as) \<longrightarrow> h' b = h b"
    using StackUnshift_at [OF m(2), of brk x] m(4) by auto
  have "smem_rep (s', h', Suc brk) (xs @ [x])"
    by (rule smem_added [OF r(2) _ _ r(4) m(4)]) (use r(3) m(3) stack_at_low [OF m(2,4)] in auto)
  then show ?thesis using m(1) r(1) by (simp add: smem_unshift_def)
qed

lemma smem_rep_pop:
  assumes "smem_rep m xs"
  shows "fst (smem_pop m) = (case xs of [] \<Rightarrow> None | x # _ \<Rightarrow> Some x) \<and> smem_rep (snd (smem_pop m)) (tl xs)"
proof -
  obtain s h brk as where m: "m = (s, h, brk)" "stack_at h s as" "contents h as = xs" "\<forall>a \<ge> brk. h a = None"
    using assms by (cases m) (auto simp: smem_rep_def is_stack_def)
  show ?thesis
  proof (cases as)
    case Nil
    then show ?thesis using assms m StackPop_empty [of h s] by (simp add: smem_pop_def)
  next
    case (Cons a bs)
    obtain s' h' where r: "StackPop s h = (Some (data (node h a)), s', h')" "stack_at h' s' bs"
        "contents h' bs = contents h bs" "h' a = None" "\<forall>b. b \<notin> set (a # bs) \<longrightarrow> h' b = h b"
      using StackPop_at m(2) Cons by blast
    have "\<forall>c \<ge> brk. h' c = None" 
    proof (intro allI impI)
      fix c assume c: "brk \<le> c"
      then have "c \<notin> set (a # bs)" using stack_at_low [OF m(2,4), of c] Cons by auto
      then show "h' c = None" using r(5) m(4) c by simp
    qed
    then have "smem_rep (s', h', brk) (tl xs)"
      using r(2,3) m(3) Cons by (auto simp: smem_rep_def is_stack_def)
    then show ?thesis using m Cons r(1) by (auto simp: smem_pop_def)
  qed
qed

interpretation stk: stack_contract smem_rep smem_create smem_push smem_unshift smem_pop
proof unfold_locales
  show "smem_rep smem_create []" by (simp add: smem_rep_def smem_create_def StackCreate_empty)
qed (rule smem_rep_push smem_rep_unshift smem_rep_pop; assumption)+

section \<open>Properties\<close>

text \<open>
  A stack is the list of its data, top first: pushing and unshifting a fresh node add at the
  front and at the end, popping and shifting take from there, the links stay consistent in both
  directions, and a failed allocation or an empty stack changes nothing.
\<close>

theorem stack_operations:
  assumes "is_stack h s xs" "h a = None"
  shows "(\<exists>s' h'. StackPush s h (Some a) x = (0, s', h') \<and> is_stack h' s' (x # xs)) \<and>
    (\<exists>s' h'. StackUnshift s h (Some a) x = (0, s', h') \<and> is_stack h' s' (xs @ [x])) \<and>
    (\<exists>s' h'. StackPop s h = (if xs = [] then None else Some (hd xs), s', h') \<and> is_stack h' s' (tl xs)) \<and>
    (\<exists>s' h'. StackShift s h = (if xs = [] then None else Some (last xs), s', h') \<and> is_stack h' s' (butlast xs)) \<and>
    StackPush s h None x = (-1, s, h) \<and> StackUnshift s h None x = (-1, s, h) \<and>
    StackNotEmpty (Some s) = (xs \<noteq> [])"
proof -
  obtain as where as: "stack_at h s as" "contents h as = xs" using assms(1) by (auto simp: is_stack_def)
  have push: "\<exists>s' h'. StackPush s h (Some a) x = (0, s', h') \<and> is_stack h' s' (x # xs)"
    using StackPush_at [OF as(1) assms(2), of x] as(2) unfolding is_stack_def by blast
  have unshift: "\<exists>s' h'. StackUnshift s h (Some a) x = (0, s', h') \<and> is_stack h' s' (xs @ [x])"
    using StackUnshift_at [OF as(1) assms(2), of x] as(2) unfolding is_stack_def by blast
  have pop: "\<exists>s' h'. StackPop s h = (if xs = [] then None else Some (hd xs), s', h') \<and> is_stack h' s' (tl xs)"
  proof (cases as)
    case Nil
    then show ?thesis using as StackPop_empty assms(1) by auto
  next
    case (Cons b bs)
    then show ?thesis using as StackPop_at [of h s b bs] unfolding is_stack_def by fastforce
  qed
  have shift: "\<exists>s' h'. StackShift s h = (if xs = [] then None else Some (last xs), s', h') \<and> is_stack h' s' (butlast xs)"
  proof (cases as rule: rev_cases)
    case Nil
    then show ?thesis using as StackShift_empty assms(1) by auto
  next
    case (snoc bs b)
    then show ?thesis using as StackShift_at [of h s bs b] unfolding is_stack_def by fastforce
  qed
  have "as = [] \<longleftrightarrow> xs = []" using as(2) by (auto simp: contents_def)
  then have "StackNotEmpty (Some s) = (xs \<noteq> [])"
    using stack_at_empty(1) [OF as(1)] by (simp add: StackNotEmpty_def)
  then show ?thesis using push unshift pop shift by (simp add: StackPush_def StackUnshift_def)
qed

definition demo_heap :: "string heap" where
  "demo_heap = [0 \<mapsto> \<lparr>data = ''b'', prev = None, next = Some 5\<rparr>, 5 \<mapsto> \<lparr>data = ''a'', prev = Some 0, next = None\<rparr>]"
definition demo_stack :: Stack where "demo_stack = \<lparr>top = Some 0, tail = Some 5\<rparr>"

lemma demo_is_stack: "is_stack demo_heap demo_stack [''b'', ''a'']"
  unfolding is_stack_def
  by (rule exI [of _ "[0, 5]"]) (simp add: demo_heap_def demo_stack_def stack_at_def)

theorem stack_operations_witness:
  "\<exists>s' h'. StackUnshift demo_stack demo_heap (Some 2) ''c'' = (0, s', h') \<and> is_stack h' s' [''b'', ''a'', ''c'']"
proof -
  have "demo_heap 2 = None" by (simp add: demo_heap_def)
  from stack_operations [OF demo_is_stack this, of "''c''"] show ?thesis by simp
qed

end
