(* ===== verification/RS_StackSort.thy ===== *)
theory RS_StackSort
  imports RS_Stack "HOL-Library.Multiset"
begin

text \<open>
  \<open>StackSort\<close> of \<open>ringserver-4/src/stack.c\<close>: a bottom-up merge sort that relinks the nodes in
  place.  The reference is the stable \<open>sort_key\<close> of the library.
\<close>

section \<open>The code\<close>

text \<open>The step along \<open>p\<close>: the node after at most \<open>insize\<close> nodes, and the number of nodes passed.\<close>

fun walk :: "'a heap \<Rightarrow> addr option \<Rightarrow> nat \<Rightarrow> nat \<Rightarrow> addr option \<times> nat" where
  "walk h q 0 psize = (q, psize)"
| "walk h q (Suc i) psize =
     (let q1 = next (node h (the q))
      in if q1 = None then (None, psize + 1) else walk h q1 i (psize + 1))"

text \<open>
  The merge of the two lists: heap, \<open>top\<close> and \<open>tail\<close> of the merged list and the final \<open>q\<close>.  The
  comparison is applied to the data of the nodes.
\<close>

function merge_loop ::
  "('a \<Rightarrow> 'a \<Rightarrow> int) \<Rightarrow> 'a heap \<Rightarrow> addr option \<Rightarrow> nat \<Rightarrow> addr option \<Rightarrow> nat \<Rightarrow>
   addr option \<Rightarrow> addr option \<Rightarrow> 'a heap \<times> addr option \<times> addr option \<times> addr option" where
  "merge_loop cmp h p psize q qsize mtop mtail =
     (if psize > 0 \<or> (qsize > 0 \<and> q \<noteq> None) then
        let from_q = (if psize = 0 then True
                      else if qsize = 0 \<or> q = None then False
                      else \<not> cmp (data (node h (the p))) (data (node h (the q))) \<le> 0);
            e = (if from_q then q else p);
            q1 = (if from_q then next (node h (the q)) else q);
            qsize1 = (if from_q then qsize - 1 else qsize);
            p1 = (if from_q then p else next (node h (the p)));
            psize1 = (if from_q then psize else psize - 1);
            h1 = (case mtail of Some t \<Rightarrow> set_next h t e | None \<Rightarrow> h);
            top1 = (if mtail = None then e else mtop);
            h2 = set_prev h1 (the e) mtail
        in merge_loop cmp h2 p1 psize1 q1 qsize1 top1 e
      else (h, mtop, mtail, q))"
  by pat_completeness auto
termination
  by (relation "measure (\<lambda>(cmp, h, p, psize, q, qsize, mtop, mtail). psize + qsize)") (auto split: if_splits)

declare merge_loop.simps [simp del]

text \<open>One pass over the list; the counters are \<open>nmerges\<close> and \<open>totalmerges\<close>.\<close>

partial_function (option) pass_loop ::
  "('a \<Rightarrow> 'a \<Rightarrow> int) \<Rightarrow> 'a heap \<Rightarrow> addr option \<Rightarrow> nat \<Rightarrow> addr option \<Rightarrow> addr option \<Rightarrow> nat \<Rightarrow> nat \<Rightarrow>
   ('a heap \<times> addr option \<times> addr option \<times> nat \<times> nat) option" where
  "pass_loop cmp h p insize mtop mtail nmerges totalmerges =
     (if p = None then Some (h, mtop, mtail, nmerges, totalmerges)
      else case walk h p insize 0 of (q, psize) \<Rightarrow>
           (case merge_loop cmp h p psize q insize mtop mtail of (h1, top1, tail1, q1) \<Rightarrow>
            pass_loop cmp h1 q1 insize top1 tail1 (nmerges + 1) (totalmerges + 1)))"

partial_function (option) sort_loop ::
  "('a \<Rightarrow> 'a \<Rightarrow> int) \<Rightarrow> 'a heap \<Rightarrow> addr option \<Rightarrow> nat \<Rightarrow> nat \<Rightarrow> ('a heap \<times> Stack \<times> nat) option" where
  "sort_loop cmp h mtop insize totalmerges =
     (case pass_loop cmp h mtop insize None None 0 totalmerges of
        None \<Rightarrow> None
      | Some (h1, top1, tail1, nmerges, total1) \<Rightarrow>
          (let h2 = set_next h1 (the tail1) None
           in if nmerges \<le> 1 then Some (h2, \<lparr>top = top1, tail = tail1\<rparr>, total1)
              else sort_loop cmp h2 top1 (insize * 2) total1))"

definition StackSort ::
  "Stack option \<Rightarrow> ('a \<Rightarrow> 'a \<Rightarrow> int) option \<Rightarrow> 'a heap \<Rightarrow> (int \<times> Stack option \<times> 'a heap) option" where
  "StackSort theStack StackNodeCmp h = (case (theStack, StackNodeCmp) of
     (Some s, Some cmp) \<Rightarrow>
       (if top s = None then Some (0, Some s, h)
        else case sort_loop cmp h (top s) 1 0 of
            None \<Rightarrow> None
          | Some (h1, s1, cnt) \<Rightarrow> Some (int cnt, Some s1, h1))
   | _ \<Rightarrow> Some (-1, theStack, h))"

section \<open>Merging lists\<close>

fun merge :: "('b \<Rightarrow> 'b \<Rightarrow> bool) \<Rightarrow> 'b list \<Rightarrow> 'b list \<Rightarrow> 'b list" where
  "merge le [] ys = ys"
| "merge le xs [] = xs"
| "merge le (x # xs) (y # ys) = (if le x y then x # merge le xs (y # ys) else y # merge le (x # xs) ys)"

lemma merge_Nil2 [simp]: "merge le xs [] = xs" by (cases xs) simp_all

lemma set_merge [simp]: "set (merge le xs ys) = set xs \<union> set ys"
  by (induction le xs ys rule: merge.induct) auto

lemma length_merge [simp]: "length (merge le xs ys) = length xs + length ys"
  by (induction le xs ys rule: merge.induct) auto

lemma distinct_merge: "distinct (xs @ ys) \<Longrightarrow> distinct (merge le xs ys)"
  by (induction le xs ys rule: merge.induct) auto

lemma map_merge: "map f (merge (\<lambda>x y. le (f x) (f y)) xs ys) = merge le (map f xs) (map f ys)"
  by (induction "\<lambda>x y. le (f x) (f y)" xs ys rule: merge.induct) auto

lemma sorted_merge:
  "sorted (map f xs) \<Longrightarrow> sorted (map f ys) \<Longrightarrow> sorted (map f (merge (\<lambda>x y. f x \<le> f y) xs ys))"
  by (induction "\<lambda>x y. f x \<le> f y" xs ys rule: merge.induct) auto

lemma merge_stable:
  "sorted (map f xs) \<Longrightarrow>
   filter (\<lambda>x. f x = k) (merge (\<lambda>x y. f x \<le> f y) xs ys) = filter (\<lambda>x. f x = k) xs @ filter (\<lambda>x. f x = k) ys"
proof (induction "\<lambda>x y. f x \<le> f y" xs ys rule: merge.induct)
  case (3 x xs y ys)
  show ?case
  proof (cases "f x \<le> f y")
    case True
    then show ?thesis using 3 by auto
  next
    case False
    have "filter (\<lambda>z. f z = k) (x # xs) = []" if "f y = k"
      using that False 3(3) by (auto simp: filter_empty_conv)
    then show ?thesis using False 3 by auto
  qed
qed auto

text \<open>One pass and the whole sort on lists.\<close>

function pass :: "('b \<Rightarrow> 'b \<Rightarrow> bool) \<Rightarrow> nat \<Rightarrow> 'b list \<Rightarrow> 'b list" where
  "pass le n xs = (if xs = [] \<or> n = 0 then []
     else merge le (take n xs) (take n (drop n xs)) @ pass le n (drop n (drop n xs)))"
  by pat_completeness auto
termination by (relation "measure (\<lambda>(_, _, xs). length xs)") auto

declare pass.simps [simp del]

lemma length_pass: "n > 0 \<Longrightarrow> length (pass le n xs) = length xs"
proof (induction le n xs rule: pass.induct)
  case (1 le n xs)
  then show ?case by (subst pass.simps) auto
qed

lemma set_pass: "n > 0 \<Longrightarrow> set (pass le n xs) = set xs"
proof (induction le n xs rule: pass.induct)
  case (1 le n xs)
  show ?case
  proof (cases "xs = []")
    case True
    then show ?thesis by (simp add: pass.simps)
  next
    case False
    have "set (pass le n xs) = set (take n xs) \<union> set (take n (drop n xs)) \<union> set (drop n (drop n xs))"
      using 1 False by (subst pass.simps) simp
    also have "\<dots> = set (take n xs) \<union> set (drop n xs)"
      by (metis append_take_drop_id set_append Un_assoc)
    finally show ?thesis by (metis append_take_drop_id set_append)
  qed
qed

text \<open>Lists of sorted runs of length \<open>n\<close>.\<close>

function sorted_runs :: "('b \<Rightarrow> 'k::linorder) \<Rightarrow> nat \<Rightarrow> 'b list \<Rightarrow> bool" where
  "sorted_runs f n xs \<longleftrightarrow>
     (if xs = [] \<or> n = 0 then True else sorted (map f (take n xs)) \<and> sorted_runs f n (drop n xs))"
  by pat_completeness auto
termination by (relation "measure (\<lambda>(_, _, xs). length xs)") auto

declare sorted_runs.simps [simp del]

lemma sorted_runs_1: "sorted_runs f 1 xs"
proof (induction xs)
  case (Cons x xs)
  then show ?case by (subst sorted_runs.simps) simp
qed (simp add: sorted_runs.simps)

lemma sorted_runs_step: "sorted_runs f n xs \<Longrightarrow> n > 0 \<Longrightarrow> sorted (map f (take n xs)) \<and> sorted_runs f n (drop n xs)"
  by (cases "xs = []") (auto simp: sorted_runs.simps [of f n xs] sorted_runs.simps [of f n "[]"])

lemma sorted_runs_append:
  "length xs = n \<Longrightarrow> sorted (map f xs) \<Longrightarrow> sorted_runs f n ys \<Longrightarrow> sorted_runs f n (xs @ ys)"
  by (subst sorted_runs.simps) simp

lemma sorted_runs_short: "length xs \<le> n \<Longrightarrow> sorted (map f xs) \<Longrightarrow> sorted_runs f n xs"
  by (subst sorted_runs.simps) (simp add: sorted_runs.simps [of f n "[]"])

lemma sorted_runs_pass:
  "n > 0 \<Longrightarrow> sorted_runs f n xs \<Longrightarrow> sorted_runs f (2 * n) (pass (\<lambda>x y. f x \<le> f y) n xs)"
proof (induction "\<lambda>x y. f x \<le> f y" n xs rule: pass.induct)
  case (1 n xs)
  show ?case
  proof (cases "xs = []")
    case True
    then show ?thesis by (simp add: pass.simps sorted_runs.simps)
  next
    case False
    define m where "m = merge (\<lambda>x y. f x \<le> f y) (take n xs) (take n (drop n xs))"
    define r where "r = pass (\<lambda>x y. f x \<le> f y) n (drop n (drop n xs))"
    have s: "sorted (map f (take n xs))" "sorted (map f (take n (drop n xs)))" "sorted_runs f n (drop n (drop n xs))"
      using sorted_runs_step [OF 1(3,2)] sorted_runs_step [of f n "drop n xs"] 1(2) by auto
    have sm: "sorted (map f m)" unfolding m_def by (rule sorted_merge [OF s(1,2)])
    have p: "pass (\<lambda>x y. f x \<le> f y) n xs = m @ r"
      using False 1(2) by (subst pass.simps) (simp add: m_def r_def)
    have r: "sorted_runs f (2 * n) r" using 1(1) [OF _ 1(2) s(3)] False 1(2) by (simp add: r_def)
    show ?thesis
    proof (cases "2 * n \<le> length xs")
      case True
      then have "length m = 2 * n" by (simp add: m_def)
      then show ?thesis unfolding p using sorted_runs_append [OF _ sm r] by simp
    next
      case False
      then have "r = []" by (simp add: r_def pass.simps)
      moreover have "length m \<le> 2 * n" by (simp add: m_def)
      ultimately show ?thesis unfolding p using sorted_runs_short [OF _ sm] by simp
    qed
  qed
qed

lemma pass_stable:
  "n > 0 \<Longrightarrow> sorted_runs f n xs \<Longrightarrow>
   filter (\<lambda>x. f x = k) (pass (\<lambda>x y. f x \<le> f y) n xs) = filter (\<lambda>x. f x = k) xs"
proof (induction "\<lambda>x y. f x \<le> f y" n xs rule: pass.induct)
  case (1 n xs)
  show ?case
  proof (cases "xs = []")
    case True
    then show ?thesis by (simp add: pass.simps)
  next
    case False
    have s: "sorted (map f (take n xs))" "sorted_runs f n (drop n (drop n xs))"
      using sorted_runs_step [OF 1(3,2)] sorted_runs_step [of f n "drop n xs"] 1(2) by auto
    have "filter (\<lambda>x. f x = k) (pass (\<lambda>x y. f x \<le> f y) n xs) =
        filter (\<lambda>x. f x = k) (take n xs) @ filter (\<lambda>x. f x = k) (take n (drop n xs))
        @ filter (\<lambda>x. f x = k) (drop n (drop n xs))"
      using 1(1) [OF _ 1(2) s(2)] False 1(2) by (subst pass.simps) (simp add: merge_stable [OF s(1)])
    also have "\<dots> = filter (\<lambda>x. f x = k) (take n xs @ take n (drop n xs) @ drop n (drop n xs))"
      by (simp only: filter_append)
    also have "take n xs @ take n (drop n xs) @ drop n (drop n xs) = xs" by (metis append_take_drop_id)
    finally show ?thesis .
  qed
qed

text \<open>The sort on lists, and its equality with the stable sort of the library.\<close>

function sort_passes :: "('b \<Rightarrow> 'b \<Rightarrow> bool) \<Rightarrow> nat \<Rightarrow> 'b list \<Rightarrow> 'b list" where
  "sort_passes le n xs =
     (if length xs \<le> 2 * n \<or> n = 0 then pass le n xs else sort_passes le (n * 2) (pass le n xs))"
  by pat_completeness auto
termination
  by (relation "measure (\<lambda>(_, n, xs). length xs - n)") (auto simp: length_pass)

declare sort_passes.simps [simp del]

lemma stable_mset:
  assumes "\<And>k. filter (\<lambda>x. f x = k) ys = filter (\<lambda>x. f x = k) xs"
  shows "mset ys = mset xs"
proof (rule multiset_eqI)
  fix a
  have "count (mset zs) a = count (mset (filter (\<lambda>x. f x = f a) zs)) a" for zs by simp
  then show "count (mset ys) a = count (mset xs) a" using assms by metis
qed

lemma sort_key_stable_eq:
  assumes "\<And>k. filter (\<lambda>x. f x = k) ys = filter (\<lambda>x. f x = k) xs" "sorted (map f ys)"
  shows "sort_key f xs = ys"
proof (rule properties_for_sort_key)
  show "mset ys = mset xs" by (rule stable_mset [OF assms(1)])
  show "filter (\<lambda>x. f k = f x) ys = filter (\<lambda>x. f k = f x) xs" for k
    using assms(1) [of "f k"] by (simp add: eq_commute)
qed (rule assms(2))

lemma sort_passes_sort_key:
  "n > 0 \<Longrightarrow> sorted_runs f n xs \<Longrightarrow> sort_passes (\<lambda>x y. f x \<le> f y) n xs = sort_key f xs"
proof (induction "\<lambda>x y. f x \<le> f y" n xs rule: sort_passes.induct)
  case (1 n xs)
  define ys where "ys = pass (\<lambda>x y. f x \<le> f y) n xs"
  have st: "filter (\<lambda>x. f x = k) ys = filter (\<lambda>x. f x = k) xs" for k
    unfolding ys_def by (rule pass_stable [OF 1(2,3)])
  have runs: "sorted_runs f (2 * n) ys" unfolding ys_def by (rule sorted_runs_pass [OF 1(2,3)])
  show ?case
  proof (cases "length xs \<le> 2 * n")
    case True
    then have "length ys \<le> 2 * n" unfolding ys_def by (simp only: length_pass [OF 1(2)])
    then have "sorted (map f ys)" using sorted_runs_step [OF runs] 1(2) by simp
    then show ?thesis using True sort_key_stable_eq [OF st] by (simp add: sort_passes.simps [of _ n xs] ys_def)
  next
    case False
    have "sort_passes (\<lambda>x y. f x \<le> f y) (n * 2) ys = sort_key f ys"
      unfolding ys_def by (rule 1(1)) (use False 1(2) runs in \<open>simp_all add: ys_def mult.commute\<close>)
    also have "\<dots> = sort_key f xs"
    proof (rule sort_key_stable_eq [symmetric])
      show "filter (\<lambda>x. f x = k) (sort_key f ys) = filter (\<lambda>x. f x = k) xs" for k
        using st by (simp add: sort_key_stable)
      show "sorted (map f (sort_key f ys))" by simp
    qed
    finally show ?thesis using False 1(2) by (simp add: sort_passes.simps [of _ n xs] ys_def)
  qed
qed

section \<open>Merging chains\<close>

text \<open>The chain along \<open>next\<close> only: this is all the sort reads.\<close>

fun nchain :: "'a heap \<Rightarrow> addr option \<Rightarrow> addr list \<Rightarrow> addr option \<Rightarrow> bool" where
  "nchain h p [] z \<longleftrightarrow> p = z"
| "nchain h p (a # as) z \<longleftrightarrow> p = Some a \<and> h a \<noteq> None \<and> nchain h (next (node h a)) as z"

lemma nchain_upd [simp]: "b \<notin> set as \<Longrightarrow> nchain (h(b := y)) p as z = nchain h p as z"
  by (induction as arbitrary: p) auto

lemma nchain_set_next: "b \<notin> set as \<Longrightarrow> nchain h p as z \<Longrightarrow> nchain (set_next h b q) p as z"
  by (simp add: set_next_def)

lemma nchain_set_prev: "nchain h p as z \<Longrightarrow> nchain (set_prev h b q) p as z"
  by (induction as arbitrary: p) (auto simp: set_prev_def)

lemma nchain_append: "nchain h p (as @ bs) z \<longleftrightarrow> (\<exists>y. nchain h p as y \<and> nchain h y bs z)"
  by (induction as arbitrary: p) auto

lemma links_nchain: "links h p as z \<Longrightarrow> nchain h (first as z) as z"
  by (induction as arbitrary: p) auto

lemma nchain_first: "nchain h p as None \<Longrightarrow> p = first as None"
  by (cases as) auto

lemma links_change_end: "links h p (as @ [a]) n \<Longrightarrow> a \<notin> set as \<Longrightarrow> links (set_next h a m) p (as @ [a]) m"
  by (rule links_set_next)

text \<open>Appending the node \<open>e\<close> to the merged list.\<close>

lemma append_node:
  assumes "links h None out n" "distinct out" "e \<notin> set out" "h e \<noteq> None"
  defines "h1 \<equiv> (case final out None of Some t \<Rightarrow> set_next h t (Some e) | None \<Rightarrow> h)"
  defines "h2 \<equiv> set_prev h1 e (final out None)"
  shows "links h2 None (out @ [e]) (next (node h e))"
    and "set as \<inter> set out = {} \<Longrightarrow> nchain h p as z \<Longrightarrow> nchain h2 p as z"
    and "data (node h2 a) = data (node h a)"
    and "h a \<noteq> None \<Longrightarrow> h2 a \<noteq> None"
proof -
  have l1: "links h1 None out (Some e) \<and> node h1 e = node h e \<and> h1 e \<noteq> None"
  proof (cases out rule: rev_cases)
    case (snoc u t)
    then show ?thesis
      using assms(1-4) links_set_next [of h None u t n "Some e"] by (auto simp: h1_def set_next_def)
  qed (use assms(4) in \<open>simp add: h1_def\<close>)
  then show "links h2 None (out @ [e]) (next (node h e))"
    using assms(3) by (auto simp: links_append h2_def set_prev_def)
  show "data (node h2 a) = data (node h a)"
    by (simp add: h2_def h1_def split: option.split)
  show "h a \<noteq> None \<Longrightarrow> h2 a \<noteq> None"
    by (auto simp: h2_def h1_def set_prev_def set_next_def split: option.split)
  show "nchain h2 p as z" if "set as \<inter> set out = {}" "nchain h p as z"
  proof -
    have "nchain h1 p as z"
    proof (cases out rule: rev_cases)
      case (snoc u t)
      then show ?thesis using that nchain_set_next [of t as h p z] by (auto simp: h1_def)
    qed (use that in \<open>simp add: h1_def\<close>)
    then show ?thesis unfolding h2_def by (rule nchain_set_prev)
  qed
qed

lemma merge_loop_chains:
  assumes "nchain h p ps z" "nchain h q qs None" "distinct (out @ ps @ qs)" "links h None out n"
    "le = (\<lambda>a b. cmp (data (node h a)) (data (node h b)) \<le> 0)"
    "ms = merge le ps (take qsize qs)" "rs = drop qsize qs"
  shows "\<exists>h' n'. merge_loop cmp h p (length ps) q qsize (first out None) (final out None)
        = (h', first (out @ ms) None, final (out @ ms) None, first rs None)
    \<and> nchain h' (first rs None) rs None \<and> links h' None (out @ ms) n'
    \<and> (\<forall>a. data (node h' a) = data (node h a)) \<and> (\<forall>a. h a \<noteq> None \<longrightarrow> h' a \<noteq> None)"
  using assms
proof (induction "length ps + qsize" arbitrary: h p ps q qsize qs out n ms rs rule: less_induct)
  case less
  have q: "q = first qs None" using less.prems(2) by (rule nchain_first)
  show ?case
  proof (cases "ps = [] \<and> (qsize = 0 \<or> qs = [])")
    case True
    then have "merge_loop cmp h p (length ps) q qsize (first out None) (final out None)
        = (h, first out None, final out None, q)"
      using q by (subst merge_loop.simps) auto
    moreover have "ms = []" "rs = qs" using True less.prems(6,7) by auto
    ultimately show ?thesis using less.prems q by auto
  next
    case go: False
    define from_q where "from_q \<longleftrightarrow> ps = [] \<or> (qsize \<noteq> 0 \<and> qs \<noteq> [] \<and> \<not> le (hd ps) (hd qs))"
    define e where "e = (if from_q then hd qs else hd ps)"
    define ps1 where "ps1 = (if from_q then ps else tl ps)"
    define qs1 where "qs1 = (if from_q then tl qs else qs)"
    define qsize1 where "qsize1 = (if from_q then qsize - 1 else qsize)"
    have fq: "from_q \<Longrightarrow> qsize > 0 \<and> qs = e # qs1 \<and> ps1 = ps"
      using go by (cases qs) (auto simp: from_q_def e_def qs1_def ps1_def)
    have fp: "\<not> from_q \<Longrightarrow> ps = e # ps1 \<and> qs1 = qs \<and> qsize1 = qsize"
      by (cases ps) (auto simp: from_q_def e_def qs1_def ps1_def qsize1_def)
    have ms: "ms = e # merge le ps1 (take qsize1 qs1)"
    proof (cases from_q)
      case True
      obtain m where m: "qsize = Suc m" using fq [OF True] by (cases qsize) auto
      have "ms = merge le ps (e # take qsize1 qs1)"
        using fq [OF True] True m by (simp add: less.prems(6) qsize1_def)
      then show ?thesis using True fq [OF True] by (cases ps) (auto simp: from_q_def)
    next
      case False
      have "take qsize qs = [] \<or> (\<exists>ys. take qsize qs = hd qs # ys \<and> le e (hd qs))"
        using False fp [OF False] by (cases qsize; cases qs) (auto simp: from_q_def)
      then show ?thesis using fp [OF False] by (auto simp: less.prems(6))
    qed
    have rs: "rs = drop qsize1 qs1"
      using fq fp less.prems(7) by (cases from_q) (auto simp: qsize1_def drop_Cons')
    have p: "ps \<noteq> [] \<Longrightarrow> p = Some (hd ps)" using less.prems(1) by (cases ps) auto
    have new: "e \<notin> set out" "h e \<noteq> None" "distinct out"
      by (cases from_q; use fq fp less.prems(1,2,3) in \<open>simp; fail\<close>)+
    define h1 where "h1 = (case final out None of Some t \<Rightarrow> set_next h t (Some e) | None \<Rightarrow> h)"
    define h2 where "h2 = set_prev h1 e (final out None)"
    note app = append_node [OF less.prems(4) new(3,1,2), folded h1_def, folded h2_def]
    define p1 where "p1 = (if from_q then p else next (node h e))"
    define q1 where "q1 = (if from_q then next (node h e) else q)"
    have "final out None = None \<longleftrightarrow> out = []" by (simp add: final_def)
    then have f: "(if final out None = None then Some e else first out None) = first (out @ [e]) None"
      by (cases out) auto
    have fromq: "(if length ps = 0 then True
              else if qsize = 0 \<or> q = None then False
              else \<not> cmp (data (node h (the p))) (data (node h (the q))) \<le> 0) = from_q"
      using p q less.prems(5) by (cases qs) (auto simp: from_q_def)
    have e: "(if from_q then q else p) = Some e" using fq fp p q by (cases from_q) auto
    have step: "merge_loop cmp h p (length ps) q qsize (first out None) (final out None)
        = merge_loop cmp h2 p1 (length ps1) q1 qsize1 (first (out @ [e]) None) (Some e)"
    proof -
      have c: "length ps > 0 \<or> qsize > 0 \<and> q \<noteq> None" using go q by (cases qs) auto
      have l: "(if from_q then length ps else length ps - 1) = length ps1" by (simp add: ps1_def)
      have x: "(if from_q then next (node h (the q)) else q) = q1" "(if from_q then p else next (node h (the p))) = p1"
        using e by (auto simp: q1_def p1_def)
      show ?thesis
        by (subst merge_loop.simps)
          (simp only: if_P [OF c] fromq Let_def e l x option.sel f h1_def [symmetric] h2_def [symmetric] qsize1_def [symmetric])
    qed
    have d: "set ps1 \<inter> set out = {}" "set qs1 \<inter> set out = {}" "distinct ((out @ [e]) @ ps1 @ qs1)"
      by (cases from_q; use fq fp less.prems(3) in \<open>auto; fail\<close>)+
    have np: "nchain h p1 ps1 z" and nq: "nchain h q1 qs1 None"
      by (cases from_q; use fq fp less.prems(1,2) in \<open>simp add: p1_def q1_def; fail\<close>)+
    have le2: "le = (\<lambda>a b. cmp (data (node h2 a)) (data (node h2 b)) \<le> 0)" using less.prems(5) app(3) by simp
    have smaller: "length ps1 + qsize1 < length ps + qsize"
      using fq fp by (cases from_q) (auto simp: qsize1_def)
    have np2: "nchain h2 p1 ps1 z" using app(2) [OF d(1)] np by simp
    have nq2: "nchain h2 q1 qs1 None" using app(2) [OF d(2) nq] .
    have l2: "links h2 None (out @ [e]) (next (node h e))" using app(1) .
    from less.hyps [OF smaller np2 nq2 d(3) l2 le2 refl rs] obtain h' n' where
      r: "merge_loop cmp h2 p1 (length ps1) q1 qsize1 (first (out @ [e]) None) (final (out @ [e]) None)
          = (h', first ((out @ [e]) @ merge le ps1 (take qsize1 qs1)) None,
             final ((out @ [e]) @ merge le ps1 (take qsize1 qs1)) None, first rs None)"
        "nchain h' (first rs None) rs None" "links h' None ((out @ [e]) @ merge le ps1 (take qsize1 qs1)) n'"
        "\<forall>a. data (node h' a) = data (node h2 a)" "\<forall>a. h2 a \<noteq> None \<longrightarrow> h' a \<noteq> None"
      by blast
    have oe: "(out @ [e]) @ merge le ps1 (take qsize1 qs1) = out @ ms" by (simp add: ms)
    have "merge_loop cmp h p (length ps) q qsize (first out None) (final out None) =
        (h', first (out @ ms) None, final (out @ ms) None, first rs None)"
      unfolding step using r(1) unfolding oe by simp
    moreover have "links h' None (out @ ms) n'" using r(3) unfolding oe .
    ultimately show ?thesis using r(2,4,5) app(3,4) by auto
  qed
qed

section \<open>Passes over the chain\<close>

lemma walk_chain:
  "nchain h q qs None \<Longrightarrow> qs \<noteq> [] \<Longrightarrow> walk h q i m = (first (drop i qs) None, m + min i (length qs))"
proof (induction i arbitrary: q qs m)
  case 0
  then show ?case using nchain_first by fastforce
next
  case (Suc i)
  obtain a as where qs: "qs = a # as" using Suc.prems(2) by (cases qs) auto
  have n: "q = Some a" "nchain h (next (node h a)) as None" using Suc.prems(1) qs by auto
  have f: "next (node h a) = first as None" using n(2) by (rule nchain_first)
  show ?case
  proof (cases as)
    case Nil
    then show ?thesis using n f qs by simp
  next
    case (Cons b bs)
    then show ?thesis using Suc.IH [OF n(2)] n f qs by simp
  qed
qed

lemma pass_loop_chain:
  assumes "nchain h p xs None" "distinct (out @ xs)" "links h None out n" "insize > 0"
    "le = (\<lambda>a b. cmp (data (node h a)) (data (node h b)) \<le> 0)" "ys = pass le insize xs"
  shows "\<exists>h' m n'. pass_loop cmp h p insize (first out None) (final out None) nm t
        = Some (h', first (out @ ys) None, final (out @ ys) None, nm + m, t + m)
    \<and> links h' None (out @ ys) n' \<and> (\<forall>a. data (node h' a) = data (node h a))
    \<and> (m = 0 \<longleftrightarrow> xs = []) \<and> (m \<le> 1 \<longleftrightarrow> length xs \<le> 2 * insize)"
  using assms
proof (induction "length xs" arbitrary: h p xs out n ys nm t rule: less_induct)
  case less
  have p: "p = first xs None" using less.prems(1) by (rule nchain_first)
  show ?case
  proof (cases "xs = []")
    case True
    then have "ys = []" using less.prems(6) by (simp add: pass.simps)
    moreover have "pass_loop cmp h p insize (first out None) (final out None) nm t
        = Some (h, first out None, final out None, nm, t)"
      using True p by (subst pass_loop.simps) simp
    ultimately show ?thesis using True less.prems(3)
      by (intro exI [of _ h] exI [of _ 0] exI [of _ n]) simp
  next
    case False
    define ps where "ps = take insize xs"
    define qs where "qs = drop insize xs"
    define rs where "rs = drop insize qs"
    define ms where "ms = merge le ps (take insize qs)"
    have xs: "xs = ps @ qs" by (simp add: ps_def qs_def)
    obtain z where ch: "nchain h p ps z" "nchain h z qs None"
      using less.prems(1) unfolding xs nchain_append by blast
    have z: "z = first qs None" using ch(2) by (rule nchain_first)
    have w: "walk h p insize 0 = (first qs None, length ps)"
      using walk_chain [OF less.prems(1) False] by (simp add: qs_def ps_def min.commute)
    have d: "distinct (out @ ps @ qs)" using less.prems(2) xs by simp
    obtain h1 n1 where m: "merge_loop cmp h p (length ps) (first qs None) insize (first out None) (final out None)
          = (h1, first (out @ ms) None, final (out @ ms) None, first rs None)"
        "nchain h1 (first rs None) rs None" "links h1 None (out @ ms) n1"
        "\<forall>a. data (node h1 a) = data (node h a)"
      using merge_loop_chains [OF ch d less.prems(3,5) ms_def rs_def] z by blast
    have step: "pass_loop cmp h p insize (first out None) (final out None) nm t
        = pass_loop cmp h1 (first rs None) insize (first (out @ ms) None) (final (out @ ms) None) (nm + 1) (t + 1)"
    proof -
      obtain x where x: "p = Some x" using False p by (cases xs) auto
      show ?thesis using w m(1) x by (subst pass_loop.simps) simp
    qed
    have ys: "ys = ms @ pass le insize rs"
      using False less.prems(4,6) by (subst (asm) pass.simps) (simp add: ms_def ps_def rs_def qs_def)
    have small: "length rs < length xs" using False less.prems(4) by (simp add: rs_def qs_def)
    have d1: "distinct ((out @ ms) @ rs)"
    proof -
      have "distinct (out @ ps @ take insize qs @ rs)" using d by (simp add: rs_def)
      moreover have "distinct ms" unfolding ms_def using d by (intro distinct_merge) (auto dest: in_set_takeD)
      ultimately show ?thesis by (auto simp: ms_def)
    qed
    have le1: "le = (\<lambda>a b. cmp (data (node h1 a)) (data (node h1 b)) \<le> 0)" using less.prems(5) m(4) by simp
    obtain h' k n' where r: "pass_loop cmp h1 (first rs None) insize (first (out @ ms) None) (final (out @ ms) None)
          (nm + 1) (t + 1) = Some (h', first ((out @ ms) @ pass le insize rs) None,
            final ((out @ ms) @ pass le insize rs) None, nm + 1 + k, t + 1 + k)"
        "links h' None ((out @ ms) @ pass le insize rs) n'" "\<forall>a. data (node h' a) = data (node h1 a)"
        "k = 0 \<longleftrightarrow> rs = []"
      using less.hyps [OF small m(2) d1 m(3) less.prems(4) le1 refl, of "nm + 1" "t + 1"] by blast
    have "Suc k \<le> 1 \<longleftrightarrow> length xs \<le> 2 * insize" using r(4) by (auto simp: rs_def qs_def)
    then show ?thesis using step r(1,2,3) m(4) ys False
      by (intro exI [of _ h'] exI [of _ "Suc k"] exI [of _ n']) simp
  qed
qed

lemma pass_nonempty: "n > 0 \<Longrightarrow> xs \<noteq> [] \<Longrightarrow> pass le n xs \<noteq> []"
  using length_pass by (metis length_0_conv)

lemma distinct_pass: "n > 0 \<Longrightarrow> distinct xs \<Longrightarrow> distinct (pass le n xs)"
  using set_pass [of n le xs] length_pass [of n le xs] by (metis card_distinct distinct_card)

lemma sort_loop_chain:
  assumes "nchain h p xs None" "distinct xs" "xs \<noteq> []" "insize > 0"
    "le = (\<lambda>a b. cmp (data (node h a)) (data (node h b)) \<le> 0)"
  shows "\<exists>h' k. sort_loop cmp h p insize t
        = Some (h', \<lparr>top = first (sort_passes le insize xs) None, tail = final (sort_passes le insize xs) None\<rparr>, k)
    \<and> links h' None (sort_passes le insize xs) None \<and> distinct (sort_passes le insize xs)
    \<and> (\<forall>a. data (node h' a) = data (node h a))"
  using assms
proof (induction le insize xs arbitrary: h p t rule: sort_passes.induct)
  case (1 le insize xs)
  define ys where "ys = pass le insize xs"
  have ys: "ys \<noteq> []" "distinct ys"
    using pass_nonempty distinct_pass "1.prems"(2-4) by (auto simp: ys_def)
  obtain h1 m n1 where r: "pass_loop cmp h p insize None None 0 t
        = Some (h1, first ys None, final ys None, m, t + m)"
      "links h1 None ys n1" "\<forall>a. data (node h1 a) = data (node h a)" "m \<le> 1 \<longleftrightarrow> length xs \<le> 2 * insize"
    using pass_loop_chain [OF "1.prems"(1) _ _ "1.prems"(4,5) ys_def, of "[]" n 0 t for n] "1.prems"(2) by auto
  obtain u a where u: "ys = u @ [a]" using ys(1) by (cases ys rule: rev_cases) auto
  define h2 where "h2 = set_next h1 a None"
  have l2: "links h2 None ys None"
    using links_set_next r(2) ys(2) unfolding h2_def u by (metis distinct_append distinct_singleton
        Int_insert_right disjoint_insert(1) list.set(2) not_distinct_conv_prefix in_set_conv_decomp)
  have d2: "\<forall>b. data (node h2 b) = data (node h b)" using r(3) by (simp add: h2_def)
  have t: "final ys None = Some a" by (simp add: u)
  show ?case
  proof (cases "length xs \<le> 2 * insize")
    case True
    have "sort_loop cmp h p insize t = Some (h2, \<lparr>top = first ys None, tail = Some a\<rparr>, t + m)"
      using r(1,4) True t by (subst sort_loop.simps) (simp add: h2_def)
    moreover have "sort_passes le insize xs = ys" using True by (simp add: sort_passes.simps [of le insize xs] ys_def)
    ultimately show ?thesis using l2 d2 t ys(2) by simp
  next
    case False
    have "sort_loop cmp h p insize t = sort_loop cmp h2 (first ys None) (insize * 2) (t + m)"
      using r(1,4) False t by (subst sort_loop.simps) (simp add: h2_def)
    moreover have "sort_passes le insize xs = sort_passes le (insize * 2) ys"
      using False "1.prems"(4) by (simp add: sort_passes.simps [of le insize xs] ys_def)
    moreover have "nchain h2 (first ys None) ys None" using links_nchain [OF l2] .
    moreover have "le = (\<lambda>a b. cmp (data (node h2 a)) (data (node h2 b)) \<le> 0)" using "1.prems"(5) d2 by simp
    ultimately show ?thesis
      using "1.IH" [folded ys_def, of h2 "first ys None" "t + m"] False "1.prems"(4) ys d2 by auto
  qed
qed

lemma sort_key_map: "map g (sort_key (\<lambda>a. f (g a)) xs) = sort_key f (map g xs)"
proof (rule sort_key_stable_eq [symmetric])
  show "filter (\<lambda>x. f x = k) (map g (sort_key (\<lambda>a. f (g a)) xs)) = filter (\<lambda>x. f x = k) (map g xs)" for k
    using sort_key_stable [of "\<lambda>a. f (g a)" k xs] by (simp add: filter_map comp_def)
  show "sorted (map f (map g (sort_key (\<lambda>a. f (g a)) xs)))"
    using sorted_sort_key [of "\<lambda>a. f (g a)" xs] by (simp add: comp_def)
qed

lemma StackSort_run:
  fixes key :: "'a \<Rightarrow> 'k::linorder"
  assumes "is_stack h s xs" "\<And>x y. cmp x y \<le> 0 \<longleftrightarrow> key x \<le> key y"
  shows "\<exists>k s' h'. StackSort (Some s) (Some cmp) h = Some (k, Some s', h') \<and> 0 \<le> k
    \<and> is_stack h' s' (sort_key key xs)"
proof -
  obtain as where as: "stack_at h s as" "contents h as = xs" using assms(1) by (auto simp: is_stack_def)
  show ?thesis
  proof (cases "as = []")
    case True
    then have "xs = []" "top s = None" using as by (auto simp: stack_at_def)
    then show ?thesis using assms(1) by (simp add: StackSort_def)
  next
    case False
    define g where "g = (\<lambda>a. data (node h a))"
    define le where "le = (\<lambda>a b. key (g a) \<le> key (g b))"
    have le: "le = (\<lambda>a b. cmp (data (node h a)) (data (node h b)) \<le> 0)" by (simp add: le_def g_def assms(2))
    have at: "nchain h (top s) as None" "distinct as"
      using as(1) links_nchain unfolding stack_at_def by fastforce+
    define ys where "ys = sort_passes le 1 as"
    obtain h' k where r: "sort_loop cmp h (top s) 1 0 = Some (h', \<lparr>top = first ys None, tail = final ys None\<rparr>, k)"
        "links h' None ys None" "distinct ys" "\<forall>a. data (node h' a) = data (node h a)"
      using sort_loop_chain [OF at False _ le, of 1 0] unfolding ys_def by auto
    have "ys = sort_key (\<lambda>a. key (g a)) as"
      unfolding ys_def le_def by (rule sort_passes_sort_key [OF _ sorted_runs_1]) simp
    then have "map g ys = sort_key key (map g as)" by (simp add: sort_key_map)
    moreover have "contents h' ys = map g ys" using r(4) by (simp add: contents_def g_def)
    ultimately have "contents h' ys = sort_key key xs" using as(2) by (simp add: contents_def g_def)
    then have "is_stack h' \<lparr>top = first ys None, tail = final ys None\<rparr> (sort_key key xs)"
      using r(2,3) by (auto simp: is_stack_def stack_at_def)
    moreover obtain x where "top s = Some x" using stack_at_empty(1) [OF as(1)] False by (cases "top s") auto
    ultimately show ?thesis using r(1) by (simp add: StackSort_def)
  qed
qed


text \<open>The comparison of the stream list, on strings.\<close>

definition demo_cmp :: "string \<Rightarrow> string \<Rightarrow> int" where
  "demo_cmp a b = int (length a) - int (length b)"


end
