(* ===== verification/RS_Streams.thy ===== *)
theory RS_Streams
  imports RS_RingRead RS_StackSort "HOL-Library.List_Lexorder"
begin

text \<open>
  What readers select: the stream expressions (\<open>UpdatePattern\<close> and the four macros of \<open>ring.h\<close>),
  the sorted list of selected streams (\<open>StreamStackNodeCmp\<close>, \<open>GetStreamsStack\<close> of
  \<open>ringserver-4/src/ring.c\<close>, \<open>SelectedStreams\<close> of \<open>dlclient.c\<close>) and the per-client table of the
  streams that have been transferred (\<open>GetStreamNode\<close> of \<open>clients.c\<close>).
\<close>

section \<open>Expressions\<close>

text \<open>
  The regular expression library: what it compiles, whether just-in-time compilation of the result
  works, and matching, which is negative for no match.
\<close>

datatype jit_result = JitOk | JitUnsupported | JitError

record 're pcre2 =
  compile :: "string \<Rightarrow> 're option"
  jit_compile :: "'re \<Rightarrow> jit_result"
  pcre_match :: "'re matcher"

text \<open>\<open>data_ok\<close> is whether the match data can be allocated; the result is the new \<open>*code\<close>.\<close>

definition UpdatePattern :: "'re pcre2 \<Rightarrow> bool \<Rightarrow> string option \<Rightarrow> int \<times> 're option" where
  "UpdatePattern lib data_ok pattern = (case pattern of
     Some pat \<Rightarrow>
       (case compile lib pat of
          None \<Rightarrow> (-1, None)
        | Some code \<Rightarrow>
            (if \<not> (jit_compile lib code = JitOk \<or> jit_compile lib code = JitUnsupported) then (-1, None)
             else if \<not> data_ok then (-1, None)
             else (0, Some code)))
   | None \<Rightarrow> (0, None))"

definition RingAllowed :: "'re pcre2 \<Rightarrow> 're RingReader \<Rightarrow> string option \<Rightarrow> int \<times> 're RingReader" where
  "RingAllowed lib rd pattern = (case UpdatePattern lib True pattern of (rv, code) \<Rightarrow> (rv, rd\<lparr>allowed := code\<rparr>))"

definition RingForbidden :: "'re pcre2 \<Rightarrow> 're RingReader \<Rightarrow> string option \<Rightarrow> int \<times> 're RingReader" where
  "RingForbidden lib rd pattern = (case UpdatePattern lib True pattern of (rv, code) \<Rightarrow> (rv, rd\<lparr>forbidden := code\<rparr>))"

definition RingMatch :: "'re pcre2 \<Rightarrow> 're RingReader \<Rightarrow> string option \<Rightarrow> int \<times> 're RingReader" where
  "RingMatch lib rd pattern = (case UpdatePattern lib True pattern of (rv, code) \<Rightarrow> (rv, rd\<lparr>rd_match := code\<rparr>))"

definition RingReject :: "'re pcre2 \<Rightarrow> 're RingReader \<Rightarrow> string option \<Rightarrow> int \<times> 're RingReader" where
  "RingReject lib rd pattern = (case UpdatePattern lib True pattern of (rv, code) \<Rightarrow> (rv, rd\<lparr>reject := code\<rparr>))"

lemma UpdatePattern_fails: "UpdatePattern lib ok pattern = (rv, code) \<Longrightarrow> rv \<in> {0, -1} \<and> (rv \<noteq> 0 \<longrightarrow> code = None)"
  by (auto simp: UpdatePattern_def split: option.splits if_splits)

section \<open>The sorted list of streams\<close>

text \<open>\<open>strncmp\<close>: the difference of the first bytes that differ, a terminated string ending as 0.\<close>

fun cmp_chars :: "string \<Rightarrow> string \<Rightarrow> int" where
  "cmp_chars [] [] = 0"
| "cmp_chars [] (b # t) = - int (of_char b)"
| "cmp_chars (a # s) [] = int (of_char a)"
| "cmp_chars (a # s) (b # t) = (if a = b then cmp_chars s t else int (of_char a) - int (of_char b))"

definition chars_key :: "nat \<Rightarrow> string \<Rightarrow> string" where
  "chars_key n s = take n (takeWhile (\<lambda>c. c \<noteq> CHR 0x00) s)"

definition strncmp :: "string \<Rightarrow> string \<Rightarrow> nat \<Rightarrow> int" where
  "strncmp s t n = cmp_chars (chars_key n s) (chars_key n t)"

definition StreamStackNodeCmp :: "RingStream \<Rightarrow> RingStream \<Rightarrow> int" where
  "StreamStackNodeCmp a b = strncmp (st_streamid a) (st_streamid b) MAXSTREAMID"

text \<open>The tests on one stream, in the code's order.\<close>

definition stream_selected :: "'re matcher \<Rightarrow> 're RingReader option \<Rightarrow> RingStream \<Rightarrow> bool" where
  "stream_selected pm reader stream = (case reader of
     None \<Rightarrow> True
   | Some rd \<Rightarrow>
      (if (case allowed rd of Some re \<Rightarrow> pm re (st_streamid stream) < 0 | None \<Rightarrow> False) then False
       else if (case forbidden rd of Some re \<Rightarrow> pm re (st_streamid stream) \<ge> 0 | None \<Rightarrow> False) then False
       else if (case rd_match rd of Some re \<Rightarrow> pm re (st_streamid stream) < 0 | None \<Rightarrow> False) then False
       else if (case reject rd of Some re \<Rightarrow> pm re (st_streamid stream) \<ge> 0 | None \<Rightarrow> False) then False
       else True))"

text \<open>
  The copy of the index taken under the lock is \<open>RBBuildStack\<close>'s list; the result stack is built on
  fresh memory, the allocations succeeding.  The result is none for an error.
\<close>

definition GetStreamsStack :: "'re matcher \<Rightarrow> param_s \<Rightarrow> 're RingReader option \<Rightarrow> RingStream smem option" where
  "GetStreamsStack pm p reader =
     (let snapshot = RBBuildStack (streamidx p);
          (newstreams, h, brk) = foldl (\<lambda>m stream. if stream_selected pm reader stream then smem_unshift m stream else m)
             smem_create snapshot
      in if top newstreams \<noteq> None \<and> top newstreams \<noteq> tail newstreams then
           (case StackSort (Some newstreams) (Some StreamStackNodeCmp) h of
              Some (rv, Some s', h') \<Rightarrow> (if rv < 0 then None else Some (s', h', brk))
            | _ \<Rightarrow> None)
         else Some (newstreams, h, brk))"

text \<open>The counting loop, which frees each entry; popping no stack yields nothing.\<close>

partial_function (option) count_loop :: "'a smem \<Rightarrow> int \<Rightarrow> int option" where
  "count_loop m streamcnt = (case smem_pop m of
     (None, m') \<Rightarrow> Some streamcnt
   | (Some x, m') \<Rightarrow> count_loop m' (streamcnt + 1))"

definition SelectedStreams :: "'re matcher \<Rightarrow> param_s \<Rightarrow> 're RingReader \<Rightarrow> int option" where
  "SelectedStreams pm p reader = (case GetStreamsStack pm p (Some reader) of
     None \<Rightarrow> Some 0
   | Some m \<Rightarrow> count_loop m 0)"

section \<open>The streams of a client\<close>

definition MAX_STREAMS_PER_CLIENT :: int where "MAX_STREAMS_PER_CLIENT = 100000"

datatype Conversion = CONVERT_NONE | CONVERT_MSEED3

record StreamNode =
  sn_streamid :: string
  txpackets :: u64
  txbytes :: u64
  rxpackets :: u64
  rxbytes :: u64
  endtimereached :: bool
  convert :: Conversion

definition new_StreamNode :: "string \<Rightarrow> StreamNode" where
  "new_StreamNode sid = \<lparr>sn_streamid = take (MAXSTREAMID - 1) sid, txpackets = 0, txbytes = 0, rxpackets = 0,
     rxbytes = 0, endtimereached = False, convert = CONVERT_NONE\<rparr>"

text \<open>
  The result is the node, if there is one, the tree and the value of \<open>*new\<close>, which a failure
  leaves at \<open>new0\<close>; the two allocations succeed together or not.
\<close>

definition GetStreamNode ::
  "bool \<Rightarrow> (u64 \<rightharpoonup> StreamNode) \<Rightarrow> string \<Rightarrow> int \<Rightarrow> int \<Rightarrow> StreamNode option \<times> (u64 \<rightharpoonup> StreamNode) \<times> int" where
  "GetStreamNode malloc_ok tree sid streams_count new0 =
     (let key = FNVhash64 (Some sid)
      in case tree key of
           Some stream \<Rightarrow> (Some stream, tree, 0)
         | None \<Rightarrow>
            (if streams_count \<ge> MAX_STREAMS_PER_CLIENT then (None, tree, new0)
             else if \<not> malloc_ok then (None, tree, new0)
             else (Some (new_StreamNode sid), tree(key \<mapsto> new_StreamNode sid), 1)))"

text \<open>Writing through the \<open>StreamNode\<close> pointer.\<close>

definition UpdStreamNode :: "(u64 \<rightharpoonup> StreamNode) \<Rightarrow> string \<Rightarrow> (StreamNode \<Rightarrow> StreamNode) \<Rightarrow> (u64 \<rightharpoonup> StreamNode)" where
  "UpdStreamNode tree sid f = (let key = FNVhash64 (Some sid) in tree(key := map_option f (tree key)))"

interpretation clientidx: keyed_index
  "\<lambda>sid. FNVhash64 (Some sid)" "\<lambda>_. True" "\<lambda>t sid. t (FNVhash64 (Some sid))"
  "\<lambda>t sid v. t(FNVhash64 (Some sid) \<mapsto> v)" "\<lambda>t sid. t(FNVhash64 (Some sid) := None)"
  by unfold_locales auto

section \<open>Properties\<close>

text \<open>The comparison orders the identifiers by their first bytes.\<close>

definition stream_key :: "RingStream \<Rightarrow> nat list" where
  "stream_key s = map of_char (chars_key MAXSTREAMID (st_streamid s))"

lemma cmp_chars_key:
  "CHR 0x00 \<notin> set s \<Longrightarrow> CHR 0x00 \<notin> set t \<Longrightarrow>
   cmp_chars s t \<le> 0 \<longleftrightarrow> (map of_char s :: nat list) \<le> map of_char t"
proof (induction s t rule: cmp_chars.induct)
  case (3 a s)
  have "char_of (0 :: nat) = CHR 0x00" by (simp add: char_of_def)
  then have "(of_char a :: nat) \<noteq> 0" using 3 char_of_char [of a] by (metis list.set_intros(1))
  then show ?case by simp
next
  case (4 a s b t)
  then show ?case by (auto simp: of_char_eq_iff order.strict_iff_order)
qed auto

lemma StreamStackNodeCmp_key: "StreamStackNodeCmp a b \<le> 0 \<longleftrightarrow> stream_key a \<le> stream_key b"
proof -
  have "CHR 0x00 \<notin> set (chars_key n s)" for n s
    by (auto simp: chars_key_def dest: in_set_takeD set_takeWhileD)
  then show ?thesis by (simp add: StreamStackNodeCmp_def strncmp_def stream_key_def cmp_chars_key)
qed

lemma filtered_unshift:
  "foldl (\<lambda>m x. if P x then smem_unshift m x else m) m xs = foldl smem_unshift m (filter P xs)"
  by (induction xs arbitrary: m) auto

lemma count_loop_stack: "is_stack h s xs \<Longrightarrow> count_loop (s, h, brk) n = Some (n + int (length xs))"
proof (induction xs arbitrary: s h n)
  case Nil
  then have "stack_at h s []" by (auto simp: is_stack_def contents_def)
  then show ?case by (subst count_loop.simps) (simp add: smem_pop_def StackPop_empty)
next
  case (Cons x xs)
  then obtain a as where at: "stack_at h s (a # as)" "data (node h a) = x" "contents h as = xs"
    by (auto simp: is_stack_def contents_def)
  then obtain s' h' where r: "StackPop s h = (Some x, s', h')" "stack_at h' s' as" "contents h' as = xs"
    using StackPop_at by blast
  then have "is_stack h' s' xs" by (auto simp: is_stack_def)
  from Cons.IH [OF this] show ?case by (subst count_loop.simps) (simp add: smem_pop_def r)
qed

lemma GetStreamsStack_run:
  "\<exists>s h brk. GetStreamsStack pm p reader = Some (s, h, brk)
    \<and> is_stack h s (sort_key stream_key (filter (stream_selected pm reader) (RBBuildStack (streamidx p))))"
proof -
  let ?xs = "filter (stream_selected pm reader) (RBBuildStack (streamidx p))"
  obtain s h brk where m: "foldl smem_unshift smem_create ?xs = (s, h, brk)" by (metis prod_cases3)
  then have st: "is_stack h s ?xs" using stk.filled [of ?xs] by (simp add: smem_rep_def)
  then obtain as where as: "stack_at h s as" "contents h as = ?xs" by (auto simp: is_stack_def)
  have run: "GetStreamsStack pm p reader = (if top s \<noteq> None \<and> top s \<noteq> tail s then
           (case StackSort (Some s) (Some StreamStackNodeCmp) h of
              Some (rv, Some s', h') \<Rightarrow> (if rv < 0 then None else Some (s', h', brk))
            | _ \<Rightarrow> None)
         else Some (s, h, brk))"
    unfolding GetStreamsStack_def Let_def filtered_unshift m prod.case by (rule refl)
  show ?thesis
  proof (cases "top s \<noteq> None \<and> top s \<noteq> tail s")
    case True
    obtain k s' h' where "StackSort (Some s) (Some StreamStackNodeCmp) h = Some (k, Some s', h')" "0 \<le> k"
        "is_stack h' s' (sort_key stream_key ?xs)"
      using StackSort_run [OF st, of StreamStackNodeCmp stream_key, OF StreamStackNodeCmp_key] by blast
    then show ?thesis using run True by simp
  next
    case False
    have "length as \<le> 1"
    proof (rule ccontr)
      assume "\<not> length as \<le> 1"
      then obtain a b bs where "as = a # b # bs" by (metis le_cases list.size(3) One_nat_def Suc_le_eq le_SucE length_Suc_conv list.exhaust not_less_eq_eq)
      then show False using False as(1) by (auto simp: stack_at_def final_def split: if_splits)
    qed
    then have "length ?xs \<le> 1" using as(2) by (metis contents_def length_map)
    then have "sort_key stream_key ?xs = ?xs" by (cases ?xs) (auto simp: insort_key.simps)
    then show ?thesis using run False st by auto
  qed
qed

text \<open>
  \<open>GetStreamsStack\<close> always returns, and the stack it returns holds exactly the streams of the
  index that pass the reader's four expressions, sorted by the first 64 characters of their
  identifiers; \<open>SelectedStreams\<close> is their number.  Its tests are those of the packet scans.
\<close>

theorem GetStreamsStack_sorted_selection:
  assumes "finite (dom (streamidx p))"
  shows "\<exists>s h brk. GetStreamsStack pm p (Some rd) = Some (s, h, brk)
      \<and> is_stack h s (sort_key stream_key (filter (stream_selected pm (Some rd)) (RBBuildStack (streamidx p))))
      \<and> SelectedStreams pm p rd
          = Some (int (card {k. \<exists>st. streamidx p k = Some st \<and> stream_selected pm (Some rd) st}))
      \<and> (\<forall>st. length (st_streamid st) \<le> MAXSTREAMID
          \<longrightarrow> stream_selected pm (Some rd) st = selects pm rd (st_streamid st))"
proof -
  let ?P = "stream_selected pm (Some rd)" and ?idx = "streamidx p"
  obtain s h brk where g: "GetStreamsStack pm p (Some rd) = Some (s, h, brk)"
      "is_stack h s (sort_key stream_key (filter ?P (RBBuildStack ?idx)))"
    using GetStreamsStack_run by blast
  have "length (filter ?P (RBBuildStack ?idx)) = length (filter (?P \<circ> (the \<circ> ?idx)) (sorted_list_of_set (dom ?idx)))"
    by (simp add: RBBuildStack_def filter_map comp_def)
  also have "\<dots> = card (set (filter (?P \<circ> (the \<circ> ?idx)) (sorted_list_of_set (dom ?idx))))"
    by (rule distinct_card [symmetric]) simp
  also have "set (filter (?P \<circ> (the \<circ> ?idx)) (sorted_list_of_set (dom ?idx))) = {k. \<exists>st. ?idx k = Some st \<and> ?P st}"
    using assms by (auto simp: dom_def)
  finally have "SelectedStreams pm p rd = Some (int (card {k. \<exists>st. ?idx k = Some st \<and> ?P st}))"
    using count_loop_stack [OF g(2)] g(1) by (simp add: SelectedStreams_def)
  moreover have "?P st = selects pm rd (st_streamid st)" if "length (st_streamid st) \<le> MAXSTREAMID" for st
    using that by (auto simp: stream_selected_def selects_def Let_def not_less split: option.splits)
  ultimately show ?thesis using g by blast
qed

definition demo_stream :: "string \<Rightarrow> RingStream" where
  "demo_stream sid = \<lparr>earliestdstime = 0, earliestdetime = 0, earliestptime = 0, earliestid = 1,
     st_earliestoffset = 0, latestdstime = 0, latestdetime = 0, latestptime = 0, latestid = 1,
     st_latestoffset = 0, st_streamid = sid\<rparr>"

definition demo_index :: "u64 \<rightharpoonup> RingStream" where
  "demo_index = [1 \<mapsto> demo_stream ''XX_B'', 2 \<mapsto> demo_stream ''XX_A'', 3 \<mapsto> demo_stream ''YY_C'']"

definition demo_index_ring :: param_s where
  "demo_index_ring = \<lparr>ringmem = \<lambda>_. \<lparr>hdr = empty_packet, payload = []\<rparr>, pktsize = 512, maxpackets = 4,
     maxoffset = 1536, earliestoffset = -1, latestoffset = -1, streamidx = demo_index, streamcount = 3,
     config_pktsize = 512, version = 3, ringsize = 2048, headersize = 128\<rparr>"

definition rejecting_reader :: "string RingReader" where
  "rejecting_reader = \<lparr>pktoffset = -1, rd_pktid = RINGID_NONE, rd_pkttime = 0, allowed = None, forbidden = None,
     rd_match = None, reject = Some ''YY''\<rparr>"

definition starts_with :: "string matcher" where
  "starts_with re sid = (if take (length re) sid = re then 1 else -1)"

theorem GetStreamsStack_sorted_selection_witness:
  "SelectedStreams starts_with demo_index_ring rejecting_reader = Some 2"
proof -
  have "{k. \<exists>st. demo_index k = Some st \<and> stream_selected starts_with (Some rejecting_reader) st} = {1, 2}"
    by (auto simp: demo_index_def stream_selected_def rejecting_reader_def starts_with_def demo_stream_def split: if_splits)
  then show ?thesis
    using GetStreamsStack_sorted_selection [of demo_index_ring starts_with rejecting_reader]
    by (auto simp: demo_index_ring_def demo_index_def)
qed

end
