(* ===== verification/RS_Auth.thy ===== *)
theory RS_Auth
  imports RS_Send RS_Streams
begin

text \<open>
  The state of a client connection (\<open>ClientInfo\<close> of \<open>ringserver-4/src/clients.h\<close>, the parts the
  DataLink protocol uses) and \<open>ringserver-4/src/auth.c\<close>: the authentication of a client by an external
  program and the permissions taken from its JSON answer.  The program and the JSON parser are
  parameters; the allocations succeed.
\<close>

section \<open>The client\<close>

definition AUTHENTICATED :: u32 where "AUTHENTICATED = push_bit 1 1"
definition CONNECT_PERMISSION :: u32 where "CONNECT_PERMISSION = push_bit 2 1"
definition WRITE_PERMISSION :: u32 where "WRITE_PERMISSION = push_bit 3 1"
definition TRUST_PERMISSION :: u32 where "TRUST_PERMISSION = push_bit 4 1"

lemmas permission_defs = AUTHENTICATED_def CONNECT_PERMISSION_def WRITE_PERMISSION_def TRUST_PERMISSION_def

datatype AuthMethod = AUTH_NONE | AUTH_USERPASS | AUTH_JWT
datatype ClientState = STATE_COMMAND | STATE_STATION | STATE_RINGCONFIG | STATE_STREAM

text \<open>\<open>dlinfo\<close> is \<open>extinfo\<close> with the compiled pattern of legacy stream identifiers.\<close>

record 're ClientInfo = ClientSendInfo +
  sendbuf :: "byte list"
  sendbufsize :: nat
  packet :: RingPacket
  clientid :: string
  state :: ClientState
  permissions :: u32
  auth_method :: AuthMethod
  auth_username :: string
  reader :: "'re RingReader"
  allowedstr :: "string option"
  forbiddenstr :: "string option"
  matchstr :: "string option"
  rejectstr :: "string option"
  streams :: "u64 \<rightharpoonup> StreamNode"
  streamscount :: int
  txpackets0 :: u64
  txbytes0 :: u64
  rxpackets0 :: u64
  rxbytes0 :: u64
  dlinfo :: "'re option option"

definition permitted :: "'re ClientInfo \<Rightarrow> u32 \<Rightarrow> bool" where
  "permitted c perm \<longleftrightarrow> and (permissions c) perm \<noteq> 0"

section \<open>JSON answers\<close>

text \<open>The values of the parser and the accessors that are used: the first member of that name.\<close>

datatype json = JNull | JBool bool | JNum int | JStr string | JArr "json list" | JObj "(string \<times> json) list"

fun obj_get :: "json \<Rightarrow> string \<Rightarrow> json option" where
  "obj_get (JObj ms) key = map_of ms key"
| "obj_get _ key = None"

definition get_bool :: "json option \<Rightarrow> bool" where
  "get_bool v \<longleftrightarrow> v = Some (JBool True)"

fun get_str :: "json option \<Rightarrow> string option" where
  "get_str (Some (JStr s)) = Some s"
| "get_str _ = None"

text \<open>The environment: the parser, the program (exit status and output), the expression library.\<close>

record 're auth_env =
  json_read :: "string \<Rightarrow> json option"
  auth_program :: bool
  run_auth :: "string list \<Rightarrow> int \<times> string"
  re_lib :: "'re pcre2"

section \<open>\<open>ApplyPermissionsJSON\<close>\<close>

definition AUTH_MAX_COMPOUND_PATTERN_SIZE :: u64 where "AUTH_MAX_COMPOUND_PATTERN_SIZE = 64 * 1024"

text \<open>The total size of the pattern, in \<open>size_t\<close> arithmetic, or none when it is refused.\<close>

fun compound_size :: "json list \<Rightarrow> u64 \<Rightarrow> u64 option" where
  "compound_size [] pattern_size = Some pattern_size"
| "compound_size (JStr s # els) pattern_size =
     (let element_size = of_nat (length s)
      in if element_size > AUTH_MAX_COMPOUND_PATTERN_SIZE \<or>
            pattern_size > AUTH_MAX_COMPOUND_PATTERN_SIZE - element_size - 1 then None
         else compound_size els (pattern_size + (element_size + 1)))"
| "compound_size (_ # els) pattern_size = compound_size els pattern_size"

definition BAR :: char where "BAR = CHR 0x7C"

text \<open>The concatenation loop; \<open>strncat\<close> stops at a NUL.\<close>

fun compound_cat :: "json list \<Rightarrow> string \<Rightarrow> string" where
  "compound_cat [] acc = acc"
| "compound_cat (JStr s # els) acc =
     (if length s > 0 then compound_cat els (acc @ takeWhile (\<lambda>c. c \<noteq> CHR 0x00) s @ [BAR])
      else compound_cat els acc)"
| "compound_cat (_ # els) acc = compound_cat els acc"

text \<open>The text before the last bar, which the terminator replaces.\<close>

definition cut_last_bar :: "string \<Rightarrow> string" where
  "cut_last_bar s = (if BAR \<in> set s then rev (tl (dropWhile (\<lambda>c. c \<noteq> BAR) (rev s))) else s)"

text \<open>The elements of a member that is a non-empty array.\<close>

definition stream_array :: "json \<Rightarrow> string \<Rightarrow> json list option" where
  "stream_array root key = (case obj_get root key of
     Some (JArr els) \<Rightarrow> if length els > 0 then Some els else None
   | _ \<Rightarrow> None)"

definition apply_allowed :: "'re pcre2 \<Rightarrow> json \<Rightarrow> 're ClientInfo \<Rightarrow> int \<times> 're ClientInfo" where
  "apply_allowed lib root c = (case stream_array root ''allowed_streams'' of
     None \<Rightarrow> (0, c)
   | Some els \<Rightarrow>
      (case compound_size els 0 of
         None \<Rightarrow> (-1, c)
       | Some pattern_size \<Rightarrow>
          (let pat = cut_last_bar (compound_cat els []);
               c1 = c\<lparr>allowedstr := (if pat = [] then None else Some pat)\<rparr>;
               (rv, rd) = RingAllowed lib (reader c1) (allowedstr c1);
               c2 = c1\<lparr>reader := rd\<rparr>
           in if rv < 0 then (-1, c2) else (0, c2))))"

definition apply_forbidden :: "'re pcre2 \<Rightarrow> json \<Rightarrow> 're ClientInfo \<Rightarrow> int \<times> 're ClientInfo" where
  "apply_forbidden lib root c = (case stream_array root ''forbidden_streams'' of
     None \<Rightarrow> (0, c)
   | Some els \<Rightarrow>
      (case compound_size els 0 of
         None \<Rightarrow> (-1, c)
       | Some pattern_size \<Rightarrow>
          (let pat = cut_last_bar (compound_cat els []);
               c1 = c\<lparr>forbiddenstr := (if pat = [] then None else Some pat)\<rparr>;
               (rv, rd) = RingForbidden lib (reader c1) (forbiddenstr c1);
               c2 = c1\<lparr>reader := rd\<rparr>
           in if rv < 0 then (-1, c2) else (0, c2))))"

definition apply_flags :: "json \<Rightarrow> 're ClientInfo \<Rightarrow> 're ClientInfo" where
  "apply_flags root c =
     (let c0 = c\<lparr>permissions := 0\<rparr>;
          c1 = (case get_str (obj_get root ''username'') of
                  Some username_str \<Rightarrow> c0\<lparr>auth_username := take 127 username_str\<rparr> | None \<Rightarrow> c0);
          c2 = (if get_bool (obj_get root ''authenticated'')
                then c1\<lparr>permissions := or (or (permissions c1) AUTHENTICATED) CONNECT_PERMISSION\<rparr> else c1);
          c3 = (if get_bool (obj_get root ''write_permission'')
                then c2\<lparr>permissions := or (permissions c2) WRITE_PERMISSION\<rparr> else c2)
      in (if get_bool (obj_get root ''trust_permission'')
          then c3\<lparr>permissions := or (permissions c3) TRUST_PERMISSION\<rparr> else c3))"

definition ApplyPermissionsJSON :: "'re auth_env \<Rightarrow> 're ClientInfo \<Rightarrow> string \<Rightarrow> int \<times> 're ClientInfo" where
  "ApplyPermissionsJSON env c json_string = (case json_read env json_string of
     None \<Rightarrow> (-1, c)
   | Some root \<Rightarrow>
      (case apply_allowed (re_lib env) root (apply_flags root c) of (rv, c1) \<Rightarrow>
         if rv \<noteq> 0 then (-1, c1)
         else (case apply_forbidden (re_lib env) root c1 of (rv2, c2) \<Rightarrow> if rv2 \<noteq> 0 then (-1, c2) else (0, c2))))"

section \<open>\<open>PerformAuth\<close>\<close>

text \<open>An argument that is not null and not empty.\<close>

definition given :: "string option \<Rightarrow> bool" where "given s \<longleftrightarrow> s \<noteq> None \<and> s \<noteq> Some []"

text \<open>
  One of the three variables: what it adds to the environment of the program, or none when it does
  not fit its 1024 bytes.
\<close>

definition auth_variable :: "string \<Rightarrow> string option \<Rightarrow> string list option" where
  "auth_variable name s =
     (if given s then
        (let v = name @ the s in if length v \<ge> 1024 then None else Some [v])
      else Some [])"

definition ExecuteAuthProgram :: "'re auth_env \<Rightarrow> string list \<Rightarrow> int \<times> string" where
  "ExecuteAuthProgram env envp = (if \<not> auth_program env then (-1, []) else run_auth env envp)"

definition PerformAuth ::
  "'re auth_env \<Rightarrow> 're ClientInfo \<Rightarrow> string option \<Rightarrow> string option \<Rightarrow> string option \<Rightarrow> int \<times> 're ClientInfo" where
  "PerformAuth env c username password jwtoken =
     (case (auth_variable ''AUTH_USERNAME='' username, auth_variable ''AUTH_PASSWORD='' password,
            auth_variable ''AUTH_JWTOKEN='' jwtoken) of
        (Some u, Some pw, Some j) \<Rightarrow>
          (case ExecuteAuthProgram env (u @ pw @ j) of (status, outp) \<Rightarrow>
             if status \<noteq> 0 then (-1, c)
             else (case ApplyPermissionsJSON env c outp of (rv, c1) \<Rightarrow>
                if rv \<noteq> 0 then (-1, c1)
                else if permitted c1 AUTHENTICATED then
                  (let c2 = (if given jwtoken then c1\<lparr>auth_method := AUTH_JWT\<rparr>
                             else if given username then c1\<lparr>auth_method := AUTH_USERPASS\<rparr> else c1)
                   in (0, if auth_username c2 = [] \<and> given username
                          then c2\<lparr>auth_username := take 127 (the username)\<rparr> else c2))
                else (0, c1)))
      | _ \<Rightarrow> (-1, c))"

section \<open>Properties\<close>

text \<open>The permissions an answer grants.\<close>

definition granted :: "json \<Rightarrow> u32" where
  "granted root =
     (let a = (if get_bool (obj_get root ''authenticated'') then or AUTHENTICATED CONNECT_PERMISSION else 0);
          w = (if get_bool (obj_get root ''write_permission'') then WRITE_PERMISSION else 0);
          t = (if get_bool (obj_get root ''trust_permission'') then TRUST_PERMISSION else 0)
      in or (or a w) t)"

text \<open>The strings of an array, up to a NUL, without the empty ones; and their alternation.\<close>

fun array_strings :: "json list \<Rightarrow> string list" where
  "array_strings [] = []"
| "array_strings (JStr s # els) = (if s = [] then array_strings els
     else takeWhile (\<lambda>c. c \<noteq> CHR 0x00) s # array_strings els)"
| "array_strings (_ # els) = array_strings els"

fun alternation :: "string list \<Rightarrow> string" where
  "alternation [] = []"
| "alternation [s] = s"
| "alternation (s # t # ss) = s @ BAR # alternation (t # ss)"

lemma compound_cat_strings: "compound_cat els acc = acc @ concat (map (\<lambda>s. s @ [BAR]) (array_strings els))"
  by (induction els acc rule: compound_cat.induct) auto

lemma cut_last_bar_snoc: "cut_last_bar (s @ [BAR]) = s"
  by (simp add: cut_last_bar_def)

lemma cut_last_bar_alternation: "cut_last_bar (concat (map (\<lambda>s. s @ [BAR]) ss)) = alternation ss"
proof -
  have "ss \<noteq> [] \<Longrightarrow> concat (map (\<lambda>s. s @ [BAR]) ss) = alternation ss @ [BAR]"
    by (induction ss rule: alternation.induct) auto
  then show ?thesis by (cases "ss = []") (auto simp: cut_last_bar_snoc cut_last_bar_def)
qed

lemma apply_flags_simps [simp]:
  "permissions (apply_flags root c) = granted root"
  "reader (apply_flags root c) = reader c"
  by (auto simp: apply_flags_def granted_def Let_def split: option.splits)

text \<open>The expression that an answer puts in force, or the one before when it has no such array.\<close>

definition answer_pattern :: "json \<Rightarrow> string \<Rightarrow> string option option" where
  "answer_pattern root key = map_option
     (\<lambda>els. let pat = alternation (array_strings els) in if pat = [] then None else Some pat) (stream_array root key)"

definition compiled :: "'re pcre2 \<Rightarrow> 're option \<Rightarrow> string option option \<Rightarrow> 're option" where
  "compiled lib old pat = (case pat of None \<Rightarrow> old | Some None \<Rightarrow> None | Some (Some s) \<Rightarrow> compile lib s)"

lemma UpdatePattern_ok: "UpdatePattern lib ok pattern = (0, code) \<Longrightarrow> code = compiled lib old (Some pattern)"
  by (auto simp: UpdatePattern_def compiled_def split: option.splits if_splits)

text \<open>The two steps that install the expressions.\<close>

lemma apply_allowed_result:
  assumes "apply_allowed lib root c = (rv, c')"
  shows "permissions c' = permissions c \<and> forbidden (reader c') = forbidden (reader c) \<and> auth_username c' = auth_username c
    \<and> forbiddenstr c' = forbiddenstr c
    \<and> (rv = 0 \<longrightarrow> allowed (reader c') = compiled lib (allowed (reader c)) (answer_pattern root ''allowed_streams'')
         \<and> allowedstr c' = (case answer_pattern root ''allowed_streams'' of None \<Rightarrow> allowedstr c | Some p \<Rightarrow> p))"
proof (cases "stream_array root ''allowed_streams''")
  case None
  then show ?thesis using assms by (simp add: apply_allowed_def answer_pattern_def compiled_def)
next
  case (Some els)
  define pat where "pat = (if alternation (array_strings els) = [] then None else Some (alternation (array_strings els)))"
  have p: "answer_pattern root ''allowed_streams'' = Some pat" by (simp add: Some answer_pattern_def pat_def Let_def)
  show ?thesis
  proof (cases "compound_size els 0")
    case None
    then show ?thesis using assms Some by (simp add: apply_allowed_def)
  next
    case (Some n)
    obtain r code where u: "UpdatePattern lib True pat = (r, code)" by (cases "UpdatePattern lib True pat")
    have "apply_allowed lib root c = (if r < 0 then -1 else 0, c\<lparr>allowedstr := pat, reader := (reader c)\<lparr>allowed := code\<rparr>\<rparr>)"
      using u \<open>stream_array root _ = Some els\<close> Some
      by (simp add: apply_allowed_def RingAllowed_def compound_cat_strings cut_last_bar_alternation pat_def Let_def)
    moreover have "r < 0 \<or> r = 0" using UpdatePattern_fails [OF u] by auto
    ultimately show ?thesis
      using assms p u UpdatePattern_ok [of lib True pat code "allowed (reader c)"] by (auto split: if_splits)
  qed
qed

lemma apply_forbidden_result:
  assumes "apply_forbidden lib root c = (rv, c')"
  shows "permissions c' = permissions c \<and> allowed (reader c') = allowed (reader c) \<and> auth_username c' = auth_username c
    \<and> allowedstr c' = allowedstr c
    \<and> (rv = 0 \<longrightarrow> forbidden (reader c') = compiled lib (forbidden (reader c)) (answer_pattern root ''forbidden_streams'')
         \<and> forbiddenstr c' = (case answer_pattern root ''forbidden_streams'' of None \<Rightarrow> forbiddenstr c | Some p \<Rightarrow> p))"
proof (cases "stream_array root ''forbidden_streams''")
  case None
  then show ?thesis using assms by (simp add: apply_forbidden_def answer_pattern_def compiled_def)
next
  case (Some els)
  define pat where "pat = (if alternation (array_strings els) = [] then None else Some (alternation (array_strings els)))"
  have p: "answer_pattern root ''forbidden_streams'' = Some pat" by (simp add: Some answer_pattern_def pat_def Let_def)
  show ?thesis
  proof (cases "compound_size els 0")
    case None
    then show ?thesis using assms Some by (simp add: apply_forbidden_def)
  next
    case (Some n)
    obtain r code where u: "UpdatePattern lib True pat = (r, code)" by (cases "UpdatePattern lib True pat")
    have "apply_forbidden lib root c = (if r < 0 then -1 else 0, c\<lparr>forbiddenstr := pat, reader := (reader c)\<lparr>forbidden := code\<rparr>\<rparr>)"
      using u \<open>stream_array root _ = Some els\<close> Some
      by (simp add: apply_forbidden_def RingForbidden_def compound_cat_strings cut_last_bar_alternation pat_def Let_def)
    moreover have "r < 0 \<or> r = 0" using UpdatePattern_fails [OF u] by auto
    ultimately show ?thesis
      using assms p u UpdatePattern_ok [of lib True pat code "forbidden (reader c)"] by (auto split: if_splits)
  qed
qed

text \<open>Every way the two routines can end.\<close>

lemma ApplyPermissionsJSON_run:
  assumes "ApplyPermissionsJSON env c outp = (rv, c')"
  shows "rv = -1 \<and> c' = c \<and> json_read env outp = None \<or>
    (\<exists>root. json_read env outp = Some root \<and> rv \<in> {0, -1} \<and> permissions c' = granted root
      \<and> (rv = 0 \<longrightarrow>
           allowed (reader c') = compiled (re_lib env) (allowed (reader c)) (answer_pattern root ''allowed_streams'')
         \<and> forbidden (reader c') = compiled (re_lib env) (forbidden (reader c)) (answer_pattern root ''forbidden_streams'')))"
proof (cases "json_read env outp")
  case None
  then show ?thesis using assms by (simp add: ApplyPermissionsJSON_def)
next
  case (Some root)
  obtain r1 c1 where a: "apply_allowed (re_lib env) root (apply_flags root c) = (r1, c1)"
    by (cases "apply_allowed (re_lib env) root (apply_flags root c)")
  obtain r2 c2 where f: "apply_forbidden (re_lib env) root c1 = (r2, c2)"
    by (cases "apply_forbidden (re_lib env) root c1")
  show ?thesis
    using assms Some a f apply_allowed_result [OF a] apply_forbidden_result [OF f]
    by (auto simp: ApplyPermissionsJSON_def split: if_splits)
qed

lemma PerformAuth_run:
  assumes "PerformAuth env c username password jwtoken = (rv, c')"
  shows "rv = -1 \<and> c' = c \<or>
    (\<exists>vars outp c1. auth_program env \<and> run_auth env vars = (0, outp) \<and> ApplyPermissionsJSON env c outp = (rv, c1)
      \<and> permissions c' = permissions c1 \<and> reader c' = reader c1 \<and> (rv \<noteq> 0 \<longrightarrow> c' = c1))"
proof (cases "auth_variable ''AUTH_USERNAME='' username = None \<or> auth_variable ''AUTH_PASSWORD='' password = None
    \<or> auth_variable ''AUTH_JWTOKEN='' jwtoken = None \<or> \<not> auth_program env")
  case True
  then show ?thesis using assms by (auto simp: PerformAuth_def ExecuteAuthProgram_def split: option.splits)
next
  case False
  then obtain u pw j where v: "auth_variable ''AUTH_USERNAME='' username = Some u"
      "auth_variable ''AUTH_PASSWORD='' password = Some pw" "auth_variable ''AUTH_JWTOKEN='' jwtoken = Some j" by auto
  obtain status outp where x: "run_auth env (u @ pw @ j) = (status, outp)" by (cases "run_auth env (u @ pw @ j)")
  obtain r c1 where a: "ApplyPermissionsJSON env c outp = (r, c1)" by (cases "ApplyPermissionsJSON env c outp")
  have run: "PerformAuth env c username password jwtoken =
      (if status \<noteq> 0 then (-1, c)
       else if r \<noteq> 0 then (-1, c1)
       else if permitted c1 AUTHENTICATED then
         (let c2 = (if given jwtoken then c1\<lparr>auth_method := AUTH_JWT\<rparr>
                    else if given username then c1\<lparr>auth_method := AUTH_USERPASS\<rparr> else c1)
          in (0, if auth_username c2 = [] \<and> given username
                 then c2\<lparr>auth_username := take 127 (the username)\<rparr> else c2))
       else (0, c1))"
    using False by (simp add: PerformAuth_def ExecuteAuthProgram_def v x a)
  have r: "r \<in> {0, -1}" using ApplyPermissionsJSON_run [OF a] by auto
  show ?thesis
  proof (cases "status = 0")
    case True
    then have "permissions c' = permissions c1 \<and> reader c' = reader c1 \<and> rv = r \<and> (rv \<noteq> 0 \<longrightarrow> c' = c1)"
      using assms r unfolding run by (auto simp: Let_def split: if_splits)
    then show ?thesis using False True x a by blast
  qed (use assms run in simp)
qed



text \<open>A client and an environment to run the routines on.\<close>

definition demo_lib :: "string pcre2" where
  "demo_lib = \<lparr>compile = \<lambda>s. if CHR ''('' \<in> set s then None else Some s, jit_compile = \<lambda>_. JitOk,
     pcre_match = starts_with\<rparr>"

definition demo_answer :: "string \<Rightarrow> json" where
  "demo_answer s = JObj [(''username'', JStr ''ann''), (''authenticated'', JBool True), (''write_permission'', JBool True),
     (''allowed_streams'', JArr [JStr s])]"

definition demo_auth :: "string auth_env" where
  "demo_auth = \<lparr>json_read = \<lambda>s. Some (demo_answer s), auth_program = True, run_auth = \<lambda>vars. (0, ''(X''),
     re_lib = demo_lib\<rparr>"

definition demo_client :: "string ClientInfo" where
  "demo_client = \<lparr>net = [], clock = 0, socketerr = 0, recvbuf = [], recvbufsize = 5120, recvconsumed = 0,
     recvstart = 0, lastxchange = 0, dlcommand = [], outq = [Room 4000], wire = [], websocket = False,
     sendbuf = [], sendbufsize = 32768, packet = empty_packet, clientid = [], state = STATE_COMMAND,
     permissions = 0, auth_method = AUTH_NONE, auth_username = [], reader = rejecting_reader,
     allowedstr = Some ''XX'', forbiddenstr = None, matchstr = None, rejectstr = None, streams = Map.empty,
     streamscount = 0, txpackets0 = 0, txbytes0 = 0, rxpackets0 = 0, rxbytes0 = 0, dlinfo = None\<rparr>"


lemma demo_answer_members:
  "obj_get (demo_answer s) ''authenticated'' = Some (JBool True)"
  "obj_get (demo_answer s) ''write_permission'' = Some (JBool True)"
  "obj_get (demo_answer s) ''allowed_streams'' = Some (JArr [JStr s])"
  by (simp_all add: demo_answer_def)


end
