(* ===== verification/RS_DataLink.thy ===== *)
theory RS_DataLink
  imports RS_Auth
begin

text \<open>
  The DataLink protocol, \<open>ringserver-4/src/dlclient.c\<close>: the reply packets, the handlers of the
  commands, their dispatch and the streaming of packets.  A handler takes the environment, the server
  and the client and returns its C result with the client (and the server, where it writes to the
  ring); a routine that searches the ring by identifier takes the fuel of the environment and returns
  none when it is used up.  Log and access log messages are left out; allocations of reply and
  expression buffers succeed.
\<close>

section \<open>Environment\<close>

text \<open>
  \<open>config.timewinlimit\<close>: the whole ring, a part of it (the floating point product with the number of
  packets), or a limit above one.
\<close>

datatype timewin = WholeRing | PartOfRing "u64 \<Rightarrow> u64" | BadLimit

text \<open>
  \<open>info_xml\<close> builds the INFO documents (type, expression, trust); \<open>archive\<close> is the disk archive, if
  there is one, with whether writing the received record to it fails; \<open>write_time\<close> is the clock
  of \<open>RingWrite\<close>.
\<close>

record 're dl_env =
  auth :: "'re auth_env"
  iotimeout :: nat
  nsent0 :: int
  auth_required :: bool
  timewin :: timewin
  info_xml :: "string \<Rightarrow> string option \<Rightarrow> bool \<Rightarrow> string option"
  archive :: "(byte list \<Rightarrow> u32 \<Rightarrow> bool) option"
  write_time :: nstime
  malloc_ok :: bool
  rfuel :: nat

record server =
  ring :: param_s
  shutdown :: bool

definition io_of :: "'re dl_env \<Rightarrow> server \<Rightarrow> io_config" where
  "io_of env srv = \<lparr>netiotimeout = iotimeout env, shutdownsig = shutdown srv\<rparr>"

abbreviation matcher_of :: "'re dl_env \<Rightarrow> 're matcher" where
  "matcher_of env \<equiv> pcre_match (re_lib (auth env))"

definition snprintf :: "nat \<Rightarrow> string \<Rightarrow> string" where "snprintf n s = take (n - 1) s"

text \<open>The division of C, and the time conversions.\<close>

definition c_div :: "int \<Rightarrow> int \<Rightarrow> int" where "c_div a b = sgn a * sgn b * (\<bar>a\<bar> div \<bar>b\<bar>)"
definition MS_HPTIME2NSTIME :: "int \<Rightarrow> nstime" where "MS_HPTIME2NSTIME t = t * 1000"
definition MS_NSTIME2HPTIME :: "nstime \<Rightarrow> int" where "MS_NSTIME2HPTIME t = c_div t 1000"
definition MS_NSTIME2EPOCH :: "nstime \<Rightarrow> int" where "MS_NSTIME2EPOCH t = c_div t 1000000000"

section \<open>Sending\<close>

definition SendPacket ::
  "'re dl_env \<Rightarrow> server \<Rightarrow> 're ClientInfo \<Rightarrow> string \<Rightarrow> string option \<Rightarrow> u64 \<Rightarrow> bool \<Rightarrow> bool \<Rightarrow> int \<times> 're ClientInfo" where
  "SendPacket env srv c header0 pdata val addvalue addsize =
     (let datalen = (case pdata of Some d \<Rightarrow> length d | None \<Rightarrow> 0);
          header = (if addvalue \<or> addsize then
                      (if addvalue \<and> addsize then snprintf 255 (header0 @ '' '' @ dec (unat val) @ '' '' @ dec datalen)
                       else if addvalue then snprintf 255 (header0 @ '' '' @ dec (unat val))
                       else snprintf 255 (header0 @ '' '' @ dec datalen))
                    else header0);
          headerlen = length header
      in if headerlen > 255 then (-1, c)
         else (let wirepacket = 0x44 # 0x4C # of_nat headerlen # to_bytes header
                     @ (case pdata of Some d \<Rightarrow> to_bytes d | None \<Rightarrow> []);
                   c1 = (if sendbufsize c \<ge> length wirepacket
                         then c\<lparr>sendbuf := overlay (sendbuf c) wirepacket\<rparr> else c);
                   (rv, c2) = SendData (io_of env srv) (nsent0 env) c1 wirepacket False
               in if rv \<noteq> 0 then (-1, c2) else (0, c2)))"

text \<open>A reply with a message, and the one for wrong arguments.\<close>

definition reply :: "'re dl_env \<Rightarrow> server \<Rightarrow> 're ClientInfo \<Rightarrow> string \<Rightarrow> string \<Rightarrow> int \<times> 're ClientInfo" where
  "reply env srv c kind msg = SendPacket env srv c kind (Some msg) 0 True True"

definition dl_arg_error :: "'re dl_env \<Rightarrow> server \<Rightarrow> 're ClientInfo \<Rightarrow> string \<Rightarrow> int \<times> 're ClientInfo" where
  "dl_arg_error env srv c msg = SendPacket env srv c ''ERROR'' (Some msg) 0 True True"

definition us_time :: "nstime \<Rightarrow> int" where "us_time t = (if t \<noteq> 0 then MS_NSTIME2HPTIME t else 0)"

definition ring_header :: "RingPacket \<Rightarrow> string" where
  "ring_header pkt =
     ''PACKET '' @ streamid pkt @ '' '' @ dec (unat (pktid pkt)) @ '' '' @ dec_int (us_time (pkttime pkt))
       @ '' '' @ dec_int (us_time (datastart pkt)) @ '' '' @ dec_int (us_time (dataend pkt))
       @ '' '' @ dec (unat (datasize pkt))"

text \<open>
  The header buffer has 255 bytes, so that a header of just that length would be sent with the
  terminator in place of its last byte.
\<close>

definition SendRingPacket :: "'re dl_env \<Rightarrow> server \<Rightarrow> 're ClientInfo \<Rightarrow> int \<times> 're ClientInfo" where
  "SendRingPacket env srv c =
     (let pkt = packet c;
          headerlen = length (ring_header pkt);
          header = take headerlen (snprintf 255 (ring_header pkt) @ [NUL])
      in if headerlen > 255 then (-1, c)
         else (case SendDataMB (io_of env srv) (nsent0 env) c
                      [[0x44, 0x4C, of_nat headerlen], to_bytes header, take (unat (datasize pkt)) (sendbuf c)] False of
           (rv, c1) \<Rightarrow>
             if rv \<noteq> 0 then (-1, c1)
             else (case GetStreamNode (malloc_ok env) (streams c1) (streamid pkt) (streamscount c1) 0 of
                 (None, _, _) \<Rightarrow> (-1, c1)
               | (Some _, tree, newstream) \<Rightarrow>
                   (0, c1\<lparr>streams := UpdStreamNode tree (streamid pkt) (\<lambda>n. n\<lparr>txpackets := txpackets n + 1,
                             txbytes := txbytes n + ucast (datasize pkt)\<rparr>),
                          streamscount := (if newstream \<noteq> 0 then streamscount c1 + 1 else streamscount c1),
                          txpackets0 := txpackets0 c1 + 1, txbytes0 := txbytes0 c1 + ucast (datasize pkt)\<rparr>))))"

section \<open>WRITE\<close>

text \<open>
  The checks of the parameters, in order: the message of the first that fails, or the stream
  identifier and the flags.  The packet header is filled in as they succeed.
\<close>

definition write_params_error :: string where "write_params_error = ''Error parsing WRITE command parameters''"

definition HandleWrite_parse :: "CmdToken \<Rightarrow> 're ClientInfo \<Rightarrow> (string \<times> 're ClientInfo) + (string \<times> string \<times> 're ClientInfo)" where
  "HandleWrite_parse cmd c =
     (if argc cmd < 6 \<or> argc cmd > 7 \<or> overflow cmd then Inl (write_params_error, c)
      else if length (arg cmd 1) > MAXSTREAMID - 1 then Inl (''Error, stream ID too long'', c)
      else (let sid = take 100 (arg cmd 1); flags = take 100 (arg cmd 4)
            in case (cmdtoken_i64 cmd 2 10, cmdtoken_i64 cmd 3 10) of
                 (Some hpdatastart, Some hpdataend) \<Rightarrow>
                   (case cmdtoken_u32 cmd 5 10 of
                      None \<Rightarrow> Inl (write_params_error, c)
                    | Some sz \<Rightarrow>
                       (let c1 = c\<lparr>packet := (packet c)\<lparr>datasize := sz\<rparr>\<rparr>;
                            times = (\<lambda>p. p\<lparr>datastart := hpdatastart, dataend := hpdataend\<rparr>)
                        in if argc cmd = 7 \<and> CHR ''I'' \<in> set flags then
                             (case cmdtoken_u64 cmd 6 10 of
                                None \<Rightarrow> Inl (write_params_error, c1)
                              | Some wid \<Rightarrow> Inr (sid, flags, c1\<lparr>packet := times ((packet c1)\<lparr>pktid := wid\<rparr>)\<rparr>))
                           else Inr (sid, flags, c1\<lparr>packet := times ((packet c1)\<lparr>pktid := RINGID_NONE\<rparr>)\<rparr>)))
               | _ \<Rightarrow> Inl (write_params_error, c)))"

text \<open>
  The legacy identifier \<open>NN_SSSSS_LL_CCC/MSEED\<close> becomes \<open>FDSN:NN_SSSSS_LL_C_C_C/MSEED\<close>: the text
  up to the last underscore, the three characters after it, the rest.  (A legacy identifier has an
  underscore and three characters after the last one, by the expression that recognises it.)
\<close>

definition before_last :: "char \<Rightarrow> string \<Rightarrow> string" where
  "before_last x s = rev (tl (dropWhile (\<lambda>c. c \<noteq> x) (rev s)))"

definition legacy_translation :: "string \<Rightarrow> string" where
  "legacy_translation sid =
     (let pre = before_last CHR ''_'' sid; post = drop (length pre + 1) sid
      in ''FDSN:'' @ pre @ ''_'' @ [post ! 0] @ ''_'' @ [post ! 1] @ ''_'' @ [post ! 2] @ drop 3 post)"

text \<open>The identifier that is stored, in its buffer of 64 bytes, or the message when it does not fit.\<close>

definition HandleWrite_streamid :: "'re dl_env \<Rightarrow> 're ClientInfo \<Rightarrow> string \<Rightarrow> string + string" where
  "HandleWrite_streamid env c sid =
     (if (case dlinfo c of Some (Some re) \<Rightarrow> matcher_of env re sid > 0 | _ \<Rightarrow> False) then
        (if length (legacy_translation sid) \<ge> MAXSTREAMID then Inl ''Translated legacy stream ID too long''
         else Inr (legacy_translation sid))
      else Inr (take (MAXSTREAMID - 1) sid))"

definition write_denied :: "'re dl_env \<Rightarrow> 're ClientInfo \<Rightarrow> bool" where
  "write_denied env c \<longleftrightarrow> (case allowed (reader c) of
     None \<Rightarrow> False | Some re \<Rightarrow> matcher_of env re (streamid (packet c)) < 0)"

text \<open>From the received data on: archive, ring, counters, acknowledgement.\<close>

definition HandleWrite_store ::
  "'re dl_env \<Rightarrow> server \<Rightarrow> 're ClientInfo \<Rightarrow> string \<Rightarrow> int \<times> 're ClientInfo \<times> server" where
  "HandleWrite_store env srv c flags =
     (if (case archive env of Some fails \<Rightarrow> fails (recvbuf c) (datasize (packet c)) | None \<Rightarrow> False) then
        (-1, snd (reply env srv c ''ERROR'' ''Error writing miniSEED to disk''), srv)
      else (case RingWrite (malloc_ok env) (write_time env) (ring srv) (packet c) (recvbuf c) (datasize (packet c)) of
        (rv, p, pkt) \<Rightarrow>
          (let c1 = c\<lparr>packet := pkt\<rparr>; srv1 = srv\<lparr>ring := p\<rparr>
           in if rv \<noteq> 0 then
                (-1, snd (reply env srv1 c1 ''ERROR'' ''Error adding packet to ring''),
                 if rv = -2 then srv1\<lparr>shutdown := True\<rparr> else srv1)
              else (case GetStreamNode (malloc_ok env) (streams c1) (streamid pkt) (streamscount c1) 0 of
                  (None, _, _) \<Rightarrow> (-1, c1, srv1)
                | (Some _, tree, newstream) \<Rightarrow>
                    (let c2 = c1\<lparr>streams := UpdStreamNode tree (streamid pkt) (\<lambda>n. n\<lparr>rxpackets := rxpackets n + 1,
                                rxbytes := rxbytes n + ucast (datasize pkt)\<rparr>),
                              streamscount := (if newstream \<noteq> 0 then streamscount c1 + 1 else streamscount c1),
                              rxpackets0 := rxpackets0 c1 + 1, rxbytes0 := rxbytes0 c1 + ucast (datasize pkt)\<rparr>;
                         (rv2, c3) = (if CHR ''A'' \<in> set flags
                                      then SendPacket env srv1 c2 ''OK'' None (pktid pkt) True True else (0, c2))
                     in if rv2 \<noteq> 0 then (-1, c3, srv1)
                        else (if socketerr c3 \<noteq> 0 then -1 else 0, c3, srv1))))))"

definition HandleWrite ::
  "'re dl_env \<Rightarrow> server \<Rightarrow> CmdToken \<Rightarrow> 're ClientInfo \<Rightarrow> int \<times> 're ClientInfo \<times> server" where
  "HandleWrite env srv cmd c0 = (case HandleWrite_parse cmd c0 of
     Inl (msg, c1) \<Rightarrow> (-1, snd (reply env srv c1 ''ERROR'' msg), srv)
   | Inr (sid, flags, c1) \<Rightarrow>
      (case HandleWrite_streamid env c1 sid of
         Inl msg \<Rightarrow> (-1, snd (reply env srv (c1\<lparr>packet := (packet c1)\<lparr>streamid :=
                       snprintf MAXSTREAMID (legacy_translation sid)\<rparr>\<rparr>) ''ERROR'' msg), srv)
       | Inr stored \<Rightarrow>
          (let p1 = packet c1;
               c2 = c1\<lparr>packet := p1\<lparr>streamid := stored, datastart := MS_HPTIME2NSTIME (datastart p1),
                                     dataend := MS_HPTIME2NSTIME (dataend p1)\<rparr>\<rparr>
           in if write_denied env c2 then
                (-1, snd (reply env srv c2 ''ERROR''
                   (snprintf 200 (''Error, permission denied for WRITE of stream ID: '' @ stored))), srv)
              else if datasize (packet c2) > pktsize (ring srv) then
                (-1, snd (reply env srv c2 ''ERROR''
                   (snprintf 200 (''Packet size ('' @ dec_int (sint (datasize (packet c2)))
                      @ '') is too large for ring, maximum is '' @ dec_int (sint (pktsize (ring srv))) @ '' bytes''))), srv)
              else (case RecvData (io_of env srv) c2 (unat (datasize (packet c2))) True of (nread, c3) \<Rightarrow>
                 if nread < 0 then (-1, c3, srv) else HandleWrite_store env srv c3 flags))))"

section \<open>READ and INFO\<close>

definition HandleRead ::
  "'re dl_env \<Rightarrow> server \<Rightarrow> CmdToken \<Rightarrow> 're ClientInfo \<Rightarrow> (int \<times> 're ClientInfo) option" where
  "HandleRead env srv cmd c =
     (case (if argc cmd \<noteq> 2 \<or> overflow cmd then None else cmdtoken_u64 cmd 1 10) of
        None \<Rightarrow> Some (reply env srv c ''ERROR'' ''Error parsing READ command parameters'')
      | Some reqid \<Rightarrow>
         (case RingRead (rfuel env) (ring srv) (reader c) reqid (packet c) True of
            None \<Rightarrow> None
          | Some (readid, rd, pkt, pdata) \<Rightarrow>
             (let c1 = c\<lparr>reader := rd, packet := pkt,
                         sendbuf := (case pdata of Some d \<Rightarrow> overlay (sendbuf c) d | None \<Rightarrow> sendbuf c)\<rparr>;
                  finish = (\<lambda>c2. (if socketerr c2 \<noteq> 0 then -1 else 0, c2))
              in Some (if readid = RINGID_ERROR then
                         (case reply env srv c1 ''ERROR'' ''Error reading packet from ring'' of (rv, c2) \<Rightarrow>
                            if rv \<noteq> 0 then (-1, c2) else finish c2)
                       else if readid = RINGID_NONE then
                         (case reply env srv c1 ''ERROR''
                                 (snprintf 100 (''Packet '' @ dec (unat reqid) @ '' not found in ring'')) of (rv, c2) \<Rightarrow>
                            if rv \<noteq> 0 then (-1, c2) else finish c2)
                       else finish (snd (SendRingPacket env srv c1))))))"

definition DLMAXREGEXLEN :: nat where "DLMAXREGEXLEN = 1048576"

text \<open>A received byte string up to its first NUL.\<close>

definition c_string :: "byte list \<Rightarrow> string" where "c_string b = to_str (takeWhile (\<lambda>x. x \<noteq> 0) b)"

text \<open>The final newline of a document is dropped.\<close>

definition trim_newline :: "string \<Rightarrow> string" where
  "trim_newline s = (if s \<noteq> [] \<and> last s = CHR 0x0A then butlast s else s)"

definition HandleInfo_send ::
  "'re dl_env \<Rightarrow> server \<Rightarrow> 're ClientInfo \<Rightarrow> string \<Rightarrow> string option \<Rightarrow> int \<times> 're ClientInfo" where
  "HandleInfo_send env srv c type xmlstr = (case xmlstr of
     None \<Rightarrow> (-1, snd (reply env srv c ''ERROR'' ''Error generating INFO response''))
   | Some xml \<Rightarrow>
      (case SendPacket env srv c type (Some (trim_newline xml)) 0 False True of (rv, c1) \<Rightarrow>
         if rv \<noteq> 0 then (-1, c1) else (if socketerr c1 \<noteq> 0 then -1 else 0, c1)))"

definition HandleInfo_type ::
  "'re dl_env \<Rightarrow> server \<Rightarrow> CmdToken \<Rightarrow> 're ClientInfo \<Rightarrow> string option \<Rightarrow> int \<times> 're ClientInfo" where
  "HandleInfo_type env srv cmd c matchexpr =
     (let trust = permitted c TRUST_PERMISSION
      in if cmdtoken_eq_nocase cmd 1 ''STATUS'' then
           HandleInfo_send env srv c ''INFO STATUS'' (info_xml env ''STATUS'' matchexpr trust)
         else if cmdtoken_eq_nocase cmd 1 ''STREAMS'' then
           HandleInfo_send env srv c ''INFO STREAMS'' (info_xml env ''STREAMS'' matchexpr trust)
         else if cmdtoken_eq_nocase cmd 1 ''CONNECTIONS'' then
           (if \<not> trust then (-1, snd (reply env srv c ''ERROR'' ''Access to CONNECTIONS denied''))
            else HandleInfo_send env srv c ''INFO CONNECTIONS'' (info_xml env ''CONNECTIONS'' matchexpr trust))
         else (-1, snd (reply env srv c ''ERROR'' (snprintf 200 (''Unrecognized INFO request type: '' @ arg cmd 1)))))"

definition too_large :: "string \<Rightarrow> string" where
  "too_large what = what @ '' expression too large, must be <= '' @ dec DLMAXREGEXLEN"

definition HandleInfo :: "'re dl_env \<Rightarrow> server \<Rightarrow> CmdToken \<Rightarrow> 're ClientInfo \<Rightarrow> int \<times> 're ClientInfo" where
  "HandleInfo env srv cmd c =
     (if argc cmd < 2 then (-1, snd (reply env srv c ''ERROR'' ''INFO request has no type''))
      else if argc cmd > 3 \<or> overflow cmd then (-1, snd (reply env srv c ''ERROR'' ''INFO request has extra arguments''))
      else if argc cmd = 3 then
        (case cmdtoken_u64 cmd 2 10 of
           None \<Rightarrow> (-1, snd (reply env srv c ''ERROR'' ''INFO size argument is invalid''))
         | Some sz \<Rightarrow>
            (if unat sz > DLMAXREGEXLEN then
               (-1, snd (reply env srv c ''ERROR'' (snprintf 200 (too_large ''match''))))
             else if unat sz > 0 then
               (case RecvData (io_of env srv) c (unat sz) True of (nread, c1) \<Rightarrow>
                  if nread < 0 then (-1, c1)
                  else HandleInfo_type env srv cmd c1 (Some (c_string (received c1 (unat sz)))))
             else HandleInfo_type env srv cmd c None))
      else HandleInfo_type env srv cmd c None)"

section \<open>Negotiation\<close>

definition DLSERVER_ID :: string where
  "DLSERVER_ID = ''DataLink v1.1 (RingServer/4.5.4) :: DLPROTO:1.1''"

definition Negotiate_ID :: "'re dl_env \<Rightarrow> server \<Rightarrow> CmdToken \<Rightarrow> 're ClientInfo \<Rightarrow> int \<times> 're ClientInfo" where
  "Negotiate_ID env srv cmd c =
     (let c1 = (case cmdtoken_rest_after cmd 1 of Some id0 \<Rightarrow> c\<lparr>clientid := take 255 id0\<rparr> | None \<Rightarrow> c);
          sendbuffer = snprintf 255 (''ID '' @ DLSERVER_ID @ '' PACKETSIZE:''
              @ dec (unat (ucast (pktsize (ring srv)) - of_nat sizeof_RingPacket :: u64))
              @ (if permitted c1 WRITE_PERMISSION then '' WRITE'' else '''')
              @ (if auth_program (auth env) then '' AUTH'' else ''''))
      in SendPacket env srv c1 sendbuffer None 0 False False)"

text \<open>The end of AUTH, reached when \<open>OKGO\<close> is still set.\<close>

definition Auth_finish ::
  "'re dl_env \<Rightarrow> server \<Rightarrow> 're ClientInfo \<Rightarrow> string option \<Rightarrow> string option \<Rightarrow> string option \<Rightarrow> int \<times> 're ClientInfo" where
  "Auth_finish env srv c username password jwtoken =
     (case PerformAuth (auth env) c username password jwtoken of (rv, c1) \<Rightarrow>
        if rv \<noteq> 0 then reply env srv c1 ''ERROR'' ''Error performing authentication''
        else if \<not> permitted c1 CONNECT_PERMISSION then
          reply env srv c1 ''ERROR'' ''Authentication failed, not allowed to connect''
        else reply env srv c1 ''OK'' ''Authentication successful'')"

definition Negotiate_AUTH :: "'re dl_env \<Rightarrow> server \<Rightarrow> CmdToken \<Rightarrow> 're ClientInfo \<Rightarrow> int \<times> 're ClientInfo" where
  "Negotiate_AUTH env srv cmd c =
     (if argc cmd \<noteq> 3 \<or> overflow cmd then dl_arg_error env srv c ''AUTH requires 2 arguments''
      else case cmdtoken_u64 cmd 2 10 of
        None \<Rightarrow> dl_arg_error env srv c ''AUTH size argument is invalid''
      | Some sz \<Rightarrow>
         (if unat sz > 4095 then dl_arg_error env srv c ''AUTH credentials are too large''
          else (case RecvData (io_of env srv) c (unat sz) True of (nread, c1) \<Rightarrow>
             if nread < 0 then (-1, c1)
             else let credential = c_string (received c1 (unat sz))
             in if cmdtoken_eq_nocase cmd 1 ''USERPASS'' then
                  (if CHR 0x0D \<notin> set credential then
                     reply env srv c1 ''ERROR'' (''AUTH USERPASS requires payload of USER'' @ [CHR 0x5C] @ ''rPASS'')
                   else Auth_finish env srv c1 (Some (takeWhile (\<lambda>x. x \<noteq> CHR 0x0D) credential))
                          (Some (tl (dropWhile (\<lambda>x. x \<noteq> CHR 0x0D) credential))) None)
                else if cmdtoken_eq_nocase cmd 1 ''JWT'' then Auth_finish env srv c1 None None (Some credential)
                else (case reply env srv c1 ''ERROR'' ''Unsupported AUTH type'' of (rv, c2) \<Rightarrow>
                   if rv \<noteq> 0 then (-1, c2) else Auth_finish env srv c2 None None None))))"

text \<open>
  POSITION SET: the identifier and the time of the arguments, or the message for the first that is
  wrong; then the positioning, which is taken back when the packet's time differs in its seconds.
\<close>

definition Position_args :: "CmdToken \<Rightarrow> string + (u64 \<times> int option)" where
  "Position_args cmd =
     (if cmdtoken_eq_nocase cmd 2 ''EARLIEST'' then Inr (RINGID_EARLIEST, None)
      else if cmdtoken_eq_nocase cmd 2 ''LATEST'' then Inr (RINGID_LATEST, None)
      else case cmdtoken_u64 cmd 2 10 of
        None \<Rightarrow> Inl ''Error with POSITION SET value''
      | Some pid \<Rightarrow>
         (if argc cmd = 4 then
            (case cmdtoken_i64 cmd 3 10 of
               None \<Rightarrow> Inl ''Error with POSITION SET time''
             | Some hptime \<Rightarrow> Inr (pid, if hptime = - (2 ^ 63) then None else Some hptime))
          else Inr (pid, None)))"

definition Position_set ::
  "'re dl_env \<Rightarrow> server \<Rightarrow> 're ClientInfo \<Rightarrow> u64 \<Rightarrow> int option \<Rightarrow> (int \<times> 're ClientInfo) option" where
  "Position_set env srv c pid hptime =
     (case RingPosition (rfuel env) (ring srv) (reader c) pid NSTUNSET of
        None \<Rightarrow> None
      | Some (position0, rd) \<Rightarrow>
         (let differs = (case hptime of None \<Rightarrow> False
                         | Some t \<Rightarrow> position0 \<le> RINGID_MAXIMUM \<and> MS_NSTIME2EPOCH (rd_pkttime rd) \<noteq> c_div t 1000000);
              position = (if differs then RINGID_NONE else position0);
              c1 = c\<lparr>reader := (if differs then rd\<lparr>pktoffset := pktoffset (reader c), rd_pktid := rd_pktid (reader c),
                                                    rd_pkttime := rd_pkttime (reader c)\<rparr> else rd)\<rparr>
          in Some (if position = RINGID_ERROR then reply env srv c1 ''ERROR'' ''Error positioning reader''
                   else if position = RINGID_NONE \<and> pid \<noteq> RINGID_EARLIEST \<and> pid \<noteq> RINGID_LATEST then
                     reply env srv c1 ''ERROR'' ''Packet not found''
                   else (let sendbuffer = (if position = RINGID_NONE \<and> pid = RINGID_EARLIEST then ''Positioned to EARLIEST packet''
                                           else if position = RINGID_NONE \<and> pid = RINGID_LATEST then ''Positioned to LATEST packet''
                                           else snprintf 255 (''Positioned to packet ID '' @ dec (unat position)))
                         in SendPacket env srv c1 ''OK'' (Some sendbuffer)
                              (if position \<le> RINGID_MAXIMUM then position else 0) True True))))"

definition Position_after ::
  "'re dl_env \<Rightarrow> server \<Rightarrow> CmdToken \<Rightarrow> 're ClientInfo \<Rightarrow> int \<times> 're ClientInfo" where
  "Position_after env srv cmd c = (case cmdtoken_i64 cmd 2 10 of
     None \<Rightarrow> reply env srv c ''ERROR'' ''Error with POSITION AFTER time''
   | Some hptime \<Rightarrow>
      (let nstime = MS_HPTIME2NSTIME hptime;
           result = (case timewin env of
               WholeRing \<Rightarrow> Some (RingAfter (ring srv) (matcher_of env) (reader c) nstime 1)
             | PartOfRing f \<Rightarrow> Some (RingAfterRev (ring srv) (matcher_of env) (reader c) nstime (f (maxpackets (ring srv))) 1)
             | BadLimit \<Rightarrow> None)
       in case result of
            None \<Rightarrow> (-1, snd (reply env srv c ''ERROR'' ''time window search limit is invalid''))
          | Some (pid, rd) \<Rightarrow>
             (let c1 = c\<lparr>reader := rd\<rparr>
              in if pid = RINGID_ERROR then reply env srv c1 ''ERROR'' ''Error positioning reader''
                 else if pid = RINGID_NONE then reply env srv c1 ''ERROR'' ''Packet not found''
                 else SendPacket env srv c1 ''OK''
                        (Some (snprintf 255 (''Positioned to packet ID '' @ dec (unat pid)))) pid True True)))"

definition Negotiate_POSITION ::
  "'re dl_env \<Rightarrow> server \<Rightarrow> CmdToken \<Rightarrow> 're ClientInfo \<Rightarrow> (int \<times> 're ClientInfo) option" where
  "Negotiate_POSITION env srv cmd c =
     (if argc cmd < 3 \<or> argc cmd > 4 \<or> overflow cmd then Some (dl_arg_error env srv c ''POSITION requires 2 or 3 arguments'')
      else if cmdtoken_eq_nocase cmd 1 ''SET'' then
        (case Position_args cmd of
           Inl msg \<Rightarrow> Some (reply env srv c ''ERROR'' msg)
         | Inr (pid, hptime) \<Rightarrow> Position_set env srv c pid hptime)
      else if cmdtoken_eq_nocase cmd 1 ''AFTER'' then Some (Position_after env srv cmd c)
      else Some (reply env srv c ''ERROR'' ''Unsupported POSITION subcommand''))"

text \<open>The reply to a new expression: how many streams are selected now.\<close>

definition selected_reply ::
  "'re dl_env \<Rightarrow> server \<Rightarrow> 're ClientInfo \<Rightarrow> string \<Rightarrow> (int \<times> 're ClientInfo) option" where
  "selected_reply env srv c what = (case SelectedStreams (matcher_of env) (ring srv) (reader c) of
     None \<Rightarrow> None
   | Some selected \<Rightarrow>
      Some (SendPacket env srv c ''OK'' (Some (snprintf 255 (dec_int selected @ '' streams selected after '' @ what)))
              (if selected \<ge> 0 then of_int selected else 0) True True))"

definition Negotiate_MATCH ::
  "'re dl_env \<Rightarrow> server \<Rightarrow> CmdToken \<Rightarrow> 're ClientInfo \<Rightarrow> (int \<times> 're ClientInfo) option" where
  "Negotiate_MATCH env srv cmd c =
     (if argc cmd = 1 then
        (let c1 = c\<lparr>matchstr := None, reader := snd (RingMatch (re_lib (auth env)) (reader c) None)\<rparr>
         in selected_reply env srv c1 ''match'')
      else if argc cmd > 2 \<or> overflow cmd then Some (dl_arg_error env srv c ''MATCH requires a single argument'')
      else case cmdtoken_u64 cmd 1 10 of
        None \<Rightarrow> Some (dl_arg_error env srv c ''MATCH size argument is invalid'')
      | Some sz \<Rightarrow>
         (if unat sz > DLMAXREGEXLEN then Some (reply env srv c ''ERROR'' (snprintf 255 (too_large ''match'')))
          else (case RecvData (io_of env srv) c (unat sz) True of (nread, c1) \<Rightarrow>
             if nread < 0 then Some (-1, c1)
             else (let newmatch = c_string (received c1 (unat sz));
                       (rv, rd) = RingMatch (re_lib (auth env)) (reader c1) (Some newmatch);
                       c2 = c1\<lparr>matchstr := Some newmatch, reader := rd\<rparr>
                   in if rv \<noteq> 0 then Some (reply env srv c2 ''ERROR'' ''Error with match expression'')
                      else selected_reply env srv c2 ''match''))))"

definition Negotiate_REJECT ::
  "'re dl_env \<Rightarrow> server \<Rightarrow> CmdToken \<Rightarrow> 're ClientInfo \<Rightarrow> (int \<times> 're ClientInfo) option" where
  "Negotiate_REJECT env srv cmd c =
     (if argc cmd = 1 then
        (let c1 = c\<lparr>rejectstr := None, reader := snd (RingReject (re_lib (auth env)) (reader c) None)\<rparr>
         in selected_reply env srv c1 ''reject'')
      else if argc cmd > 2 \<or> overflow cmd then Some (dl_arg_error env srv c ''REJECT requires a single argument'')
      else case cmdtoken_u64 cmd 1 10 of
        None \<Rightarrow> Some (dl_arg_error env srv c ''REJECT size argument is invalid'')
      | Some sz \<Rightarrow>
         (if unat sz > DLMAXREGEXLEN then Some (reply env srv c ''ERROR'' (snprintf 255 (too_large ''reject'')))
          else (case RecvData (io_of env srv) c (unat sz) True of (nread, c1) \<Rightarrow>
             if nread < 0 then Some (-1, c1)
             else (let newreject = c_string (received c1 (unat sz));
                       (rv, rd) = RingReject (re_lib (auth env)) (reader c1) (Some newreject);
                       c2 = c1\<lparr>rejectstr := Some newreject, reader := rd\<rparr>
                   in if rv \<noteq> 0 then Some (reply env srv c2 ''ERROR'' ''Error with reject expression'')
                      else selected_reply env srv c2 ''reject''))))"

definition HandleNegotiation ::
  "'re dl_env \<Rightarrow> server \<Rightarrow> CmdToken \<Rightarrow> 're ClientInfo \<Rightarrow> (int \<times> 're ClientInfo) option" where
  "HandleNegotiation env srv cmd c =
     (if cmdtoken_eq_nocase cmd 0 ''ID'' then Some (Negotiate_ID env srv cmd c)
      else if cmdtoken_eq_nocase cmd 0 ''AUTH'' then Some (Negotiate_AUTH env srv cmd c)
      else if cmdtoken_eq_nocase cmd 0 ''POSITION'' then Negotiate_POSITION env srv cmd c
      else if cmdtoken_eq_nocase cmd 0 ''MATCH'' then Negotiate_MATCH env srv cmd c
      else if cmdtoken_eq_nocase cmd 0 ''REJECT'' then Negotiate_REJECT env srv cmd c
      else if cmdtoken_eq_nocase cmd 0 ''BYE'' then Some (-1, c)
      else (case reply env srv c ''ERROR'' ''Unrecognized command'' of (rv, c1) \<Rightarrow>
         Some (if rv \<noteq> 0 then (-1, c1) else (1, c1))))"

section \<open>Dispatch and streaming\<close>

definition LEGACY_MSEED_STREAMID_PATTERN :: string where
  "LEGACY_MSEED_STREAMID_PATTERN = ''^[0-9A-Z]{1,2}_[0-9A-Z]{1,5}_[0-9A-Z]{0,2}_[0-9A-Z]{3}/MSEED$''"

text \<open>The first command of a connection compiles the expression of the legacy identifiers.\<close>

definition dl_start :: "'re dl_env \<Rightarrow> 're ClientInfo \<Rightarrow> int \<times> 're ClientInfo" where
  "dl_start env c = (case dlinfo c of
     Some _ \<Rightarrow> (0, c)
   | None \<Rightarrow>
      (case UpdatePattern (re_lib (auth env)) True (Some LEGACY_MSEED_STREAMID_PATTERN) of (rv, code) \<Rightarrow>
         (rv, c\<lparr>dlinfo := Some code\<rparr>)))"

definition DL_dispatch ::
  "'re dl_env \<Rightarrow> server \<Rightarrow> CmdToken \<Rightarrow> 're ClientInfo \<Rightarrow> (int \<times> 're ClientInfo \<times> server) option" where
  "DL_dispatch env srv cmd c =
     (if cmdtoken_eq_nocase cmd 0 ''WRITE'' then
        (if \<not> permitted c WRITE_PERMISSION then
           Some (-1, snd (reply env srv c ''ERROR'' ''Write permission not granted, no soup for you!''), srv)
         else (case HandleWrite env srv cmd c of (rv, c1, srv1) \<Rightarrow> Some (if rv \<noteq> 0 then -1 else 0, c1, srv1)))
      else if cmdtoken_eq_nocase cmd 0 ''INFO'' then
        (case HandleInfo env srv cmd c of (rv, c1) \<Rightarrow> Some (if rv \<noteq> 0 then -1 else 0, c1, srv))
      else if cmdtoken_eq_nocase cmd 0 ''READ'' then
        (case HandleRead env srv cmd (c\<lparr>state := STATE_COMMAND\<rparr>) of
           None \<Rightarrow> None | Some (rv, c1) \<Rightarrow> Some (if rv \<noteq> 0 then -1 else 0, c1, srv))
      else if cmdtoken_eq_nocase cmd 0 ''ENDSTREAM'' then
        (case SendPacket env srv c ''ENDSTREAM'' None 0 False False of (rv, c1) \<Rightarrow>
           Some (if rv \<noteq> 0 then (-1, c1, srv) else (0, c1\<lparr>state := STATE_COMMAND\<rparr>, srv)))
      else if cmdtoken_eq_nocase cmd 0 ''STREAM'' then
        (if auth_required env \<and> \<not> permitted c AUTHENTICATED then
           Some (-1, snd (reply env srv c ''ERROR'' ''Authentication required for streaming, no soup for you!''), srv)
         else Some (0, c\<lparr>reader := (if rd_pktid (reader c) = RINGID_NONE then (reader c)\<lparr>rd_pktid := RINGID_NEXT\<rparr>
                                     else reader c), state := STATE_STREAM\<rparr>, srv))
      else (case HandleNegotiation env srv cmd
                   (if \<not> cmdtoken_eq_nocase cmd 0 ''ID'' then c\<lparr>state := STATE_COMMAND\<rparr> else c) of
           None \<Rightarrow> None
         | Some (rv, c1) \<Rightarrow> Some (if rv < 0 then -1 else if rv > 0 then 1 else 0, c1, srv)))"

definition DLHandleCmd ::
  "'re dl_env \<Rightarrow> server \<Rightarrow> 're ClientInfo \<Rightarrow> (int \<times> 're ClientInfo \<times> server) option" where
  "DLHandleCmd env srv c = (case dl_start env c of (rv, c1) \<Rightarrow>
     if rv \<noteq> 0 then Some (-1, c1, srv)
     else (case cmdtoken_parse (c_string (dlcommand c1)) of
         None \<Rightarrow> Some (1, c1, srv)
       | Some cmd \<Rightarrow> if argc cmd = 0 then Some (1, c1, srv) else DL_dispatch env srv cmd c1))"

definition DLStreamPackets :: "'re dl_env \<Rightarrow> server \<Rightarrow> 're ClientInfo \<Rightarrow> (int \<times> 're ClientInfo) option" where
  "DLStreamPackets env srv c =
     (case RingReadNext (rfuel env) (ring srv) (matcher_of env) (reader c) (packet c) True of
        None \<Rightarrow> None
      | Some (readid, rd, pkt, pdata) \<Rightarrow>
         (let c1 = c\<lparr>reader := rd, packet := pkt,
                     sendbuf := (case pdata of Some d \<Rightarrow> overlay (sendbuf c) d | None \<Rightarrow> sendbuf c)\<rparr>
          in if readid = RINGID_ERROR then Some (-1, c1)
             else if readid = RINGID_NONE then Some (0, c1)
             else (case SendRingPacket env srv c1 of (rv, c2) \<Rightarrow>
                Some (if rv \<noteq> 0 then (-1, c2) else if socketerr c2 \<noteq> 0 then (-1, c2)
                      else (sint (datasize (packet c2)), c2)))))"

end
