(* ===== verification/RS_DLProps.thy ===== *)
theory RS_DLProps
  imports RS_DataLink RS_RingProps
begin

text \<open>
  What the DataLink protocol of \<open>ringserver-4/src/dlclient.c\<close> guarantees: which commands can change
  the ring, what an accepted WRITE puts there, what a READ sends, that a packet on the wire is read
  back as it was, and what holds in every state of a session.
\<close>

section \<open>Sending leaves the protocol state alone\<close>

text \<open>Two clients that differ in the connection and the send buffer only.\<close>

definition same_session :: "'re ClientInfo \<Rightarrow> 're ClientInfo \<Rightarrow> bool" where
  "same_session c c' \<longleftrightarrow> state c' = state c \<and> permissions c' = permissions c \<and> reader c' = reader c \<and> dlinfo c' = dlinfo c
    \<and> packet c' = packet c \<and> streams c' = streams c \<and> streamscount c' = streamscount c \<and> websocket c' = websocket c
    \<and> recvbuf c' = recvbuf c \<and> recvconsumed c' = recvconsumed c \<and> net c' = net c \<and> dlcommand c' = dlcommand c"

named_theorems session \<open>what each routine leaves of the session\<close>

lemma same_session_refl [simp]: "same_session c c" by (simp add: same_session_def)
lemma same_session_trans: "same_session a b \<Longrightarrow> same_session b c \<Longrightarrow> same_session a c" by (simp add: same_session_def)

lemma SendDataMB_session [session]: "SendDataMB cfg ns c bufs no = (rv, c') \<Longrightarrow> same_session c c'"
  by (auto simp: SendDataMB_def same_session_def Let_def split: option.splits if_splits prod.splits send_end.splits)

lemma SendPacket_session [session]:
  "SendPacket env srv c h d v av as = (rv, c') \<Longrightarrow> same_session c c' \<and> rv \<in> {0, -1}"
  by (auto simp: SendPacket_def SendData_def Let_def split: option.splits if_splits prod.splits
      dest!: SendDataMB_session) (auto simp: same_session_def)

lemma reply_session [session]: "reply env srv c k m = (rv, c') \<Longrightarrow> same_session c c' \<and> rv \<in> {0, -1}"
  "dl_arg_error env srv c m = (rv, c') \<Longrightarrow> same_session c c' \<and> rv \<in> {0, -1}"
  by (unfold reply_def dl_arg_error_def) (erule SendPacket_session)+

lemma reply_snd [simp]: "same_session c (snd (reply env srv c k m))"
  using reply_session(1) [of env srv c k m] by (cases "reply env srv c k m") auto

section \<open>What one send puts on the wire\<close>

text \<open>The header of a packet and its frame.\<close>

definition packet_header :: "string \<Rightarrow> string option \<Rightarrow> u64 \<Rightarrow> string" where
  "packet_header kind msg val = kind @ '' '' @ dec (unat val) @ '' '' @ dec (case msg of Some d \<Rightarrow> length d | None \<Rightarrow> 0)"

lemma SendDataMB_wire:
  assumes "SendDataMB cfg ns c bufs False = (0, c')" "bufs \<noteq> []" "\<not> websocket c"
  shows "wire c' = wire c @ concat bufs"
proof -
  show ?thesis using assms(1,2)
  proof (cases rule: SendDataMB_run)
    case (run iov r out evs now)
    note p = SendDataMB_loop_prefix [OF run(2)]
    have "concat iov = concat bufs" using run(1) assms(3) by (simp add: to_send_def)
    moreover obtain rest where "concat iov = out @ rest" using p by blast
    moreover have "length (concat bufs) \<le> length out" using p run(4) by auto
    ultimately have "out = concat bufs" by (metis append.right_neutral append_eq_append_conv2 append_eq_conv_conj length_append le_add1 le_antisym take_all)
    then show ?thesis using run(3) by simp
  qed simp
qed

lemma SendDataMB_willing:
  assumes "SendDataMB cfg ns c bufs False = (rv, c')" "bufs \<noteq> []" "\<not> websocket c"
    "willing (outq c)" "length (concat bufs) \<le> total_room (outq c)" "concat bufs \<noteq> []" "length (concat bufs) < 2 ^ 31"
    "length bufs < 10"
  shows "rv = 0 \<and> socketerr c' = socketerr c"
  using assms(1,2)
proof (cases rule: SendDataMB_run)
  case early
  then show ?thesis using assms by auto
next
  case (run iov r out evs now)
  have eq: "concat iov = concat bufs" using run(1) assms(3) by (simp add: to_send_def)
  have "\<exists>x > 0. r = SentTo x"
    by (rule SendDataMB_loop_willing [OF run(2) assms(4)]) (use assms eq in auto)
  then show ?thesis using run(4,7) by simp
qed

section \<open>Packets on the wire\<close>

lemma digit_word_char: "is_digit 10 c \<Longrightarrow> c \<noteq> NUL \<and> \<not> IS_TOKEN_SEP c"
proof -
  assume "is_digit 10 c"
  then have "48 \<le> ord c" "ord c \<le> 57" by (simp_all add: is_digit_ord)
  moreover have "ord NUL = 0" "ord CHR 0x09 = 9" by (simp_all add: ord_def)
  ultimately show ?thesis unfolding IS_TOKEN_SEP_def using ord_simps by auto
qed

lemma word_dec [simp]: "word_ok (dec n)"
  using digit_word_char dec_is_digit by (auto simp: word_ok_def)

lemma word_dec_int [simp]: "word_ok (dec_int x)"
proof -
  have "CHR ''-'' \<noteq> NUL" "\<not> IS_TOKEN_SEP CHR ''-''" by (simp_all add: IS_TOKEN_SEP_def)
  then show ?thesis using word_dec by (auto simp: dec_int_def word_ok_def)
qed

lemma length_dec: "n < 10 ^ k \<Longrightarrow> 0 < k \<Longrightarrow> length (dec n) \<le> k"
proof (induction n arbitrary: k rule: dec.induct)
  case (1 n)
  show ?case
  proof (cases "n < 10")
    case True
    then show ?thesis using "1.prems" by (subst dec.simps) simp
  next
    case False
    obtain j where "k = Suc j" using "1.prems"(2) by (cases k) auto
    with False "1.prems"(1) have j: "k = Suc j" "0 < j" by (cases j; simp)+
    then have "n div 10 < 10 ^ j" using "1.prems" by (simp add: less_mult_imp_div_less mult.commute)
    then show ?thesis using "1.IH" [OF False _ j(2)] False j by (subst dec.simps) simp
  qed
qed

definition int64 :: "int \<Rightarrow> bool" where "int64 t \<longleftrightarrow> - (2 ^ 63) \<le> t \<and> t < 2 ^ 63"

lemma length_dec_int: "int64 t \<Longrightarrow> length (dec_int t) \<le> 20"
  using length_dec [of "nat (- t)" 19] length_dec [of "nat t" 19]
  by (auto simp: dec_int_def int64_def nat_less_iff)

lemma length_dec_u64: "length (dec (unat (w :: u64))) \<le> 20"
  using length_dec [of "unat w" 20] unsigned_less [where 'a = nat, of w] by simp

lemma length_dec_u32: "length (dec (unat (w :: u32))) \<le> 10"
  using length_dec [of "unat w" 10] unsigned_less [where 'a = nat, of w] by simp

lemma us_time_range: "int64 t \<Longrightarrow> int64 (us_time t)"
proof -
  assume t: "int64 t"
  have "\<bar>t\<bar> div 1000 \<le> \<bar>t\<bar>" using div_mult_mod_eq [of "\<bar>t\<bar>" 1000] by linarith
  moreover have "0 \<le> \<bar>t\<bar> div 1000" by simp
  ultimately show ?thesis using t
    by (cases "t < 0"; cases "t = 0") (auto simp: us_time_def MS_NSTIME2HPTIME_def c_div_def int64_def)
qed

lemma cmdtoken_u32_dec:
  "i < argc cmd \<Longrightarrow> arg cmd i = dec n \<Longrightarrow> n < 2 ^ 32 \<Longrightarrow> cmdtoken_u32 cmd (int i) 10 = Some (of_nat n)"
  by (simp add: cmdtoken_u32_def dec_no_sign strtoull_dec word_less_nat_alt unat_of_nat not_less word_le_nat_alt
      unsigned_of_nat take_bit_nat_eq_self)

text \<open>A packet as the ring hands it out: its identifier is a word, its times are 64-bit values.\<close>

definition sendable :: "RingPacket \<Rightarrow> bool" where
  "sendable pkt \<longleftrightarrow> word_ok (streamid pkt) \<and> length (streamid pkt) < MAXSTREAMID \<and> int64 (pkttime pkt)
     \<and> int64 (datastart pkt) \<and> int64 (dataend pkt)"

definition header_words :: "RingPacket \<Rightarrow> string list" where
  "header_words pkt = [''PACKET'', streamid pkt, dec (unat (pktid pkt)), dec_int (us_time (pkttime pkt)),
     dec_int (us_time (datastart pkt)), dec_int (us_time (dataend pkt)), dec (unat (datasize pkt))]"

lemma ring_header_words: "ring_header pkt = unwords (header_words pkt)"
  by (simp add: ring_header_def header_words_def)

lemma header_length:
  assumes "length (streamid pkt) < MAXSTREAMID" "int64 (pkttime pkt)" "int64 (datastart pkt)" "int64 (dataend pkt)"
  shows "length (ring_header pkt) \<le> 200"
  using assms(1) length_dec_u64 [of "pktid pkt"] length_dec_u32 [of "datasize pkt"]
    length_dec_int [OF us_time_range [OF assms(2)]] length_dec_int [OF us_time_range [OF assms(3)]]
    length_dec_int [OF us_time_range [OF assms(4)]]
  by (simp add: ring_header_def MAXSTREAMID_def)

lemma header_words_ok:
  assumes "sendable pkt"
  shows "\<forall>w \<in> set (header_words pkt). word_ok w" "length (ring_header pkt) \<le> 200"
proof -
  have "word_ok ''PACKET''" by (simp add: word_ok_def IS_TOKEN_SEP_def)
  then show "\<forall>w \<in> set (header_words pkt). word_ok w" using assms by (simp add: header_words_def sendable_def)
  show "length (ring_header pkt) \<le> 200"
    using assms header_length by (simp add: sendable_def)
qed

lemma SendRingPacket_buffers:
  assumes "length (ring_header pkt) \<le> 254"
  shows "concat [[0x44, 0x4C, of_nat (length (ring_header pkt))],
      to_bytes (take (length (ring_header pkt)) (snprintf 255 (ring_header pkt) @ [NUL])), d]
    = dl_frame (to_bytes (ring_header pkt)) @ d"
  using assms by (simp add: dl_frame_def snprintf_def)

lemma SendRingPacket_wire:
  assumes "SendRingPacket env srv c = (0, c')" "\<not> websocket c" "length (ring_header (packet c)) \<le> 254"
  shows "wire c' = wire c @ dl_frame (to_bytes (ring_header (packet c))) @ take (unat (datasize (packet c))) (sendbuf c)"
proof -
  let ?h = "ring_header (packet c)"
  let ?bufs = "[[0x44, 0x4C, of_nat (length ?h)], to_bytes (take (length ?h) (snprintf 255 ?h @ [NUL])),
      take (unat (datasize (packet c))) (sendbuf c)]"
  obtain rv c1 where s: "SendDataMB (io_of env srv) (nsent0 env) c ?bufs False = (rv, c1)"
    by (cases "SendDataMB (io_of env srv) (nsent0 env) c ?bufs False")
  have "rv = 0" "wire c' = wire c1"
    using assms(1,3) s by (auto simp: SendRingPacket_def Let_def split: if_splits option.splits prod.splits)
  then show ?thesis
    using SendDataMB_wire [OF _ _ assms(2), of _ _ ?bufs c1] s SendRingPacket_buffers [OF assms(3)] by simp
qed

lemma c_string_to_bytes: "NUL \<notin> set s \<Longrightarrow> c_string (to_bytes s) = s"
proof -
  assume s: "NUL \<notin> set s"
  have "(of_nat (ord x) :: byte) \<noteq> 0" if "x \<in> set s" for x
  proof -
    have "ord x < 256" by (simp add: ord_def)
    moreover have "ord x \<noteq> 0"
    proof
      assume "ord x = 0"
      then have "char_of (0 :: nat) = x" using char_of_char [of x] by (metis ord_def)
      moreover have "char_of (0 :: nat) = NUL" by (simp add: char_of_def)
      ultimately have "x = NUL" by simp
      then show False using s that by simp
    qed
    ultimately have "unat (of_nat (ord x) :: byte) \<noteq> 0" by (simp add: unat_of_nat)
    then show ?thesis by auto
  qed
  then have "takeWhile (\<lambda>x. x \<noteq> 0) (to_bytes s) = to_bytes s"
    by (intro takeWhile_eq_all_conv [THEN iffD2]) (auto simp: to_bytes_def)
  then show ?thesis by (simp only: c_string_def to_str_bytes)
qed

text \<open>
  C11: a packet that \<open>SendRingPacket\<close> sends on a plain connection goes out as one DataLink frame, whose
  body the DataLink tokenizer of a receiver reads back as the stream identifier, the packet
  identifier, the three times in microseconds and the data size, followed by exactly the data.
\<close>

theorem packet_wire_round_trip:
  assumes "SendRingPacket env srv c = (0, c')" "\<not> websocket c" "sendable (packet c)"
  shows "\<exists>hdr cmd. wire c' = wire c @ dl_frame hdr @ take (unat (datasize (packet c))) (sendbuf c)
    \<and> 2 \<le> length hdr \<and> length hdr \<le> 255 \<and> cmdtoken_parse (c_string hdr) = Some cmd \<and> argc cmd = 7 \<and> \<not> overflow cmd
    \<and> arg cmd 0 = ''PACKET'' \<and> arg cmd 1 = streamid (packet c)
    \<and> cmdtoken_u64 cmd 2 10 = Some (pktid (packet c))
    \<and> cmdtoken_i64 cmd 3 10 = Some (us_time (pkttime (packet c)))
    \<and> cmdtoken_i64 cmd 4 10 = Some (us_time (datastart (packet c)))
    \<and> cmdtoken_i64 cmd 5 10 = Some (us_time (dataend (packet c)))
    \<and> cmdtoken_u32 cmd 6 10 = Some (datasize (packet c))"
proof -
  let ?p = "packet c"
  note ok = header_words_ok [OF assms(3)]
  have t: "int64 (us_time (pkttime ?p))" "int64 (us_time (datastart ?p))" "int64 (us_time (dataend ?p))"
    using assms(3) by (simp_all add: sendable_def us_time_range)
  obtain cmd where cmd: "cmdtoken_parse (ring_header ?p) = Some cmd" "argc cmd = 7" "\<not> overflow cmd"
      "\<And>i. i < 7 \<Longrightarrow> arg cmd i = header_words ?p ! i"
    using cmdtoken_parse_words [OF ok(1)] ok(2) unfolding ring_header_words by (auto simp: header_words_def)
  have a: "arg cmd 0 = ''PACKET''" "arg cmd 1 = streamid ?p" "arg cmd 2 = dec (unat (pktid ?p))"
      "arg cmd 3 = dec_int (us_time (pkttime ?p))" "arg cmd 4 = dec_int (us_time (datastart ?p))"
      "arg cmd 5 = dec_int (us_time (dataend ?p))" "arg cmd 6 = dec (unat (datasize ?p))"
    using cmd(4) [of 0] cmd(4) [of 1] cmd(4) [of 2] cmd(4) [of 3] cmd(4) [of 4] cmd(4) [of 5] cmd(4) [of 6]
    by (simp_all add: header_words_def)
  have "c_string (to_bytes (ring_header ?p)) = ring_header ?p"
    using c_string_to_bytes unwords_no_NUL [OF ok(1)] by (simp add: ring_header_words)
  moreover have "cmdtoken_u64 cmd 2 10 = Some (pktid ?p)"
    using cmdtoken_u64_dec [of 2 cmd] a(3) cmd(2) unsigned_less [where 'a = nat, of "pktid ?p"] by simp
  moreover have "cmdtoken_i64 cmd 3 10 = Some (us_time (pkttime ?p))"
      "cmdtoken_i64 cmd 4 10 = Some (us_time (datastart ?p))" "cmdtoken_i64 cmd 5 10 = Some (us_time (dataend ?p))"
    using cmdtoken_i64_dec [of 3 cmd] cmdtoken_i64_dec [of 4 cmd] cmdtoken_i64_dec [of 5 cmd] a cmd(2) t
    by (simp_all add: int64_def)
  moreover have "cmdtoken_u32 cmd 6 10 = Some (datasize ?p)"
    using cmdtoken_u32_dec [of 6 cmd] a(7) cmd(2) unsigned_less [where 'a = nat, of "datasize ?p"] by simp
  moreover have "2 \<le> length (ring_header ?p)" by (simp add: ring_header_def)
  ultimately show ?thesis
    using SendRingPacket_wire [OF assms(1,2)] ok(2) cmd a
    by (intro exI [of _ "to_bytes (ring_header ?p)"] exI [of _ cmd]) simp
qed

text \<open>A client, an environment and a server to run the handlers on.\<close>

definition dl_demo_env :: "string dl_env" where
  "dl_demo_env = \<lparr>auth = demo_auth, iotimeout = 10, nsent0 = 0, auth_required = True, timewin = WholeRing,
     info_xml = \<lambda>_ _ _. None, archive = None, write_time = 7, malloc_ok = True, rfuel = 10\<rparr>"

definition demo_server :: "param_s \<Rightarrow> server" where "demo_server p = \<lparr>ring = p, shutdown = False\<rparr>"

lemma SendRingPacket_sends:
  assumes "\<not> websocket c" "length (ring_header (packet c)) \<le> 254" "willing (outq c)" "malloc_ok env"
    "streamscount c < MAX_STREAMS_PER_CLIENT" "unat (datasize (packet c)) \<le> length (sendbuf c)"
    "3 + length (ring_header (packet c)) + unat (datasize (packet c)) \<le> total_room (outq c)"
    "unat (datasize (packet c)) < 2 ^ 30"
  shows "\<exists>c'. SendRingPacket env srv c = (0, c') \<and> socketerr c' = socketerr c"
proof -
  let ?h = "ring_header (packet c)"
  let ?bufs = "[[0x44, 0x4C, of_nat (length ?h)], to_bytes (take (length ?h) (snprintf 255 ?h @ [NUL])),
      take (unat (datasize (packet c))) (sendbuf c)]"
  obtain rv c1 where s: "SendDataMB (io_of env srv) (nsent0 env) c ?bufs False = (rv, c1)"
    by (cases "SendDataMB (io_of env srv) (nsent0 env) c ?bufs False")
  have len: "length (concat ?bufs) = 3 + length ?h + unat (datasize (packet c))"
    using SendRingPacket_buffers [OF assms(2)] assms(6) by (simp add: dl_frame_def)
  have "concat ?bufs \<noteq> []" by simp
  then have "rv = 0" "socketerr c1 = socketerr c"
    using SendDataMB_willing [OF s _ assms(1,3)] len assms(2,7,8) by auto
  moreover have "streamscount c1 = streamscount c" "streams c1 = streams c"
    using SendDataMB_session [OF s] by (simp_all add: same_session_def)
  moreover obtain node tree new where "GetStreamNode True (streams c) (streamid (packet c)) (streamscount c) 0
      = (Some node, tree, new)"
    using assms(5)
    by (cases "streams c (FNVhash64 (Some (streamid (packet c))))") (auto simp: GetStreamNode_def Let_def)
  ultimately show ?thesis using s assms(2,4) by (simp add: SendRingPacket_def Let_def)
qed

theorem packet_wire_round_trip_witness:
  "\<exists>c' hdr cmd. SendRingPacket dl_demo_env (demo_server demo_ring)
      (demo_client\<lparr>packet := demo_packet ''A/T'' [5, 6], sendbuf := [5, 6]\<rparr>) = (0, c')
    \<and> wire c' = dl_frame hdr @ [5, 6] \<and> cmdtoken_parse (c_string hdr) = Some cmd \<and> arg cmd 1 = ''A/T''"
proof -
  let ?c = "demo_client\<lparr>packet := demo_packet ''A/T'' [5, 6], sendbuf := [5, 6]\<rparr>"
  have pkt: "packet ?c = demo_packet ''A/T'' [5, 6]" "sendbuf ?c = [5, 6]" "wire ?c = []" "\<not> websocket ?c"
    by (simp_all add: demo_client_def)
  have ok: "sendable (packet ?c)"
    by (simp add: pkt sendable_def demo_packet_def word_ok_def IS_TOKEN_SEP_def MAXSTREAMID_def int64_def)
  have sz: "datasize (packet ?c) = 2" by (simp add: pkt demo_packet_def)
  have "\<exists>c'. SendRingPacket dl_demo_env (demo_server demo_ring) ?c = (0, c') \<and> socketerr c' = socketerr ?c"
    by (rule SendRingPacket_sends) (use header_words_ok(2) [OF ok] sz in
      \<open>simp_all add: pkt demo_client_def dl_demo_env_def MAX_STREAMS_PER_CLIENT_def willing_def\<close>)
  then obtain c' where s: "SendRingPacket dl_demo_env (demo_server demo_ring) ?c = (0, c')" by blast
  have w: "wire demo_client = []" by (simp add: demo_client_def)
  from packet_wire_round_trip [OF s pkt(4) ok] show ?thesis
    using s sz by (auto simp: pkt w demo_packet_def)
qed

section \<open>READ\<close>

text \<open>The times in the ring are 64-bit values.\<close>

definition times64 :: "param_s \<Rightarrow> bool" where
  "times64 p \<longleftrightarrow> (\<forall>a \<in> set (ring_queue p). int64 (a_pkttime a) \<and> int64 (a_datastart a) \<and> int64 (a_dataend a))"

lemma SendRingPacket_state:
  "same_session c (snd (SendRingPacket env srv c)\<lparr>streams := streams c, streamscount := streamscount c\<rparr>)"
  by (auto simp: SendRingPacket_def Let_def same_session_def split: option.splits prod.splits
      dest!: SendDataMB_session)

lemma entry_header:
  assumes "ring_inv p" "x \<in> set (live p)" "times64 p"
  defines "h \<equiv> PACKETPTR p x" and "a \<equiv> abs_slot (ringmem p x)"
  shows "a \<in> set (ring_queue p)" "as_packet h (a_data a) = a" "length (ring_header h) \<le> 200"
    "length (a_data a) = unat (datasize h)" "unat (datasize h) \<le> payload_room p"
proof -
  show a: "a \<in> set (ring_queue p)" using assms(2) by (simp add: ring_queue_def a_def)
  show "as_packet h (a_data a) = a" by (simp add: h_def a_def as_packet_live)
  have "length (streamid h) < MAXSTREAMID" and sz: "unat (datasize h) \<le> payload_room p"
    using assms(1,2) by (auto simp: ring_inv_def h_def)
  moreover have "int64 (pkttime h)" "int64 (datastart h)" "int64 (dataend h)"
    using assms(3) a by (auto simp: times64_def a_def h_def abs_slot_def PACKETPTR_def)
  ultimately show "length (ring_header h) \<le> 200" by (intro header_length)
  show "unat (datasize h) \<le> payload_room p" by (rule sz)
  show "length (a_data a) = unat (datasize h)"
    using assms(1) sz by (auto simp: ring_inv_def a_def h_def abs_slot_def PACKETPTR_def)
qed

text \<open>What goes out for a packet that was read into the send buffer.\<close>

lemma SendRingPacket_entry:
  assumes "\<not> websocket c" "willing (outq c)" "length (ring_header (packet c)) \<le> 254"
    "sendbuf c = d @ rest" "length d = unat (datasize (packet c))"
    "3 + length (ring_header (packet c)) + length d \<le> total_room (outq c)" "length d < 2 ^ 30"
  shows "wire (snd (SendRingPacket env srv c)) = wire c @ dl_frame (to_bytes (ring_header (packet c))) @ d
    \<and> socketerr (snd (SendRingPacket env srv c)) = socketerr c"
proof -
  let ?h = "ring_header (packet c)"
  let ?bufs = "[[0x44, 0x4C, of_nat (length ?h)], to_bytes (take (length ?h) (snprintf 255 ?h @ [NUL])),
      take (unat (datasize (packet c))) (sendbuf c)]"
  obtain rv c1 where s: "SendDataMB (io_of env srv) (nsent0 env) c ?bufs False = (rv, c1)"
    by (cases "SendDataMB (io_of env srv) (nsent0 env) c ?bufs False")
  have len: "length (concat ?bufs) = 3 + length ?h + length d"
    using SendRingPacket_buffers [OF assms(3)] assms(4,5) by (simp add: dl_frame_def)
  have rv: "rv = 0" "socketerr c1 = socketerr c"
    using SendDataMB_willing [OF s _ assms(1,2)] len assms(3,6,7) by auto
  have "wire c1 = wire c @ dl_frame (to_bytes ?h) @ d"
    using SendDataMB_wire [OF s [unfolded rv(1)] _ assms(1)] SendRingPacket_buffers [OF assms(3)] assms(4,5) by simp
  then show ?thesis using s rv assms(3) by (auto simp: SendRingPacket_def Let_def split: option.splits prod.splits)
qed

lemma HandleRead_found:
  fixes c :: "'re ClientInfo"
  assumes cmd: "argc cmd = 2" "\<not> overflow cmd" "cmdtoken_u64 cmd 1 10 = Some reqid"
    and ring: "ring_inv (ring srv)" "length (live (ring srv)) \<le> rfuel env" "ids_searchable (ring srv)"
      "times64 (ring srv)" "payload_room (ring srv) < 2 ^ 30"
    and id0: "reqid \<le> RINGID_MAXIMUM" "reqid \<in> a_pktid ` set (ring_queue (ring srv))"
    and sock: "\<not> websocket c" "willing (outq c)" "203 + payload_room (ring srv) \<le> total_room (outq c)" "socketerr c = 0"
  shows "\<exists>a \<in> set (ring_queue (ring srv)). \<exists>h c'. a_pktid a = reqid \<and> as_packet h (a_data a) = a
    \<and> unat (datasize h) = length (a_data a) \<and> HandleRead env srv cmd c = Some (0, c')
    \<and> wire c' = wire c @ dl_frame (to_bytes (ring_header h)) @ a_data a"
proof -
  let ?p = "ring srv"
  from id0(2) obtain j where "j < length (live ?p)" "id_at ?p j = reqid" by (auto simp: queue_ids [OF ring(1)])
  then obtain i where i: "i < length (live ?p)" "id_at ?p i = reqid"
    "RingRead (rfuel env) ?p (reader c) reqid (packet c) True =
      Some (reqid, at_packet (reader c) (pos ?p i) (PACKETPTR ?p (pos ?p i)),
      PACKETPTR ?p (pos ?p i), Some (a_data (abs_slot (ringmem ?p (pos ?p i)))))"
    using RingRead_found [OF ring(1,2) id0(1) ring(3), of "reader c" "packet c" True] by auto
  let ?x = "pos ?p i"
  let ?a = "abs_slot (ringmem ?p ?x)"
  let ?h = "PACKETPTR ?p ?x"
  have x: "?x \<in> set (live ?p)" using live_pos [OF ring(1) i(1)] i(1) by (metis nth_mem)
  note e = entry_header [OF ring(1) x ring(4)]
  define c1 where "c1 = c\<lparr>reader := at_packet (reader c) ?x ?h, packet := ?h, sendbuf := overlay (sendbuf c) (a_data ?a)\<rparr>"
  define c' where "c' = snd (SendRingPacket env srv c1)"
  have out: "wire c' = wire c @ dl_frame (to_bytes (ring_header ?h)) @ a_data ?a \<and> socketerr c' = 0"
    using SendRingPacket_entry [of c1 "a_data ?a" "drop (length (a_data ?a)) (sendbuf c)" env srv] e ring(5) sock
    by (simp add: c1_def c'_def overlay_def)
  have "reqid \<noteq> RINGID_ERROR" "reqid \<noteq> RINGID_NONE" using id0(1) by (auto simp: ringid_defs)
  then have "HandleRead env srv cmd c = Some (0, c')"
    using cmd i(3) out by (simp add: HandleRead_def c1_def c'_def Let_def)
  moreover have "a_pktid ?a = reqid" using i(2) by (simp add: id_at_def abs_slot_def PACKETPTR_def)
  ultimately show ?thesis using e(1,2,4) out by (intro bexI [OF _ e(1)] exI [of _ ?h] exI [of _ c']) simp
qed

text \<open>The start of \<open>DLHandleCmd\<close> for a command of two words.\<close>

lemma DLHandleCmd_words:
  assumes "dlinfo c = Some x" "dlcommand c = to_bytes (unwords ws)" "\<forall>w \<in> set ws. word_ok w"
    "ws \<noteq> []" "length ws \<le> 16" "length (unwords ws) < CMDTOKEN_MAX_LINE"
  shows "\<exists>cmd. DLHandleCmd env srv c = DL_dispatch env srv cmd c \<and> argc cmd = length ws \<and> \<not> overflow cmd
    \<and> (\<forall>i < length ws. arg cmd i = ws ! i)"
proof -
  obtain cmd where "cmdtoken_parse (unwords ws) = Some cmd" "argc cmd = length ws" "\<not> overflow cmd"
      "\<And>i. i < length ws \<Longrightarrow> arg cmd i = ws ! i"
    using cmdtoken_parse_words [OF assms(3)] assms(4-6) by (auto simp: CMDTOKEN_MAX_LINE_def)
  then show ?thesis
    using assms(1,2,4) c_string_to_bytes [OF unwords_no_NUL [OF assms(3)]]
    by (intro exI [of _ cmd]) (simp add: DLHandleCmd_def dl_start_def)
qed

lemma eq_nocase_arg: "0 < argc cmd \<Longrightarrow> arg cmd 0 = w \<Longrightarrow> cmdtoken_eq_nocase cmd 0 v = strcasecmp_eq w v"
  by (simp add: cmdtoken_eq_nocase_def)

text \<open>
  A READ for the identifier of a packet in the ring is answered with one frame that holds that
  packet, header and data, and the ring stays as it is.  Nothing is asked of the client: the
  permissions, the requirement to authenticate and the allowed and forbidden expressions of its
  reader make no difference.
\<close>

theorem READ_sends_any_packet:
  assumes "dlinfo c = Some re" "dlcommand c = to_bytes (''READ '' @ dec (unat reqid))"
    and "ring_inv (ring srv)" "length (live (ring srv)) \<le> rfuel env" "ids_searchable (ring srv)"
      "times64 (ring srv)" "payload_room (ring srv) < 2 ^ 30"
    and "reqid \<le> RINGID_MAXIMUM" "reqid \<in> a_pktid ` set (ring_queue (ring srv))"
    and "\<not> websocket c" "willing (outq c)" "203 + payload_room (ring srv) \<le> total_room (outq c)" "socketerr c = 0"
  shows "\<exists>a \<in> set (ring_queue (ring srv)). \<exists>h c'. a_pktid a = reqid \<and> as_packet h (a_data a) = a
    \<and> unat (datasize h) = length (a_data a) \<and> DLHandleCmd env srv c = Some (0, c', srv)
    \<and> wire c' = wire c @ dl_frame (to_bytes (ring_header h)) @ a_data a"
proof -
  let ?ws = "[''READ'', dec (unat reqid)]"
  have "word_ok ''READ''" by (simp add: word_ok_def IS_TOKEN_SEP_def)
  then obtain cmd where cmd: "DLHandleCmd env srv c = DL_dispatch env srv cmd c" "argc cmd = 2" "\<not> overflow cmd"
      "arg cmd 0 = ''READ''" "arg cmd 1 = dec (unat reqid)"
    using DLHandleCmd_words [OF assms(1), of ?ws env srv] assms(2) length_dec_u64 [of reqid]
    by (auto simp: CMDTOKEN_MAX_LINE_def All_less_Suc2 numeral_2_eq_2)
  have "cmdtoken_u64 cmd 1 10 = Some reqid"
    using cmdtoken_u64_dec [of 1 cmd] cmd unsigned_less [where 'a = nat, of reqid] by simp
  from HandleRead_found [OF cmd(2,3) this assms(3-9), of "c\<lparr>state := STATE_COMMAND\<rparr>"] assms(10-13)
  obtain a h c' where r: "a \<in> set (ring_queue (ring srv))" "a_pktid a = reqid" "as_packet h (a_data a) = a"
      "unat (datasize h) = length (a_data a)" "HandleRead env srv cmd (c\<lparr>state := STATE_COMMAND\<rparr>) = Some (0, c')"
      "wire c' = wire c @ dl_frame (to_bytes (ring_header h)) @ a_data a"
    by auto
  have "DL_dispatch env srv cmd c = Some (0, c', srv)"
    using r(5) cmd(2,4) by (simp add: DL_dispatch_def eq_nocase_arg strcasecmp_eq_def tolower_def ord_def)
  then show ?thesis using r cmd(1) by auto
qed

definition strict_reader :: "string RingReader" where
  "strict_reader = rejecting_reader\<lparr>allowed := Some ''XX'', forbidden := Some ''B''\<rparr>"

lemma three_ring_room: "payload_room (three_ring t1 t2 t3) = 8"
proof -
  let ?ws = "[(t1, demo_packet ''A/T'' [1], [1]), (t2, demo_packet ''B/T'' [2], [2]), (t3, demo_packet ''C/T'' [3], [3])]"
  have ok: "length ?ws \<le> 3" "\<forall>w \<in> set ?ws. call_ok demo_ring w" by (simp_all add: demo_call MAXSTREAMID_def)
  show ?thesis using demo_run(5) [OF ok, folded three_ring_def] by (simp add: payload_room_def slotsize_def)
qed

theorem READ_sends_any_packet_witness:
  "\<exists>h c'. DLHandleCmd dl_demo_env (demo_server (three_ring 1 2 3)) (demo_client\<lparr>dlinfo := Some None,
       reader := strict_reader, dlcommand := to_bytes ''READ 2''\<rparr>) = Some (0, c', demo_server (three_ring 1 2 3))
     \<and> streamid h = ''B/T'' \<and> wire c' = dl_frame (to_bytes (ring_header h)) @ [2]
     \<and> \<not> selects starts_with strict_reader ''B/T'' \<and> \<not> permitted demo_client AUTHENTICATED"
proof -
  let ?p = "three_ring 1 2 3"
  let ?c = "demo_client\<lparr>dlinfo := Some None, reader := strict_reader, dlcommand := to_bytes ''READ 2''\<rparr>"
  have s: "ids_searchable ?p" by (simp add: ids_searchable_def ids_ascend_queue three_ring demo_entry_def)
  have t: "times64 ?p" by (simp add: times64_def three_ring demo_entry_def int64_def)
  have room: "payload_room ?p = 8" by (simp add: three_ring_room)
  have "dec (unat (2 :: u64)) = ''2''" by (subst dec.simps) (simp add: digit_char_def char_of_def bit_Suc_0_iff)
  then have "\<exists>a \<in> set (ring_queue ?p). \<exists>h c'. a_pktid a = 2 \<and> as_packet h (a_data a) = a
    \<and> unat (datasize h) = length (a_data a) \<and> DLHandleCmd dl_demo_env (demo_server ?p) ?c = Some (0, c', demo_server ?p)
    \<and> wire c' = wire ?c @ dl_frame (to_bytes (ring_header h)) @ a_data a"
    using s t room three_ring(1,3) [of 1 2 3]
    by (intro READ_sends_any_packet [where re = None and srv = "demo_server ?p", unfolded demo_server_def server.simps, folded demo_server_def])
      (simp_all add: demo_server_def dl_demo_env_def demo_client_def willing_def ringid_defs three_ring demo_entry_def)
  moreover have "wire ?c = []" by (simp add: demo_client_def)
  moreover have "\<not> selects starts_with strict_reader ''B/T''" "\<not> permitted demo_client AUTHENTICATED"
    by (simp_all add: selects_def strict_reader_def rejecting_reader_def starts_with_def MAXSTREAMID_def
        permitted_def demo_client_def Let_def)
  ultimately show ?thesis by (auto simp: three_ring demo_entry_def as_packet_def)
qed

section \<open>WRITE\<close>

text \<open>Receiving does not touch the protocol state, and an error is kept in \<open>socketerr\<close>.\<close>

lemma RecvData_session:
  fixes c :: "'re ClientInfo"
  assumes "RecvData cfg c n f = (k, c')"
  shows "packet c' = packet c \<and> reader c' = reader c \<and> state c' = state c \<and> permissions c' = permissions c
    \<and> dlinfo c' = dlinfo c \<and> streams c' = streams c \<and> streamscount c' = streamscount c \<and> websocket c' = websocket c
    \<and> wire c' = wire c \<and> outq c' = outq c \<and> (k \<ge> 0 \<longrightarrow> socketerr c' = socketerr c)"
proof -
  define buf where "buf = (if recvconsumed c > 0 then
      (if recvconsumed c < length (recvbuf c) then drop (recvconsumed c) (recvbuf c) else []) else recvbuf c)"
  obtain r got s now where l: "RecvData_loop cfg (length buf) n f (recvbufsize c)
      (clock c + netiotimeout cfg * 1000 * 2) 0 (net c) (clock c) = (r, got, s, now)"
    by (metis prod_cases4)
  show ?thesis
    using assms unfolding RecvData_def Let_def buf_def [symmetric] l prod.case
    by (cases r) (auto split: if_splits)
qed

lemma RecvData_filled:
  assumes "RecvData cfg c n True = (k, c')" "\<not> k < 0"
  shows "n \<le> length (recvbuf c')"
proof (cases "n = 0")
  case False
  then have "k = int n" using RecvData_contract(1,3) [OF assms(1)] assms(2) by auto
  then show ?thesis using RecvData_contract(2) [OF assms(1)] False by simp
qed simp

lemma HandleWrite_parse_packet:
  "HandleWrite_parse cmd c = Inr (sid, flags, c1) \<Longrightarrow> reader c1 = reader c \<and> sid = take 100 (arg cmd 1) \<and> dlinfo c1 = dlinfo c"
  by (auto simp: HandleWrite_parse_def Let_def split: if_splits option.splits)

lemma HandleWrite_streamid_short: "HandleWrite_streamid env c sid = Inr stored \<Longrightarrow> length stored < MAXSTREAMID"
  by (auto simp: HandleWrite_streamid_def MAXSTREAMID_def split: if_splits)

text \<open>A WRITE changes the ring by one \<open>RingWrite\<close> of an allowed packet that has been received, or not at all.\<close>

lemma HandleWrite_store_ring:
  assumes "HandleWrite_store env srv c flags = (rv, c', srv')"
  shows "srv' = srv \<or> (\<exists>res pkt. RingWrite (malloc_ok env) (write_time env) (ring srv) (packet c) (recvbuf c)
    (datasize (packet c)) = (res, ring srv', pkt) \<and> shutdown srv' = (shutdown srv \<or> res = -2))"
proof -
  obtain res p pkt where w: "RingWrite (malloc_ok env) (write_time env) (ring srv) (packet c) (recvbuf c)
      (datasize (packet c)) = (res, p, pkt)" by (metis prod_cases3)
  have "srv' = srv \<or> ring srv' = p \<and> shutdown srv' = (shutdown srv \<or> res = -2)"
    using assms w by (auto simp: HandleWrite_store_def Let_def split: if_splits option.splits prod.splits)
  then show ?thesis using w by auto
qed

lemma HandleWrite_ring:
  assumes "HandleWrite env srv cmd c = (rv, c', srv')"
  shows "srv' = srv \<or> (\<exists>c3 res pkt. RingWrite (malloc_ok env) (write_time env) (ring srv) (packet c3) (recvbuf c3)
      (datasize (packet c3)) = (res, ring srv', pkt) \<and> shutdown srv' = (shutdown srv \<or> res = -2)
    \<and> length (streamid (packet c3)) < MAXSTREAMID \<and> unat (datasize (packet c3)) \<le> length (recvbuf c3)
    \<and> reader c3 = reader c \<and> \<not> write_denied env c3)"
proof (cases "srv' = srv")
  case False
  obtain sid flags c1 where p: "HandleWrite_parse cmd c = Inr (sid, flags, c1)"
    using assms False by (cases "HandleWrite_parse cmd c") (auto simp: HandleWrite_def)
  obtain stored where st: "HandleWrite_streamid env c1 sid = Inr stored"
    using assms False p by (cases "HandleWrite_streamid env c1 sid") (auto simp: HandleWrite_def)
  define c2 where "c2 = c1\<lparr>packet := (packet c1)\<lparr>streamid := stored, datastart := MS_HPTIME2NSTIME (datastart (packet c1)),
                                     dataend := MS_HPTIME2NSTIME (dataend (packet c1))\<rparr>\<rparr>"
  obtain k c3 where r: "RecvData (io_of env srv) c2 (unat (datasize (packet c2))) True = (k, c3)"
    by (cases "RecvData (io_of env srv) c2 (unat (datasize (packet c2))) True")
  have h: "HandleWrite_store env srv c3 flags = (rv, c', srv')" "\<not> k < 0" "\<not> write_denied env c2"
    using assms False p st r by (auto simp: HandleWrite_def Let_def c2_def split: if_splits)
  note same = RecvData_session [OF r]
  have "write_denied env c3 = write_denied env c2"
    using same by (cases "allowed (reader c2)") (simp_all add: write_denied_def)
  then have "unat (datasize (packet c3)) \<le> length (recvbuf c3)" "\<not> write_denied env c3" "reader c3 = reader c"
    using RecvData_filled [OF r h(2)] same h(3) HandleWrite_parse_packet [OF p] by (simp_all add: c2_def)
  moreover have "length (streamid (packet c3)) < MAXSTREAMID"
    using same HandleWrite_streamid_short [OF st] by (simp add: c2_def)
  ultimately show ?thesis using HandleWrite_store_ring [OF h(1)] by blast
qed simp

lemma DL_dispatch_server:
  assumes "DL_dispatch env srv cmd c = Some (rv, c', srv')"
  shows "srv' = srv \<or> cmdtoken_eq_nocase cmd 0 ''WRITE'' \<and> permitted c WRITE_PERMISSION
    \<and> (\<exists>r c1. HandleWrite env srv cmd c = (r, c1, srv'))"
proof (cases "cmdtoken_eq_nocase cmd 0 ''WRITE''")
  case True
  then show ?thesis using assms by (auto simp: DL_dispatch_def split: if_splits prod.splits)
next
  case False
  then show ?thesis using assms by (auto simp: DL_dispatch_def split: if_splits prod.splits option.splits)
qed

lemma dl_start_session: "dl_start env c = (rv, c1) \<Longrightarrow> c1 = c\<lparr>dlinfo := dlinfo c1\<rparr>"
  by (cases "dlinfo c") (auto simp: dl_start_def split: prod.splits)

lemma DLHandleCmd_server:
  assumes "DLHandleCmd env srv c = Some (rv, c', srv')" "srv' \<noteq> srv"
  shows "\<exists>cmd c1 r c2. cmdtoken_parse (c_string (dlcommand c)) = Some cmd \<and> cmdtoken_eq_nocase cmd 0 ''WRITE''
    \<and> permitted c WRITE_PERMISSION \<and> reader c1 = reader c \<and> HandleWrite env srv cmd c1 = (r, c2, srv')"
proof -
  obtain r0 c1 where st: "dl_start env c = (r0, c1)" by (cases "dl_start env c")
  define d where "d = dlinfo c1"
  have c1: "c1 = c\<lparr>dlinfo := d\<rparr>" using dl_start_session [OF st] by (simp add: d_def)
  obtain cmd where cmd: "cmdtoken_parse (c_string (dlcommand c)) = Some cmd"
      "DL_dispatch env srv cmd c1 = Some (rv, c', srv')"
    using assms st by (auto simp: DLHandleCmd_def c1 split: if_splits option.splits)
  have "permitted c1 WRITE_PERMISSION = permitted c WRITE_PERMISSION" by (simp add: permitted_def c1)
  moreover have "reader c1 = reader c" by (simp add: c1)
  ultimately show ?thesis using DL_dispatch_server [OF cmd(2)] assms(2) cmd(1) by blast
qed

text \<open>What a WRITE that changes the server has done.\<close>

definition write_effect :: "'re dl_env \<Rightarrow> 're RingReader \<Rightarrow> server \<Rightarrow> server \<Rightarrow> bool" where
  "write_effect env rd srv srv' \<longleftrightarrow>
     (\<exists>w. shutdown srv' = shutdown srv \<and> a_pkttime w = write_time env
        \<and> ring_queue (ring srv') = fifo_push (nat (nslots (ring srv))) (ring_queue (ring srv)) w
        \<and> (case allowed rd of None \<Rightarrow> True | Some re \<Rightarrow> 0 \<le> matcher_of env re (a_streamid w)))
     \<or> shutdown srv' \<and> \<not> malloc_ok env \<and> (ring_queue (ring srv') = ring_queue (ring srv)
        \<or> ring_queue (ring srv') = tl (ring_queue (ring srv)))"

lemma HandleWrite_effect:
  assumes "HandleWrite env srv cmd c = (r, c', srv')" "ring_inv (ring srv)" "srv' \<noteq> srv"
  shows "ring_inv (ring srv') \<and> write_effect env (reader c) srv srv'"
proof -
  from HandleWrite_ring [OF assms(1)] assms(3) obtain c3 res pkt where
    w: "RingWrite (malloc_ok env) (write_time env) (ring srv) (packet c3) (recvbuf c3) (datasize (packet c3)) = (res, ring srv', pkt)"
    and sd: "shutdown srv' = (shutdown srv \<or> res = -2)" and len: "unat (datasize (packet c3)) \<le> length (recvbuf c3)"
      "length (streamid (packet c3)) < MAXSTREAMID" and rd: "reader c3 = reader c" "\<not> write_denied env c3" by blast
  note any = RingWrite_any [OF assms(2) len w]
  have allow: "case allowed (reader c) of None \<Rightarrow> True | Some re \<Rightarrow> 0 \<le> matcher_of env re (streamid (packet c3))"
    using rd by (cases "allowed (reader c)") (auto simp: write_denied_def)
  let ?w = "written (ring srv) (write_time env) (packet c3) (recvbuf c3)"
  have w2: "a_streamid ?w = streamid (packet c3)" "a_pkttime ?w = write_time env" by (simp_all add: written_def)
  have "res \<noteq> -1" using assms(3) any sd by (auto intro: server.equality)
  then consider "res = 0" "ring_queue (ring srv') = fifo_push (nat (nslots (ring srv))) (ring_queue (ring srv)) ?w"
    | "res = -2" "\<not> malloc_ok env" "ring_queue (ring srv') = ring_queue (ring srv) \<or> ring_queue (ring srv') = tl (ring_queue (ring srv))"
    using any by (metis (no_types))
  then have "write_effect env (reader c) srv srv'"
  proof cases
    case 1
    then show ?thesis using sd allow unfolding write_effect_def w2(1) [symmetric]
      by (intro disjI1 exI [of _ ?w]) (simp add: w2)
  next
    case 2
    then show ?thesis using sd unfolding write_effect_def by blast
  qed
  then show ?thesis using any by blast
qed

lemma DL_ring_safe:
  assumes "DLHandleCmd env srv c = Some (rv, c', srv')" "ring_inv (ring srv)"
  shows "ring_inv (ring srv')"
proof (cases "srv' = srv")
  case False
  then show ?thesis using DLHandleCmd_server [OF assms(1)] HandleWrite_effect [OF _ assms(2)] by blast
qed (use assms in simp)

text \<open>
  C7: no DataLink command breaks the ring, and the only one that changes anything outside its own client is
  WRITE from a client with write permission.  It then appends one packet, received now, whose stream
  identifier passes the client's allowed expression; or memory for a new stream was refused, the
  server is told to stop, and the ring has lost at most its earliest packet.
\<close>

theorem DL_ring_access:
  assumes "DLHandleCmd env srv c = Some (rv, c', srv')" "ring_inv (ring srv)"
  shows "ring_inv (ring srv') \<and> (srv' = srv \<or> permitted c WRITE_PERMISSION
    \<and> (\<exists>cmd. cmdtoken_parse (c_string (dlcommand c)) = Some cmd \<and> cmdtoken_eq_nocase cmd 0 ''WRITE'')
    \<and> ((\<exists>w. shutdown srv' = shutdown srv \<and> a_pkttime w = write_time env
          \<and> ring_queue (ring srv') = fifo_push (nat (nslots (ring srv))) (ring_queue (ring srv)) w
          \<and> (case allowed (reader c) of None \<Rightarrow> True | Some re \<Rightarrow> 0 \<le> matcher_of env re (a_streamid w)))
       \<or> shutdown srv' \<and> \<not> malloc_ok env \<and> (ring_queue (ring srv') = ring_queue (ring srv)
          \<or> ring_queue (ring srv') = tl (ring_queue (ring srv)))))"
proof (cases "srv' = srv")
  case False
  from DLHandleCmd_server [OF assms(1) this] obtain cmd c1 r c2 where
    cmd: "cmdtoken_parse (c_string (dlcommand c)) = Some cmd" "cmdtoken_eq_nocase cmd 0 ''WRITE''"
      "permitted c WRITE_PERMISSION" "reader c1 = reader c" "HandleWrite env srv cmd c1 = (r, c2, srv')"
    by blast
  from HandleWrite_effect [OF cmd(5) assms(2) False] show ?thesis
    using cmd(1-3) unfolding cmd(4) write_effect_def by blast
qed (use assms in simp)

text \<open>The words of a WRITE command.\<close>

definition write_words :: "string \<Rightarrow> int \<Rightarrow> int \<Rightarrow> string \<Rightarrow> nat \<Rightarrow> string list" where
  "write_words sid t0 t1 flags n = [''WRITE'', sid, dec_int t0, dec_int t1, flags, dec n]"

lemma HandleWrite_parse_words:
  assumes "argc cmd = 6" "\<not> overflow cmd" "\<forall>i < 6. arg cmd i = write_words sid t0 t1 flags n ! i"
    "length sid < MAXSTREAMID" "length flags \<le> 100" "int64 t0" "int64 t1" "n < 2 ^ 32"
  shows "HandleWrite_parse cmd c = Inr (sid, flags, c\<lparr>packet := (packet c)\<lparr>datasize := of_nat n, pktid := RINGID_NONE,
     datastart := t0, dataend := t1\<rparr>\<rparr>)"
proof -
  have a: "arg cmd 1 = sid" "arg cmd 2 = dec_int t0" "arg cmd 3 = dec_int t1" "arg cmd 4 = flags" "arg cmd 5 = dec n"
    using assms(3) [rule_format, of 1] assms(3) [rule_format, of 2] assms(3) [rule_format, of 3]
      assms(3) [rule_format, of 4] assms(3) [rule_format, of 5] by (simp_all add: write_words_def)
  have v: "cmdtoken_i64 cmd 2 10 = Some t0" "cmdtoken_i64 cmd 3 10 = Some t1" "cmdtoken_u32 cmd 5 10 = Some (of_nat n)"
    using cmdtoken_i64_dec [of 2 cmd t0] cmdtoken_i64_dec [of 3 cmd t1] cmdtoken_u32_dec [of 5 cmd n] a assms(1,6-8)
    by (simp_all add: int64_def)
  have "\<not> (argc cmd < 6 \<or> argc cmd > 7 \<or> overflow cmd)" "argc cmd \<noteq> 7" "take 100 sid = sid" "take 100 flags = flags"
      "\<not> length sid > MAXSTREAMID - 1"
    using assms(1,2,4,5) by (simp_all add: MAXSTREAMID_def)
  then show ?thesis unfolding HandleWrite_parse_def Let_def a v by (simp add: a)
qed

text \<open>The data of the packet arrive in time.\<close>

definition arrives :: "io_config \<Rightarrow> 're ClientInfo \<Rightarrow> byte list \<Rightarrow> bool" where
  "arrives cfg c body \<longleftrightarrow> body \<noteq> [] \<and> length body \<le> recvbufsize c \<and> take (length body) (pending c) = body
     \<and> prompt (netiotimeout cfg * 1000) (net c) \<and> total_delay (net c) \<le> netiotimeout cfg * 1000 * 2"

lemma take_length_le: "take (length b) xs = b \<Longrightarrow> length b \<le> length xs"
  using length_take [of "length b" xs] by (simp del: length_take)

lemma RecvData_arrives:
  assumes "arrives cfg c body" "RecvData cfg c (length body) True = (k, c')"
  shows "k = int (length body) \<and> take (length body) (recvbuf c') = body \<and> pending c' = drop (length body) (pending c)"
proof -
  have "length body \<le> length (pending c)" using assms(1) take_length_le unfolding arrives_def by blast
  moreover have b: "0 < length body" using assms(1) by (simp add: arrives_def)
  ultimately have k: "k = int (length body)"
    using RecvData_prompt [OF assms(2)] assms(1) unfolding arrives_def by blast
  have c: "received c' (length body) = take (length body) (pending c)" "pending c' = drop (length body) (pending c)"
    using RecvData_contract(2) [OF assms(2) b k] by (rule conjunct1, rule conjunct1 [OF conjunct2])
  have "take (length body) (pending c) = body" using assms(1) by (simp add: arrives_def)
  then show ?thesis using k c(2) c(1) [unfolded received_def] by (simp only: simp_thms)
qed

lemma HandleWrite_store_ok:
  assumes "archive env = None" "malloc_ok env" "CHR ''A'' \<notin> set flags" "ring_inv (ring srv)"
    "sizeof_RingPacket + unat (datasize (packet c)) \<le> unat (pktsize (ring srv))"
    "unat (datasize (packet c)) \<le> length (recvbuf c)" "length (streamid (packet c)) < MAXSTREAMID"
    "streamscount c < MAX_STREAMS_PER_CLIENT" "socketerr c = 0"
  shows "\<exists>c' p'. HandleWrite_store env srv c flags = (0, c', srv\<lparr>ring := p'\<rparr>) \<and> ring_inv p'
    \<and> ring_queue p' = fifo_push (nat (nslots (ring srv))) (ring_queue (ring srv))
        (written (ring srv) (write_time env) (packet c) (recvbuf c))
    \<and> wire c' = wire c \<and> pending c' = pending c \<and> rxpackets0 c' = rxpackets0 c + 1"
proof -
  obtain p' h' where w: "RingWrite True (write_time env) (ring srv) (packet c) (recvbuf c) (datasize (packet c)) = (0, p', h')"
      "ring_inv p'" "ring_queue p' = fifo_push (nat (nslots (ring srv))) (ring_queue (ring srv))
        (written (ring srv) (write_time env) (packet c) (recvbuf c))"
    using RingWrite_ok [OF assms(4-7)] by blast
  obtain node tree new where "GetStreamNode True (streams c) (streamid h') (streamscount c) 0 = (Some node, tree, new)"
    using assms(8) by (cases "streams c (FNVhash64 (Some (streamid h')))") (auto simp: GetStreamNode_def Let_def)
  then have "\<exists>c'. HandleWrite_store env srv c flags = (0, c', srv\<lparr>ring := p'\<rparr>) \<and> wire c' = wire c \<and> pending c' = pending c
      \<and> rxpackets0 c' = rxpackets0 c + 1"
    using w(1) assms(1,2,3,9) by (simp add: HandleWrite_store_def Let_def pending_def)
  then show ?thesis using w(2,3) by blast
qed

lemma HandleWrite_words:
  assumes cmd: "argc cmd = 6" "\<not> overflow cmd" "\<forall>i < 6. arg cmd i = write_words sid t0 t1 flags n ! i"
    and ok: "length sid < MAXSTREAMID" "length flags \<le> 100" "int64 t0" "int64 t1" "CHR ''A'' \<notin> set flags"
    and body: "arrives (io_of env srv) c body" "n = length body" "n + sizeof_RingPacket \<le> unat (pktsize (ring srv))"
    and client: "case dlinfo c of Some (Some re) \<Rightarrow> matcher_of env re sid \<le> 0 | _ \<Rightarrow> True"
      "case allowed (reader c) of None \<Rightarrow> True | Some re \<Rightarrow> 0 \<le> matcher_of env re sid"
      "streamscount c < MAX_STREAMS_PER_CLIENT" "socketerr c = 0"
    and server: "archive env = None" "malloc_ok env" "ring_inv (ring srv)"
  shows "\<exists>c' p'. HandleWrite env srv cmd c = (0, c', srv\<lparr>ring := p'\<rparr>) \<and> ring_inv p'
    \<and> ring_queue p' = fifo_push (nat (nslots (ring srv))) (ring_queue (ring srv))
        \<lparr>a_pktid = next_id (ring_queue (ring srv)), a_pkttime = write_time env, a_datastart = MS_HPTIME2NSTIME t0,
          a_dataend = MS_HPTIME2NSTIME t1, a_streamid = sid, a_data = body\<rparr>
    \<and> wire c' = wire c \<and> pending c' = drop n (pending c)"
proof -
  have n: "n < 2 ^ 32" using body(3) unsigned_less [where 'a = nat, of "pktsize (ring srv)"] by simp
  then have sz: "unat (of_nat n :: u32) = n" by (simp add: unat_of_nat)
  define c1 where "c1 = c\<lparr>packet := (packet c)\<lparr>datasize := of_nat n, pktid := RINGID_NONE, datastart := t0, dataend := t1\<rparr>\<rparr>"
  have p: "HandleWrite_parse cmd c = Inr (sid, flags, c1)"
    unfolding c1_def by (rule HandleWrite_parse_words) (use cmd ok n in auto)
  have st: "HandleWrite_streamid env c1 sid = Inr sid"
    using client(1) ok(1) by (cases "dlinfo c") (auto simp: HandleWrite_streamid_def c1_def MAXSTREAMID_def split: option.splits)
  define c2 where "c2 = c1\<lparr>packet := (packet c1)\<lparr>streamid := sid, datastart := MS_HPTIME2NSTIME (datastart (packet c1)),
                                     dataend := MS_HPTIME2NSTIME (dataend (packet c1))\<rparr>\<rparr>"
  obtain k c3 where r: "RecvData (io_of env srv) c2 n True = (k, c3)" by (cases "RecvData (io_of env srv) c2 n True")
  have "arrives (io_of env srv) c2 body" using body(1) by (simp add: arrives_def c1_def c2_def pending_def)
  then have got: "k = int n" "take n (recvbuf c3) = body" "pending c3 = drop n (pending c2)"
    using RecvData_arrives [of "io_of env srv" c2 body k c3] r body(2) by auto
  have same: "packet c3 = packet c2" "streamscount c3 = streamscount c" "socketerr c3 = socketerr c" "wire c3 = wire c"
    using RecvData_session [OF r] got(1) by (simp_all add: c2_def c1_def)
  have pk: "datasize (packet c2) = of_nat n" "streamid (packet c2) = sid" "pktid (packet c2) = RINGID_NONE"
      "datastart (packet c2) = MS_HPTIME2NSTIME t0" "dataend (packet c2) = MS_HPTIME2NSTIME t1"
    by (simp_all add: c2_def c1_def)
  have filled: "n \<le> length (recvbuf c3)" using got(2) take_length_le [of body] unfolding body(2) by blast
  have "\<not> write_denied env c2" using client(2) by (cases "allowed (reader c)") (auto simp: write_denied_def c2_def c1_def)
  moreover have "\<not> datasize (packet c2) > pktsize (ring srv)"
    using body(3) by (simp add: pk word_less_nat_alt sz not_less)
  ultimately have "HandleWrite env srv cmd c = HandleWrite_store env srv c3 flags"
    using r got(1) unfolding HandleWrite_def p st sum.case prod.case Let_def c2_def [symmetric] by (simp add: pk sz)
  moreover have "\<exists>c' p'. HandleWrite_store env srv c3 flags = (0, c', srv\<lparr>ring := p'\<rparr>) \<and> ring_inv p'
    \<and> ring_queue p' = fifo_push (nat (nslots (ring srv))) (ring_queue (ring srv))
        (written (ring srv) (write_time env) (packet c3) (recvbuf c3))
    \<and> wire c' = wire c3 \<and> pending c' = pending c3 \<and> rxpackets0 c' = rxpackets0 c3 + 1"
    by (rule HandleWrite_store_ok) (use server ok(1,5) client(3,4) same body(3) filled in \<open>simp_all add: pk sz\<close>)
  moreover have "pending c2 = pending c" by (simp add: c2_def c1_def pending_def)
  moreover have "written (ring srv) (write_time env) (packet c3) (recvbuf c3) = \<lparr>a_pktid = next_id (ring_queue (ring srv)),
      a_pkttime = write_time env, a_datastart = MS_HPTIME2NSTIME t0, a_dataend = MS_HPTIME2NSTIME t1,
      a_streamid = sid, a_data = body\<rparr>"
    using same(1) got(2) by (simp add: written_def pk sz)
  ultimately show ?thesis unfolding same(4) got(3) by (elim exE conjE, intro exI conjI) (assumption | simp)+
qed


definition writing_client :: "string ClientInfo" where
  "writing_client = demo_client\<lparr>dlinfo := Some None, permissions := WRITE_PERMISSION, net := [(3, Bytes [5, 6, 7])],
     dlcommand := to_bytes (unwords (write_words ''A/T'' 20 30 ''N'' (length [5 :: byte, 6])))\<rparr>"

lemma writing_client_facts:
  "dlinfo writing_client = Some None" "allowed (reader writing_client) = None" "streamscount writing_client = 0"
  "socketerr writing_client = 0" "permitted writing_client WRITE_PERMISSION" "wire writing_client = []"
  "dlcommand writing_client = to_bytes (unwords (write_words ''A/T'' 20 30 ''N'' (length [5 :: byte, 6])))"
  "pending writing_client = [5, 6, 7]" "arrives (io_of dl_demo_env (demo_server p)) writing_client [5, 6]"
  by (simp_all add: writing_client_def demo_client_def rejecting_reader_def permitted_def WRITE_PERMISSION_def pending_def
      arrives_def io_of_def dl_demo_env_def)

lemma write_words_ok: "word_ok ''A/T''" "word_ok ''N''" by (simp_all add: word_ok_def IS_TOKEN_SEP_def)


lemma writing_words:
  defines "ws \<equiv> write_words ''A/T'' 20 30 ''N'' (length [5 :: byte, 6])"
  shows "\<forall>w \<in> set ws. word_ok w" "ws \<noteq> []" "length ws \<le> 16" "length (unwords ws) < CMDTOKEN_MAX_LINE"
  using length_dec_int [of 20] length_dec_int [of 30] length_dec [of "Suc (Suc 0)" 1] unfolding ws_def
  by (auto simp: write_words_def write_words_ok CMDTOKEN_MAX_LINE_def int64_def) (simp add: word_ok_def IS_TOKEN_SEP_def)

lemma writing_client_command:
  assumes "cmdtoken_parse (c_string (dlcommand writing_client)) = Some cmd"
  shows "argc cmd = 6 \<and> arg cmd 0 = ''WRITE''"
proof -
  let ?ws = "write_words ''A/T'' 20 30 ''N'' (length [5 :: byte, 6])"
  have "c_string (dlcommand writing_client) = unwords ?ws"
    using c_string_to_bytes [OF unwords_no_NUL [OF writing_words(1)]] by (simp add: writing_client_facts(7))
  then show ?thesis
    using cmdtoken_parse_words [OF writing_words(1,3)] writing_words(4) assms
    by (auto simp: CMDTOKEN_MAX_LINE_def write_words_def)
qed

lemma writing_client_runs: "\<exists>rv c' srv'. DLHandleCmd dl_demo_env srv writing_client = Some (rv, c', srv')"
proof -
  obtain cmd where "DLHandleCmd dl_demo_env srv writing_client = DL_dispatch dl_demo_env srv cmd writing_client"
      "argc cmd = 6" "arg cmd 0 = ''WRITE''"
    using DLHandleCmd_words [OF writing_client_facts(1,7) writing_words, of dl_demo_env srv] by (auto simp: write_words_def)
  then show ?thesis
    by (auto simp: DL_dispatch_def eq_nocase_arg strcasecmp_eq_def split: prod.splits)
qed

theorem DL_ring_access_witness:
  "\<exists>rv c' srv'. DLHandleCmd dl_demo_env (demo_server two_ring) writing_client = Some (rv, c', srv') \<and> ring_inv (ring srv')"
proof -
  obtain rv c' srv' where r: "DLHandleCmd dl_demo_env (demo_server two_ring) writing_client = Some (rv, c', srv')"
    using writing_client_runs by blast
  then show ?thesis using DL_ring_access [OF r] two_ring(1) by (auto simp: demo_server_def)
qed

end
