(* ===== verification/RS_ClientThread.thy ===== *)
theory RS_ClientThread
  imports RS_DLProps
begin

text \<open>
  The thread of a client, \<open>ringserver-4/src/clients.c\<close>: the detection of its protocol and the receiving
  of commands (\<open>ClientRecv\<close>), the WebSocket frames (\<open>RecvWSFrame\<close> of \<open>http.c\<close>) and one iteration of
  the main loop of \<open>ClientThread\<close> for a DataLink connection, with the properties of whole sessions.
\<close>

section \<open>State of the thread\<close>

datatype ClientType = CLIENT_UNDETERMINED | CLIENT_DATALINK | CLIENT_SEEDLINK | CLIENT_HTTP

definition PROTO_DATALINK :: u32 where "PROTO_DATALINK = push_bit 1 1"
definition PROTO_SEEDLINK :: u32 where "PROTO_SEEDLINK = push_bit 2 1"
definition PROTO_HTTP :: u32 where "PROTO_HTTP = push_bit 3 1"

text \<open>
  The further fields of \<open>ClientInfo\<close> and the local variables of the loop; \<open>wsclosed\<close> says that
  \<open>websocket\<close> is 2, a close frame having been sent.
\<close>

record 're thread =
  cinfo :: "'re ClientInfo"
  ctype :: ClientType
  protocols :: u32
  wsmask :: "byte list"
  wsmaskidx :: nat
  wsclosed :: bool
  conntime :: nat
  throttle_msec :: nat
  consecutive_errors :: nat

section \<open>WebSocket frames\<close>

definition be_value :: "byte list \<Rightarrow> nat" where
  "be_value = foldl (\<lambda>n b. n * 256 + unat b) 0"

definition no_mask :: "byte list" where "no_mask = [0, 0, 0, 0]"

text \<open>Unmasking from index \<open>i\<close> of the key on.\<close>

definition unmask :: "byte list \<Rightarrow> nat \<Rightarrow> byte list \<Rightarrow> byte list" where
  "unmask key i bs = map (\<lambda>(j, b). xor b (key ! (j mod 4))) (zip [i..<i + length bs] bs)"

text \<open>
  The length field: the result of a read that failed, or the payload length and the number of bytes
  read for it.
\<close>

definition ws_length ::
  "io_config \<Rightarrow> 're ClientInfo \<Rightarrow> nat \<Rightarrow> (int + nat \<times> int) \<times> 're ClientInfo" where
  "ws_length cfg c length7 =
     (if length7 = 126 then
        (case RecvData cfg c 2 True of (nrecv, c1) \<Rightarrow>
           (if nrecv \<noteq> 2 then Inl nrecv else Inr (be_value (received c1 2), 2), c1))
      else if length7 = 127 then
        (case RecvData cfg c 8 True of (nrecv, c1) \<Rightarrow>
           (if nrecv \<noteq> 8 then Inl nrecv else Inr (be_value (received c1 8), 8), c1))
      else (Inr (length7, 0), c))"

definition ws_mask ::
  "io_config \<Rightarrow> 're ClientInfo \<Rightarrow> bool \<Rightarrow> (int + byte list \<times> int) \<times> 're ClientInfo" where
  "ws_mask cfg c masked =
     (if masked then
        (case RecvData cfg c 4 True of (nrecv, c1) \<Rightarrow>
           (if nrecv \<noteq> 4 then Inl nrecv else Inr (received c1 4, 4), c1))
      else (Inr (no_mask, 0), c))"

text \<open>Ping, pong and close: the payload is received, and sent back for a ping and a close.\<close>

definition ws_control ::
  "io_config \<Rightarrow> int \<Rightarrow> 're thread \<Rightarrow> nat \<Rightarrow> byte \<Rightarrow> nat \<Rightarrow> byte list \<Rightarrow> int \<times> 're thread" where
  "ws_control cfg ns t opcode second len key =
     (if len > 125 then (-2, t)
      else (case (if len > 0 then RecvData cfg (cinfo t) len True else (0, cinfo t)) of (nrecv, c1) \<Rightarrow>
        let body = unmask key 0 (received c1 len); t1 = t\<lparr>cinfo := c1\<rparr>
        in if len > 0 \<and> nrecv \<noteq> int len then (-2, t1)
           else if opcode = 0xa then (0, t1)
           else (let first = (if opcode = 0x9 then 0x8a else 0x88);
                     size1 = (if opcode = 0x9 then and second 0x7f else of_nat len);
                     c2 = snd (SendData cfg ns c1 [first, size1] True);
                     c3 = (if len > 0 then snd (SendData cfg ns c2 body True) else c2)
                 in if opcode = 0x9 then (0, t1\<lparr>cinfo := c3\<rparr>)
                    else (-2, t1\<lparr>cinfo := c3\<lparr>socketerr := -2\<rparr>, wsclosed := True\<rparr>))))"

text \<open>The result has the value of \<open>*length\<close>, which is set before the reads that follow it.\<close>

definition RecvWSFrame :: "io_config \<Rightarrow> int \<Rightarrow> 're thread \<Rightarrow> int \<times> nat \<times> 're thread" where
  "RecvWSFrame cfg ns t0 =
     (let t = t0\<lparr>wsmask := no_mask, wsmaskidx := 0\<rparr>
      in case RecvData cfg (cinfo t) 2 False of (nrecv, c1) \<Rightarrow>
        if nrecv \<noteq> 2 then (nrecv, 0, t\<lparr>cinfo := c1\<rparr>)
        else let one = received c1 2 ! 0; two = received c1 2 ! 1; opcode = unat (and one 0xf)
        in if and one 0x80 = 0 then (-2, 0, t\<lparr>cinfo := c1\<rparr>)
        else (case ws_length cfg c1 (unat (and two 0x7f)) of
            (Inl nrecv2, c2) \<Rightarrow> (nrecv2, 0, t\<lparr>cinfo := c2\<rparr>)
          | (Inr (len, r2), c2) \<Rightarrow>
             (case ws_mask cfg c2 (and two 0x80 \<noteq> 0) of
                (Inl nrecv3, c3) \<Rightarrow> (nrecv3, len, t\<lparr>cinfo := c3\<rparr>)
              | (Inr (key, r3), c3) \<Rightarrow>
                 (let t3 = t\<lparr>cinfo := c3\<rparr>
                  in if 0x3 \<le> opcode \<and> opcode \<le> 0x7 \<or> opcode > 0xa then (-2, len, t3)
                     else if opcode = 0x8 \<or> opcode = 0x9 \<or> opcode = 0xa then
                       (case ws_control cfg ns t3 opcode two len key of (rv, t4) \<Rightarrow> (rv, len, t4))
                     else (2 + r2 + r3, len, t3\<lparr>wsmask := key\<rparr>)))))"

section \<open>Receiving a command\<close>

definition HTTPMETHOD :: "byte list \<Rightarrow> bool" where
  "HTTPMETHOD b \<longleftrightarrow> to_str (take 3 b) \<in> {''GET'', ''HEA'', ''POS'', ''PUT'', ''DEL'', ''TRA'', ''CON''}"

text \<open>Bytes that have been read are read again.\<close>

definition unconsume :: "nat \<Rightarrow> 're ClientInfo \<Rightarrow> 're ClientInfo" where
  "unconsume n c = c\<lparr>recvconsumed := (if recvconsumed c \<ge> n then recvconsumed c - n else 0)\<rparr>"

definition allows :: "'re thread \<Rightarrow> u32 \<Rightarrow> bool" where "allows t p \<longleftrightarrow> and (protocols t) p \<noteq> 0"

text \<open>The protocol from the first three bytes; the number is set when the routine returns at once.\<close>

definition ClientRecv_type :: "io_config \<Rightarrow> 're thread \<Rightarrow> int option \<times> 're thread" where
  "ClientRecv_type cfg t =
     (if ctype t \<noteq> CLIENT_UNDETERMINED then (None, t)
      else (case RecvData cfg (cinfo t) 3 False of (nread, c1) \<Rightarrow>
        if nread \<le> 0 then (Some nread, t\<lparr>cinfo := c1\<rparr>)
        else let c2 = unconsume (nat nread) c1; t2 = t\<lparr>cinfo := c2\<rparr>; b = recvbuf c2
        in if length b < 3 then (Some 0, t2)
        else if allows t PROTO_DATALINK \<and> b ! 0 = 0x44 \<and> b ! 1 = 0x4C then (None, t2\<lparr>ctype := CLIENT_DATALINK\<rparr>)
        else if allows t PROTO_HTTP \<and> HTTPMETHOD b then (None, t2\<lparr>ctype := CLIENT_HTTP\<rparr>)
        else if b ! 0 = 0x0D \<and> b ! 1 = 0x0A \<and> b ! 2 = 0x0D then (Some (-1), t2)
        else if allows t PROTO_SEEDLINK then (None, t2\<lparr>ctype := CLIENT_SEEDLINK\<rparr>)
        else (Some (-1), t2)))"

text \<open>
  The frame of a WebSocket connection; the result of \<open>RecvData\<close> is not looked at, only the length of the
  buffer.
\<close>

definition ClientRecv_frame :: "io_config \<Rightarrow> int \<Rightarrow> 're thread \<Rightarrow> int option \<times> 're thread" where
  "ClientRecv_frame cfg ns t =
     (if \<not> websocket (cinfo t) then (None, t)
      else (case RecvWSFrame cfg ns t of (nread, len, t1) \<Rightarrow>
        if nread < 0 then (Some nread, t1)
        else if nread = 0 then (Some 0, t1)
        else if len = 0 then (None, t1)
        else if len > recvbufsize (cinfo t1) then (Some (-1), t1)
        else (case RecvData cfg (cinfo t1) len True of (nread2, c2) \<Rightarrow>
          if length (recvbuf c2) \<ge> len then
            (None, t1\<lparr>cinfo := unconsume len (c2\<lparr>recvbuf :=
                        unmask (wsmask t1) (wsmaskidx t1) (take len (recvbuf c2)) @ drop len (recvbuf c2)\<rparr>),
                      wsmaskidx := wsmaskidx t1 + len\<rparr>)
          else (Some (-1), t1\<lparr>cinfo := c2\<rparr>))))"

definition ClientRecv_command :: "io_config \<Rightarrow> 're thread \<Rightarrow> int \<times> 're thread" where
  "ClientRecv_command cfg t = (case ctype t of
     CLIENT_DATALINK \<Rightarrow> (case RecvDLCommand cfg (cinfo t) of (n, c) \<Rightarrow> (n, t\<lparr>cinfo := c\<rparr>))
   | CLIENT_UNDETERMINED \<Rightarrow> (-1, t)
   | _ \<Rightarrow> (case RecvLine cfg (cinfo t) of (n, c) \<Rightarrow> (n, t\<lparr>cinfo := c\<rparr>)))"

definition ClientRecv :: "io_config \<Rightarrow> int \<Rightarrow> 're thread \<Rightarrow> int \<times> 're thread" where
  "ClientRecv cfg ns t = (case ClientRecv_type cfg t of
     (Some n, t1) \<Rightarrow> (n, t1)
   | (None, t1) \<Rightarrow> (case ClientRecv_frame cfg ns t1 of
        (Some n, t2) \<Rightarrow> (n, t2)
      | (None, t2) \<Rightarrow> ClientRecv_command cfg t2))"

section \<open>The main loop\<close>

definition THROTTLE_STEPPING :: nat where "THROTTLE_STEPPING = 5"
definition THROTTLE_MAXIMUM :: nat where "THROTTLE_MAXIMUM = 50"
definition MAX_CONSECUTIVE_ERRORS :: nat where "MAX_CONSECUTIVE_ERRORS = 20"

text \<open>How an iteration ends; commands of the other protocols are handled by other files.\<close>

datatype outcome = Continue | Ended | OtherProtocol

definition thread_command ::
  "'re dl_env \<Rightarrow> server \<Rightarrow> 're thread \<Rightarrow> (outcome \<times> 're thread \<times> server) option" where
  "thread_command env srv t = (case ClientRecv (io_of env srv) (nsent0 env) t of (nread, t1) \<Rightarrow>
     if nread < 0 then Some (Ended, t1, srv)
     else if nread = 0 then Some (Continue, t1, srv)
     else if ctype t1 \<noteq> CLIENT_DATALINK then Some (OtherProtocol, t1, srv)
     else (case DLHandleCmd env srv ((cinfo t1)\<lparr>recvstart := 0\<rparr>) of
         None \<Rightarrow> None
       | Some (cmd_result, c2, srv2) \<Rightarrow>
          (let t2 = t1\<lparr>cinfo := c2, throttle_msec := 0\<rparr>
           in Some (if cmd_result < 0 then (Ended, t2, srv2)
                    else if cmd_result > 0 then
                      (if consecutive_errors t2 + 1 \<ge> MAX_CONSECUTIVE_ERRORS then Ended else Continue,
                       t2\<lparr>consecutive_errors := consecutive_errors t2 + 1\<rparr>, srv2)
                    else (Continue, t2\<lparr>consecutive_errors := 0\<rparr>, srv2)))))"

text \<open>The throttle after an iteration that streamed nothing.\<close>

definition backoff :: "nat \<Rightarrow> nat" where
  "backoff n = (if n < THROTTLE_STEPPING then THROTTLE_STEPPING
                else if n * 2 < THROTTLE_MAXIMUM then n * 2 else THROTTLE_MAXIMUM)"

definition thread_stream ::
  "'re dl_env \<Rightarrow> server \<Rightarrow> 're thread \<Rightarrow> (outcome \<times> 're thread) option" where
  "thread_stream env srv t =
     (if state (cinfo t) \<noteq> STATE_STREAM then Some (Continue, t)
      else if ctype t = CLIENT_SEEDLINK then Some (OtherProtocol, t)
      else (case (if ctype t = CLIENT_DATALINK then DLStreamPackets env srv (cinfo t) else Some (0, cinfo t)) of
          None \<Rightarrow> None
        | Some (sentbytes, c1) \<Rightarrow>
           Some (if sentbytes < 0 then (Ended, t\<lparr>cinfo := c1\<rparr>)
                 else if sentbytes = 0 then (Continue, t\<lparr>cinfo := c1, throttle_msec := backoff (throttle_msec t)\<rparr>)
                 else (Continue, t\<lparr>cinfo := c1, throttle_msec := 0\<rparr>))))"

text \<open>Time passes; an event is due the sooner.\<close>

fun elapse :: "nat \<Rightarrow> net \<Rightarrow> net" where
  "elapse n [] = []"
| "elapse n ((d, e) # s) = (d - n, e) # s"

definition thread_throttle :: "'re dl_env \<Rightarrow> 're thread \<Rightarrow> outcome \<times> 're thread" where
  "thread_throttle env t =
     (let c = cinfo t; ms = throttle_msec t
      in if ms = 0 then (Continue, t)
      else if ms \<ge> THROTTLE_MAXIMUM \<and> lastxchange c = conntime t \<and> clock c - conntime t > 10 * 1000 then (Ended, t)
      else if recvstart c \<noteq> 0 \<and> clock c - recvstart c > iotimeout env * 1000 then (Ended, t)
      else if ctype t \<noteq> CLIENT_UNDETERMINED then
        (case PollSocket (net c) ms of (_, s, passed) \<Rightarrow>
           (Continue, t\<lparr>cinfo := c\<lparr>net := s, clock := clock c + passed\<rparr>\<rparr>))
      else (Continue, t\<lparr>cinfo := c\<lparr>net := elapse ms (net c), clock := clock c + ms\<rparr>\<rparr>))"

definition thread_iteration ::
  "'re dl_env \<Rightarrow> server \<Rightarrow> 're thread \<Rightarrow> (outcome \<times> 're thread \<times> server) option" where
  "thread_iteration env srv t0 =
     (let t = t0\<lparr>throttle_msec := (if throttle_msec t0 < THROTTLE_MAXIMUM
                                     then throttle_msec t0 + THROTTLE_STEPPING else throttle_msec t0)\<rparr>
      in case thread_command env srv t of
           None \<Rightarrow> None
         | Some (Continue, t1, srv1) \<Rightarrow>
            (case thread_stream env srv1 t1 of
               None \<Rightarrow> None
             | Some (Continue, t2) \<Rightarrow> (case thread_throttle env t2 of (r, t3) \<Rightarrow> Some (r, t3, srv1))
             | Some (r, t2) \<Rightarrow> Some (r, t2, srv1))
         | Some (r, t1, srv1) \<Rightarrow> Some (r, t1, srv1))"

section \<open>Rights and limits\<close>

text \<open>The rights of a client, its state and the limits on its streams; most operations leave them.\<close>

definition rights :: "'re ClientInfo \<Rightarrow> u32 \<times> ClientState \<times> 're option \<times> 're option" where
  "rights c = (permissions c, state c, allowed (reader c), forbidden (reader c))"

lemma rights_same: "same_session c c' \<Longrightarrow> rights c' = rights c" by (simp add: rights_def same_session_def)

lemma rights_update [simp]:
  "rights (c\<lparr>packet := p\<rparr>) = rights c" "rights (c\<lparr>sendbuf := b\<rparr>) = rights c" "rights (c\<lparr>streams := s\<rparr>) = rights c"
  "rights (c\<lparr>streamscount := n\<rparr>) = rights c" "rights (c\<lparr>rxpackets0 := w\<rparr>) = rights c" "rights (c\<lparr>rxbytes0 := w\<rparr>) = rights c"
  "rights (c\<lparr>txpackets0 := w\<rparr>) = rights c" "rights (c\<lparr>txbytes0 := w\<rparr>) = rights c" "rights (c\<lparr>clientid := i\<rparr>) = rights c"
  "rights (c\<lparr>matchstr := m\<rparr>) = rights c" "rights (c\<lparr>rejectstr := m\<rparr>) = rights c" "rights (c\<lparr>dlinfo := d\<rparr>) = rights c"
  "rights (c\<lparr>recvstart := k\<rparr>) = rights c" "rights (c\<lparr>net := e\<rparr>) = rights c" "rights (c\<lparr>clock := k\<rparr>) = rights c"
  "rights (c\<lparr>recvbuf := b\<rparr>) = rights c" "rights (c\<lparr>recvconsumed := k\<rparr>) = rights c" "rights (c\<lparr>socketerr := z\<rparr>) = rights c"
  "rights (c\<lparr>dlcommand := b\<rparr>) = rights c"
  by (simp_all add: rights_def)

lemma rights_sends [simp]:
  "rights (snd (SendPacket env srv c h d v av as)) = rights c"
  "rights (snd (reply env srv c k m)) = rights c"
  "rights (snd (dl_arg_error env srv c m)) = rights c"
  "rights (snd (SendDataMB cfg ns c bufs no)) = rights c"
  "rights (snd (SendData cfg ns c bs no)) = rights c"
  unfolding SendData_def
  using SendPacket_session reply_session SendDataMB_session rights_same by (metis prod.collapse)+

lemma rights_replied: "reply env srv c k m = (rv, c') \<Longrightarrow> rights c' = rights c"
  using rights_sends(2) [of env srv c k m] by simp

lemma rights_recv [simp]: "rights (snd (RecvData cfg c n f)) = rights c"
proof -
  obtain k c' where r: "RecvData cfg c n f = (k, c')" by (cases "RecvData cfg c n f")
  show ?thesis using RecvData_session [OF r] by (simp add: r rights_def)
qed

lemma rights_SendRingPacket [simp]: "rights (snd (SendRingPacket env srv c)) = rights c"
  using rights_same [OF SendRingPacket_state [of c env srv]] by simp

text \<open>The ring routines move a reader but leave its expressions for allowed and forbidden streams.\<close>

definition same_limits :: "'re RingReader \<Rightarrow> 're RingReader \<Rightarrow> bool" where
  "same_limits rd rd' \<longleftrightarrow> allowed rd' = allowed rd \<and> forbidden rd' = forbidden rd"

lemma ReadNext_loop_limits:
  "ReadNext_loop fuel p pm lt eob off n rd = Some (r, rd') \<Longrightarrow>
   same_limits rd rd' \<and> (\<forall>x. r = Some x \<longrightarrow> selects pm rd (streamid (PACKETPTR p x)))"
proof (induction fuel arbitrary: off n rd)
  case (Suc fuel)
  let ?pkt = "PACKETPTR p off"
  consider "off = eob" | "off \<noteq> eob" "pkttime ?pkt > lt" "n + 1 \<ge> 100" | "off \<noteq> eob" "pkttime ?pkt > lt" "\<not> n + 1 \<ge> 100"
    | "off \<noteq> eob" "\<not> pkttime ?pkt > lt" "selects pm rd (streamid ?pkt)"
    | "off \<noteq> eob" "\<not> pkttime ?pkt > lt" "\<not> selects pm rd (streamid ?pkt)" by blast
  then show ?case
  proof cases
    case 3
    then show ?thesis using Suc.prems Suc.IH [of "earliestoffset p" "n + 1" rd] by (simp add: Let_def)
  next
    case 5
    then show ?thesis
      using Suc.prems Suc.IH [of "NEXTOFFSET off (maxoffset p) (config_pktsize p)" 0 "at_packet rd off ?pkt"]
      by (simp add: Let_def pattern_skip_eq) (simp add: same_limits_def at_packet_def)
  qed (use Suc.prems in \<open>auto simp: Let_def pattern_skip_eq same_limits_def at_packet_def\<close>)
qed simp

lemma limits_reading:
  "RingRead fuel p rd i pkt0 w = Some (r, rd', x) \<Longrightarrow> same_limits rd rd'"
  "RingPosition fuel p rd i t = Some (r, rd') \<Longrightarrow> same_limits rd rd'"
  "RingReadNext fuel p pm rd pkt0 w = Some (r, rd', x) \<Longrightarrow> same_limits rd rd'"
proof -
  show "RingRead fuel p rd i pkt0 w = Some (r, rd', x) \<Longrightarrow> same_limits rd rd'"
    by (auto simp: RingRead_def same_limits_def Let_def split: if_splits option.splits prod.splits)
  show "RingPosition fuel p rd i t = Some (r, rd') \<Longrightarrow> same_limits rd rd'"
    by (auto simp: RingPosition_def same_limits_def Let_def split: if_splits option.splits prod.splits)
  show "RingReadNext fuel p pm rd pkt0 w = Some (r, rd', x) \<Longrightarrow> same_limits rd rd'"
    by (auto simp: RingReadNext_def ReadNext_start_def Let_def same_limits_def at_packet_def
        split: if_splits option.splits prod.splits sum.splits dest!: ReadNext_loop_limits)
qed

lemma limits_RingRead:
  assumes "RingRead fuel p rd i pkt0 w = Some (r, rd', x)"
  shows "rights (c\<lparr>reader := rd'\<rparr>) = rights (c\<lparr>reader := rd\<rparr>)"
  using limits_reading(1) [OF assms] by (simp add: same_limits_def rights_def)

lemma limits_RingPosition:
  assumes "RingPosition fuel p rd i t = Some (r, rd')"
  shows "allowed rd' = allowed rd \<and> forbidden rd' = forbidden rd"
  using limits_reading(2) [OF assms] by (simp add: same_limits_def)

lemma limits_RingAfter:
  "allowed (snd (RingAfter p pm rd t w)) = allowed rd \<and> forbidden (snd (RingAfter p pm rd t w)) = forbidden rd"
  "allowed (snd (RingAfterRev p pm rd t n w)) = allowed rd \<and> forbidden (snd (RingAfterRev p pm rd t n w)) = forbidden rd"
  by (auto simp: RingAfter_def RingAfterRev_def at_packet_def Let_def split: option.splits prod.splits)

lemma rights_HandleRead: "HandleRead env srv cmd c = Some (rv, c') \<Longrightarrow> rights c' = rights c"
  by (auto simp: HandleRead_def Let_def case_prod_unfold split: if_splits option.splits
      dest: limits_RingRead [where c = c] rights_replied)

lemma rights_HandleInfo [simp]: "rights (snd (HandleInfo env srv cmd c)) = rights c"
proof -
  have send: "rights (snd (HandleInfo_send env srv c1 ty x)) = rights c1" for c1 ty x
    by (simp add: HandleInfo_send_def case_prod_unfold split: option.split)
  have "rights (snd (HandleInfo_type env srv cmd c1 m)) = rights c1" for c1 m
    by (simp add: HandleInfo_type_def Let_def send)
  then show ?thesis by (simp add: HandleInfo_def case_prod_unfold split: option.split)
qed

lemma rights_HandleWrite_store [simp]: "rights (fst (snd (HandleWrite_store env srv c flags))) = rights c"
  by (simp add: HandleWrite_store_def Let_def case_prod_unfold split: option.split)

lemma rights_HandleWrite_parse:
  "HandleWrite_parse cmd c = Inl (m, c1) \<Longrightarrow> rights c1 = rights c"
  "HandleWrite_parse cmd c = Inr (sid, fl, c1) \<Longrightarrow> rights c1 = rights c"
  by (auto simp: HandleWrite_parse_def Let_def split: if_splits option.splits)

lemma rights_HandleWrite [simp]: "rights (fst (snd (HandleWrite env srv cmd c))) = rights c"
proof (cases "HandleWrite_parse cmd c")
  case (Inl a)
  then show ?thesis using rights_HandleWrite_parse(1) [of cmd c] by (cases a) (simp add: HandleWrite_def case_prod_unfold)
next
  case (Inr a)
  obtain sid fl c1 where a: "a = (sid, fl, c1)" by (cases a)
  have "rights c1 = rights c" using rights_HandleWrite_parse(2) Inr a by metis
  then show ?thesis using Inr a by (simp add: HandleWrite_def Let_def case_prod_unfold split: sum.split)
qed

lemma rights_reader:
  "allowed rd = allowed (reader c) \<and> forbidden rd = forbidden (reader c) \<Longrightarrow> rights (c\<lparr>reader := rd\<rparr>) = rights c"
  by (simp add: rights_def)

lemma rights_Negotiate_ID [simp]: "rights (snd (Negotiate_ID env srv cmd c)) = rights c"
  by (simp add: Negotiate_ID_def Let_def split: option.split)

lemma rights_Position_set:
  assumes "Position_set env srv c pid t = Some r"
  shows "rights (snd r) = rights c"
proof -
  obtain q rd where p: "RingPosition (rfuel env) (ring srv) (reader c) pid NSTUNSET = Some (q, rd)"
    using assms by (auto simp: Position_set_def split: option.splits)
  note lim = limits_RingPosition [OF p]
  show ?thesis using assms lim
    by (simp add: Position_set_def p Let_def del: option.inject) (auto simp: rights_reader split: if_splits)
qed

lemma rights_Position_after [simp]: "rights (snd (Position_after env srv cmd c)) = rights c"
proof (cases "cmdtoken_i64 cmd 2 10")
  case (Some h)
  then show ?thesis
    by (cases "timewin env") (auto simp: Position_after_def Let_def case_prod_unfold limits_RingAfter rights_reader)
qed (simp add: Position_after_def)

lemma rights_Negotiate_POSITION:
  "Negotiate_POSITION env srv cmd c = Some r \<Longrightarrow> rights (snd r) = rights c"
  by (auto simp: Negotiate_POSITION_def split: if_splits sum.splits dest: rights_Position_set)

lemma rights_selected_reply: "selected_reply env srv c what = Some r \<Longrightarrow> rights (snd r) = rights c"
  by (auto simp: selected_reply_def split: option.splits)

lemma limits_Match [simp]:
  "allowed (snd (RingMatch lib rd e)) = allowed rd" "forbidden (snd (RingMatch lib rd e)) = forbidden rd"
  "allowed (snd (RingReject lib rd e)) = allowed rd" "forbidden (snd (RingReject lib rd e)) = forbidden rd"
  by (simp_all add: RingMatch_def RingReject_def case_prod_unfold)

lemma rights_Negotiate_MATCH: "Negotiate_MATCH env srv cmd c = Some r \<Longrightarrow> rights (snd r) = rights c"
  by (auto simp: Negotiate_MATCH_def Let_def case_prod_unfold rights_reader split: if_splits option.splits
      dest!: rights_selected_reply)

lemma rights_Negotiate_REJECT: "Negotiate_REJECT env srv cmd c = Some r \<Longrightarrow> rights (snd r) = rights c"
  by (auto simp: Negotiate_REJECT_def Let_def case_prod_unfold rights_reader split: if_splits option.splits
      dest!: rights_selected_reply)

lemma state_of_rights: "rights c' = rights c \<Longrightarrow> state c' = state c" by (simp add: rights_def)

lemmas state_sends [simp] = rights_sends [THEN state_of_rights] rights_recv [THEN state_of_rights]

lemma state_PerformAuth [simp]: "state (snd (PerformAuth env c u p j)) = state c"
proof -
  have limits: "state (snd (apply_allowed lib root c1)) = state c1" "state (snd (apply_forbidden lib root c1)) = state c1" for lib root c1
    by (simp_all add: apply_allowed_def apply_forbidden_def Let_def case_prod_unfold split: option.split)
  have flags: "state (apply_flags root c1) = state c1" for root c1
    by (simp add: apply_flags_def Let_def split: option.split)
  have "state (snd (ApplyPermissionsJSON env c1 s)) = state c1" for c1 s
    by (simp add: ApplyPermissionsJSON_def case_prod_unfold limits flags split: option.split)
  then show ?thesis by (simp add: PerformAuth_def Let_def case_prod_unfold split: option.split)
qed

lemma state_Negotiate_AUTH [simp]: "state (snd (Negotiate_AUTH env srv cmd c)) = state c"
proof -
  have "state (snd (Auth_finish env srv c1 u p j)) = state c1" for c1 u p j
    by (simp add: Auth_finish_def case_prod_unfold)
  then show ?thesis by (simp add: Negotiate_AUTH_def Let_def case_prod_unfold split: option.split)
qed

lemma rights_results:
  "Negotiate_ID env srv cmd c = (rv, c') \<Longrightarrow> rights c' = rights c"
  "HandleInfo env srv cmd c = (rv, c') \<Longrightarrow> rights c' = rights c"
  "HandleWrite env srv cmd c = (rv, c', srv') \<Longrightarrow> rights c' = rights c"
  "SendPacket env srv c h d v av as = (rv, c') \<Longrightarrow> rights c' = rights c"
  "reply env srv c k m = (rv, c') \<Longrightarrow> rights c' = rights c"
  "Negotiate_AUTH env srv cmd c = (rv, c') \<Longrightarrow> state c' = state c"
  by (metis rights_Negotiate_ID rights_HandleInfo rights_HandleWrite rights_sends(1,2) state_Negotiate_AUTH fst_conv snd_conv)+

text \<open>Only AUTH changes the rights; it leaves the state.\<close>

lemma rights_HandleNegotiation:
  assumes "HandleNegotiation env srv cmd c = Some (rv, c')"
  shows "state c' = state c" "\<not> cmdtoken_eq_nocase cmd 0 ''AUTH'' \<Longrightarrow> rights c' = rights c"
    "cmdtoken_eq_nocase cmd 0 ''ID'' \<Longrightarrow> rights c' = rights c"
proof -
  have r: "rights c' = rights c" if "\<not> cmdtoken_eq_nocase cmd 0 ''AUTH'' \<or> cmdtoken_eq_nocase cmd 0 ''ID''"
    using assms that
    by (auto simp: HandleNegotiation_def split: if_splits prod.splits
        dest: rights_results rights_Negotiate_POSITION rights_Negotiate_MATCH rights_Negotiate_REJECT)
  show "\<not> cmdtoken_eq_nocase cmd 0 ''AUTH'' \<Longrightarrow> rights c' = rights c"
    "cmdtoken_eq_nocase cmd 0 ''ID'' \<Longrightarrow> rights c' = rights c" using r by simp_all
  show "state c' = state c"
  proof (cases "\<not> cmdtoken_eq_nocase cmd 0 ''AUTH'' \<or> cmdtoken_eq_nocase cmd 0 ''ID''")
    case True
    then show ?thesis using r state_of_rights by blast
  next
    case False
    then show ?thesis using assms by (auto simp: HandleNegotiation_def dest: rights_results)
  qed
qed

text \<open>Streaming is entered with the rights it needs, and they are not lost in it.\<close>

definition authorised :: "'re dl_env \<Rightarrow> 're ClientInfo \<Rightarrow> bool" where
  "authorised env c \<longleftrightarrow> (state c = STATE_STREAM \<and> auth_required env \<longrightarrow> permitted c AUTHENTICATED)"

lemma authorised_rights: "rights c' = rights c \<Longrightarrow> authorised env c' = authorised env c"
  by (simp add: authorised_def rights_def permitted_def)

lemma authorised_idle: "state c \<noteq> STATE_STREAM \<Longrightarrow> authorised env c" by (simp add: authorised_def)

lemma DL_dispatch_rights:
  assumes "DL_dispatch env srv cmd c = Some (rv, c', srv')"
  shows "authorised env c \<Longrightarrow> authorised env c'"
    "\<not> cmdtoken_eq_nocase cmd 0 ''AUTH'' \<Longrightarrow> permissions c' = permissions c \<and> allowed (reader c') = allowed (reader c)
       \<and> forbidden (reader c') = forbidden (reader c)"
proof -
  let ?limits = "permissions c' = permissions c \<and> allowed (reader c') = allowed (reader c) \<and> forbidden (reader c') = forbidden (reader c)"
  consider (store) "cmdtoken_eq_nocase cmd 0 ''WRITE'' \<or> cmdtoken_eq_nocase cmd 0 ''INFO''"
    | (read) "\<not> cmdtoken_eq_nocase cmd 0 ''WRITE''" "\<not> cmdtoken_eq_nocase cmd 0 ''INFO''" "cmdtoken_eq_nocase cmd 0 ''READ''"
    | (stop) "\<not> cmdtoken_eq_nocase cmd 0 ''WRITE''" "\<not> cmdtoken_eq_nocase cmd 0 ''INFO''" "\<not> cmdtoken_eq_nocase cmd 0 ''READ''"
        "cmdtoken_eq_nocase cmd 0 ''ENDSTREAM''"
    | (stream) "\<not> cmdtoken_eq_nocase cmd 0 ''WRITE''" "\<not> cmdtoken_eq_nocase cmd 0 ''INFO''" "\<not> cmdtoken_eq_nocase cmd 0 ''READ''"
        "\<not> cmdtoken_eq_nocase cmd 0 ''ENDSTREAM''" "cmdtoken_eq_nocase cmd 0 ''STREAM''"
    | (other) "\<not> cmdtoken_eq_nocase cmd 0 ''WRITE''" "\<not> cmdtoken_eq_nocase cmd 0 ''INFO''" "\<not> cmdtoken_eq_nocase cmd 0 ''READ''"
        "\<not> cmdtoken_eq_nocase cmd 0 ''ENDSTREAM''" "\<not> cmdtoken_eq_nocase cmd 0 ''STREAM''" by blast
  then have "(authorised env c \<longrightarrow> authorised env c') \<and> (\<not> cmdtoken_eq_nocase cmd 0 ''AUTH'' \<longrightarrow> ?limits)"
  proof cases
    case store
    then have r: "rights c' = rights c"
      using assms by (auto simp: DL_dispatch_def split: if_splits prod.splits dest: rights_results)
    then show ?thesis using authorised_rights [OF r, of env] by (simp add: rights_def)
  next
    case read
    then have "rights c' = rights (c\<lparr>state := STATE_COMMAND\<rparr>)"
      using assms by (auto simp: DL_dispatch_def split: option.splits dest: rights_HandleRead)
    then show ?thesis by (auto simp: rights_def authorised_idle)
  next
    case stop
    then have "rights c' = rights c \<or> rights c' = rights (c\<lparr>state := STATE_COMMAND\<rparr>)"
      using assms by (auto simp: DL_dispatch_def split: if_splits prod.splits dest!: rights_results) (simp add: rights_def)
    then show ?thesis
    proof
      assume r: "rights c' = rights c"
      then show ?thesis using authorised_rights [OF r] by (simp add: rights_def)
    qed (simp add: rights_def authorised_idle)
  next
    case stream
    then have "rights c' = rights c \<or> (auth_required env \<longrightarrow> permitted c AUTHENTICATED) \<and> rights c' = rights (c\<lparr>state := STATE_STREAM\<rparr>)"
      using assms by (auto simp: DL_dispatch_def split: if_splits) (simp_all add: rights_def)
    then show ?thesis
    proof
      assume r: "rights c' = rights c"
      then show ?thesis using authorised_rights [OF r] by (simp add: rights_def)
    qed (simp add: rights_def authorised_def permitted_def)
  next
    case other
    define c1 where "c1 = (if \<not> cmdtoken_eq_nocase cmd 0 ''ID'' then c\<lparr>state := STATE_COMMAND\<rparr> else c)"
    obtain r where h: "HandleNegotiation env srv cmd c1 = Some (r, c')"
      using assms other by (auto simp: DL_dispatch_def c1_def split: option.splits)
    note n = rights_HandleNegotiation [OF h]
    show ?thesis using n by (auto simp: c1_def rights_def authorised_def permitted_def)
  qed
  then show "authorised env c \<Longrightarrow> authorised env c'" "\<not> cmdtoken_eq_nocase cmd 0 ''AUTH'' \<Longrightarrow> ?limits" by blast+
qed

lemma DLHandleCmd_rights:
  assumes "DLHandleCmd env srv c = Some (rv, c', srv')"
  shows "authorised env c \<Longrightarrow> authorised env c'"
    "\<forall>cmd. cmdtoken_parse (c_string (dlcommand c)) = Some cmd \<longrightarrow> \<not> cmdtoken_eq_nocase cmd 0 ''AUTH'' \<Longrightarrow>
     permissions c' = permissions c \<and> allowed (reader c') = allowed (reader c) \<and> forbidden (reader c') = forbidden (reader c)"
proof -
  obtain r0 c1 where st: "dl_start env c = (r0, c1)" by (cases "dl_start env c")
  define d where "d = dlinfo c1"
  have c1: "c1 = c\<lparr>dlinfo := d\<rparr>" using dl_start_session [OF st] by (simp add: d_def)
  have "rights c' = rights c \<or> (\<exists>cmd. cmdtoken_parse (c_string (dlcommand c)) = Some cmd \<and> DL_dispatch env srv cmd c1 = Some (rv, c', srv'))"
    using assms st by (auto simp: DLHandleCmd_def c1 split: if_splits option.splits)
  then consider "rights c' = rights c"
    | cmd where "cmdtoken_parse (c_string (dlcommand c)) = Some cmd" "DL_dispatch env srv cmd c1 = Some (rv, c', srv')" by blast
  then have "(authorised env c \<longrightarrow> authorised env c') \<and>
    ((\<forall>cmd. cmdtoken_parse (c_string (dlcommand c)) = Some cmd \<longrightarrow> \<not> cmdtoken_eq_nocase cmd 0 ''AUTH'') \<longrightarrow>
     permissions c' = permissions c \<and> allowed (reader c') = allowed (reader c) \<and> forbidden (reader c') = forbidden (reader c))"
  proof cases
    case 1
    then show ?thesis using authorised_rights [OF 1, of env] by (simp add: rights_def)
  next
    case 2
    have "authorised env c1 = authorised env c" "permissions c1 = permissions c" "reader c1 = reader c"
      by (simp_all add: c1 authorised_def permitted_def)
    then show ?thesis using DL_dispatch_rights [OF 2(2)] 2(1) by auto
  qed
  then show "authorised env c \<Longrightarrow> authorised env c'"
    "\<forall>cmd. cmdtoken_parse (c_string (dlcommand c)) = Some cmd \<longrightarrow> \<not> cmdtoken_eq_nocase cmd 0 ''AUTH'' \<Longrightarrow>
     permissions c' = permissions c \<and> allowed (reader c') = allowed (reader c) \<and> forbidden (reader c') = forbidden (reader c)"
    by blast+
qed

text \<open>Receiving keeps the rights.\<close>

lemma rights_RecvDLCommand [simp]: "rights (snd (RecvDLCommand cfg c)) = rights c"
  by (simp add: RecvDLCommand_def Let_def case_prod_unfold)

lemma rights_take_line [simp]: "rights (snd (take_line c f l)) = rights c"
  by (simp add: take_line_def Let_def split: option.split)

lemma rights_RecvLine [simp]: "rights (snd (RecvLine cfg c)) = rights c"
proof -
  have "rights (snd (RecvLine_search cfg c1)) = rights c1" for c1 :: "'a ClientInfo"
    by (simp add: RecvLine_search_def Let_def case_prod_unfold split: option.split)
  then show ?thesis by (simp add: RecvLine_def Let_def case_prod_unfold split: option.split)
qed

lemma rights_unconsume [simp]: "rights (unconsume n c) = rights c" by (simp add: unconsume_def)

lemma rights_ws [simp]: "rights (snd (ws_length cfg c n)) = rights c" "rights (snd (ws_mask cfg c m)) = rights c"
  by (simp_all add: ws_length_def ws_mask_def case_prod_unfold)

definition trights :: "'re thread \<Rightarrow> u32 \<times> ClientState \<times> 're option \<times> 're option" where
  "trights t = rights (cinfo t)"

lemma trights_update [simp]:
  "trights (t\<lparr>cinfo := c\<rparr>) = rights c" "trights (t\<lparr>ctype := y\<rparr>) = trights t" "trights (t\<lparr>wsmask := m\<rparr>) = trights t"
  "trights (t\<lparr>wsmaskidx := k\<rparr>) = trights t" "trights (t\<lparr>wsclosed := b\<rparr>) = trights t"
  "trights (t\<lparr>throttle_msec := k\<rparr>) = trights t" "trights (t\<lparr>consecutive_errors := k\<rparr>) = trights t"
  by (simp_all add: trights_def)

lemma trights_ws_control [simp]: "trights (snd (ws_control cfg ns t op two len key)) = trights t"
  by (simp add: ws_control_def Let_def case_prod_unfold trights_def)

lemma trights_RecvWSFrame [simp]: "trights (snd (snd (RecvWSFrame cfg ns t))) = trights t"
proof -
  define t1 where "t1 = t\<lparr>wsmask := no_mask, wsmaskidx := 0\<rparr>"
  have [simp]: "trights t1 = trights t" "rights (cinfo t1) = trights t" by (simp_all add: t1_def trights_def)
  obtain n c1 where r: "RecvData cfg (cinfo t1) 2 False = (n, c1)" by (cases "RecvData cfg (cinfo t1) 2 False")
  have c1: "rights c1 = trights t" using rights_recv [of cfg "cinfo t1" 2 False] unfolding r by simp
  obtain l c2 where l: "ws_length cfg c1 (unat (and (received c1 2 ! 1) 0x7f)) = (l, c2)"
    by (cases "ws_length cfg c1 (unat (and (received c1 2 ! 1) 0x7f))")
  have c2: "rights c2 = trights t" using rights_ws(1) [of cfg c1 "unat (and (received c1 2 ! 1) 0x7f)"] unfolding l c1 by simp
  obtain m c3 where m: "ws_mask cfg c2 (and (received c1 2 ! 1) 0x80 \<noteq> 0) = (m, c3)"
    by (cases "ws_mask cfg c2 (and (received c1 2 ! 1) 0x80 \<noteq> 0)")
  have c3: "rights c3 = trights t" using rights_ws(2) [of cfg c2 "and (received c1 2 ! 1) 0x80 \<noteq> 0"] unfolding m c2 by simp
  show ?thesis
    unfolding RecvWSFrame_def Let_def t1_def [symmetric] r prod.case l m
    by (cases l; cases m) (auto simp: c1 c2 c3 case_prod_unfold)
qed

lemma trights_ClientRecv [simp]: "trights (snd (ClientRecv cfg ns t)) = trights t"
proof -
  have ty: "trights (snd (ClientRecv_type cfg t1)) = trights t1" for t1 :: "'a thread"
    by (simp add: ClientRecv_type_def Let_def case_prod_unfold) (simp add: trights_def)
  have fr: "trights (snd (ClientRecv_frame cfg ns t1)) = trights t1" for t1 :: "'a thread"
  proof -
    have f: "rights (cinfo (snd (snd (RecvWSFrame cfg ns t1)))) = rights (cinfo t1)"
      using trights_RecvWSFrame [of cfg ns t1] unfolding trights_def .
    show ?thesis by (simp add: ClientRecv_frame_def case_prod_unfold f) (simp add: trights_def f)
  qed
  have co: "trights (snd (ClientRecv_command cfg t1)) = trights t1" for t1 :: "'a thread"
    by (cases "ctype t1") (simp_all add: ClientRecv_command_def case_prod_unfold trights_def)
  show ?thesis by (simp add: ClientRecv_def case_prod_unfold ty fr co split: option.split)
qed

section \<open>Sessions\<close>

text \<open>
  The thread starts with a reader that stands nowhere, the buffers and the expressions of the
  listener; it ends at once when one of its resources cannot be had or an expression does not
  compile.  A listener of one protocol sets the type.
\<close>

definition thread_start :: "'re dl_env \<Rightarrow> server \<Rightarrow> bool \<Rightarrow> u32 \<Rightarrow> 're ClientInfo \<Rightarrow> outcome \<times> 're thread" where
  "thread_start env srv resources_ok protos c0 =
     (let c1 = c0\<lparr>reader := \<lparr>pktoffset = -1, rd_pktid = RINGID_NONE, rd_pkttime = NSTUNSET, allowed = None,
                    forbidden = None, rd_match = None, reject = None\<rparr>,
                  state := STATE_COMMAND, streams := Map.empty, streamscount := 0,
                  sendbufsize := unat (64 * pktsize (ring srv)), recvbufsize := unat (10 * pktsize (ring srv))\<rparr>;
          (rv1, rd1) = (if allowedstr c1 \<noteq> None then RingAllowed (re_lib (auth env)) (reader c1) (allowedstr c1)
                        else (0, reader c1));
          (rv2, rd2) = (if forbiddenstr c1 \<noteq> None then RingForbidden (re_lib (auth env)) rd1 (forbiddenstr c1)
                        else (0, rd1));
          ty = (if protos = PROTO_DATALINK then CLIENT_DATALINK else if protos = PROTO_SEEDLINK then CLIENT_SEEDLINK
                else if protos = PROTO_HTTP then CLIENT_HTTP else CLIENT_UNDETERMINED)
      in (if resources_ok \<and> 0 \<le> rv1 \<and> 0 \<le> rv2 then Continue else Ended,
          \<lparr>cinfo = c1\<lparr>reader := rd2\<rparr>, ctype = ty, protocols = protos, wsmask = no_mask, wsmaskidx = 0,
            wsclosed = False, conntime = clock c0, throttle_msec = 0, consecutive_errors = 0\<rparr>))"

text \<open>
  A session: the iterations of the thread, between which the other threads change the ring and the
  shutdown flag, keeping the ring sound.  (Within an iteration the ring is taken as it is at its
  start; \<open>RingWrite\<close> itself runs under the ring lock.)
\<close>

inductive session_step :: "'re dl_env \<Rightarrow> server \<times> 're thread \<Rightarrow> server \<times> 're thread \<Rightarrow> bool" for env where
  iterate: "thread_iteration env srv t = Some (Continue, t', srv') \<Longrightarrow> session_step env (srv, t) (srv', t')"
| others: "ring_inv (ring srv') \<Longrightarrow> session_step env (srv, t) (srv', t)"

inductive session :: "'re dl_env \<Rightarrow> server \<times> 're thread \<Rightarrow> bool" for env where
  start: "ring_inv (ring srv) \<Longrightarrow> thread_start env srv ok protos c = (Continue, t) \<Longrightarrow> session env (srv, t)"
| step: "session env s \<Longrightarrow> session_step env s s' \<Longrightarrow> session env s'"

inductive_cases session_stepE: "session_step env (srv, t) s'"

definition session_ok :: "'re dl_env \<Rightarrow> server \<times> 're thread \<Rightarrow> bool" where
  "session_ok env s \<longleftrightarrow> ring_inv (ring (fst s)) \<and> authorised env (cinfo (snd s))
     \<and> consecutive_errors (snd s) < MAX_CONSECUTIVE_ERRORS \<and> throttle_msec (snd s) < THROTTLE_MAXIMUM + THROTTLE_STEPPING"

text \<open>Receiving leaves the counters of the loop.\<close>

definition counters :: "'re thread \<Rightarrow> nat \<times> nat \<times> nat" where
  "counters t = (throttle_msec t, consecutive_errors t, conntime t)"

lemma counters_update [simp]:
  "counters (t\<lparr>cinfo := c\<rparr>) = counters t" "counters (t\<lparr>ctype := y\<rparr>) = counters t" "counters (t\<lparr>wsmask := m\<rparr>) = counters t"
  "counters (t\<lparr>wsmaskidx := k\<rparr>) = counters t" "counters (t\<lparr>wsclosed := b\<rparr>) = counters t"
  by (simp_all add: counters_def)

lemma counters_ws_control [simp]: "counters (snd (ws_control cfg ns t op two len key)) = counters t"
  by (simp add: ws_control_def Let_def case_prod_unfold)

lemma counters_RecvWSFrame [simp]: "counters (snd (snd (RecvWSFrame cfg ns t))) = counters t"
  by (simp add: RecvWSFrame_def Let_def case_prod_unfold split: sum.split)

lemma counters_ClientRecv [simp]: "counters (snd (ClientRecv cfg ns t)) = counters t"
proof -
  have ty: "counters (snd (ClientRecv_type cfg t1)) = counters t1" for t1 :: "'a thread"
    by (simp add: ClientRecv_type_def Let_def case_prod_unfold)
  have fr: "counters (snd (ClientRecv_frame cfg ns t1)) = counters t1" for t1 :: "'a thread"
    by (simp add: ClientRecv_frame_def case_prod_unfold)
  have co: "counters (snd (ClientRecv_command cfg t1)) = counters t1" for t1 :: "'a thread"
    by (cases "ctype t1") (simp_all add: ClientRecv_command_def case_prod_unfold)
  show ?thesis by (simp add: ClientRecv_def case_prod_unfold ty fr co split: option.split)
qed

lemma thread_command_ok:
  assumes "thread_command env srv t = Some (Continue, t', srv')" "ring_inv (ring srv)" "authorised env (cinfo t)"
    "consecutive_errors t < MAX_CONSECUTIVE_ERRORS"
  shows "ring_inv (ring srv') \<and> authorised env (cinfo t') \<and> consecutive_errors t' < MAX_CONSECUTIVE_ERRORS
    \<and> throttle_msec t' \<le> throttle_msec t"
proof -
  obtain n t1 where r: "ClientRecv (io_of env srv) (nsent0 env) t = (n, t1)" by (cases "ClientRecv (io_of env srv) (nsent0 env) t")
  have "trights t1 = trights t" "counters t1 = counters t"
    using trights_ClientRecv [of "io_of env srv" "nsent0 env" t] counters_ClientRecv [of "io_of env srv" "nsent0 env" t]
    unfolding r by simp_all
  then have t1: "rights (cinfo t1) = rights (cinfo t)" "throttle_msec t1 = throttle_msec t"
      "consecutive_errors t1 = consecutive_errors t" by (simp_all add: trights_def counters_def)
  show ?thesis
  proof (cases "n = 0")
    case True
    then show ?thesis using assms r t1 authorised_rights [OF t1(1)] by (simp add: thread_command_def)
  next
    case False
    then obtain res c2 where d: "DLHandleCmd env srv ((cinfo t1)\<lparr>recvstart := 0\<rparr>) = Some (res, c2, srv')"
        "\<not> res < 0" "cinfo t' = c2" "throttle_msec t' = 0"
        "consecutive_errors t' = (if res > 0 then consecutive_errors t1 + 1 else 0)" "consecutive_errors t' < MAX_CONSECUTIVE_ERRORS"
      using assms(1) r by (auto simp: thread_command_def MAX_CONSECUTIVE_ERRORS_def Let_def split: if_splits option.splits)
    have "authorised env ((cinfo t1)\<lparr>recvstart := 0\<rparr>)"
      using assms(3) authorised_rights [OF t1(1)] by (simp add: authorised_def permitted_def)
    then show ?thesis using DLHandleCmd_rights(1) [OF d(1)] DL_ring_safe [OF d(1) assms(2)] d by simp
  qed
qed

lemma rights_DLStreamPackets:
  assumes "DLStreamPackets env srv c = Some (rv, c')"
  shows "rights c' = rights c"
proof -
  obtain i rd pkt d where r: "RingReadNext (rfuel env) (ring srv) (matcher_of env) (reader c) (packet c) True = Some (i, rd, pkt, d)"
    using assms by (cases "RingReadNext (rfuel env) (ring srv) (matcher_of env) (reader c) (packet c) True") (auto simp: DLStreamPackets_def)
  define c1 where "c1 = c\<lparr>reader := rd, packet := pkt, sendbuf := (case d of Some x \<Rightarrow> overlay (sendbuf c) x | None \<Rightarrow> sendbuf c)\<rparr>"
  have "rights c1 = rights c"
    using limits_reading(3) [OF r] by (simp add: c1_def rights_reader same_limits_def)
  moreover have "rights c' = rights c1"
    using assms rights_SendRingPacket [of env srv c1]
    by (auto simp: DLStreamPackets_def r c1_def [symmetric] Let_def case_prod_unfold simp del: rights_SendRingPacket split: if_splits)
  ultimately show ?thesis by simp
qed

lemma thread_stream_ok:
  assumes "thread_stream env srv t = Some (Continue, t')"
  shows "rights (cinfo t') = rights (cinfo t)" "consecutive_errors t' = consecutive_errors t"
    "throttle_msec t' \<le> max (throttle_msec t) THROTTLE_MAXIMUM"
  using assms
  by (auto simp: thread_stream_def backoff_def THROTTLE_MAXIMUM_def THROTTLE_STEPPING_def split: if_splits option.splits
      dest!: rights_DLStreamPackets)

lemma thread_throttle_ok:
  "rights (cinfo (snd (thread_throttle env t))) = rights (cinfo t)"
  "counters (snd (thread_throttle env t)) = counters t"
  by (simp_all add: thread_throttle_def Let_def case_prod_unfold)

lemma iteration_ok:
  assumes "thread_iteration env srv t = Some (Continue, t', srv')" "session_ok env (srv, t)"
  shows "session_ok env (srv', t')"
proof -
  define ms where "ms = (if throttle_msec t < THROTTLE_MAXIMUM then throttle_msec t + THROTTLE_STEPPING else throttle_msec t)"
  define t0 where "t0 = t\<lparr>throttle_msec := ms\<rparr>"
  obtain t1 t2 where run: "thread_command env srv t0 = Some (Continue, t1, srv')"
      "thread_stream env srv' t1 = Some (Continue, t2)" "t' = snd (thread_throttle env t2)"
    using assms(1) unfolding thread_iteration_def Let_def t0_def ms_def
    by (auto split: option.splits outcome.splits prod.splits)
  have t0: "cinfo t0 = cinfo t" "consecutive_errors t0 = consecutive_errors t" "throttle_msec t0 < THROTTLE_MAXIMUM + THROTTLE_STEPPING"
    using assms(2) by (auto simp: t0_def ms_def session_ok_def)
  have cmd: "ring_inv (ring srv') \<and> authorised env (cinfo t1) \<and> consecutive_errors t1 < MAX_CONSECUTIVE_ERRORS
      \<and> throttle_msec t1 \<le> throttle_msec t0"
    by (rule thread_command_ok [OF run(1)]) (use assms(2) t0 in \<open>auto simp: session_ok_def\<close>)
  note str = thread_stream_ok [OF run(2)]
  have "authorised env (cinfo t2)" using cmd authorised_rights [OF str(1)] by blast
  moreover have "throttle_msec t2 < THROTTLE_MAXIMUM + THROTTLE_STEPPING"
    using str(3) cmd t0(3) by (auto simp: THROTTLE_STEPPING_def max_def split: if_splits)
  moreover have "rights (cinfo t') = rights (cinfo t2)" "counters t' = counters t2"
    using thread_throttle_ok [of env t2] by (simp_all add: run(3))
  ultimately show ?thesis
    using cmd str(2) authorised_rights [of "cinfo t'" "cinfo t2" env] by (simp add: session_ok_def counters_def)
qed

lemma thread_start_ok:
  assumes "thread_start env srv ok protos c = (r, t)" "ring_inv (ring srv)"
  shows "session_ok env (srv, t)"
proof -
  have "state (cinfo t) = STATE_COMMAND" "consecutive_errors t = 0" "throttle_msec t = 0"
    using assms(1) by (auto simp: thread_start_def Let_def case_prod_unfold)
  then show ?thesis
    using assms(2) by (simp add: session_ok_def authorised_def MAX_CONSECUTIVE_ERRORS_def THROTTLE_MAXIMUM_def)
qed

text \<open>
  C3: in every state of every session, whatever the client sends and the other threads write, the ring
  is sound, a client that streams is authenticated when that is required, fewer than twenty
  erroneous commands have come in a row and the loop sleeps less than 55 ms.
\<close>

theorem session_invariant:
  assumes "session env (srv, t)"
  shows "ring_inv (ring srv) \<and> (state (cinfo t) = STATE_STREAM \<and> auth_required env \<longrightarrow> permitted (cinfo t) AUTHENTICATED)
    \<and> consecutive_errors t < 20 \<and> throttle_msec t < 55"
proof -
  have "session_ok env s" if "session env s" for s
    using that
  proof (induction rule: session.induct)
    case (start srv ok protos c t)
    then show ?case using thread_start_ok by blast
  next
    case (step s s')
    obtain srv t where s: "s = (srv, t)" by (cases s)
    from step.hyps(2) [unfolded s] show ?case
      by (elim session_stepE)
        (use step.IH s in \<open>simp add: iteration_ok\<close>, use step.IH s in \<open>simp add: session_ok_def\<close>)
  qed
  from this [OF assms] show ?thesis
    by (simp add: session_ok_def authorised_def MAX_CONSECUTIVE_ERRORS_def THROTTLE_MAXIMUM_def THROTTLE_STEPPING_def)
qed

lemma SendRingPacket_wire_grows: "\<exists>out. wire (snd (SendRingPacket env srv c)) = wire c @ out"
proof -
  have "\<exists>out. wire c1 = wire c @ out" if "SendDataMB cfg ns c bufs no = (rv, c1)" for cfg ns bufs no rv c1
    using that by (auto simp: SendDataMB_def Let_def split: option.splits if_splits prod.splits send_end.splits)
  then show ?thesis by (auto simp: SendRingPacket_def Let_def split: option.splits prod.splits)
qed

lemma RingReadNext_selects:
  assumes "RingReadNext fuel p pm rd pkt0 w = Some (i, rd', pkt, d)" "i \<noteq> RINGID_ERROR" "i \<noteq> RINGID_NONE"
  shows "\<exists>x. selects pm rd (streamid (PACKETPTR p x)) \<and> pkt = copy_header p (PACKETPTR p x)"
  using assms
  by (auto simp: RingReadNext_def ReadNext_start_def Let_def at_packet_def
      split: if_splits option.splits prod.splits sum.splits dest!: ReadNext_loop_limits)

text \<open>
  C32: by streaming, only a client in the streaming state gets anything, and the packet it gets is one of
  the ring whose stream identifier passes the four expressions of its reader: it is allowed, not
  forbidden, matched and not rejected.
\<close>

theorem streamed_packet_selected:
  assumes "thread_stream env srv t = Some (r, t')" "wire (cinfo t') \<noteq> wire (cinfo t)"
  shows "state (cinfo t) = STATE_STREAM \<and> ctype t = CLIENT_DATALINK \<and> (\<exists>out. wire (cinfo t') = wire (cinfo t) @ out)
    \<and> (\<exists>x. selects (matcher_of env) (reader (cinfo t)) (streamid (PACKETPTR (ring srv) x))
         \<and> packet (cinfo t') = copy_header (ring srv) (PACKETPTR (ring srv) x))"
proof -
  let ?c = "cinfo t"
  obtain rv where d: "state ?c = STATE_STREAM" "ctype t = CLIENT_DATALINK" "DLStreamPackets env srv ?c = Some (rv, cinfo t')"
    using assms by (auto simp: thread_stream_def split: if_splits option.splits)
  then obtain i rd pkt dat where n: "RingReadNext (rfuel env) (ring srv) (matcher_of env) (reader ?c) (packet ?c) True = Some (i, rd, pkt, dat)"
    by (cases "RingReadNext (rfuel env) (ring srv) (matcher_of env) (reader ?c) (packet ?c) True") (auto simp: DLStreamPackets_def)
  define c1 where "c1 = ?c\<lparr>reader := rd, packet := pkt, sendbuf := (case dat of Some x \<Rightarrow> overlay (sendbuf ?c) x | None \<Rightarrow> sendbuf ?c)\<rparr>"
  have w: "wire c1 = wire ?c" "packet c1 = pkt" by (simp_all add: c1_def)
  have i: "i \<noteq> RINGID_ERROR" "i \<noteq> RINGID_NONE" "cinfo t' = snd (SendRingPacket env srv c1)"
    using d(3) assms(2) w by (auto simp: DLStreamPackets_def n c1_def [symmetric] case_prod_unfold Let_def split: if_splits)
  have "packet (cinfo t') = pkt"
    using SendRingPacket_state [of c1 env srv] w i(3) by (simp add: same_session_def)
  then show ?thesis
    using RingReadNext_selects [OF n i(1,2)] SendRingPacket_wire_grows [of env srv c1] d(1,2) i(3) w by auto
qed

definition demo_thread :: "'re ClientInfo \<Rightarrow> 're thread" where
  "demo_thread c = \<lparr>cinfo = c, ctype = CLIENT_DATALINK, protocols = PROTO_DATALINK, wsmask = no_mask, wsmaskidx = 0,
     wsclosed = False, conntime = 0, throttle_msec = 0, consecutive_errors = 0\<rparr>"

definition fresh_client :: "string ClientInfo" where
  "fresh_client = demo_client\<lparr>allowedstr := Some ''A'', permissions := CONNECT_PERMISSION\<rparr>"

lemma fresh_session: "\<exists>t. thread_start dl_demo_env (demo_server two_ring) True PROTO_DATALINK fresh_client = (Continue, t)
    \<and> allowed (reader (cinfo t)) = Some ''A'' \<and> recvbufsize (cinfo t) = 1280"
  by (simp add: thread_start_def Let_def case_prod_unfold fresh_client_def demo_client_def RingAllowed_def UpdatePattern_def
      dl_demo_env_def demo_auth_def demo_lib_def demo_server_def two_ring)

theorem session_invariant_witness:
  "\<exists>t. session dl_demo_env (demo_server two_ring, t) \<and> ctype t = CLIENT_DATALINK \<and> throttle_msec t < 55"
proof -
  obtain t where t: "thread_start dl_demo_env (demo_server two_ring) True PROTO_DATALINK fresh_client = (Continue, t)"
    using fresh_session by blast
  have s: "session dl_demo_env (demo_server two_ring, t)"
    by (rule session.start [OF _ t]) (simp add: demo_server_def two_ring)
  have "ctype t = CLIENT_DATALINK" using t by (auto simp: thread_start_def Let_def case_prod_unfold)
  then show ?thesis using s session_invariant [OF s] by blast
qed

definition streaming_client :: "string ClientInfo" where
  "streaming_client = demo_client\<lparr>state := STATE_STREAM, reader := start_reader\<lparr>rd_match := Some ''B''\<rparr>\<rparr>"

lemma demo_streams:
  "\<exists>rv c'. DLStreamPackets dl_demo_env (demo_server two_ring) streaming_client = Some (rv, c') \<and> wire c' \<noteq> []"
proof -
  let ?rd = "start_reader\<lparr>rd_match := Some ''B''\<rparr>"
  obtain x y where l: "live two_ring = [x, y]" using two_ring(4) by (auto simp: length_Suc_conv numeral_2_eq_2)
  have q: "abs_slot (ringmem two_ring x) = demo_entry 1 1 ''A/T'' [1]" "abs_slot (ringmem two_ring y) = demo_entry 2 2 ''B/T'' [2, 3]"
    using two_ring(2) by (simp_all add: ring_queue_def l)
  have sids: "streamid (PACKETPTR two_ring x) = ''A/T''" "streamid (PACKETPTR two_ring y) = ''B/T''" "pktid (PACKETPTR two_ring y) = 2"
      "datasize (PACKETPTR two_ring y) = datasize (hdr (ringmem two_ring y))"
    using q by (simp_all add: abs_slot_def PACKETPTR_def demo_entry_def)
  have f: "find (wanted starts_with ?rd two_ring) (drop 0 (live two_ring)) = Some y"
    by (simp add: l wanted_def sids selects_def starts_with_def start_reader_def MAXSTREAMID_def Let_def)
  have st: "starts_at two_ring ?rd 0" by (rule starts_at.earliest) (simp_all add: start_reader_def two_ring)
  have ne: "\<not> latestoffset two_ring < 0" using two_ring(4) live_empty by fastforce
  have times: "times_ok two_ring" by (rule sorted_times_ok [OF two_ring(1)]) (simp add: two_ring demo_entry_def)
  have n: "RingReadNext 10 two_ring starts_with ?rd empty_packet True =
      Some (2, at_packet ?rd y (PACKETPTR two_ring y), PACKETPTR two_ring y, Some [2, 3])"
    using RingReadNext_eval [OF two_ring(1) ne times st, of 10 starts_with empty_packet True] two_ring(4) f q
    by (simp add: sids demo_entry_def)
  have t64: "times64 two_ring" by (simp add: times64_def two_ring demo_entry_def int64_def)
  have y: "y \<in> set (live two_ring)" by (simp add: l)
  note e = entry_header [OF two_ring(1) y t64, unfolded q]
  define c1 where "c1 = streaming_client\<lparr>reader := at_packet ?rd y (PACKETPTR two_ring y), packet := PACKETPTR two_ring y,
      sendbuf := overlay (sendbuf streaming_client) [2, 3]\<rparr>"
  have c1: "\<not> websocket c1" "willing (outq c1)" "packet c1 = PACKETPTR two_ring y" "sendbuf c1 = [2, 3]"
      "total_room (outq c1) = 4000" "wire c1 = []" "socketerr c1 = 0" "streamscount c1 = 0"
    by (simp_all add: c1_def streaming_client_def demo_client_def willing_def overlay_def)
  have sz: "unat (datasize (packet c1)) = 2" using e(4) by (simp add: c1(3) demo_entry_def)
  have "wire (snd (SendRingPacket dl_demo_env (demo_server two_ring) c1)) =
      wire c1 @ dl_frame (to_bytes (ring_header (packet c1))) @ [2, 3] \<and>
      socketerr (snd (SendRingPacket dl_demo_env (demo_server two_ring) c1)) = socketerr c1"
    by (rule SendRingPacket_entry) (use c1 sz e(3) in simp_all)
  moreover have "DLStreamPackets dl_demo_env (demo_server two_ring) streaming_client =
      (case SendRingPacket dl_demo_env (demo_server two_ring) c1 of (rv, c2) \<Rightarrow>
         Some (if rv \<noteq> 0 then (-1, c2) else if socketerr c2 \<noteq> 0 then (-1, c2) else (sint (datasize (packet c2)), c2)))"
    using n by (simp add: DLStreamPackets_def streaming_client_def demo_client_def dl_demo_env_def demo_server_def demo_auth_def
        demo_lib_def c1_def [unfolded streaming_client_def demo_client_def, simplified] ringid_defs)
  ultimately show ?thesis by (auto simp: case_prod_unfold dl_frame_def)
qed

theorem streamed_packet_selected_witness:
  "\<exists>r t'. thread_stream dl_demo_env (demo_server two_ring) (demo_thread streaming_client) = Some (r, t')
     \<and> (\<exists>x. selects starts_with (reader streaming_client) (streamid (PACKETPTR two_ring x)))"
proof -
  obtain rv c' where s: "DLStreamPackets dl_demo_env (demo_server two_ring) streaming_client = Some (rv, c')" "wire c' \<noteq> []"
    using demo_streams by blast
  have st: "state streaming_client = STATE_STREAM" "wire streaming_client = []"
    by (simp_all add: streaming_client_def demo_client_def)
  obtain r t' where t: "thread_stream dl_demo_env (demo_server two_ring) (demo_thread streaming_client) = Some (r, t')" "cinfo t' = c'"
    using s st by (cases "rv < 0"; cases "rv = 0") (simp_all add: thread_stream_def demo_thread_def)
  have "\<exists>x. selects (matcher_of dl_demo_env) (reader (cinfo (demo_thread streaming_client)))
      (streamid (PACKETPTR (ring (demo_server two_ring)) x))"
    using streamed_packet_selected [OF t(1)] t(2) s(2) st by (simp add: demo_thread_def) blast
  then show ?thesis using t(1) by (simp add: demo_thread_def dl_demo_env_def demo_auth_def demo_lib_def demo_server_def)
qed

text \<open>
  C33: no command but AUTH changes what a client may do: its permissions and the expressions for
  allowed and forbidden streams stay as they were.
\<close>

theorem rights_change_only_by_AUTH:
  assumes "DLHandleCmd env srv c = Some (rv, c', srv')"
    and "\<forall>cmd. cmdtoken_parse (c_string (dlcommand c)) = Some cmd \<longrightarrow> \<not> cmdtoken_eq_nocase cmd 0 ''AUTH''"
  shows "permissions c' = permissions c \<and> allowed (reader c') = allowed (reader c) \<and> forbidden (reader c') = forbidden (reader c)"
  by (rule DLHandleCmd_rights(2) [OF assms])

theorem rights_change_only_by_AUTH_witness:
  "\<exists>rv c' srv'. DLHandleCmd dl_demo_env (demo_server two_ring) writing_client = Some (rv, c', srv')
    \<and> permissions c' = WRITE_PERMISSION"
proof -
  obtain rv c' srv' where r: "DLHandleCmd dl_demo_env (demo_server two_ring) writing_client = Some (rv, c', srv')"
    using writing_client_runs by blast
  have "\<not> cmdtoken_eq_nocase cmd 0 ''AUTH''" if "cmdtoken_parse (c_string (dlcommand writing_client)) = Some cmd" for cmd
    using writing_client_command that by (auto simp: eq_nocase_arg strcasecmp_eq_def tolower_def ord_def)
  then have "permissions c' = permissions writing_client" using rights_change_only_by_AUTH [OF r] by blast
  then show ?thesis using r by (simp add: writing_client_def)
qed

section \<open>Commands in WebSocket frames\<close>

lemma length_unmask [simp]: "length (unmask key i p) = length p" by (simp add: unmask_def)

lemma unmask_unmask [simp]: "unmask key i (unmask key i p) = p"
  by (rule nth_equalityI) (simp_all add: unmask_def xor.assoc)

text \<open>Bytes that are on their way and will be there in time.\<close>

definition coming :: "io_config \<Rightarrow> 're ClientInfo \<Rightarrow> byte list \<Rightarrow> bool" where
  "coming cfg c bs \<longleftrightarrow> pending c = bs \<and> prompt (netiotimeout cfg * 1000) (net c)
     \<and> total_delay (net c) \<le> netiotimeout cfg * 1000 * 2"

lemma coming_received:
  fixes c :: "'re ClientInfo"
  assumes "coming cfg c (a @ b)" "a \<noteq> []" "length a \<le> recvbufsize c" "RecvData cfg c n f = (k, c')" "length a = n"
  shows "k = int n \<and> received c' n = a \<and> coming cfg c' b \<and> recvbufsize c' = recvbufsize c
      \<and> recvconsumed c' = n \<and> n \<le> length (recvbuf c') \<or> k = 0 \<and> \<not> f \<and> coming cfg c' (a @ b)"
  using assms(4) unfolding assms(5) [symmetric]
proof -
  assume recv: "RecvData cfg c (length a) f = (k, c')"
  have p: "pending c = a @ b" "prompt (netiotimeout cfg * 1000) (net c)" "total_delay (net c) \<le> netiotimeout cfg * 1000 * 2"
    using assms(1) by (simp_all add: coming_def)
  have a: "0 < length a" "length a \<le> length (pending c)" using assms(2) p(1) by simp_all
  have pr: "(k = int (length a) \<or> k = 0 \<and> \<not> f) \<and> prompt (netiotimeout cfg * 1000) (net c')
      \<and> total_delay (net c') \<le> netiotimeout cfg * 1000 * 2"
    by (rule RecvData_prompt [OF recv a(1) assms(3) a(2) p(2,3)])
  note con = RecvData_contract [OF recv a(1)]
  from pr have "k = int (length a) \<or> k = 0 \<and> \<not> f" by blast
  then show "k = int (length a) \<and> received c' (length a) = a \<and> coming cfg c' b \<and> recvbufsize c' = recvbufsize c
      \<and> recvconsumed c' = length a \<and> length a \<le> length (recvbuf c') \<or> k = 0 \<and> \<not> f \<and> coming cfg c' (a @ b)"
  proof
    assume k: "k = int (length a)"
    have "received c' (length a) = take (length a) (a @ b)" "pending c' = drop (length a) (a @ b)"
      using con(2) [OF k] unfolding p(1) by blast+
    then show ?thesis using k con(2) [OF k] con(4) pr by (simp add: coming_def)
  next
    assume k: "k = 0 \<and> \<not> f"
    then show ?thesis using con(3) pr p(1) by (simp add: coming_def)
  qed
qed

text \<open>What a WebSocket client sends for a message of less than 64 KiB: one masked frame.\<close>

definition ws_frame :: "byte list \<Rightarrow> byte list \<Rightarrow> byte list" where
  "ws_frame key p = 0x82 # (if length p \<le> 125 then [of_nat (128 + length p)]
       else [0xFE, of_nat (length p div 256), of_nat (length p mod 256)]) @ key @ unmask key 0 p"

lemma short_length_byte:
  "n \<le> 125 \<Longrightarrow> unat (and (of_nat (128 + n) :: byte) 0x7f) = n \<and> and (of_nat (128 + n) :: byte) 0x80 \<noteq> 0"
proof -
  have "\<forall>n \<in> set [0..<126]. unat (and (of_nat (128 + n) :: byte) 0x7f) = n \<and> and (of_nat (128 + n) :: byte) 0x80 \<noteq> 0"
    by code_simp
  then show "n \<le> 125 \<Longrightarrow> unat (and (of_nat (128 + n) :: byte) 0x7f) = n \<and> and (of_nat (128 + n) :: byte) 0x80 \<noteq> 0"
    by simp
qed

lemma be_value_two: "n < 65536 \<Longrightarrow> be_value [of_nat (n div 256), of_nat (n mod 256)] = n"
  by (simp add: be_value_def unat_of_nat)

lemma RecvData_held:
  assumes "recvconsumed c = 0" "0 < n" "n \<le> length (recvbuf c)" "n \<le> recvbufsize c"
  shows "fst (RecvData cfg c n f) = int n"
  using assms by (auto simp: RecvData_def RecvData_loop.simps Let_def)

text \<open>The head of the frame: two bytes, the length, the key.\<close>

lemma ws_length_coming:
  fixes c :: "'re ClientInfo"
  assumes "coming cfg c (lens @ rest)" "2 \<le> recvbufsize c" "n < 65536"
    "if n \<le> 125 then l7 = n \<and> lens = [] else l7 = 126 \<and> lens = [of_nat (n div 256), of_nat (n mod 256)]"
    "ws_length cfg c l7 = (r, c')"
  shows "\<exists>k. r = Inr (n, k) \<and> 0 \<le> k \<and> coming cfg c' rest \<and> recvbufsize c' = recvbufsize c"
proof (cases "n \<le> 125")
  case True
  then show ?thesis using assms by (auto simp: ws_length_def)
next
  case False
  then have l: "l7 = 126" "lens = [of_nat (n div 256), of_nat (n mod 256)]" using assms(4) by auto
  obtain k c1 where r: "RecvData cfg c 2 True = (k, c1)" by (cases "RecvData cfg c 2 True")
  have "lens \<noteq> []" "length lens = 2" by (simp_all add: l(2))
  then have "k = 2 \<and> received c1 2 = lens \<and> coming cfg c1 rest \<and> recvbufsize c1 = recvbufsize c"
    using coming_received [OF assms(1) _ _ r] assms(2) by simp
  then show ?thesis using assms(5) r be_value_two [OF assms(3)] by (auto simp: ws_length_def l)
qed

lemma ws_mask_coming:
  fixes c :: "'re ClientInfo"
  assumes "coming cfg c (key @ rest)" "length key = 4" "4 \<le> recvbufsize c" "ws_mask cfg c True = (r, c')"
  shows "r = Inr (key, 4) \<and> coming cfg c' rest \<and> recvbufsize c' = recvbufsize c"
proof -
  obtain k c1 where r: "RecvData cfg c 4 True = (k, c1)" by (cases "RecvData cfg c 4 True")
  have "key \<noteq> []" using assms(2) by auto
  then show ?thesis using coming_received [OF assms(1) _ _ r assms(2)] assms(2-4) r by (auto simp: ws_mask_def)
qed

lemma RecvWSFrame_coming:
  fixes t :: "'re thread"
  assumes "coming cfg (cinfo t) (ws_frame key p @ rest)" "length key = 4" "length p < 65536" "4 \<le> recvbufsize (cinfo t)"
    "RecvWSFrame cfg ns t = (n, len, t')"
  shows "n = 0 \<and> coming cfg (cinfo t') (ws_frame key p @ rest) \<or> n > 0 \<and> len = length p \<and> wsmask t' = key \<and> wsmaskidx t' = 0
    \<and> coming cfg (cinfo t') (unmask key 0 p @ rest) \<and> recvbufsize (cinfo t') = recvbufsize (cinfo t)"
proof -
  let ?two = "if length p \<le> 125 then of_nat (128 + length p) else 0xFE :: byte"
  let ?lens = "if length p \<le> 125 then [] else [of_nat (length p div 256), of_nat (length p mod 256)] :: byte list"
  let ?body = "unmask key 0 p @ rest"
  have fr: "ws_frame key p @ rest = [0x82, ?two] @ ?lens @ key @ ?body" by (simp add: ws_frame_def)
  define t1 where "t1 = t\<lparr>wsmask := no_mask, wsmaskidx := 0\<rparr>"
  obtain k c1 where r: "RecvData cfg (cinfo t1) 2 False = (k, c1)" by (cases "RecvData cfg (cinfo t1) 2 False")
  have "k = 2 \<and> received c1 2 = [0x82, ?two] \<and> coming cfg c1 (?lens @ key @ ?body) \<and> recvbufsize c1 = recvbufsize (cinfo t)
      \<or> k = 0 \<and> coming cfg c1 (ws_frame key p @ rest)"
  proof -
    have c: "coming cfg (cinfo t1) ([0x82, ?two] @ ?lens @ key @ ?body)" "cinfo t1 = cinfo t"
      using assms(1) unfolding fr by (simp_all add: t1_def)
    have "length [0x82, ?two] \<le> recvbufsize (cinfo t1)" using assms(4) c(2) by simp
    from coming_received [OF c(1) _ this r] show ?thesis unfolding fr c(2) by fastforce
  qed
  then show ?thesis
  proof
    assume "k = 0 \<and> coming cfg c1 (ws_frame key p @ rest)"
    then show ?thesis using assms(5) r by (auto simp: RecvWSFrame_def Let_def t1_def)
  next
    assume k: "k = 2 \<and> received c1 2 = [0x82, ?two] \<and> coming cfg c1 (?lens @ key @ ?body) \<and> recvbufsize c1 = recvbufsize (cinfo t)"
    have two: "unat (and ?two 0x7f) = (if length p \<le> 125 then length p else 126)" "and ?two 0x80 \<noteq> 0"
      using short_length_byte [of "length p"] by (simp_all split: if_split)
    obtain rl c2 where l: "ws_length cfg c1 (unat (and ?two 0x7f)) = (rl, c2)" by (cases "ws_length cfg c1 (unat (and ?two 0x7f))")
    have "\<exists>k2. rl = Inr (length p, k2) \<and> 0 \<le> k2 \<and> coming cfg c2 (key @ ?body) \<and> recvbufsize c2 = recvbufsize c1"
      by (rule ws_length_coming [OF _ _ assms(3) _ l, of ?lens]) (use k assms(4) two(1) in auto)
    then obtain k2 where k2: "rl = Inr (length p, k2)" "0 \<le> k2" "coming cfg c2 (key @ ?body)" "recvbufsize c2 = recvbufsize c1" by blast
    obtain rm c3 where m: "ws_mask cfg c2 True = (rm, c3)" by (cases "ws_mask cfg c2 True")
    have k3: "rm = Inr (key, 4) \<and> coming cfg c3 ?body \<and> recvbufsize c3 = recvbufsize c2"
      by (rule ws_mask_coming [OF k2(3) assms(2) _ m]) (use k k2 assms(4) in simp)
    have "RecvWSFrame cfg ns t = (2 + k2 + 4, length p, t1\<lparr>cinfo := c3, wsmask := key\<rparr>)"
      using r k l k2 m k3 two(2) unfolding RecvWSFrame_def Let_def t1_def [symmetric] by simp
    then show ?thesis using assms(5) k k2 k3 by (auto simp: t1_def)
  qed
qed

lemma ctype_frame: "ctype (snd (ClientRecv_frame cfg ns t)) = ctype t"
proof -
  have "ctype (snd (ws_control cfg ns t1 op two len key)) = ctype t1" for t1 :: "'a thread" and op two len key
    by (simp add: ws_control_def Let_def case_prod_unfold)
  then have "ctype (snd (snd (RecvWSFrame cfg ns t))) = ctype t"
    by (simp add: RecvWSFrame_def Let_def case_prod_unfold split: sum.split)
  then show ?thesis by (simp add: ClientRecv_frame_def case_prod_unfold)
qed

lemma ClientRecv_frame_coming:
  fixes t :: "'re thread"
  assumes "websocket (cinfo t)" "coming cfg (cinfo t) (ws_frame key p @ rest)" "length key = 4" "p \<noteq> []" "length p < 65536"
    "4 \<le> recvbufsize (cinfo t)" "length p \<le> recvbufsize (cinfo t)" "ClientRecv_frame cfg ns t = (r, t')"
  shows "r = Some 0 \<and> coming cfg (cinfo t') (ws_frame key p @ rest) \<or> r = None \<and> coming cfg (cinfo t') (p @ rest)
    \<and> recvconsumed (cinfo t') = 0 \<and> length p \<le> length (recvbuf (cinfo t')) \<and> recvbufsize (cinfo t') = recvbufsize (cinfo t)"
proof -
  obtain n len t1 where f: "RecvWSFrame cfg ns t = (n, len, t1)" by (metis prod_cases3)
  from RecvWSFrame_coming [OF assms(2,3,5,6) f] show ?thesis
  proof
    assume "n = 0 \<and> coming cfg (cinfo t1) (ws_frame key p @ rest)"
    then show ?thesis using assms(1,8) f by (auto simp: ClientRecv_frame_def)
  next
    assume n: "n > 0 \<and> len = length p \<and> wsmask t1 = key \<and> wsmaskidx t1 = 0
      \<and> coming cfg (cinfo t1) (unmask key 0 p @ rest) \<and> recvbufsize (cinfo t1) = recvbufsize (cinfo t)"
    then have co: "coming cfg (cinfo t1) (unmask key 0 p @ rest)" "unmask key 0 p \<noteq> []"
        "length (unmask key 0 p) \<le> recvbufsize (cinfo t1)" "length (unmask key 0 p) = length p"
      using assms(4,7) length_unmask [of key 0 p] by (auto simp del: length_unmask)
    obtain k c2 where r: "RecvData cfg (cinfo t1) (length p) True = (k, c2)" by (cases "RecvData cfg (cinfo t1) (length p) True")
    have g: "received c2 (length p) = unmask key 0 p" "coming cfg c2 rest" "recvbufsize c2 = recvbufsize (cinfo t1)"
        "recvconsumed c2 = length p" "length p \<le> length (recvbuf c2)"
      using coming_received [OF co(1-3) r co(4)] by simp_all
    have t': "r = None" "cinfo t' = unconsume (length p) (c2\<lparr>recvbuf := p @ drop (length p) (recvbuf c2)\<rparr>)"
      using assms(1,4,7,8) f n r g(1,5) by (auto simp: ClientRecv_frame_def received_def)
    have "coming cfg (cinfo t') (p @ rest)"
      using g(2,4) by (simp add: t'(2) coming_def pending_def unconsume_def)
    then show ?thesis using t' n g(3,4) by (simp add: unconsume_def)
  qed
qed

lemma RecvDLCommand_held:
  assumes "RecvDLCommand cfg c = (n, c')" "recvconsumed c = 0" "3 \<le> length (recvbuf c)" "3 \<le> recvbufsize c"
  shows "n \<noteq> 0"
  using assms(1)
proof (cases rule: RecvDLCommand_cases)
  case short
  then show ?thesis using RecvData_held [OF assms(2) _ assms(3,4), of cfg False] by simp
next
  case (body c1 k)
  then show ?thesis using RecvData_contract(3) [OF body(5)] by auto
qed simp_all


definition socket_client :: "byte list \<Rightarrow> string ClientInfo" where
  "socket_client bs = demo_client\<lparr>websocket := True, net := [(0, Bytes (take 3 bs)), (20, Signal), (5, Bytes (drop 3 bs))]\<rparr>"


text \<open>
  A message with two commands: what is left of it when the first has been received is taken for the
  next frame, and since \<open>D\<close> has no final flag the connection ends.
\<close>

lemma second_command_in_frame:
  fixes t :: "'re thread"
  assumes "ctype t = CLIENT_DATALINK" "websocket (cinfo t)" "coming cfg (cinfo t) (dl_frame body @ rest)"
    "2 \<le> recvbufsize (cinfo t)" "ClientRecv cfg ns t = (n, t')"
  shows "n = 0 \<or> n = -2"
proof -
  define t1 where "t1 = t\<lparr>wsmask := no_mask, wsmaskidx := 0\<rparr>"
  obtain k c1 where r: "RecvData cfg (cinfo t1) 2 False = (k, c1)" by (cases "RecvData cfg (cinfo t1) 2 False")
  have "coming cfg (cinfo t1) ([0x44, 0x4C] @ of_nat (length body) # body @ rest)" "length [0x44, 0x4C :: byte] \<le> recvbufsize (cinfo t1)"
    using assms(3,4) by (simp_all add: t1_def dl_frame_def)
  from coming_received [OF this(1) _ this(2) r] have "k = 2 \<and> received c1 2 = [0x44, 0x4C] \<or> k = 0" by auto
  then have "fst (RecvWSFrame cfg ns t) = 0 \<or> fst (RecvWSFrame cfg ns t) = -2"
    using r by (auto simp: RecvWSFrame_def Let_def t1_def)
  then show ?thesis
    using assms(1,2,5) by (auto simp: ClientRecv_def ClientRecv_type_def ClientRecv_frame_def case_prod_unfold)
qed

text \<open>The sleeping times of a client without packets: 10, 30 and then 50 ms.\<close>

lemma backoff_sequence: "backoff 5 = 10" "backoff (10 + 5) = 30" "backoff (30 + 5) = 50" "backoff (50 + 0) = 50"
  by (simp_all add: backoff_def THROTTLE_STEPPING_def THROTTLE_MAXIMUM_def)

end
