(* ===== verification/RS_Access.thy ===== *)
theory RS_Access
  imports RS_ClientThread
begin

text \<open>
  The address lists of the configuration: \<open>AddIPNet\<close> of \<open>ringserver-4/src/config.c\<close> and \<open>MatchIP\<close> of
  \<open>ringserver.c\<close>, with what a configured network accepts.  Addresses and masks are the bytes of the C
  structures, in network order; name resolution is a parameter.
\<close>

section \<open>Address lists\<close>

datatype saddr = Inet "byte list" | Inet6 "byte list" | OtherFamily

datatype family = AF_NONE | AF_INET | AF_INET6

text \<open>The list is linked through \<open>next\<close>, so it is a list of nets.\<close>

record IPNet =
  network :: "byte list"
  netmask :: "byte list"
  family :: family
  limitstr :: "string option"

definition mask_bytes :: "byte list \<Rightarrow> byte list \<Rightarrow> byte list" where
  "mask_bytes a m = map2 and a m"

definition net_matches :: "saddr \<Rightarrow> IPNet \<Rightarrow> bool" where
  "net_matches addr n = (case addr of
     Inet a \<Rightarrow> family n = AF_INET \<and> mask_bytes a (netmask n) = network n
   | Inet6 a \<Rightarrow> family n = AF_INET6 \<and> mask_bytes a (netmask n) = network n
   | OtherFamily \<Rightarrow> False)"

fun MatchIP :: "IPNet list \<Rightarrow> saddr \<Rightarrow> IPNet option" where
  "MatchIP [] addr = None"
| "MatchIP (n # rest) addr =
     (if addr = OtherFamily then None
      else if net_matches addr n then Some n
      else MatchIP rest addr)"

text \<open>\<open>inet_pton\<close> for IPv4 and \<open>getaddrinfo\<close>, none for failure.\<close>

record resolver =
  inet_pton4 :: "string \<Rightarrow> byte list option"
  getaddrinfo :: "string \<Rightarrow> saddr list option"

definition ntohl :: "byte list \<Rightarrow> u32" where "ntohl b = of_nat (be_value b)"
definition htonl :: "u32 \<Rightarrow> byte list" where "htonl w = be_bytes 4 (unat w)"

text \<open>The network and the text after the slash, from the buffer of 100 bytes.\<close>

definition split_network :: "string \<Rightarrow> string \<times> string option" where
  "split_network s =
     (let net = take 99 s; host = takeWhile (\<lambda>c. c \<noteq> CHR ''/'') net
      in (host, if CHR ''/'' \<in> set net then Some (drop (length host + 1) net) else None))"

text \<open>The prefix and \<open>v4netmask\<close>, or none for an error.\<close>

definition AddIPNet_prefix :: "resolver \<Rightarrow> string option \<Rightarrow> (u64 \<times> byte list) option" where
  "AddIPNet_prefix rs prefixstr =
     (if IsAllDigits prefixstr then
        (case strtoull_all 10 (the prefixstr) of
           None \<Rightarrow> None
         | Some prefix \<Rightarrow> if prefix > 128 then None else Some (prefix, [0, 0, 0, 0]))
      else (case prefixstr of
          Some s \<Rightarrow>
            (case inet_pton4 rs s of
               None \<Rightarrow> None
             | Some v4netmask \<Rightarrow>
                (if ntohl v4netmask > 0 \<and> and (ntohl v4netmask) (drop_bit 1 (not (ntohl v4netmask))) \<noteq> 0 then None
                 else Some (0, v4netmask)))
        | None \<Rightarrow> Some (128, [0, 0, 0, 0])))"

definition mask4 :: "u64 \<Rightarrow> byte list \<Rightarrow> byte list" where
  "mask4 prefix v4netmask =
     (let s_addr = (if ntohl v4netmask > 0 then v4netmask
                    else if prefix > 0 then
                      htonl (not (push_bit (32 - (if prefix > 32 then 32 else unat prefix)) 1 - 1))
                    else htonl 0)
      in s_addr)"

fun mask6_loop :: "nat \<Rightarrow> nat \<Rightarrow> byte list \<Rightarrow> byte list" where
  "mask6_loop idx jdx m =
     (if idx > 0 then mask6_loop (idx - 8) (jdx + 1) (m[jdx := (if idx \<ge> 8 then 0xFF else push_bit (8 - idx) 0xFF)])
      else m)"

declare mask6_loop.simps [simp del]

definition mask6 :: "u64 \<Rightarrow> byte list" where
  "mask6 prefix = (let m = replicate 16 0 in if prefix > 0 then mask6_loop (unat prefix) 0 m else m)"

definition AddIPNet_entry :: "u64 \<Rightarrow> byte list \<Rightarrow> string option \<Rightarrow> saddr \<Rightarrow> IPNet" where
  "AddIPNet_entry prefix v4netmask limit addr = (case addr of
     Inet a \<Rightarrow> \<lparr>network = mask_bytes a (mask4 prefix v4netmask), netmask = mask4 prefix v4netmask,
                family = AF_INET, limitstr = limit\<rparr>
   | Inet6 a \<Rightarrow> \<lparr>network = mask_bytes a (mask6 prefix), netmask = mask6 prefix,
                family = AF_INET6, limitstr = limit\<rparr>
   | OtherFamily \<Rightarrow> \<lparr>network = [], netmask = [], family = AF_NONE, limitstr = limit\<rparr>)"

text \<open>Each address that the name resolves to is pushed on the top of the list.\<close>

definition AddIPNet :: "resolver \<Rightarrow> IPNet list \<Rightarrow> string \<Rightarrow> string option \<Rightarrow> int \<times> IPNet list" where
  "AddIPNet rs pplist str limit = (case split_network str of (host, prefixstr) \<Rightarrow>
     (case AddIPNet_prefix rs prefixstr of
        None \<Rightarrow> (-1, pplist)
      | Some (prefix, v4netmask) \<Rightarrow>
         (case getaddrinfo rs host of
            None \<Rightarrow> (-1, pplist)
          | Some addrs \<Rightarrow> (0, foldl (\<lambda>l addr. AddIPNet_entry prefix v4netmask limit addr # l) pplist addrs))))"

section \<open>Masks are prefixes\<close>

text \<open>The bits of an address, the first one first, and the mask that keeps the first \<open>p\<close> of them.\<close>

definition byte_bits :: "byte \<Rightarrow> bool list" where "byte_bits b = map (bit b) [7, 6, 5, 4, 3, 2, 1, 0]"

definition addr_bits :: "byte list \<Rightarrow> bool list" where "addr_bits a = concat (map byte_bits a)"

fun prefix_mask :: "nat \<Rightarrow> nat \<Rightarrow> byte list" where
  "prefix_mask 0 p = []"
| "prefix_mask (Suc n) p = push_bit (8 - p) 0xFF # prefix_mask n (p - 8)"

lemma length_prefix_mask [simp]: "length (prefix_mask n p) = n"
  by (induction n p rule: prefix_mask.induct) simp_all

lemma length_byte_bits [simp]: "length (byte_bits b) = 8" by (simp add: byte_bits_def)

lemma length_mask_bytes [simp]: "length (mask_bytes a m) = min (length a) (length m)" by (simp add: mask_bytes_def)

lemma bit_byte_mask: "bit (push_bit k 0xFF :: byte) i \<longleftrightarrow> k \<le> i \<and> i < 8"
proof -
  have "(0xFF :: byte) = - 1" by simp
  show ?thesis unfolding \<open>(0xFF :: byte) = - 1\<close> bit_push_bit_iff by auto
qed

lemma masked_byte_eq:
  "and a (push_bit (8 - p) 0xFF :: byte) = and b (push_bit (8 - p) 0xFF) \<longleftrightarrow> take p (byte_bits a) = take p (byte_bits b)"
  (is "?l \<longleftrightarrow> ?r")
proof -
  have "?l \<longleftrightarrow> (\<forall>i < 8. 8 - p \<le> i \<longrightarrow> bit a i = bit b i)"
    by (auto simp: bit_eq_iff bit_and_iff bit_byte_mask)
  also have "\<dots> \<longleftrightarrow> (\<forall>j < 8. j < p \<longrightarrow> bit a (7 - j) = bit b (7 - j))"
  proof (rule iffI; intro allI impI)
    fix i assume eq: "\<forall>j < 8. j < p \<longrightarrow> bit a (7 - j) = bit b (7 - j)" and i: "i < 8" "8 - p \<le> i"
    have "7 - i < 8" "7 - i < p" "7 - (7 - i) = i" using i by arith+
    then show "bit a i = bit b i" using eq by metis
  qed auto
  also have "\<dots> \<longleftrightarrow> ?r"
  proof -
    have "byte_bits x ! j = bit x (7 - j)" if "j < 8" for x :: byte and j
      using that by (auto simp: byte_bits_def less_Suc_eq numeral_eq_Suc)
    then show ?thesis by (auto simp: list_eq_iff_nth_eq)
  qed
  finally show ?thesis .
qed

lemma addr_bits_simps [simp]: "addr_bits [] = []" "addr_bits (b # bs) = byte_bits b @ addr_bits bs"
  by (simp_all add: addr_bits_def)

lemma prefix_mask_eq:
  assumes "length a = n" "length b = n"
  shows "mask_bytes a (prefix_mask n p) = mask_bytes b (prefix_mask n p) \<longleftrightarrow> take p (addr_bits a) = take p (addr_bits b)"
  using assms
proof (induction n p arbitrary: a b rule: prefix_mask.induct)
  case (2 n p)
  then obtain x a' y b' where "a = x # a'" "b = y # b'" by (metis length_Suc_conv)
  then show ?case using 2 by (auto simp: mask_bytes_def masked_byte_eq)
qed simp

lemma prefix_mask_0: "prefix_mask n 0 = replicate n 0"
  by (induction n) simp_all

lemma mask6_loop_eq:
  "drop j m = replicate n 0 \<Longrightarrow> j + n = length m \<Longrightarrow> idx \<le> 8 * n \<Longrightarrow> mask6_loop idx j m = take j m @ prefix_mask n idx"
proof (induction idx j m arbitrary: n rule: mask6_loop.induct)
  case (1 idx j m)
  show ?case
  proof (cases "idx = 0")
    case True
    then show ?thesis using 1 append_take_drop_id [of j m] by (simp add: mask6_loop.simps prefix_mask_0)
  next
    case False
    then obtain k where n: "n = Suc k" using 1 by (cases n) auto
    define x where "x = (if idx \<ge> 8 then 0xFF else push_bit (8 - idx) 0xFF :: byte)"
    have x: "x = push_bit (8 - idx) 0xFF" by (simp add: x_def)
    have "tl (drop j m) = replicate k 0" using 1 n by simp
    then have "drop (Suc j) m = replicate k 0" by (simp add: drop_Suc tl_drop)
    then have d: "drop (j + 1) (m[j := x]) = replicate k 0" "take (j + 1) (m[j := x]) = take j m @ [x]"
      using 1 n by (simp_all add: take_Suc_conv_app_nth)
    have "mask6_loop (idx - 8) (j + 1) (m[j := x]) = (take j m @ [x]) @ prefix_mask k (idx - 8)"
      unfolding x_def d(2) [unfolded x_def, symmetric]
      by (rule "1.IH") (use 1 False n d(1) in \<open>simp_all add: x_def\<close>)
    then show ?thesis using False n x by (simp add: mask6_loop.simps [of idx] x_def)
  qed
qed

lemma mask6_prefix:
  assumes "p \<le> 128"
  shows "mask6 p = prefix_mask 16 (unat p)"
proof -
  have "unat p \<le> 128" using assms by (simp add: word_le_nat_alt)
  then show ?thesis using mask6_loop_eq [of 0 "replicate 16 0" 16 "unat p"]
    by (auto simp: mask6_def Let_def mask6_loop.simps [of 0] word_less_nat_alt)
qed

lemma ntohl_zero [simp]: "ntohl [0, 0, 0, 0] = 0" by (simp add: ntohl_def be_value_def)

lemma htonl_bytes:
  "htonl w = [ucast (drop_bit 24 w), ucast (drop_bit 16 w), ucast (drop_bit 8 w), ucast w]"
proof -
  have "(ucast (drop_bit m w) :: byte) = of_nat (unat w div 2 ^ m)" for m
  proof -
    have "unat w div 2 ^ m = unat (drop_bit m w)" by (simp only: unat_drop_bit_eq) (simp add: drop_bit_eq_div)
    then show ?thesis by (simp only: of_nat_unat)
  qed
  from this [of 24] this [of 16] this [of 8] show ?thesis
    by (simp add: htonl_def be_bytes_def upt_rec)
qed

lemma mask_byte:
  assumes "m \<le> 24" "n \<le> 32"
  shows "(ucast (drop_bit m (not (push_bit (32 - n) 1 - 1) :: u32)) :: byte) = push_bit (8 - (n - (24 - m))) 0xFF"
proof (rule bit_word_eqI)
  fix i assume i: "i < LENGTH(8)"
  have "not (push_bit (32 - n) 1 - 1 :: u32) = not (mask (32 - n))" by (simp add: mask_eq_exp_minus_1 push_bit_eq_mult)
  moreover have "32 - n \<le> m + i \<longleftrightarrow> 8 - (n - (24 - m)) \<le> i" using assms i by auto
  ultimately show "bit (ucast (drop_bit m (not (push_bit (32 - n) 1 - 1) :: u32)) :: byte) i
      = bit (push_bit (8 - (n - (24 - m))) 0xFF :: byte) i"
    using i assms by (auto simp: bit_ucast_iff bit_drop_bit_eq bit_not_iff bit_mask_iff bit_byte_mask)
qed

lemma htonl_prefix:
  assumes "n \<le> 32"
  shows "htonl (not (push_bit (32 - n) 1 - 1)) = prefix_mask 4 n"
proof -
  have four: "(4 :: nat) = Suc (Suc (Suc (Suc 0)))" by simp
  show ?thesis
    using mask_byte [of 24 n] mask_byte [of 16 n] mask_byte [of 8 n] mask_byte [of 0 n] assms
    unfolding four prefix_mask.simps htonl_bytes drop_bit_0 by simp
qed

lemma mask4_prefix: "mask4 p [0, 0, 0, 0] = prefix_mask 4 (min 32 (unat p))"
proof -
  have "htonl 0 = prefix_mask 4 0" unfolding prefix_mask_0 by (simp add: htonl_bytes numeral_eq_Suc)
  moreover have "p > 0 \<longleftrightarrow> unat p > 0" "p > 32 \<longleftrightarrow> unat p > 32" by (simp_all add: word_less_nat_alt)
  ultimately show ?thesis using htonl_prefix by (auto simp: mask4_def Let_def min_def)
qed

text \<open>A contiguous netmask is the mask of a prefix.\<close>

lemma be_value_bound: "be_value b < 256 ^ length b"
proof (induction b rule: rev_induct)
  case (snoc x xs)
  have "unat x < 256" using unsigned_less [of x] by simp
  then have "be_value xs * 256 + unat x < 256 ^ length xs * 256" using snoc by (simp add: mult.commute [of _ 256]) 
  then show ?case by (simp add: be_value_def)
qed (simp add: be_value_def)

lemma htonl_ntohl:
  assumes "length b = 4"
  shows "htonl (ntohl b) = b"
proof -
  obtain w x y z where b: "b = [w, x, y, z]"
    using assms by (auto simp: length_Suc_conv numeral_eq_Suc)
  have lt: "unat w < 256" "unat x < 256" "unat y < 256" "unat z < 256"
    using unsigned_less [of w] unsigned_less [of x] unsigned_less [of y] unsigned_less [of z] by simp_all
  have "be_value b < 2 ^ 32" using be_value_bound [of b] assms by simp
  then have "unat (ntohl b) = be_value b" by (simp add: ntohl_def unat_of_nat)
  moreover have "be_value b = ((unat w * 256 + unat x) * 256 + unat y) * 256 + unat z" by (simp add: b be_value_def)
  moreover have d: "(a * 256 + k) div 256 = a" if "k < 256" for a k :: nat using that by simp
  moreover have m: "(of_nat (a * 256 + unat k) :: byte) = k" for a k
  proof -
    have "(of_nat (a * 256 + unat k) :: byte) = of_nat a * of_nat 256 + of_nat (unat k)" by (simp only: of_nat_add of_nat_mult)
    moreover have "(of_nat 256 :: byte) = 0" by simp
    ultimately show ?thesis by (simp only: mult_zero_right add_0 of_nat_unat ucast_id)
  qed
  define p where "p = unat w * 256 + unat x"
  define q where "q = p * 256 + unat y"
  define n where "n = q * 256 + unat z"
  have "n div 256 ^ (4 - 1 - 0) = n div 256 div 256 div 256" "n div 256 ^ (4 - 1 - 1) = n div 256 div 256"
      "n div 256 ^ (4 - 1 - 2) = n div 256" "n div 256 ^ (4 - 1 - 3) = n"
    by (simp_all flip: div_mult2_eq)
  moreover have "n div 256 = q" "q div 256 = p" "p div 256 = unat w" unfolding n_def q_def p_def by (rule d [OF lt(4)] d [OF lt(3)] d [OF lt(2)])+
  moreover have "(of_nat n :: byte) = z" "(of_nat q :: byte) = y" "(of_nat p :: byte) = x" unfolding n_def q_def p_def by (rule m)+
  moreover have "unat (ntohl b) = n" using calculation(1,2) by (simp only: n_def q_def p_def)
  moreover have "[0..<4] = [0, 1, 2, 3]" by (simp add: upt_rec)
  ultimately show ?thesis unfolding htonl_def be_bytes_def b by simp
qed

lemma contiguous_mask:
  fixes w :: u32
  assumes "and w (drop_bit 1 (not w)) = 0"
  shows "\<exists>n \<le> 32. w = not (push_bit (32 - n) 1 - 1)"
proof -
  have up: "bit w (Suc i)" if "bit w i" "Suc i < 32" for i
  proof -
    have "\<not> bit (and w (drop_bit 1 (not w))) i" using assms by simp
    then show ?thesis using that by (simp add: bit_and_iff bit_drop_bit_eq bit_not_iff)
  qed
  define k where "k = (LEAST k. bit w k \<or> k = 32)"
  have k: "bit w k \<or> k = 32" unfolding k_def by (rule LeastI [of _ 32]) simp
  have below: "\<not> bit w i" if "i < k" for i using not_less_Least [of i "\<lambda>k. bit w k \<or> k = 32"] that unfolding k_def by blast
  have k32: "k \<le> 32" unfolding k_def by (rule Least_le) simp
  have above: "bit w i" if "k \<le> i" "i < 32" for i
    using that
  proof (induction i rule: dec_induct)
    case base
    then show ?case using k by simp
  next
    case (step i)
    then show ?case using up by simp
  qed
  have "w = not (mask k)"
    by (rule bit_word_eqI) (use above below in \<open>auto simp: bit_not_iff bit_mask_iff not_less intro: leI\<close>)
  then show ?thesis using k32 by (intro exI [of _ "32 - k"]) (simp add: mask_eq_exp_minus_1 push_bit_eq_mult)
qed

section \<open>What a list accepts\<close>

text \<open>Addresses as \<open>getaddrinfo\<close> and \<open>accept\<close> give them.\<close>

fun addr_ok :: "saddr \<Rightarrow> bool" where
  "addr_ok (Inet a) = (length a = 4)"
| "addr_ok (Inet6 a) = (length a = 16)"
| "addr_ok OtherFamily = False"

text \<open>The first \<open>p\<close> bits of two addresses of one family are the same (at most 32 for IPv4).\<close>

fun same_net :: "nat \<Rightarrow> saddr \<Rightarrow> saddr \<Rightarrow> bool" where
  "same_net p (Inet a) (Inet b) = (take (min 32 p) (addr_bits a) = take (min 32 p) (addr_bits b))"
| "same_net p (Inet6 a) (Inet6 b) = (take p (addr_bits a) = take p (addr_bits b))"
| "same_net p _ _ = False"

lemma AddIPNet_entry_matches:
  assumes "addr_ok a" "addr_ok b" "prefix \<le> 128"
  shows "net_matches b (AddIPNet_entry prefix [0, 0, 0, 0] limit a) = same_net (unat prefix) a b"
  using assms mask6_prefix [OF assms(3)] prefix_mask_eq
  by (cases a; cases b) (auto simp: net_matches_def AddIPNet_entry_def mask4_prefix)

lemma find_snoc:
  "find P (xs @ [x]) = (case find P xs of Some y \<Rightarrow> Some y | None \<Rightarrow> if P x then Some x else None)"
  by (induction xs) simp_all

lemma find_in: "find P xs = Some x \<Longrightarrow> x \<in> set xs \<and> P x"
  by (induction xs) (auto split: if_splits)

lemma find_none: "find P xs = None \<Longrightarrow> x \<in> set xs \<Longrightarrow> \<not> P x"
  by (simp add: find_None_iff)

lemma MatchIP_push:
  assumes "b \<noteq> OtherFamily"
  shows "MatchIP (foldl (\<lambda>l a. f a # l) list addrs) b
    = (case find (\<lambda>a. net_matches b (f a)) (rev addrs) of Some a \<Rightarrow> Some (f a) | None \<Rightarrow> MatchIP list b)"
  using assms
proof (induction addrs arbitrary: list)
  case (Cons a addrs)
  then show ?case by (simp add: find_snoc split: option.split)
qed simp

text \<open>The prefix length that a configured network stands for.\<close>

definition prefix_length :: "string \<Rightarrow> nat" where
  "prefix_length str = (case snd (split_network str) of None \<Rightarrow> 128 | Some s \<Rightarrow> digits_value 10 s)"

lemma IsAllDigits_strto:
  assumes "IsAllDigits (Some s)"
  shows "strtoull_all 10 s = (if digits_value 10 s < 2 ^ 64 then Some (of_nat (digits_value 10 s)) else None)"
proof -
  have "is_digit 10 c" if "c \<in> set ''0123456789''" for c
    using that by (auto simp: is_digit_def digit_value_def ord_def)
  then have "s \<noteq> []" "list_all (is_digit 10) s"
    using assms by (auto simp: IsAllDigits_def list_all_iff split: if_splits)
  then show ?thesis using strto_digits [of s "[]"] by (simp add: strtoull_all_def)
qed

text \<open>
  C35: a network that is given with a prefix length, or alone, is added with exactly the addresses that
  agree with it in the first bits of that number (32 at most for IPv4): of the addresses its name
  resolves to the last one is looked at first, and an address that is in none of them is left to
  the nets that were there before.  A prefix length above 128 is refused.
\<close>

theorem AddIPNet_prefix_semantics:
  assumes "snd (split_network str) = None \<or> IsAllDigits (snd (split_network str))"
    and "getaddrinfo rs (fst (split_network str)) = Some addrs" "\<forall>a \<in> set addrs. addr_ok a" "addr_ok b"
    and "AddIPNet rs list str limit = (rv, list')"
  shows "rv = (if prefix_length str \<le> 128 then 0 else -1) \<and>
    (prefix_length str \<le> 128 \<longrightarrow> map_option limitstr (MatchIP list' b)
       = (if \<exists>a \<in> set addrs. same_net (prefix_length str) a b then Some limit else map_option limitstr (MatchIP list b)))"
proof -
  obtain host pre where sp: "split_network str = (host, pre)" by (cases "split_network str")
  have p: "AddIPNet_prefix rs pre = (if prefix_length str \<le> 128 then Some (of_nat (prefix_length str), [0, 0, 0, 0]) else None)"
  proof (cases pre)
    case None
    then show ?thesis by (simp add: AddIPNet_prefix_def prefix_length_def sp IsAllDigits_def)
  next
    case (Some s)
    then have d: "IsAllDigits (Some s)" using assms(1) sp by simp
    have "(of_nat n :: u64) > 128 \<longleftrightarrow> n > 128" if "n < 2 ^ 64" for n
      using that by (simp add: word_less_nat_alt unat_of_nat)
    then show ?thesis using d Some IsAllDigits_strto [OF d]
      by (auto simp: AddIPNet_prefix_def prefix_length_def sp)
  qed
  show ?thesis
  proof (cases "prefix_length str \<le> 128")
    case False
    then show ?thesis using assms(5) sp p by (auto simp: AddIPNet_def)
  next
    case True
    let ?f = "AddIPNet_entry (of_nat (prefix_length str)) [0, 0, 0, 0] limit"
    have "(of_nat (prefix_length str) :: u64) \<le> 128" "unat (of_nat (prefix_length str) :: u64) = prefix_length str"
      using True by (simp_all add: word_le_nat_alt unat_of_nat)
    then have m: "net_matches b (?f a) = same_net (prefix_length str) a b" if "a \<in> set addrs" for a
      using AddIPNet_entry_matches [OF _ assms(4)] assms(3) that by simp
    have l: "list' = foldl (\<lambda>l a. ?f a # l) list addrs" "rv = 0"
      using assms(2,5) sp p True by (auto simp: AddIPNet_def)
    have b: "b \<noteq> OtherFamily" using assms(4) by auto
    have "limitstr (?f a) = limit" for a by (simp add: AddIPNet_entry_def split: saddr.split)
    then have "map_option limitstr (MatchIP list' b)
        = (if \<exists>a \<in> set addrs. net_matches b (?f a) then Some limit else map_option limitstr (MatchIP list b))"
      unfolding l(1) MatchIP_push [OF b]
      by (cases "find (\<lambda>a. net_matches b (?f a)) (rev addrs)") (auto dest: find_in find_none)
    then show ?thesis using m True l(2) by (simp cong: bex_cong)
  qed
qed

definition home_net :: "string \<Rightarrow> saddr list option" where
  "home_net host = (if host = ''192.0.2.9'' then Some [Inet [192, 0, 2, 9]]
     else if host = ''localhost'' then Some [Inet [127, 0, 0, 1], Inet6 (replicate 15 0 @ [1])] else None)"

definition home_resolver :: resolver where
  "home_resolver = \<lparr>inet_pton4 = (\<lambda>s. if s = ''255.255.0.0'' then Some [255, 255, 0, 0] else None), getaddrinfo = home_net\<rparr>"

theorem AddIPNet_prefix_semantics_witness:
  "\<exists>list'. AddIPNet home_resolver [] ''192.0.2.9/24'' (Some ''FDSN:IU_'') = (0, list')
     \<and> map_option limitstr (MatchIP list' (Inet [192, 0, 2, 200])) = Some (Some ''FDSN:IU_'')
     \<and> MatchIP list' (Inet [192, 0, 3, 9]) = None"
proof -
  let ?s = "''192.0.2.9/24''"
  have s: "split_network ?s = (''192.0.2.9'', Some ''24'')" by (simp add: split_network_def Let_def)
  have p: "prefix_length ?s = 24" by (simp add: prefix_length_def s digits_value_def digit_value_def ord_def)
  obtain rv l where r: "AddIPNet home_resolver [] ?s (Some ''FDSN:IU_'') = (rv, l)" by (cases "AddIPNet home_resolver [] ?s (Some ''FDSN:IU_'')")
  have g: "getaddrinfo home_resolver (fst (split_network ?s)) = Some [Inet [192, 0, 2, 9]]"
    by (simp add: s home_resolver_def home_net_def)
  note t = AddIPNet_prefix_semantics [OF _ g _ _ r, unfolded p]
  have "same_net 24 (Inet [192, 0, 2, 9]) (Inet [192, 0, 2, 200])" "\<not> same_net 24 (Inet [192, 0, 2, 9]) (Inet [192, 0, 3, 9])"
    by code_simp+
  then show ?thesis
    using r t [of "Inet [192, 0, 2, 200]"] t [of "Inet [192, 0, 3, 9]"] by (simp add: s IsAllDigits_def del: same_net.simps)
qed

lemma htonl_inject:
  assumes "htonl w = htonl v"
  shows "w = v"
proof (rule bit_word_eqI)
  fix i assume i: "i < LENGTH(32)"
  have "(ucast (drop_bit 24 w) :: byte) = ucast (drop_bit 24 v)" "(ucast (drop_bit 16 w) :: byte) = ucast (drop_bit 16 v)"
    "(ucast (drop_bit 8 w) :: byte) = ucast (drop_bit 8 v)" "(ucast (drop_bit 0 w) :: byte) = ucast (drop_bit 0 v)"
    using assms by (simp_all add: htonl_bytes)
  moreover have eq: "bit w (m + k) = bit v (m + k)" if "(ucast (drop_bit m w) :: byte) = ucast (drop_bit m v)" "k < 8" "m + k < 32" for m k
  proof -
    have "bit (ucast (drop_bit m w) :: byte) k = bit (ucast (drop_bit m v) :: byte) k" using that(1) by simp
    then show ?thesis using that(2,3) by (simp add: bit_ucast_iff bit_drop_bit_eq)
  qed
  ultimately have "j < 8 \<Longrightarrow> bit w (24 + j) = bit v (24 + j)" "j < 8 \<Longrightarrow> bit w (16 + j) = bit v (16 + j)"
      "j < 8 \<Longrightarrow> bit w (8 + j) = bit v (8 + j)" "j < 8 \<Longrightarrow> bit w (0 + j) = bit v (0 + j)" for j
    using eq [of 24 j] eq [of 16 j] eq [of 8 j] eq [of 0 j] by auto
  note part = this
  consider "24 \<le> i" | "16 \<le> i" "i < 24" | "8 \<le> i" "i < 16" | "i < 8" by linarith
  then show "bit w i = bit v i"
    using i part(1) [of "i - 24"] part(2) [of "i - 16"] part(3) [of "i - 8"] part(4) [of i] by cases auto
qed

lemma netmask_test:
  assumes "length b = 4"
  shows "ntohl b > 0 \<and> and (ntohl b) (drop_bit 1 (not (ntohl b))) \<noteq> 0 \<longleftrightarrow> \<not> (\<exists>n \<le> 32. b = prefix_mask 4 n)"
proof -
  have "and (ntohl b) (drop_bit 1 (not (ntohl b))) = 0" if "n \<le> 32" "b = prefix_mask 4 n" for n
  proof -
    have "ntohl b = not (push_bit (32 - n) 1 - 1)"
      using htonl_prefix [OF that(1)] htonl_ntohl [OF assms] that(2) htonl_inject by metis
    then have "ntohl b = not (mask (32 - n))" by (simp add: mask_eq_exp_minus_1 push_bit_eq_mult)
    then show ?thesis by (auto simp: bit_eq_iff bit_and_iff bit_drop_bit_eq bit_not_iff bit_mask_iff)
  qed
  moreover have "\<exists>n \<le> 32. b = prefix_mask 4 n" if "and (ntohl b) (drop_bit 1 (not (ntohl b))) = 0"
    using contiguous_mask [OF that] htonl_prefix htonl_ntohl [OF assms] by metis
  moreover have "and (ntohl b) (drop_bit 1 (not (ntohl b))) = 0" if "\<not> ntohl b > 0" using that by (simp add: word_gt_0)
  ultimately show ?thesis by blast
qed

text \<open>
  An IPv4 netmask is accepted when it is contiguous, that is the mask of some prefix, and then an IPv4
  address is in the network when it agrees in that prefix.  But if the name also resolves to an IPv6
  address, every IPv6 address whatsoever is in the list from then on.
\<close>

theorem AddIPNet_netmask_semantics:
  assumes "split_network str = (host, Some m)" "\<not> IsAllDigits (Some m)" "inet_pton4 rs m = Some b" "length b = 4"
    and "getaddrinfo rs host = Some addrs" "\<forall>a \<in> set addrs. addr_ok a" "addr_ok c"
    and "AddIPNet rs list str limit = (rv, list')"
  shows "rv = (if \<exists>n \<le> 32. b = prefix_mask 4 n then 0 else -1) \<and>
    (\<forall>n \<le> 32. b = prefix_mask 4 n \<longrightarrow> map_option limitstr (MatchIP list' c)
       = (if \<exists>a \<in> set addrs. case c of Inet6 _ \<Rightarrow> (\<exists>x. a = Inet6 x) | _ \<Rightarrow> same_net n a c
          then Some limit else map_option limitstr (MatchIP list c)))"
proof -
  have p: "AddIPNet_prefix rs (Some m) = (if \<exists>n \<le> 32. b = prefix_mask 4 n then Some (0, b) else None)"
    unfolding AddIPNet_prefix_def using assms(2,3) netmask_test [OF assms(4)] by auto
  have "map_option limitstr (MatchIP list' c)
       = (if \<exists>a \<in> set addrs. case c of Inet6 _ \<Rightarrow> (\<exists>x. a = Inet6 x) | _ \<Rightarrow> same_net n a c
          then Some limit else map_option limitstr (MatchIP list c))" if n: "n \<le> 32" "b = prefix_mask 4 n" for n
  proof -
    let ?f = "AddIPNet_entry 0 b limit"
    have c: "c \<noteq> OtherFamily" using assms(7) by auto
    have "\<exists>n \<le> 32. b = prefix_mask 4 n" using n by blast
    then have p': "AddIPNet_prefix rs (Some m) = Some (0, b)" using p by simp
    have l: "list' = foldl (\<lambda>l a. ?f a # l) list addrs"
      using assms(1,5,8) p' by (simp add: AddIPNet_def)
    have "mask4 0 b = b"
    proof (cases "ntohl b > 0")
      case False
      then have "ntohl b = 0" by (simp add: word_gt_0)
      then show ?thesis using htonl_ntohl [OF assms(4)] by (simp add: mask4_def)
    qed (simp add: mask4_def)
    then have m: "net_matches c (?f a) = (case c of Inet6 _ \<Rightarrow> (\<exists>x. a = Inet6 x) | _ \<Rightarrow> same_net n a c)" if "a \<in> set addrs" for a
      using assms(6,7) that n(1) mask6_prefix [of 0] prefix_mask_eq
      by (cases a; cases c) (auto simp: net_matches_def AddIPNet_entry_def n(2) min_def)
    have "limitstr (?f a) = limit" for a by (simp add: AddIPNet_entry_def split: saddr.split)
    then have "map_option limitstr (MatchIP list' c)
        = (if \<exists>a \<in> set addrs. net_matches c (?f a) then Some limit else map_option limitstr (MatchIP list c))"
      unfolding l MatchIP_push [OF c]
      by (cases "find (\<lambda>a. net_matches c (?f a)) (rev addrs)") (auto dest: find_in find_none)
    then show ?thesis using m by (simp cong: bex_cong)
  qed
  moreover have "rv = (if \<exists>n \<le> 32. b = prefix_mask 4 n then 0 else -1)"
    using assms(1,5,8) p by (auto simp: AddIPNet_def split: if_splits)
  ultimately show ?thesis by blast
qed

theorem AddIPNet_netmask_semantics_witness:
  "\<exists>list'. AddIPNet home_resolver [] ''localhost/255.255.0.0'' None = (0, list')
     \<and> MatchIP list' (Inet [128, 0, 0, 1]) = None \<and> MatchIP list' (Inet6 (replicate 16 0x20)) \<noteq> None"
proof -
  let ?s = "''localhost/255.255.0.0''"
  have s: "split_network ?s = (''localhost'', Some ''255.255.0.0'')" by (simp add: split_network_def Let_def)
  obtain rv l where r: "AddIPNet home_resolver [] ?s None = (rv, l)" by (cases "AddIPNet home_resolver [] ?s None")
  have g: "getaddrinfo home_resolver ''localhost'' = Some [Inet [127, 0, 0, 1], Inet6 (replicate 15 0 @ [1])]"
      "inet_pton4 home_resolver ''255.255.0.0'' = Some [255, 255, 0, 0]" by (simp_all add: home_resolver_def home_net_def)
  have m: "[255, 255, 0, 0] = prefix_mask 4 16" "(16 :: nat) \<le> 32" by code_simp+
  have d: "\<not> IsAllDigits (Some ''255.255.0.0'')" by (simp add: IsAllDigits_def)
  note t = AddIPNet_netmask_semantics [OF s d g(2) _ g(1) _ _ r]
  have "\<not> same_net 16 (Inet [127, 0, 0, 1]) (Inet [128, 0, 0, 1])" by code_simp
  moreover have ok: "length [255, 255, 0, 0 :: byte] = 4" "\<forall>a \<in> set [Inet [127, 0, 0, 1], Inet6 (replicate 15 0 @ [1])]. addr_ok a"
      "addr_ok (Inet [128, 0, 0, 1])" "addr_ok (Inet6 (replicate 16 0x20))" by simp_all
  moreover note t1 = t [OF ok(1,2,3)] and t2 = t [OF ok(1,2,4)]
  moreover have "rv = 0" using t1 m by (meson zero_neq_neg_one)
  moreover note t1 [THEN conjunct2, rule_format, OF m(2,1)] t2 [THEN conjunct2, rule_format, OF m(2,1)]
  ultimately show ?thesis using r by auto
qed

end
