(* ===== verification/RS_Connect.thy ===== *)
theory RS_Connect
  imports RS_Access
begin

text \<open>
  Who may connect and with which rights: the set-up of a connection (\<open>ClientIPCount\<close>,
  \<open>ConfigClient\<close> of \<open>ringserver-4/src/ringserver.c\<close>), the list of client threads that the listening
  threads extend and the main loop cleans, and what follows for the connections as a whole.
\<close>

section \<open>Connections\<close>

text \<open>
  The parts of \<open>config\<close> that decide about connections; a list that is not configured is empty.
  \<open>clienttimeout\<close> is in seconds.
\<close>

record access_config =
  acceptips :: "IPNet list"
  denyips :: "IPNet list"
  writeips :: "IPNet list"
  trustedips :: "IPNet list"
  allowedips :: "IPNet list"
  forbiddenips :: "IPNet list"
  maxclientsperip :: u32
  maxclients :: u32
  clienttimeout :: nat

definition ENCRYPTION_TLS :: u32 where "ENCRYPTION_TLS = push_bit 1 1"
definition PROXY_PROTOCOL_V2 :: u32 where "PROXY_PROTOCOL_V2 = push_bit 4 1"
definition GRANT_TRUSTED :: u32 where "GRANT_TRUSTED = push_bit 5 1"

record ListenPortParams =
  lp_portstr :: string
  lp_protocols :: u32
  options :: u32

text \<open>The further fields of \<open>ClientInfo\<close> that belong to the connection.\<close>

record 're conn =
  client :: "'re ClientInfo"
  cn_protocols :: u32
  tls :: bool
  proxyv2 :: bool
  ipstr :: string
  portstr :: string
  serverport :: string
  listenerport :: string
  cn_addr :: "saddr option"

datatype ThreadState = TDS_SPAWNING | TDS_ACTIVE | TDS_CLOSE | TDS_CLOSING | TDS_CLOSED

record 're thread_data =
  td_state :: ThreadState
  td_prvtptr :: "'re conn"

text \<open>The fields of \<open>param\<close>: the list of client threads, newest first, and their number.\<close>

record 're conn_param =
  cthreads :: "'re thread_data list"
  clientcount :: nat

definition RESERVECONNECTIONS :: u32 where "RESERVECONNECTIONS = 10"

definition ClientIPCount :: "'re thread_data list \<Rightarrow> saddr \<Rightarrow> nat" where
  "ClientIPCount threads addr = length (filter (\<lambda>td. td_state td = TDS_ACTIVE \<and>
     (case (cn_addr (td_prvtptr td), addr) of
        (Some (Inet a), Inet b) \<Rightarrow> a = b
      | (Some (Inet6 a), Inet6 b) \<Rightarrow> a = b
      | _ \<Rightarrow> False)) threads)"

text \<open>A client as \<open>calloc\<close> leaves it, on a socket with what it will deliver and take.\<close>

definition zero_client :: "net \<Rightarrow> send_event list \<Rightarrow> nat \<Rightarrow> 're ClientInfo" where
  "zero_client s evs now = \<lparr>net = s, clock = now, socketerr = 0, recvbuf = [], recvbufsize = 0, recvconsumed = 0,
     recvstart = 0, lastxchange = 0, dlcommand = [], outq = evs, wire = [], websocket = False,
     sendbuf = [], sendbufsize = 0, packet = empty_packet, clientid = [], state = STATE_COMMAND,
     permissions = 0, auth_method = AUTH_NONE, auth_username = [],
     reader = \<lparr>pktoffset = 0, rd_pktid = 0, rd_pkttime = 0, allowed = None, forbidden = None, rd_match = None, reject = None\<rparr>,
     allowedstr = None, forbiddenstr = None, matchstr = None, rejectstr = None, streams = Map.empty,
     streamscount = 0, txpackets0 = 0, txbytes0 = 0, rxpackets0 = 0, rxbytes0 = 0, dlinfo = None\<rparr>"

text \<open>The reasons to refuse a connection, in order.\<close>

definition ConfigClient_denied :: "access_config \<Rightarrow> 're conn_param \<Rightarrow> saddr \<Rightarrow> bool" where
  "ConfigClient_denied cfg pa addr =
     (if acceptips cfg \<noteq> [] \<and> MatchIP (acceptips cfg) addr = None then True
      else if denyips cfg \<noteq> [] \<and> MatchIP (denyips cfg) addr \<noteq> None then True
      else if maxclientsperip cfg \<noteq> 0 \<and> \<not> (writeips cfg \<noteq> [] \<and> MatchIP (writeips cfg) addr \<noteq> None) \<and>
              of_nat (ClientIPCount (cthreads pa) addr) \<ge> maxclientsperip cfg then True
      else if maxclients cfg \<noteq> 0 \<and> of_nat (clientcount pa) \<ge> maxclients cfg then
        \<not> (writeips cfg \<noteq> [] \<and> MatchIP (writeips cfg) addr \<noteq> None \<and>
            of_nat (clientcount pa) \<le> maxclients cfg + RESERVECONNECTIONS)
      else False)"

definition limit_of :: "IPNet list \<Rightarrow> saddr \<Rightarrow> string option" where
  "limit_of list addr = (case MatchIP list addr of Some n \<Rightarrow> limitstr n | None \<Rightarrow> None)"

definition ConfigClient_permissions :: "access_config \<Rightarrow> ListenPortParams \<Rightarrow> saddr \<Rightarrow> u32" where
  "ConfigClient_permissions cfg lpp addr =
     (let p0 = CONNECT_PERMISSION;
          p1 = (if writeips cfg \<noteq> [] \<and> MatchIP (writeips cfg) addr \<noteq> None then or p0 WRITE_PERMISSION else p0);
          p2 = (if trustedips cfg \<noteq> [] \<and> MatchIP (trustedips cfg) addr \<noteq> None then or p1 TRUST_PERMISSION else p1)
      in if and (options lpp) GRANT_TRUSTED \<noteq> 0 then or p2 TRUST_PERMISSION else p2)"

definition ConfigClient ::
  "access_config \<Rightarrow> 're conn_param \<Rightarrow> saddr \<Rightarrow> 're ClientInfo \<Rightarrow> ListenPortParams \<Rightarrow> string \<Rightarrow> string \<Rightarrow> 're conn option" where
  "ConfigClient cfg pa addr c0 lpp ip port =
     (if ConfigClient_denied cfg pa addr then None
      else Some \<lparr>client = c0\<lparr>state := STATE_COMMAND, allowedstr := limit_of (allowedips cfg) addr,
                            forbiddenstr := limit_of (forbiddenips cfg) addr,
                            permissions := ConfigClient_permissions cfg lpp addr, lastxchange := clock c0\<rparr>,
                 cn_protocols = lp_protocols lpp, tls = (and (options lpp) ENCRYPTION_TLS \<noteq> 0),
                 proxyv2 = (and (options lpp) PROXY_PROTOCOL_V2 \<noteq> 0),
                 ipstr = snprintf 100 ip, portstr = snprintf 32 port, serverport = snprintf 32 (lp_portstr lpp),
                 listenerport = snprintf 32 (lp_portstr lpp), cn_addr = None\<rparr>)"

section \<open>The listening threads and the main loop\<close>

text \<open>
  An incoming connection: the address of the peer, the answer of \<open>ProxyProtocolV2Read\<close> (its result,
  the address and the port that it has stored, if it has), \<open>getnameinfo\<close>, and the socket.
\<close>

record incoming =
  in_peer :: saddr
  in_proxy :: "int \<times> saddr \<times> u16 option"
  in_names :: "saddr \<Rightarrow> (string \<times> string) option"
  in_net :: net
  in_room :: "send_event list"
  in_time :: nat

text \<open>
  A listening thread: its parameters, the variable \<open>proxy_dest_port\<close>, which lives as long as the
  thread, and the connection that is configured but not in the list yet.
\<close>

record 're listener =
  lpp :: ListenPortParams
  proxy_dest_port :: u16
  pending_conn :: "'re conn option"

definition ListenThread_configure ::
  "access_config \<Rightarrow> 're conn_param \<Rightarrow> incoming \<Rightarrow> 're listener \<Rightarrow> 're listener" where
  "ListenThread_configure cfg pa inc l =
     (let proxied = (and (options (lpp l)) PROXY_PROTOCOL_V2 \<noteq> 0);
          (ppresult, paddr, port) = in_proxy inc;
          addr = (if proxied \<and> ppresult = 0 then paddr else in_peer inc);
          l1 = (if proxied then l\<lparr>proxy_dest_port := (case port of Some p \<Rightarrow> p | None \<Rightarrow> proxy_dest_port l)\<rparr> else l)
      in if proxied \<and> ppresult < 0 then l1
         else (case in_names inc addr of
             None \<Rightarrow> l1
           | Some (ip, port) \<Rightarrow>
              (case ConfigClient cfg pa addr (zero_client (in_net inc) (in_room inc) (in_time inc)) (lpp l) ip port of
                 None \<Rightarrow> l1
               | Some c \<Rightarrow>
                  l1\<lparr>pending_conn := Some (c\<lparr>serverport := (if proxy_dest_port l1 \<noteq> 0
                                                              then dec (unat (proxy_dest_port l1)) else serverport c),
                                              cn_addr := Some addr\<rparr>)\<rparr>)))"

text \<open>The thread of the client is started, or cannot be, and is put in front of the list.\<close>

definition InitThreadData :: "'re conn \<Rightarrow> 're thread_data" where
  "InitThreadData prvtptr = \<lparr>td_state = TDS_SPAWNING, td_prvtptr = prvtptr\<rparr>"

definition ListenThread_register ::
  "bool \<Rightarrow> 're conn \<Rightarrow> 're conn_param \<Rightarrow> 're conn_param" where
  "ListenThread_register thread_ok c pa =
     (if \<not> thread_ok then pa
      else pa\<lparr>cthreads := InitThreadData c # cthreads pa, clientcount := clientcount pa + 1\<rparr>)"

text \<open>The loop of the main thread over the client threads: closed ones are removed, idle ones told to close.\<close>

fun reap :: "access_config \<Rightarrow> nat \<Rightarrow> 're thread_data list \<Rightarrow> nat \<Rightarrow> 're thread_data list \<times> nat" where
  "reap cfg hpcurtime [] n = ([], n)"
| "reap cfg hpcurtime (td # rest) n =
     (if td_state td = TDS_CLOSED then reap cfg hpcurtime rest (if n > 0 then n - 1 else n)
      else (case reap cfg hpcurtime rest n of (tds, m) \<Rightarrow>
        ((if td_state td = TDS_ACTIVE \<and> clienttimeout cfg \<noteq> 0 \<and>
            int hpcurtime - int (lastxchange (client (td_prvtptr td))) > int (clienttimeout cfg * 1000)
         then td\<lparr>td_state := TDS_CLOSE\<rparr> else td) # tds, m)))"

section \<open>The number of connections\<close>

text \<open>
  What can happen: a listener that is not busy configures a connection; it starts the thread of the
  one it has configured; the main loop cleans the list; a client thread goes on, with whatever it does
  to its data, or the signal handler asks it to close.
\<close>

definition thread_moves :: "ThreadState \<Rightarrow> ThreadState \<Rightarrow> bool" where
  "thread_moves a b \<longleftrightarrow> a = b \<or> (a, b) \<in> {(TDS_SPAWNING, TDS_ACTIVE), (TDS_SPAWNING, TDS_CLOSING), (TDS_ACTIVE, TDS_CLOSING),
     (TDS_CLOSE, TDS_CLOSING), (TDS_CLOSING, TDS_CLOSED), (TDS_SPAWNING, TDS_CLOSE), (TDS_ACTIVE, TDS_CLOSE)}"

inductive listen_step ::
  "access_config \<Rightarrow> 're conn_param \<times> 're listener list \<Rightarrow> 're conn_param \<times> 're listener list \<Rightarrow> bool" for cfg where
  configure: "i < length ls \<Longrightarrow> pending_conn (ls ! i) = None \<Longrightarrow>
    listen_step cfg (pa, ls) (pa, ls[i := ListenThread_configure cfg pa inc (ls ! i)])"
| register: "i < length ls \<Longrightarrow> pending_conn (ls ! i) = Some c \<Longrightarrow>
    listen_step cfg (pa, ls) (ListenThread_register ok c pa, ls[i := (ls ! i)\<lparr>pending_conn := None\<rparr>])"
| clean: "reap cfg now (cthreads pa) (clientcount pa) = (tds, n) \<Longrightarrow>
    listen_step cfg (pa, ls) (pa\<lparr>cthreads := tds, clientcount := n\<rparr>, ls)"
| client: "i < length (cthreads pa) \<Longrightarrow> thread_moves (td_state (cthreads pa ! i)) (td_state td) \<Longrightarrow>
    listen_step cfg (pa, ls) (pa\<lparr>cthreads := (cthreads pa)[i := td]\<rparr>, ls)"

inductive listening :: "access_config \<Rightarrow> 're conn_param \<times> 're listener list \<Rightarrow> bool" for cfg where
  start: "\<forall>l \<in> set ls. pending_conn l = None \<Longrightarrow> listening cfg (\<lparr>cthreads = [], clientcount = 0\<rparr>, ls)"
| step: "listening cfg s \<Longrightarrow> listen_step cfg s s' \<Longrightarrow> listening cfg s'"

inductive_cases listen_stepE: "listen_step cfg (pa, ls) s'"

text \<open>The number of listeners between the two steps.\<close>

primrec busy :: "'re listener list \<Rightarrow> nat" where
  "busy [] = 0"
| "busy (l # ls) = (if pending_conn l = None then 0 else 1) + busy ls"

lemma busy_le: "busy ls \<le> length ls" by (induction ls) simp_all

lemma busy_none: "\<forall>l \<in> set ls. pending_conn l = None \<Longrightarrow> busy ls = 0" by (induction ls) simp_all

lemma busy_update:
  "i < length ls \<Longrightarrow> busy (ls[i := l]) + (if pending_conn (ls ! i) = None then 0 else 1)
     = busy ls + (if pending_conn l = None then 0 else 1)"
proof (induction ls arbitrary: i)
  case (Cons x ls)
  show ?case
  proof (cases i)
    case (Suc j)
    then show ?thesis using Cons.IH [of j] Cons.prems by (simp del: if_split)
  qed simp
qed simp

lemma reap_count:
  "length tds \<le> n \<Longrightarrow> reap cfg now tds n = (tds', n') \<Longrightarrow> n' + length tds = n + length tds' \<and> n' \<le> n"
proof (induction tds arbitrary: n tds' n')
  case (Cons td tds)
  show ?case
  proof (cases "td_state td = TDS_CLOSED")
    case True
    have le: "length tds \<le> n - 1" "0 < n" using Cons.prems(1) by simp_all
    have "reap cfg now tds (n - 1) = (tds', n')" using Cons.prems(2) True le(2) by simp
    from Cons.IH [OF le(1) this] show ?thesis using le by simp arith
  next
    case False
    obtain tds1 n1 where r: "reap cfg now tds n = (tds1, n1)" by (cases "reap cfg now tds n")
    have "n1 + length tds = n + length tds1 \<and> n1 \<le> n" by (rule Cons.IH [OF _ r]) (use Cons.prems in simp)
    then show ?thesis using Cons.prems False r by auto
  qed
qed simp

text \<open>A connection is configured only while there is room, and always by its listener alone.\<close>

lemma configure_room:
  assumes "pending_conn (ListenThread_configure cfg pa inc l) \<noteq> None" "pending_conn l = None"
  shows "\<exists>addr. \<not> ConfigClient_denied cfg pa addr"
  using assms
  by (auto simp: ListenThread_configure_def ConfigClient_def Let_def split: prod.splits option.splits if_splits)

lemma room_count:
  assumes "\<not> ConfigClient_denied cfg pa addr" "maxclients cfg \<noteq> 0" "unat (maxclients cfg) + 10 < 2 ^ 32" "clientcount pa < 2 ^ 32"
  shows "clientcount pa < unat (maxclients cfg) \<or> writeips cfg \<noteq> [] \<and> MatchIP (writeips cfg) addr \<noteq> None
    \<and> clientcount pa \<le> unat (maxclients cfg) + 10"
proof -
  have n: "unat (of_nat (clientcount pa) :: u32) = clientcount pa" using assms(4) by (simp add: unat_of_nat)
  have m: "unat (maxclients cfg + RESERVECONNECTIONS) = unat (maxclients cfg) + 10"
    using assms(3) by (simp add: RESERVECONNECTIONS_def unat_word_ariths)
  show ?thesis
    using assms(1,2) n m unfolding ConfigClient_denied_def word_le_nat_alt by (auto split: if_splits)
qed

definition conn_bound :: "access_config \<Rightarrow> 're listener list \<Rightarrow> nat" where
  "conn_bound cfg ls = unat (maxclients cfg) + (if writeips cfg = [] then 0 else 11) + length ls - 1"

definition conn_ok :: "access_config \<Rightarrow> 're conn_param \<times> 're listener list \<Rightarrow> bool" where
  "conn_ok cfg s = (case s of (pa, ls) \<Rightarrow> clientcount pa = length (cthreads pa) \<and>
     (maxclients cfg \<noteq> 0 \<and> conn_bound cfg ls < 2 ^ 32 - 11 \<longrightarrow> clientcount pa + busy ls \<le> conn_bound cfg ls))"

lemma conn_ok_step:
  assumes "listen_step cfg (pa, ls) (pa', ls')" "conn_ok cfg (pa, ls)"
  shows "conn_ok cfg (pa', ls')"
  using assms(1)
proof cases
  case (configure i inc)
  let ?l = "ListenThread_configure cfg pa inc (ls ! i)"
  have b: "busy ls' = busy ls + (if pending_conn ?l = None then 0 else 1)"
    using busy_update [of i ls ?l] configure by simp
  have "clientcount pa + busy ls' \<le> conn_bound cfg ls" 
    if m: "maxclients cfg \<noteq> 0" "conn_bound cfg ls < 2 ^ 32 - 11"
  proof (cases "pending_conn ?l = None")
    case False
    then obtain addr where a: "\<not> ConfigClient_denied cfg pa addr" using configure_room configure by blast
    have le: "clientcount pa + busy ls \<le> conn_bound cfg ls" using assms(2) m by (simp add: conn_ok_def)
    have len: "0 < length ls" using configure(3) by linarith
    have "unat (maxclients cfg) + 10 < 2 ^ 32" "clientcount pa < 2 ^ 32"
      using m(2) le len by (auto simp: conn_bound_def split: if_splits)
    note room_count [OF a m(1) this]
    moreover have "busy ls' \<le> length ls" using busy_le [of ls'] configure by simp
    ultimately show ?thesis using len by (auto simp: conn_bound_def)
  qed (use assms(2) b m in \<open>simp add: conn_ok_def\<close>)
  then show ?thesis using assms(2) configure by (simp add: conn_ok_def conn_bound_def)
next
  case (register i c ok)
  have b: "busy ls' + 1 = busy ls" using busy_update [of i ls "(ls ! i)\<lparr>pending_conn := None\<rparr>"] register by simp
  then show ?thesis using assms(2) register by (auto simp: conn_ok_def conn_bound_def ListenThread_register_def)
next
  case (clean now tds n)
  have "clientcount pa = length (cthreads pa)" using assms(2) by (simp add: conn_ok_def)
  then have "n + length (cthreads pa) = clientcount pa + length tds \<and> n \<le> clientcount pa"
    using reap_count clean by fastforce
  then show ?thesis using assms(2) clean by (auto simp: conn_ok_def)
next
  case (client i td)
  then show ?thesis using assms(2) by (auto simp: conn_ok_def)
qed

text \<open>
  C19: the number of clients that the server keeps is the number of threads in its list, and with a maximum
  and \<open>k\<close> listeners there are never more than \<open>k - 1\<close> above it; with a write list, there may be eleven
  more (not ten), kept for addresses of the list.  The \<open>k - 1\<close> come from listeners that looked at the number
  before the others had entered their connection.
\<close>

theorem connections_bounded:
  assumes "listening cfg (pa, ls)" "maxclients cfg \<noteq> 0" "unat (maxclients cfg) + length ls < 2 ^ 31" 
  shows "clientcount pa = length (cthreads pa)
    \<and> length (cthreads pa) \<le> unat (maxclients cfg) + (if writeips cfg = [] then 0 else 11) + length ls - 1"
proof -
  have "conn_ok cfg s" if "listening cfg s" for s
    using that
  proof (induction rule: listening.induct)
    case (start ls)
    then show ?case by (simp add: conn_ok_def busy_none)
  next
    case (step s s')
    then show ?case using conn_ok_step by (cases s; cases s') blast
  qed
  from this [OF assms(1)] show ?thesis using assms(2,3) by (auto simp: conn_ok_def conn_bound_def)
qed

text \<open>The reserve of ten holds eleven.\<close>

lemma reserve_eleven:
  assumes "MatchIP (writeips cfg) addr \<noteq> None" "writeips cfg \<noteq> []" "acceptips cfg = []" "denyips cfg = []"
    and "unat (maxclients cfg) + 10 < 2 ^ 32" "clientcount pa = unat (maxclients cfg) + 10"
  shows "\<not> ConfigClient_denied cfg pa addr"
proof -
  have "unat (maxclients cfg + RESERVECONNECTIONS) = unat (maxclients cfg) + 10"
    using assms(5) by (simp add: RESERVECONNECTIONS_def unat_word_ariths)
  then have "of_nat (clientcount pa) \<le> maxclients cfg + RESERVECONNECTIONS"
    using assms(5,6) unfolding word_le_nat_alt by (simp add: unat_of_nat del: of_nat_add)
  then show ?thesis using assms(1-4) by (simp add: ConfigClient_denied_def)
qed

section \<open>Rights from the lists\<close>

lemma listed_permissions:
  assumes "ConfigClient cfg pa addr c0 lp ip port = Some cn"
  shows "permitted (client cn) WRITE_PERMISSION \<longleftrightarrow> MatchIP (writeips cfg) addr \<noteq> None"
    "allowedstr (client cn) = limit_of (allowedips cfg) addr" "forbiddenstr (client cn) = limit_of (forbiddenips cfg) addr"
    "\<not> permitted (client cn) AUTHENTICATED"
proof -
  have p: "permissions (client cn) = ConfigClient_permissions cfg lp addr" "allowedstr (client cn) = limit_of (allowedips cfg) addr"
      "forbiddenstr (client cn) = limit_of (forbiddenips cfg) addr"
    using assms by (auto simp: ConfigClient_def split: if_splits)
  have "MatchIP (writeips cfg) addr \<noteq> None \<Longrightarrow> writeips cfg \<noteq> []" by auto
  then show "permitted (client cn) WRITE_PERMISSION \<longleftrightarrow> MatchIP (writeips cfg) addr \<noteq> None"
    "\<not> permitted (client cn) AUTHENTICATED"
    by (auto simp: permitted_def p(1) ConfigClient_permissions_def Let_def CONNECT_PERMISSION_def WRITE_PERMISSION_def
        TRUST_PERMISSION_def AUTHENTICATED_def)
  show "allowedstr (client cn) = limit_of (allowedips cfg) addr" "forbiddenstr (client cn) = limit_of (forbiddenips cfg) addr"
    by (rule p(2,3))+
qed

text \<open>Without a program for credentials, no command changes the rights that the lists have given.\<close>

definition limits :: "'re ClientInfo \<Rightarrow> u32 \<times> 're option \<times> 're option" where
  "limits c = (permissions c, allowed (reader c), forbidden (reader c))"

lemma limits_rights: "rights c' = rights c \<Longrightarrow> limits c' = limits c" by (simp add: rights_def limits_def)

lemma limits_Negotiate_AUTH:
  assumes "\<not> auth_program (auth env)"
  shows "limits (snd (Negotiate_AUTH env srv cmd c)) = limits c"
proof -
  have "snd (PerformAuth (auth env) c1 u p j) = c1" for c1 u p j
    using assms by (simp add: PerformAuth_def ExecuteAuthProgram_def Let_def split: option.split)
  then have "rights (snd (Auth_finish env srv c1 u p j)) = rights c1" for c1 u p j
    by (simp add: Auth_finish_def case_prod_unfold)
  then have "rights (snd (Negotiate_AUTH env srv cmd c)) = rights c"
    by (simp add: Negotiate_AUTH_def Let_def case_prod_unfold split: option.split)
  then show ?thesis by (rule limits_rights)
qed

lemma DL_dispatch_no_auth:
  assumes "DL_dispatch env srv cmd c = Some (rv, c', srv')" "\<not> auth_program (auth env)"
  shows "limits c' = limits c"
proof (cases "cmdtoken_eq_nocase cmd 0 ''AUTH''")
  case False
  then show ?thesis using DL_dispatch_rights(2) [OF assms(1)] by (simp add: limits_def)
next
  case True
  then have w: "cmdtoken_eq_nocase cmd 0 v \<longleftrightarrow> strcasecmp_eq ''AUTH'' v" for v
    by (simp add: cmdtoken_eq_nocase_def strcasecmp_eq_def)
  have "c' = snd (Negotiate_AUTH env srv cmd (c\<lparr>state := STATE_COMMAND\<rparr>))"
    using assms(1) by (auto simp: DL_dispatch_def HandleNegotiation_def w strcasecmp_eq_def tolower_def ord_def case_prod_unfold)
  then show ?thesis using limits_Negotiate_AUTH [OF assms(2)] by (simp add: limits_def)
qed

lemma DLHandleCmd_no_auth:
  assumes "DLHandleCmd env srv c = Some (rv, c', srv')" "\<not> auth_program (auth env)"
  shows "limits c' = limits c"
proof -
  obtain r0 c1 where st: "dl_start env c = (r0, c1)" by (cases "dl_start env c")
  have "c1 = c\<lparr>dlinfo := dlinfo c1\<rparr>" by (rule dl_start_session [OF st])
  then have "limits c1 = limits (c\<lparr>dlinfo := dlinfo c1\<rparr>)" by (rule arg_cong)
  then have "limits c1 = limits c" by (simp add: limits_def)
  moreover have "c' = c1 \<or> (\<exists>cmd. DL_dispatch env srv cmd c1 = Some (rv, c', srv'))"
    using assms(1) st by (auto simp: DLHandleCmd_def split: if_splits option.splits)
  ultimately show ?thesis using DL_dispatch_no_auth assms(2) by metis
qed

text \<open>So a client whose address is not in the write list changes nothing in the server, in any iteration.\<close>

lemma command_no_auth:
  assumes "thread_command env srv t = Some (r, t', srv')" "\<not> auth_program (auth env)"
    "\<not> permitted (cinfo t) WRITE_PERMISSION"
  shows "srv' = srv \<and> limits (cinfo t') = limits (cinfo t)"
proof -
  obtain n t1 where c: "ClientRecv (io_of env srv) (nsent0 env) t = (n, t1)" by (cases "ClientRecv (io_of env srv) (nsent0 env) t")
  have "trights t1 = trights t" using trights_ClientRecv [of "io_of env srv" "nsent0 env" t] by (simp only: c snd_conv)
  then have "rights (cinfo t1) = rights (cinfo t)" by (simp add: trights_def)
  then have l: "limits (cinfo t1) = limits (cinfo t)" by (rule limits_rights)
  let ?c = "(cinfo t1)\<lparr>recvstart := 0\<rparr>"
  have c1: "limits ?c = limits (cinfo t)" "\<not> permitted ?c WRITE_PERMISSION"
    using l assms(3) by (simp_all add: limits_def permitted_def)
  show ?thesis
  proof (cases "n \<le> 0 \<or> ctype t1 \<noteq> CLIENT_DATALINK")
    case True
    then show ?thesis using assms(1) c l by (cases "n < 0"; cases "n = 0") (simp_all add: thread_command_def)
  next
    case False
    then obtain rv c2 where d: "DLHandleCmd env srv ?c = Some (rv, c2, srv')" "cinfo t' = c2"
      using assms(1) c
      by (cases "DLHandleCmd env srv ?c"; cases "rv < 0"; cases "rv = 0") (auto simp: thread_command_def Let_def split: if_splits)
    then show ?thesis using DLHandleCmd_server [OF d(1)] DLHandleCmd_no_auth [OF d(1) assms(2)] c1 by auto
  qed
qed

lemma iteration_no_auth:
  assumes "thread_iteration env srv t = Some (r, t', srv')" "\<not> auth_program (auth env)"
    "\<not> permitted (cinfo t) WRITE_PERMISSION"
  shows "srv' = srv" "r = Continue \<Longrightarrow> limits (cinfo t') = limits (cinfo t)"
proof -
  define t0 where "t0 = t\<lparr>throttle_msec := (if throttle_msec t < THROTTLE_MAXIMUM
                                     then throttle_msec t + THROTTLE_STEPPING else throttle_msec t)\<rparr>"
  obtain r1 t1 srv1 where cmd: "thread_command env srv t0 = Some (r1, t1, srv1)"
    using assms(1) by (cases "thread_command env srv t0") (auto simp: thread_iteration_def t0_def)
  have c: "srv1 = srv \<and> limits (cinfo t1) = limits (cinfo t)"
    using command_no_auth [OF cmd assms(2)] assms(3) by (simp add: t0_def)
  then show "srv' = srv"
    using assms(1) cmd unfolding thread_iteration_def t0_def [symmetric] Let_def
    by (auto split: outcome.splits option.splits prod.splits)
  assume r: "r = Continue"
  then obtain t2 where "r1 = Continue" "thread_stream env srv1 t1 = Some (Continue, t2)" "t' = snd (thread_throttle env t2)"
    using assms(1) cmd unfolding thread_iteration_def t0_def [symmetric] Let_def
    by (auto split: outcome.splits option.splits prod.splits)
  then show "limits (cinfo t') = limits (cinfo t)"
    using c thread_stream_ok(1) thread_throttle_ok(1) [of env t2] limits_rights by metis
qed

text \<open>
  C5: without a program for credentials, a client whose address is not in the write list never changes
  the ring, in whatever state of its session and whatever the other threads do meanwhile, and it is held
  to the streams that the lists allow its address and do not forbid it.
\<close>

theorem unlisted_client_never_writes:
  assumes "ConfigClient cfg pa addr c0 lp ip port = Some cn" "MatchIP (writeips cfg) addr = None"
    and "\<not> auth_program (auth env)" "thread_start env srv ok (cn_protocols cn) (client cn) = (Continue, t)"
    and "(session_step env)\<^sup>*\<^sup>* (srv, t) (srv', t')" "thread_iteration env srv' t' = Some (r, t'', srv'')"
  shows "srv'' = srv' \<and> allowed (reader (cinfo t')) = snd (UpdatePattern (re_lib (auth env)) True (limit_of (allowedips cfg) addr))
    \<and> forbidden (reader (cinfo t')) = snd (UpdatePattern (re_lib (auth env)) True (limit_of (forbiddenips cfg) addr))"
proof -
  note l = listed_permissions [OF assms(1)]
  let ?p = "\<lambda>t. \<not> permitted (cinfo t) WRITE_PERMISSION
     \<and> allowed (reader (cinfo t)) = snd (UpdatePattern (re_lib (auth env)) True (limit_of (allowedips cfg) addr))
     \<and> forbidden (reader (cinfo t)) = snd (UpdatePattern (re_lib (auth env)) True (limit_of (forbiddenips cfg) addr))"
  have start: "?p t"
    using assms(4) l assms(2)
    by (auto simp: thread_start_def Let_def permitted_def RingAllowed_def RingForbidden_def case_prod_unfold UpdatePattern_def)
  have keeps: "?p t2" if "session_step env (srv1, t1) (srv2, t2)" "?p t1" for srv1 t1 srv2 t2
    using that(1)
  proof (elim session_stepE)
    fix t3 srv3 assume it: "thread_iteration env srv1 t1 = Some (Continue, t3, srv3)" "(srv2, t2) = (srv3, t3)"
    have "limits (cinfo t3) = limits (cinfo t1)" using iteration_no_auth(2) [OF it(1) assms(3)] that(2) by blast
    then show ?thesis using it(2) that(2) by (simp add: limits_def permitted_def)
  qed (use that(2) in simp)
  have "?p t'"
    using assms(5)
  proof (induction rule: rtranclp_induct2)
    case refl
    then show ?case by (rule start)
  next
    case (step srv1 t1 srv2 t2)
    then show ?case using keeps by blast
  qed
  then show ?thesis using iteration_no_auth(1) [OF assms(6,3)] by blast
qed

text \<open>A server without lists that takes one client, and a connection to it.\<close>

definition open_config :: access_config where
  "open_config = \<lparr>acceptips = [], denyips = [], writeips = [], trustedips = [], allowedips = [], forbiddenips = [],
     maxclientsperip = 0, maxclients = 1, clienttimeout = 3600\<rparr>"

definition home_call :: incoming where
  "home_call = \<lparr>in_peer = Inet [192, 0, 2, 9], in_proxy = (0, OtherFamily, None), in_names = \<lambda>_. Some (''192.0.2.9'', ''40000''),
     in_net = [], in_room = [], in_time = 0\<rparr>"

definition home_listener :: "string listener" where
  "home_listener = \<lparr>lpp = \<lparr>lp_portstr = ''16000'', lp_protocols = PROTO_DATALINK, options = 0\<rparr>, proxy_dest_port = 0,
     pending_conn = None\<rparr>"

definition home_conn :: "string conn" where
  "home_conn = the (ConfigClient open_config \<lparr>cthreads = [] :: string thread_data list, clientcount = 0\<rparr> (Inet [192, 0, 2, 9])
     (zero_client [] [] 0) (lpp home_listener) ''192.0.2.9'' ''40000'')"

lemma home_conn:
  "ConfigClient open_config \<lparr>cthreads = [], clientcount = 0\<rparr> (Inet [192, 0, 2, 9])
     (zero_client [] [] 0) (lpp home_listener) ''192.0.2.9'' ''40000'' = Some home_conn"
  by (simp add: home_conn_def ConfigClient_def ConfigClient_denied_def open_config_def)

theorem connections_bounded_witness:
  "\<exists>pa ls. listening open_config (pa, ls :: string listener list) \<and> length (cthreads pa) = 1 \<and> length ls = 1
     \<and> length (cthreads pa) \<le> unat (maxclients open_config)"
proof -
  let ?s0 = "(\<lparr>cthreads = [] :: string thread_data list, clientcount = 0\<rparr>, [home_listener])"
  let ?c = "home_conn\<lparr>cn_addr := Some (Inet [192, 0, 2, 9])\<rparr>"
  let ?s1 = "(\<lparr>cthreads = [] :: string thread_data list, clientcount = 0\<rparr>, [home_listener\<lparr>pending_conn := Some ?c\<rparr>])"
  let ?s2 = "(ListenThread_register True ?c \<lparr>cthreads = [], clientcount = 0\<rparr>, [home_listener])"
  have "listening open_config ?s0" by (rule listening.start) (simp add: home_listener_def)
  moreover have "listen_step open_config ?s0 ?s1"
  proof -
    have "ListenThread_configure open_config \<lparr>cthreads = [], clientcount = 0\<rparr> home_call home_listener = home_listener\<lparr>pending_conn := Some ?c\<rparr>"
      using home_conn by (simp add: ListenThread_configure_def home_call_def home_listener_def Let_def)
    then show ?thesis
      using listen_step.configure [of 0 "[home_listener]" open_config "\<lparr>cthreads = [], clientcount = 0\<rparr>" home_call]
      by (simp add: home_listener_def)
  qed
  moreover have "listen_step open_config ?s1 ?s2"
    using listen_step.register [of 0 "[home_listener\<lparr>pending_conn := Some ?c\<rparr>]" ?c open_config "\<lparr>cthreads = [], clientcount = 0\<rparr>" True]
    by (simp add: home_listener_def)
  ultimately have l: "listening open_config ?s2" by (meson listening.step)
  have "length (cthreads (fst ?s2)) \<le> 1"
    using connections_bounded [OF l] by (simp add: open_config_def)
  then show ?thesis using l by (intro exI [of _ "fst ?s2"] exI [of _ "[home_listener]"]) (simp add: ListenThread_register_def open_config_def)
qed

definition home_env :: "string dl_env" where
  "home_env = dl_demo_env\<lparr>auth := demo_auth\<lparr>auth_program := False\<rparr>\<rparr>"

theorem unlisted_client_never_writes_witness:
  "\<exists>t r t'' srv''. thread_start home_env (demo_server two_ring) True PROTO_DATALINK (client home_conn) = (Continue, t)
     \<and> thread_iteration home_env (demo_server two_ring) t = Some (r, t'', srv'') \<and> srv'' = demo_server two_ring"
proof -
  let ?srv = "demo_server two_ring"
  have p: "cn_protocols home_conn = PROTO_DATALINK" "client home_conn = (zero_client [] [] 0)\<lparr>permissions := CONNECT_PERMISSION\<rparr>"
    by (simp_all add: home_conn_def ConfigClient_def ConfigClient_denied_def open_config_def home_listener_def limit_of_def
        zero_client_def ConfigClient_permissions_def)
  obtain t where t: "thread_start home_env ?srv True PROTO_DATALINK (client home_conn) = (Continue, t)" "ctype t = CLIENT_DATALINK"
      "net (cinfo t) = []" "recvbuf (cinfo t) = []" "recvbufsize (cinfo t) = 1280" "state (cinfo t) = STATE_COMMAND" "\<not> websocket (cinfo t)"
    by (simp add: thread_start_def Let_def p(2) zero_client_def demo_server_def two_ring)
  have "RecvData cfg c 3 False = (0, c\<lparr>recvbuf := [], recvconsumed := 0\<rparr>)"
    if "net c = []" "recvbuf c = []" "recvbufsize c = 1280" for cfg and c :: "string ClientInfo"
    using that by (cases "recvconsumed c > 0") (auto simp: RecvData_def RecvData_loop.simps peek_closed_def sys_recv_def Let_def)
  then have "fst (ClientRecv cfg ns t1) = 0" if "cinfo t1 = cinfo t" "ctype t1 = CLIENT_DATALINK" for cfg ns t1
    using that t(2-7) by (simp add: ClientRecv_def ClientRecv_type_def ClientRecv_frame_def ClientRecv_command_def RecvDLCommand_def)
  note recv = this
  have "thread_iteration home_env ?srv t \<noteq> None"
  proof -
    define t0 where "t0 = t\<lparr>throttle_msec := (if throttle_msec t < THROTTLE_MAXIMUM
                                     then throttle_msec t + THROTTLE_STEPPING else throttle_msec t)\<rparr>"
    obtain n t1 where c: "ClientRecv (io_of home_env ?srv) (nsent0 home_env) t0 = (n, t1)"
      by (cases "ClientRecv (io_of home_env ?srv) (nsent0 home_env) t0")
    have "n = 0" using recv [of t0] t(2) c by (simp add: t0_def) (metis fst_conv)
    moreover have "trights t1 = trights t0"
      using trights_ClientRecv [of "io_of home_env ?srv" "nsent0 home_env" t0] by (simp only: c snd_conv)
    then have "state (cinfo t1) = STATE_COMMAND" using t(6) by (simp add: trights_def rights_def t0_def)
    ultimately show ?thesis
      using c unfolding thread_iteration_def t0_def [symmetric] Let_def
      by (simp add: thread_command_def thread_stream_def case_prod_unfold)
  qed
  then obtain r t'' srv'' where it: "thread_iteration home_env ?srv t = Some (r, t'', srv'')" by (cases "thread_iteration home_env ?srv t") auto
  have "MatchIP (writeips open_config) (Inet [192, 0, 2, 9]) = None" "\<not> auth_program (auth home_env)"
    by (simp_all add: open_config_def home_env_def dl_demo_env_def)
  from unlisted_client_never_writes [OF home_conn this t(1) [folded p(1)] _ it] show ?thesis using t it by auto
qed

section \<open>Observations\<close>

text \<open>
  A connection without an address in its PROXY header (a LOCAL command, result 1) is recorded with the
  destination port of the connection before it, for the variable is never reset.
\<close>

lemma stale_proxy_port:
  assumes "and (options (lpp l)) PROXY_PROTOCOL_V2 \<noteq> 0" "in_proxy inc = (1, a, None)" "proxy_dest_port l \<noteq> 0"
    "pending_conn l = None" "pending_conn (ListenThread_configure cfg pa inc l) = Some c"
  shows "serverport c = dec (unat (proxy_dest_port l))"
  using assms by (auto simp: ListenThread_configure_def Let_def split: option.splits prod.splits)

text \<open>Connections whose threads have not started yet do not count for the maximum per address.\<close>

lemma spawning_not_counted: "\<forall>td \<in> set tds. td_state td = TDS_SPAWNING \<Longrightarrow> ClientIPCount tds addr = 0"
  by (auto simp: ClientIPCount_def filter_empty_conv)

end
