(* ===== verification/RS_OrdList.thy ===== *)
theory RS_OrdList
  imports RS_Prelude
begin

text \<open>
  What the trees of \<open>ringserver-4/src/rbtree.c\<close> hold, read from left to right: a list of keys and data in
  the order of the comparison function, with the search and the insertion as the tree performs them on
  its contents.  The locale \<open>comparison\<close> is what the tree asks of a comparison function.
\<close>

section \<open>Search and insertion\<close>

text \<open>The first entry that compares equal.\<close>

fun ol_find :: "('k \<Rightarrow> 'k \<Rightarrow> int) \<Rightarrow> ('k \<times> 'v) list \<Rightarrow> 'k \<Rightarrow> 'v option" where
  "ol_find cmp [] key = None"
| "ol_find cmp ((k, v) # xs) key = (if cmp k key = 0 then Some v else ol_find cmp xs key)"

text \<open>In front of the first entry that is greater.\<close>

fun ol_insert :: "('k \<Rightarrow> 'k \<Rightarrow> int) \<Rightarrow> ('k \<times> 'v) list \<Rightarrow> 'k \<Rightarrow> 'v \<Rightarrow> ('k \<times> 'v) list" where
  "ol_insert cmp [] key d = [(key, d)]"
| "ol_insert cmp ((k, v) # xs) key d =
     (if cmp k key > 0 then (key, d) # (k, v) # xs else (k, v) # ol_insert cmp xs key d)"

text \<open>Writing through the data pointer of the entry that is found.\<close>

fun ol_update :: "('k \<Rightarrow> 'k \<Rightarrow> int) \<Rightarrow> ('k \<times> 'v) list \<Rightarrow> 'k \<Rightarrow> ('v \<Rightarrow> 'v) \<Rightarrow> ('k \<times> 'v) list" where
  "ol_update cmp [] key f = []"
| "ol_update cmp ((k, v) # xs) key f =
     (if cmp k key = 0 then (k, f v) # xs else (k, v) # ol_update cmp xs key f)"

definition ol_sorted :: "('k \<Rightarrow> 'k \<Rightarrow> int) \<Rightarrow> ('k \<times> 'v) list \<Rightarrow> bool" where
  "ol_sorted cmp xs \<longleftrightarrow> sorted_wrt (\<lambda>a b. cmp (fst b) (fst a) > 0) xs"

lemma ol_update_keys [simp]: "map fst (ol_update cmp xs key f) = map fst xs"
  by (induction cmp xs key f rule: ol_update.induct) auto

lemma ol_insert_keys: "set (ol_insert cmp xs key d) = insert (key, d) (set xs)"
  by (induction cmp xs key d rule: ol_insert.induct) auto

lemma ol_insert_length [simp]: "length (ol_insert cmp xs key d) = Suc (length xs)"
  by (induction cmp xs key d rule: ol_insert.induct) auto

lemma ol_sorted_keys: "ol_sorted cmp xs \<longleftrightarrow> sorted_wrt (\<lambda>a b. cmp b a > 0) (map fst xs)"
  by (simp add: ol_sorted_def sorted_wrt_map)

lemma ol_find_member: "ol_find cmp xs key = Some v \<Longrightarrow> \<exists>k. (k, v) \<in> set xs \<and> cmp k key = 0"
  by (induction cmp xs key rule: ol_find.induct) (auto split: if_splits)

lemma ol_update_member:
  "(k, v') \<in> set (ol_update cmp xs key f) \<Longrightarrow> \<exists>v. (k, v) \<in> set xs \<and> (v' = v \<or> v' = f v)"
  by (induction cmp xs key f rule: ol_update.induct) (auto split: if_splits)

section \<open>Comparison functions\<close>

locale comparison =
  fixes cmp :: "'k \<Rightarrow> 'k \<Rightarrow> int"
  assumes cmp_zero: "cmp a b = 0 \<longleftrightarrow> a = b"
    and cmp_flip: "cmp a b > 0 \<longleftrightarrow> cmp b a < 0"
    and cmp_trans: "cmp a b > 0 \<Longrightarrow> cmp b c > 0 \<Longrightarrow> cmp a c > 0"
begin

lemma cmp_refl [simp]: "cmp a a = 0" by (simp add: cmp_zero)

lemma cmp_cases: "a = b \<or> cmp a b > 0 \<or> cmp b a > 0"
  by (metis cmp_zero cmp_flip linorder_neqE_linordered_idom)

lemma cmp_asym: "cmp a b > 0 \<Longrightarrow> \<not> cmp b a > 0" using cmp_flip by force

lemma find_insert: "ol_find cmp xs key = None \<Longrightarrow> ol_find cmp (ol_insert cmp xs key d) k = (if k = key then Some d else ol_find cmp xs k)"
  by (induction xs) (auto simp: cmp_zero split: if_splits)

lemma find_update: "ol_find cmp (ol_update cmp xs key f) k = (if k = key then map_option f (ol_find cmp xs k) else ol_find cmp xs k)"
  by (induction xs) (auto simp: cmp_zero)

lemma sorted_insert:
  assumes "ol_sorted cmp xs" "ol_find cmp xs key = None"
  shows "ol_sorted cmp (ol_insert cmp xs key d)"
  using assms
proof (induction xs)
  case (Cons x xs)
  obtain k v where x: "x = (k, v)" by (cases x)
  have "k \<noteq> key" using Cons.prems(2) by (auto simp: x cmp_zero split: if_splits)
  then consider "cmp k key > 0" | "\<not> cmp k key > 0" "cmp key k > 0" using cmp_cases [of k key] by auto
  then show ?case
  proof cases
    case 1
    then show ?thesis using Cons.prems(1) cmp_trans by (fastforce simp: x ol_sorted_def)
  next
    case 2
    have "ol_sorted cmp (ol_insert cmp xs key d)"
      using Cons.IH Cons.prems by (auto simp: x ol_sorted_def split: if_splits)
    then show ?thesis using 2 Cons.prems(1) by (auto simp: x ol_sorted_def ol_insert_keys)
  qed
qed (simp add: ol_sorted_def)

lemma sorted_update: "ol_sorted cmp xs \<Longrightarrow> ol_sorted cmp (ol_update cmp xs key f)"
  by (simp add: ol_sorted_keys)

lemma find_sorted: "ol_sorted cmp xs \<Longrightarrow> ol_find cmp xs k = Some v \<longleftrightarrow> (k, v) \<in> set xs"
proof (induction xs)
  case (Cons x xs)
  obtain a b where x: "x = (a, b)" by (cases x)
  have "(k, w) \<in> set xs \<Longrightarrow> a \<noteq> k" for w
    using Cons.prems cmp_refl by (fastforce simp: x ol_sorted_def)
  then show ?case using Cons by (auto simp: x ol_sorted_def cmp_zero)
qed simp

lemma keys_distinct: "ol_sorted cmp xs \<Longrightarrow> distinct (map fst xs)"
  by (induction xs) (auto simp: ol_sorted_def)

end

end
