(* ===== verification/RS_SeedLink.thy ===== *)
theory RS_SeedLink
  imports RS_ClientThread RS_RingInit RS_Glob RS_OrdList
begin

text \<open>
  The SeedLink protocol, \<open>ringserver-4/src/slclient.c\<close>, versions 3 and 4: replies and packets, the
  handlers of the commands, the configuration of the reader and the streaming of records, with
  \<open>AddToString\<close> of \<open>clients.c\<close> and the record tests and the splitting of source identifiers of
  libmseed that they use.  Handlers take and return the client as in the DataLink model; allocations
  succeed and log messages are left out.
\<close>

section \<open>Data\<close>

definition SLMAXREGEXLEN :: nat where "SLMAXREGEXLEN = 2097152"
definition SLMAXSTATIONS :: int where "SLMAXSTATIONS = 10000"
definition SLMAXLABELLEN :: nat where "SLMAXLABELLEN = 12"
definition SLHEADSIZE_V3 :: nat where "SLHEADSIZE_V3 = 8"
definition SLHEADSIZE_V4 :: nat where "SLHEADSIZE_V4 = 17"
definition SLINFORECSIZE :: nat where "SLINFORECSIZE = 512"

definition SLSERVER_ID :: string where
  "SLSERVER_ID = ''SeedLink v4.0 (RingServer/4.5.4) :: SLPROTO:4.0 SLPROTO:3.1 CAP WS:13''"

datatype ErrorCode = ERROR_NONE | ERROR_INTERNAL | ERROR_UNSUPPORTED | ERROR_UNEXPECTED | ERROR_UNAUTHORIZED
  | ERROR_LIMIT | ERROR_ARGUMENTS | ERROR_AUTH

text \<open>A linked list of selectors is a list.\<close>

record Selector =
  sel_string :: string
  sel_label :: string
  sel_convert :: Conversion

record ReqStationID =
  rq_starttime :: nstime
  rq_endtime :: nstime
  rq_packetid :: u64
  rq_datastart :: nstime
  rq_selectors :: "Selector list"

text \<open>The tree of stations is the list of its entries in the order of \<open>StaKeyCompare\<close>.\<close>

record SLInfo =
  proto_major :: byte
  proto_minor :: byte
  extreply :: bool
  dialup :: bool
  batch :: bool
  terminfo :: bool
  startid :: u64
  selectors :: "Selector list"
  stationcount :: int
  timewinchannels :: int
  stations :: "(string \<times> ReqStationID) list"
  reqstaid :: string

text \<open>
  The client with the fields of \<open>ClientInfo\<close> that only SeedLink uses; \<open>started\<close> says that \<open>extinfo\<close> is
  allocated, and then \<open>slinfo\<close> is what it points to.
\<close>

record 're SLClient =
  info :: "'re ClientInfo"
  started :: bool
  slinfo :: SLInfo
  starttime :: nstime
  endtime :: nstime

text \<open>
  The environment: that of the DataLink model, \<open>config.serverid\<close>, the clock (\<open>time\<close> and the calendar
  fields of \<open>NSnow\<close>), and as parameters the time parser and the conversion of records of libmseed and the
  documents of \<open>infoxml.c\<close> and \<open>infojson.c\<close>.
\<close>

record 're sl_env =
  dl :: "'re dl_env"
  serverid :: string
  epoch_now :: int
  calendar_now :: "nat \<times> nat \<times> nat \<times> nat \<times> nat"
  mdtimestr2nstime :: "string \<Rightarrow> nstime"
  repack_mseed3 :: "byte list \<Rightarrow> byte list option"
  slv3_xml :: "string \<Rightarrow> string option"
  slv4_json :: "string \<Rightarrow> string option \<Rightarrow> string option"
  slv4_error :: "string \<Rightarrow> string \<Rightarrow> string option"

section \<open>Text routines\<close>

text \<open>Which addition goes first is the flag; lengths count the terminator.\<close>

definition AddToString :: "string option \<Rightarrow> string \<Rightarrow> string option \<Rightarrow> bool \<Rightarrow> nat \<Rightarrow> int \<times> string option" where
  "AddToString str add delim at_front maxlen = (case str of
     None \<Rightarrow> if length add + 1 > maxlen then (-2, None) else (0, Some add)
   | Some s \<Rightarrow>
      (let d = (case delim of Some x \<Rightarrow> x | None \<Rightarrow> [])
       in if length s + length d + length add + 1 > maxlen then (-2, Some s)
          else (0, Some (if at_front then add @ d @ s else s @ d @ add))))"

text \<open>A glob copied behind the pattern as a regular expression, unless the pattern gets too long.\<close>

fun glob_to_regex :: "nat \<Rightarrow> string \<Rightarrow> string \<Rightarrow> string option" where
  "glob_to_regex lim [] pattern = Some pattern"
| "glob_to_regex lim (c # cs) pattern =
     (if c = CHR ''?'' then
        (if length pattern \<ge> lim then None else glob_to_regex lim cs (pattern @ ''.''))
      else if c = CHR ''*'' then
        (if length pattern + 1 \<ge> lim then None else glob_to_regex lim cs (pattern @ ''.*''))
      else (if length pattern \<ge> lim then None else glob_to_regex lim cs (pattern @ [c])))"

definition PATTERN_SIZE :: nat where "PATTERN_SIZE = 256"

definition SelectToRegex_pattern :: "string option \<Rightarrow> string option \<Rightarrow> string option \<Rightarrow> string option" where
  "SelectToRegex_pattern staid sel label =
     (let build_end = PATTERN_SIZE - (SLMAXLABELLEN + 16)
      in if (case staid of Some s \<Rightarrow> length s > 50 | None \<Rightarrow> False) then None
         else if (case sel of Some s \<Rightarrow> length s > 50 | None \<Rightarrow> False) then None
         else (case (case staid of Some s \<Rightarrow> glob_to_regex build_end s ''FDSN:'' | None \<Rightarrow> Some ''FDSN:.*'') of
             None \<Rightarrow> None
           | Some p1 \<Rightarrow>
              (case (case sel of
                       Some s \<Rightarrow> (if s = [] then Some (p1 @ ''_.*'')
                                 else glob_to_regex build_end (dropWhile (\<lambda>c. c = CHR ''-'') s) (p1 @ ''_''))
                     | None \<Rightarrow> Some (p1 @ ''_.*'')) of
                 None \<Rightarrow> None
               | Some p2 \<Rightarrow>
                  (case label of
                     Some l \<Rightarrow>
                       (if l = [] then Some (p2 @ ''/MSEED3?$'')
                        else map_option (\<lambda>p. p @ ''$'') (glob_to_regex (PATTERN_SIZE - 2) l (p2 @ ''/MSEED3?/'')))
                   | None \<Rightarrow> Some (p2 @ ''/MSEED3?$'')))))"

definition SelectToRegex ::
  "string option \<Rightarrow> string option \<Rightarrow> string option \<Rightarrow> string option \<Rightarrow> int \<times> string option" where
  "SelectToRegex staid sel label regex = (case SelectToRegex_pattern staid sel label of
     None \<Rightarrow> (-1, regex)
   | Some pattern \<Rightarrow>
      (case AddToString regex pattern (Some ''|'') False SLMAXREGEXLEN of (rv, regex1) \<Rightarrow>
         (if rv \<noteq> 0 then -1 else 0, regex1)))"

text \<open>The loop over the selectors; \<open>matched\<close> is whether a matching pattern has been added.\<close>

fun StationToRegex_loop ::
  "string option \<Rightarrow> Selector list \<Rightarrow> bool \<Rightarrow> string option \<Rightarrow> string option \<Rightarrow> int \<times> string option \<times> string option" where
  "StationToRegex_loop staid [] matched mre rre = (0, mre, rre)"
| "StationToRegex_loop staid (s # rest) matched mre rre =
     (if sel_string s \<noteq> [] \<and> hd (sel_string s) = CHR ''!'' then
        (case (if \<not> matched \<and> staid \<noteq> None then SelectToRegex staid None None mre else (0, mre)) of (rv, mre1) \<Rightarrow>
           if rv \<noteq> 0 then (-1, mre1, rre)
           else (case SelectToRegex staid (Some (tl (sel_string s))) (Some (sel_label s)) rre of (rv2, rre1) \<Rightarrow>
             if rv2 \<noteq> 0 then (-1, mre1, rre1)
             else StationToRegex_loop staid rest (matched \<or> staid \<noteq> None) mre1 rre1))
      else (case SelectToRegex staid (Some (sel_string s)) (Some (sel_label s)) mre of (rv, mre1) \<Rightarrow>
         if rv \<noteq> 0 then (-1, mre1, rre)
         else StationToRegex_loop staid rest True mre1 rre))"

definition StationToRegex ::
  "string option \<Rightarrow> Selector list \<Rightarrow> string option \<Rightarrow> string option \<Rightarrow> int \<times> string option \<times> string option" where
  "StationToRegex staid sels mre rre =
     (if sels \<noteq> [] then StationToRegex_loop staid sels False mre rre
      else (case SelectToRegex staid None None mre of (rv, mre1) \<Rightarrow> (if rv \<noteq> 0 then -1 else 0, mre1, rre)))"

section \<open>Records of libmseed\<close>

definition octet :: "byte list \<Rightarrow> nat \<Rightarrow> nat" where "octet b i = (if i < length b then unat (b ! i) else 0)"

definition MS3_ISVALIDHEADER :: "byte list \<Rightarrow> bool" where
  "MS3_ISVALIDHEADER b \<longleftrightarrow> octet b 0 = 0x4D \<and> octet b 1 = 0x53 \<and> octet b 2 = 3 \<and> octet b 12 \<le> 23 \<and> octet b 13 \<le> 59
     \<and> octet b 14 \<le> 60"

definition MS2_ISVALIDHEADER :: "byte list \<Rightarrow> bool" where
  "MS2_ISVALIDHEADER b \<longleftrightarrow>
     list_all (\<lambda>i. 48 \<le> octet b i \<and> octet b i \<le> 57 \<or> octet b i = 32 \<or> octet b i = 0) [0, 1, 2, 3, 4, 5]
     \<and> octet b 6 \<in> {0x44, 0x52, 0x51, 0x4D} \<and> (octet b 7 = 32 \<or> octet b 7 = 0)
     \<and> octet b 24 \<le> 23 \<and> octet b 25 \<le> 59 \<and> octet b 26 \<le> 60"

text \<open>Network and station, into buffers of 16 bytes.\<close>

definition ms_sid2nslc_n :: "string \<Rightarrow> (string \<times> string) option" where
  "ms_sid2nslc_n sid =
     (if take 5 sid = ''FDSN:'' then
        (let s = rev (takeWhile (\<lambda>c. c \<noteq> CHR '':'') (rev sid));
             rest = tl (dropWhile (\<lambda>c. c \<noteq> CHR ''_'') s)
         in if length (filter (\<lambda>c. c = CHR ''_'') s) \<noteq> 5 then None
            else Some (take 15 (takeWhile (\<lambda>c. c \<noteq> CHR ''_'') s), take 15 (takeWhile (\<lambda>c. c \<noteq> CHR ''_'') rest)))
      else None)"

section \<open>Sending\<close>

definition SL_SendData :: "'re sl_env \<Rightarrow> server \<Rightarrow> 're SLClient \<Rightarrow> byte list \<Rightarrow> int \<times> 're SLClient" where
  "SL_SendData env srv c bs = (case SendData (io_of (dl env) srv) (nsent0 (dl env)) (info c) bs False of
     (rv, i) \<Rightarrow> (rv, c\<lparr>info := i\<rparr>))"

fun codestr :: "ErrorCode \<Rightarrow> string" where
  "codestr ERROR_INTERNAL = ''INTERNAL''"
| "codestr ERROR_UNSUPPORTED = ''UNSUPPORTED''"
| "codestr ERROR_UNEXPECTED = ''UNEXPECTED''"
| "codestr ERROR_UNAUTHORIZED = ''UNAUTHORIZED''"
| "codestr ERROR_LIMIT = ''LIMIT''"
| "codestr ERROR_ARGUMENTS = ''ARGUMENTS''"
| "codestr ERROR_AUTH = ''AUTH''"
| "codestr ERROR_NONE = ''UNKNOWN''"

definition CRLF :: string where "CRLF = [CHR 0x0D, CHR 0x0A]"

definition reply_text :: "SLInfo \<Rightarrow> string \<Rightarrow> ErrorCode \<Rightarrow> string option \<Rightarrow> string" where
  "reply_text sl rep code ext =
     (if proto_major sl = 4 then
        (case (code = ERROR_NONE, ext) of
           (False, Some e) \<Rightarrow> rep @ '' '' @ codestr code @ '' '' @ e @ CRLF
         | (False, None) \<Rightarrow> rep @ '' '' @ codestr code @ CRLF
         | (True, _) \<Rightarrow> rep @ CRLF)
      else (case (extreply sl, ext) of
           (True, Some e) \<Rightarrow> rep @ [CHR 0x0D] @ codestr code @ '' '' @ e @ CRLF
         | _ \<Rightarrow> rep @ CRLF))"

definition SendReply ::
  "'re sl_env \<Rightarrow> server \<Rightarrow> 're SLClient \<Rightarrow> string \<Rightarrow> ErrorCode \<Rightarrow> string option \<Rightarrow> int \<times> 're SLClient" where
  "SendReply env srv c rep code ext =
     (case SL_SendData env srv c (to_bytes (snprintf 100 (reply_text (slinfo c) rep code ext))) of
        (rv, c1) \<Rightarrow> (if rv \<noteq> 0 then -1 else 0, c1))"

text \<open>A reply that is left out in batch mode, and going on when it has been sent.\<close>

definition unless_batch ::
  "'re sl_env \<Rightarrow> server \<Rightarrow> 're SLClient \<Rightarrow> string \<Rightarrow> ErrorCode \<Rightarrow> string option \<Rightarrow> int \<times> 're SLClient" where
  "unless_batch env srv c rep code ext = (if batch (slinfo c) then (0, c) else SendReply env srv c rep code ext)"

definition sl_arg_error :: "'re sl_env \<Rightarrow> server \<Rightarrow> 're SLClient \<Rightarrow> string \<Rightarrow> int \<times> 're SLClient" where
  "sl_arg_error env srv c msg =
     (if \<not> batch (slinfo c) then SendReply env srv c ''ERROR'' ERROR_ARGUMENTS (Some msg) else (0, c))"

definition and_then :: "int \<times> 'c \<Rightarrow> ('c \<Rightarrow> int \<times> 'c) \<Rightarrow> int \<times> 'c" where
  "and_then r k = (case r of (rv, c) \<Rightarrow> if rv \<noteq> 0 then (-1, c) else k c)"

definition hex_digit :: "u32 \<Rightarrow> byte" where
  "hex_digit w = to_bytes ''0123456789ABCDEF'' ! unat (and w 0xF)"

definition v3_header :: "u64 \<Rightarrow> byte list" where
  "v3_header pid =
     (let seq = ucast (and pid 0xFFFFFF) :: u32
      in [0x53, 0x4C, hex_digit (drop_bit 20 seq), hex_digit (drop_bit 16 seq), hex_digit (drop_bit 12 seq),
          hex_digit (drop_bit 8 seq), hex_digit (drop_bit 4 seq), hex_digit seq])"

definition v4_header :: "u64 \<Rightarrow> nat \<Rightarrow> string \<Rightarrow> char \<Rightarrow> char \<Rightarrow> byte list" where
  "v4_header pid payloadlen staid fmt subfmt =
     to_bytes ''SE'' @ to_bytes [fmt, subfmt] @ le_bytes 4 payloadlen @ le_bytes 8 (unat pid)
       @ [of_nat (length staid)] @ to_bytes (take (length staid mod 256) staid)"

definition SL_SendPacket ::
  "'re sl_env \<Rightarrow> server \<Rightarrow> u64 \<Rightarrow> byte list \<Rightarrow> string \<Rightarrow> char \<Rightarrow> char \<Rightarrow> 're SLClient \<Rightarrow> int \<times> 're SLClient" where
  "SL_SendPacket env srv pid body staid fmt subfmt c =
     (let header = (if proto_major (slinfo c) = 4 then v4_header pid (length body) staid fmt subfmt else v3_header pid)
      in case SendDataMB (io_of (dl env) srv) (nsent0 (dl env)) (info c) [header, body] False of
           (rv, i) \<Rightarrow> (if rv \<noteq> 0 then -1 else 0, c\<lparr>info := i\<rparr>))"

text \<open>Station and format of a record, for version 4; none when the record or its identifier is bad.\<close>

definition record_staid :: "string \<Rightarrow> string option" where
  "record_staid sid =
     (if strncmp sid ''FDSN:'' 5 = 0 then
        (case ms_sid2nslc_n sid of None \<Rightarrow> None | Some (n, s) \<Rightarrow> Some (snprintf MAXSTREAMID (n @ ''_'' @ s)))
      else Some (take MAXSTREAMID sid))"

definition record_format :: "byte list \<Rightarrow> char option" where
  "record_format rec = (if MS3_ISVALIDHEADER rec then Some CHR ''3''
     else if MS2_ISVALIDHEADER rec then Some CHR ''2'' else None)"

definition SendRecord ::
  "'re sl_env \<Rightarrow> server \<Rightarrow> RingPacket \<Rightarrow> byte list \<Rightarrow> nat \<Rightarrow> 're SLClient \<Rightarrow> int \<times> 're SLClient" where
  "SendRecord env srv pkt rec reclen c =
     (if proto_major (slinfo c) = 4 then
        (case (record_staid (streamid pkt), record_format rec) of
           (Some staid, Some fmt) \<Rightarrow> SL_SendPacket env srv (pktid pkt) (take reclen rec) staid fmt CHR ''D'' c
         | _ \<Rightarrow> (-1, c))
      else SL_SendPacket env srv (pktid pkt) (take reclen rec) [] CHR '' '' CHR ''D'' c)"

definition SendInfoRecord :: "'re sl_env \<Rightarrow> server \<Rightarrow> byte list \<Rightarrow> 're SLClient \<Rightarrow> 're SLClient" where
  "SendInfoRecord env srv rec c =
     (let header = to_bytes (if terminfo (slinfo c) then ''SLINFO  '' else ''SLINFO *'')
      in c\<lparr>info := snd (SendDataMB (io_of (dl env) srv) (nsent0 (dl env)) (info c) [header, rec] False)\<rparr>)"

section \<open>Stations\<close>

definition new_ReqStationID :: ReqStationID where
  "new_ReqStationID = \<lparr>rq_starttime = NSTUNSET, rq_endtime = NSTUNSET, rq_packetid = RINGID_NONE,
     rq_datastart = NSTUNSET, rq_selectors = []\<rparr>"

text \<open>\<open>strcmp\<close>: strings compare as their bytes.\<close>

definition strcmp :: "string \<Rightarrow> string \<Rightarrow> int" where
  "strcmp a b = (if a = b then 0 else if (map of_char a :: nat list) < map of_char b then -1 else 1)"

definition StaKeyCompare :: "string \<Rightarrow> string \<Rightarrow> int" where
  "StaKeyCompare a b = (let cmpval = strcmp a b in if cmpval > 0 then 1 else if cmpval < 0 then -1 else 0)"

lemma strcmp_zero: "strcmp a b = 0 \<longleftrightarrow> a = b" by (simp add: strcmp_def)

lemma bytes_inj: "(map of_char a :: nat list) = map of_char b \<longleftrightarrow> a = b"
  by (simp add: inj_map_eq_map inj_def)

lemma strcmp_pos: "strcmp a b > 0 \<longleftrightarrow> (map of_char b :: nat list) < map of_char a"
  using bytes_inj [of a b] linorder_less_linear [of "map of_char a :: nat list" "map of_char b"]
  by (auto simp: strcmp_def dest: less_asym)

lemma strcmp_neg: "strcmp a b < 0 \<longleftrightarrow> (map of_char a :: nat list) < map of_char b"
  by (simp add: strcmp_def)

lemma StaKeyCompare_sign: "StaKeyCompare a b = sgn (strcmp a b)"
  by (simp add: StaKeyCompare_def Let_def sgn_if)

interpretation sta: comparison StaKeyCompare
proof
  fix a b c
  show "StaKeyCompare a b = 0 \<longleftrightarrow> a = b" by (simp only: StaKeyCompare_sign sgn_0_0 strcmp_zero)
  show "StaKeyCompare a b > 0 \<longleftrightarrow> StaKeyCompare b a < 0"
    by (simp only: StaKeyCompare_sign sgn_greater sgn_less strcmp_pos strcmp_neg)
  show "StaKeyCompare a b > 0 \<Longrightarrow> StaKeyCompare b c > 0 \<Longrightarrow> StaKeyCompare a c > 0"
    unfolding StaKeyCompare_sign sgn_greater strcmp_pos by (rule less_trans)
qed

text \<open>The entry and the tree with it; the two allocations succeed together or not.\<close>

definition GetReqStationID ::
  "bool \<Rightarrow> (string \<times> ReqStationID) list \<Rightarrow> string \<Rightarrow> (ReqStationID \<times> (string \<times> ReqStationID) list) option" where
  "GetReqStationID ok tree staid = (case ol_find StaKeyCompare tree staid of
     Some st \<Rightarrow> Some (st, tree)
   | None \<Rightarrow> if \<not> ok then None else Some (new_ReqStationID, ol_insert StaKeyCompare tree staid new_ReqStationID))"

text \<open>Change of the entry found by \<open>GetReqStationID\<close>.\<close>

definition upd_station :: "string \<Rightarrow> (ReqStationID \<Rightarrow> ReqStationID) \<Rightarrow> SLInfo \<Rightarrow> SLInfo" where
  "upd_station staid f sl = sl\<lparr>stations := ol_update StaKeyCompare (stations sl) staid f\<rparr>"

section \<open>Simple commands\<close>

definition set_sl :: "(SLInfo \<Rightarrow> SLInfo) \<Rightarrow> 're SLClient \<Rightarrow> 're SLClient" where
  "set_sl f c = c\<lparr>slinfo := f (slinfo c)\<rparr>"

definition set_info :: "('re ClientInfo \<Rightarrow> 're ClientInfo) \<Rightarrow> 're SLClient \<Rightarrow> 're SLClient" where
  "set_info f c = c\<lparr>info := f (info c)\<rparr>"

definition sl_done :: "'c \<Rightarrow> int \<times> 'c" where "sl_done c = (0, c)"

definition Negotiate_HELLO :: "'re sl_env \<Rightarrow> server \<Rightarrow> 're SLClient \<Rightarrow> int \<times> 're SLClient" where
  "Negotiate_HELLO env srv c =
     and_then (SL_SendData env srv c (to_bytes (snprintf 400 (SLSERVER_ID @ CRLF @ serverid env @ CRLF)))) sl_done"

text \<open>
  \<open>%hhu\<close> of \<open>sscanf\<close>, as the GNU library has it: the number is read as by \<open>strtoul\<close> and its lowest byte
  stored.
\<close>

definition scan_u8 :: "string \<Rightarrow> (byte \<times> string) option" where
  "scan_u8 s = (case strto 10 s of
     None \<Rightarrow> None
   | Some (neg, v, rest) \<Rightarrow>
      Some (if v \<ge> 2 ^ 64 then - 1 else if neg then - of_nat v else of_nat v, rest))"

definition scan_version :: "string \<Rightarrow> (byte \<times> byte) option" where
  "scan_version s = (case scan_u8 s of
     Some (major, r # rest) \<Rightarrow>
       (if r = CHR ''.'' then (case scan_u8 rest of Some (minor, _) \<Rightarrow> Some (major, minor) | None \<Rightarrow> None) else None)
   | _ \<Rightarrow> None)"

definition Negotiate_SLPROTO :: "'re sl_env \<Rightarrow> server \<Rightarrow> CmdToken \<Rightarrow> 're SLClient \<Rightarrow> int \<times> 're SLClient" where
  "Negotiate_SLPROTO env srv cmd c =
     (case (if argc cmd \<noteq> 2 \<or> overflow cmd then None else scan_version (arg cmd 1)) of
        Some (major, minor) \<Rightarrow>
          (if major = 3 \<or> major = 4 \<and> minor = 0 then
             and_then (unless_batch env srv c ''OK'' ERROR_NONE None)
               (\<lambda>c1. (0, set_sl (\<lambda>sl. sl\<lparr>proto_major := major, proto_minor := minor\<rparr>) c1))
           else and_then (unless_batch env srv c ''ERROR UNSUPPORTED unsupported protocol version'' ERROR_NONE None) sl_done)
      | None \<Rightarrow> and_then (unless_batch env srv c ''ERROR UNSUPPORTED unsupported protocol version'' ERROR_NONE None) sl_done)"

definition Negotiate_USERAGENT :: "'re sl_env \<Rightarrow> server \<Rightarrow> CmdToken \<Rightarrow> 're SLClient \<Rightarrow> int \<times> 're SLClient" where
  "Negotiate_USERAGENT env srv cmd c =
     (let c1 = (case cmdtoken_rest_after cmd 1 of
                  Some useragent \<Rightarrow> set_info (\<lambda>i. i\<lparr>clientid := take 255 useragent\<rparr>) c
                | None \<Rightarrow> c)
      in and_then (unless_batch env srv c1 ''OK'' ERROR_NONE None) sl_done)"

definition Negotiate_CAPABILITIES :: "'re sl_env \<Rightarrow> server \<Rightarrow> CmdToken \<Rightarrow> 're SLClient \<Rightarrow> int \<times> 're SLClient" where
  "Negotiate_CAPABILITIES env srv cmd c =
     (let c1 = (if list_ex (\<lambda>i. cmdtoken_eq_nocase cmd (int i) ''EXTREPLY'') [1..<argc cmd]
                then set_sl (\<lambda>sl. sl\<lparr>extreply := True\<rparr>) c else c)
      in and_then (unless_batch env srv c1 ''OK'' ERROR_NONE None) sl_done)"

definition Negotiate_CAT :: "'re sl_env \<Rightarrow> server \<Rightarrow> 're SLClient \<Rightarrow> int \<times> 're SLClient" where
  "Negotiate_CAT env srv c = and_then (SL_SendData env srv c (to_bytes (''CAT command not implemented'' @ CRLF))) sl_done"

definition Negotiate_BATCH :: "'re sl_env \<Rightarrow> server \<Rightarrow> 're SLClient \<Rightarrow> int \<times> 're SLClient" where
  "Negotiate_BATCH env srv c =
     and_then (SendReply env srv (set_sl (\<lambda>sl. sl\<lparr>batch := True\<rparr>) c) ''OK'' ERROR_NONE None) sl_done"

section \<open>AUTH\<close>

definition sl_Auth_finish ::
  "'re sl_env \<Rightarrow> server \<Rightarrow> 're SLClient \<Rightarrow> string \<Rightarrow> string \<Rightarrow> string option \<Rightarrow> int \<times> 're SLClient" where
  "sl_Auth_finish env srv c username password jwtoken =
     (case PerformAuth (auth (dl env)) (info c) (Some username) (Some password) jwtoken of (rv, i) \<Rightarrow>
        let c1 = c\<lparr>info := i\<rparr>
        in if rv \<noteq> 0 then
             and_then (SendReply env srv c1 ''ERROR'' ERROR_INTERNAL (Some ''Error performing authentication'')) sl_done
           else if \<not> permitted i CONNECT_PERMISSION then
             and_then (SendReply env srv c1 ''ERROR'' ERROR_AUTH (Some ''Authentication failed, not allowed to connect'')) sl_done
           else and_then (unless_batch env srv c1 ''OK'' ERROR_NONE None) sl_done)"

definition sl_Negotiate_AUTH :: "'re sl_env \<Rightarrow> server \<Rightarrow> CmdToken \<Rightarrow> 're SLClient \<Rightarrow> int \<times> 're SLClient" where
  "sl_Negotiate_AUTH env srv cmd c =
     (if argc cmd < 2 then
        and_then (SendReply env srv c ''ERROR'' ERROR_ARGUMENTS
          (Some ''AUTH requires a sub-command (USERPASS or JWT)'')) sl_done
      else if cmdtoken_eq cmd 1 ''USERPASS'' then
        (if argc cmd \<noteq> 4 \<or> overflow cmd then
           and_then (SendReply env srv c ''ERROR'' ERROR_ARGUMENTS (Some ''AUTH USERPASS requires 2 arguments'')) sl_done
         else if length (arg cmd 2) \<ge> 128 \<or> length (arg cmd 3) \<ge> 128 then
           and_then (SendReply env srv c ''ERROR'' ERROR_AUTH (Some ''Credentials too large'')) sl_done
         else sl_Auth_finish env srv c (arg cmd 2) (arg cmd 3) None)
      else if cmdtoken_eq cmd 1 ''JWT'' then
        (case cmdtoken_rest_after cmd 2 of
           Some (x # xs) \<Rightarrow> sl_Auth_finish env srv c [] [] (Some (x # xs))
         | _ \<Rightarrow> and_then (SendReply env srv c ''ERROR'' ERROR_ARGUMENTS (Some ''AUTH JWT requires 1 argument'')) sl_done)
      else and_then (SendReply env srv c ''ERROR'' ERROR_UNSUPPORTED (Some ''Unrecognized AUTH sub-command'')) sl_done)"

section \<open>STATION\<close>

definition letters_digits :: string where
  "letters_digits = ''abcdefghijklmnopqrstuvwxyzABCDEFGHIJKLMNOPQRSTUVWXYZ0123456789''"

definition VALIDSELECTCHARS :: string where "VALIDSELECTCHARS = letters_digits @ ''?*_-!''"
definition VALIDLABELCHARS :: string where "VALIDLABELCHARS = letters_digits @ ''?*_-''"
definition VALIDSTAIDCHARS :: string where "VALIDSTAIDCHARS = letters_digits @ ''?*_''"

definition only_chars :: "string \<Rightarrow> string \<Rightarrow> bool" where
  "only_chars valid s \<longleftrightarrow> length (takeWhile (\<lambda>c. c \<in> set valid) s) = length s"

text \<open>The station identifier of the request, or the message for wrong arguments.\<close>

definition STATION_staid :: "byte \<Rightarrow> CmdToken \<Rightarrow> string + string" where
  "STATION_staid major cmd =
     (if major = 4 then
        (if argc cmd \<noteq> 2 \<or> overflow cmd then Inl ''STATION requires 1 argument''
         else Inr (take 50 (arg cmd 1)))
      else if argc cmd < 2 \<or> argc cmd > 3 \<or> overflow cmd then Inl ''STATION requires 1 or 2 arguments''
      else (let reqsta = take 9 (arg cmd 1);
                reqnet = (if argc cmd = 3 then take 9 (arg cmd 2) else ''*'')
            in Inr (snprintf 51 (reqnet @ ''_'' @ reqsta))))"

text \<open>\<open>reqstaid\<close> is set before the checks, and keeps its value when they fail.\<close>

definition Negotiate_STATION :: "'re sl_env \<Rightarrow> server \<Rightarrow> CmdToken \<Rightarrow> 're SLClient \<Rightarrow> int \<times> 're SLClient" where
  "Negotiate_STATION env srv cmd c0 =
     (case STATION_staid (proto_major (slinfo c0)) cmd of
        Inl msg \<Rightarrow> and_then (sl_arg_error env srv (set_sl (\<lambda>sl. sl\<lparr>reqstaid := []\<rparr>) c0) msg) sl_done
      | Inr staid \<Rightarrow>
         (let c = set_sl (\<lambda>sl. sl\<lparr>reqstaid := staid\<rparr>) c0
          in if stationcount (slinfo c) \<ge> SLMAXSTATIONS then
               and_then (unless_batch env srv c ''ERROR'' ERROR_LIMIT (Some ''Station limit reached'')) sl_done
             else if \<not> only_chars VALIDSTAIDCHARS staid then
               and_then (unless_batch env srv c ''ERROR'' ERROR_ARGUMENTS (Some ''Invalid characters in station ID'')) sl_done
             else (case GetReqStationID (malloc_ok (dl env)) (stations (slinfo c)) staid of
                 None \<Rightarrow> and_then (unless_batch env srv c ''ERROR'' ERROR_INTERNAL (Some ''Error in GetReqStationID()'')) sl_done
               | Some (_, tree) \<Rightarrow>
                  and_then (unless_batch env srv (set_sl (\<lambda>sl. sl\<lparr>stations := tree\<rparr>) c) ''OK'' ERROR_NONE None)
                    (\<lambda>c1. (0, set_info (\<lambda>i. i\<lparr>state := STATE_STATION\<rparr>)
                             (set_sl (\<lambda>sl. sl\<lparr>stationcount := stationcount sl + 1\<rparr>) c1))))))"

section \<open>SELECT\<close>

text \<open>Filter or label behind the last colon, in version 4.\<close>

definition selector_filter :: "byte \<Rightarrow> string \<Rightarrow> string + string \<times> string \<times> Conversion" where
  "selector_filter major tok = (case (if major = 4 then split_last CHR '':'' tok else None) of
     None \<Rightarrow> Inr (tok, [], CONVERT_NONE)
   | Some (pat, flt) \<Rightarrow>
      (if flt = ''native'' then Inr (pat, [], CONVERT_NONE)
       else if flt = ''3'' then Inr (pat, [], CONVERT_MSEED3)
       else if length flt = 0 \<or> length flt \<ge> SLMAXLABELLEN \<or> \<not> only_chars VALIDLABELCHARS flt
       then Inl ''Filter not supported''
       else Inr (pat, flt, CONVERT_NONE)))"

text \<open>A version 3 selector as a source identifier pattern.\<close>

definition selector_v3 :: "string \<Rightarrow> string + string" where
  "selector_v3 tok =
     (let neg = (tok \<noteq> [] \<and> hd tok = CHR ''!'');
          negate = (if neg then ''!'' else []);
          v = (if neg then tl tok else tok)
      in if length v = 5 then
           Inr (negate @ [v ! 0, v ! 1, CHR ''_'', v ! 2, CHR ''_'', v ! 3, CHR ''_'', v ! 4])
         else if length v = 3 then Inr (negate @ ''*_'' @ [v ! 0, CHR ''_'', v ! 1, CHR ''_'', v ! 2])
         else Inl ''Invalid selector pattern'')"

definition parse_selector :: "byte \<Rightarrow> string \<Rightarrow> string + Selector" where
  "parse_selector major tok =
     (if length tok \<ge> MAXSTREAMID then Inl ''Selector pattern too long''
      else (case selector_filter major tok of
          Inl msg \<Rightarrow> Inl msg
        | Inr (pat, label, conv) \<Rightarrow>
           (let pat1 = (case split_last CHR ''.'' pat of Some (a, _) \<Rightarrow> a | None \<Rightarrow> pat)
            in case (if major = 3 then selector_v3 pat1 else Inr pat1) of
                 Inl msg \<Rightarrow> Inl msg
               | Inr pat2 \<Rightarrow>
                  (if \<not> only_chars VALIDSELECTCHARS pat2 then Inl ''Selector contains illegal characters''
                   else Inr \<lparr>sel_string = pat2, sel_label = label, sel_convert = conv\<rparr>))))"

text \<open>All patterns of the command, in their order, or the message for the first that is wrong.\<close>

fun parse_selectors :: "byte \<Rightarrow> string list \<Rightarrow> string + Selector list" where
  "parse_selectors major [] = Inr []"
| "parse_selectors major (tok # ts) = (case parse_selector major tok of
     Inl msg \<Rightarrow> Inl msg
   | Inr s \<Rightarrow> (case parse_selectors major ts of Inl msg \<Rightarrow> Inl msg | Inr rest \<Rightarrow> Inr (s # rest)))"

definition negated :: "Selector \<Rightarrow> bool" where
  "negated s \<longleftrightarrow> sel_string s \<noteq> [] \<and> hd (sel_string s) = CHR ''!''"

definition LinkSelectorLists :: "Selector list \<Rightarrow> Selector list \<Rightarrow> Selector list \<Rightarrow> Selector list" where
  "LinkSelectorLists destlist poshead neghead = (poshead @ destlist) @ neghead"

definition SELECT_selectors :: "byte \<Rightarrow> CmdToken \<Rightarrow> string + Selector list" where
  "SELECT_selectors major cmd =
     (if argc cmd < 2 then
        Inl (if major = 4 then ''empty SELECT is not allowed in v4'' else ''SELECT requires a single argument'')
      else if major = 3 \<and> (argc cmd > 2 \<or> overflow cmd) then Inl ''SELECT requires a single argument''
      else if overflow cmd then Inl ''Too many SELECT patterns''
      else parse_selectors major (map (arg cmd) [1..<argc cmd]))"

definition Negotiate_SELECT :: "'re sl_env \<Rightarrow> server \<Rightarrow> CmdToken \<Rightarrow> 're SLClient \<Rightarrow> int \<times> 're SLClient" where
  "Negotiate_SELECT env srv cmd c =
     (case SELECT_selectors (proto_major (slinfo c)) cmd of
        Inl msg \<Rightarrow> and_then (sl_arg_error env srv c msg) sl_done
      | Inr sels \<Rightarrow>
         (let link = (\<lambda>l. LinkSelectorLists l (filter (\<lambda>s. \<not> negated s) sels) (filter negated sels))
          in if state (info c) = STATE_STATION then
               (case GetReqStationID (malloc_ok (dl env)) (stations (slinfo c)) (reqstaid (slinfo c)) of
                  None \<Rightarrow> and_then (unless_batch env srv c ''ERROR'' ERROR_INTERNAL (Some ''Error in GetReqStationID()'')) sl_done
                | Some (_, tree) \<Rightarrow>
                   and_then (unless_batch env srv (set_sl (\<lambda>sl. sl\<lparr>stations := tree\<rparr>) c) ''OK'' ERROR_NONE None)
                     (\<lambda>c1. (0, set_sl (upd_station (reqstaid (slinfo c1)) (\<lambda>st. st\<lparr>rq_selectors := link (rq_selectors st)\<rparr>)) c1)))
             else and_then (unless_batch env srv c ''OK'' ERROR_NONE None)
                    (\<lambda>c1. (0, set_sl (\<lambda>sl. sl\<lparr>selectors := link (selectors sl)\<rparr>) c1))))"

end
