(* ===== verification/RS_SLCommands.thy ===== *)
theory RS_SLCommands
  imports RS_SeedLink
begin

text \<open>
  The SeedLink protocol, second part: the commands that end a request (DATA, FETCH, TIME, END), the
  dispatch of the negotiation, INFO, the configuration of the reader (\<open>SLHandleCmd\<close>) and the streaming of
  records (\<open>SLStreamPackets\<close>) of \<open>ringserver-4/src/slclient.c\<close>.  As in the DataLink model a routine that
  searches the ring by identifier returns none when the fuel of the environment is used up.
\<close>

section \<open>DATA and FETCH\<close>

text \<open>
  Version 3 sequence numbers have 24 bits: the other bits of the identifier are those of the latest packet.
\<close>

definition v3_packetid :: "param_s \<Rightarrow> u32 \<Rightarrow> u64" where
  "v3_packetid p seq =
     (let latestid = fst (RingReadPacket p (latestoffset p) empty_packet False)
      in if latestid \<le> RINGID_MAXIMUM then or (and latestid 0xFFFFFFFFFF000000) (ucast (and seq 0xFFFFFF))
         else ucast (and seq 0xFFFFFF))"

text \<open>The requested packet and times, or the message for the first argument that is wrong.\<close>

definition DATA_time :: "'re sl_env \<Rightarrow> CmdToken \<Rightarrow> nat \<Rightarrow> string \<Rightarrow> string + nstime" where
  "DATA_time env cmd i msg =
     (if argc cmd < i + 1 then Inr NSTUNSET
      else let t = mdtimestr2nstime env (arg cmd i) in if t = NSTERROR then Inl msg else Inr t)"

definition DATA_packet_v4 :: "CmdToken \<Rightarrow> string + u64" where
  "DATA_packet_v4 cmd =
     (if argc cmd > 4 \<or> overflow cmd then Inl ''Too many arguments for DATA''
      else if argc cmd \<ge> 2 then
        (if cmdtoken_eq cmd 1 ''ALL'' then Inr RINGID_EARLIEST
         else case cmdtoken_u64 cmd 1 10 of None \<Rightarrow> Inl ''Invalid sequence number'' | Some seq \<Rightarrow> Inr seq)
      else Inr RINGID_NEXT)"

definition DATA_packet_v3 :: "param_s \<Rightarrow> CmdToken \<Rightarrow> string + u64" where
  "DATA_packet_v3 p cmd =
     (if argc cmd > 3 \<or> overflow cmd then Inl ''Too many arguments for DATA/FETCH''
      else if argc cmd \<ge> 2 then
        (case cmdtoken_u32 cmd 1 16 of None \<Rightarrow> Inl ''Invalid sequence number'' | Some seq \<Rightarrow> Inr (v3_packetid p seq))
      else Inr RINGID_NEXT)"

text \<open>Clients ask for the packet after the last one they have; the reader is placed at that one.\<close>

definition before_requested :: "u64 \<Rightarrow> u64" where
  "before_requested startpacket =
     (if startpacket \<le> RINGID_MAXIMUM \<and> startpacket > 0 then startpacket - 1 else startpacket)"

definition DATA_args :: "'re sl_env \<Rightarrow> server \<Rightarrow> byte \<Rightarrow> CmdToken \<Rightarrow> string + u64 \<times> nstime \<times> nstime" where
  "DATA_args env srv major cmd =
     (case (if major = 4 then DATA_packet_v4 cmd else DATA_packet_v3 (ring srv) cmd) of
        Inl msg \<Rightarrow> Inl msg
      | Inr startpacket \<Rightarrow>
         (case DATA_time env cmd 2 ''Error parsing start time'' of
            Inl msg \<Rightarrow> Inl msg
          | Inr t1 \<Rightarrow>
             (case (if major = 4 then DATA_time env cmd 3 ''Error parsing end time'' else Inr NSTUNSET) of
                Inl msg \<Rightarrow> Inl msg
              | Inr t2 \<Rightarrow> Inr (before_requested startpacket, t1, t2))))"

definition set_state :: "ClientState \<Rightarrow> 're SLClient \<Rightarrow> 're SLClient" where
  "set_state st = set_info (\<lambda>i. i\<lparr>state := st\<rparr>)"

text \<open>Storing what is requested for the station that is being configured, and going on with it.\<close>

definition with_station ::
  "'re sl_env \<Rightarrow> server \<Rightarrow> 're SLClient \<Rightarrow> (ReqStationID \<Rightarrow> ReqStationID) \<Rightarrow> ('re SLClient \<Rightarrow> int \<times> 're SLClient)
   \<Rightarrow> int \<times> 're SLClient" where
  "with_station env srv c f k =
     (case GetReqStationID (malloc_ok (dl env)) (stations (slinfo c)) (reqstaid (slinfo c)) of
        None \<Rightarrow> and_then (unless_batch env srv c ''ERROR'' ERROR_INTERNAL (Some ''Error in GetReqStationID()''))
                  (\<lambda>c1. (0, set_state STATE_COMMAND c1))
      | Some (_, tree) \<Rightarrow> k (set_sl (\<lambda>sl. upd_station (reqstaid sl) f (sl\<lparr>stations := tree\<rparr>)) c))"

definition Negotiate_DATA :: "'re sl_env \<Rightarrow> server \<Rightarrow> CmdToken \<Rightarrow> 're SLClient \<Rightarrow> int \<times> 're SLClient" where
  "Negotiate_DATA env srv cmd c =
     (case DATA_args env srv (proto_major (slinfo c)) cmd of
        Inl msg \<Rightarrow> and_then (sl_arg_error env srv c msg) sl_done
      | Inr (startpacket, t1, t2) \<Rightarrow>
         (let fetch = cmdtoken_eq_nocase cmd 0 ''FETCH'';
              set_dialup = (\<lambda>c1. if fetch then set_sl (\<lambda>sl. sl\<lparr>dialup := True\<rparr>) c1 else c1);
              ok = (\<lambda>c1. and_then (unless_batch env srv c1 ''OK'' ERROR_NONE None)
                           (\<lambda>c2. (0, set_state STATE_COMMAND (set_dialup c2))))
          in if state (info c) = STATE_STATION then
               (if argc cmd \<ge> 2 then
                  with_station env srv c
                    (\<lambda>st. st\<lparr>rq_packetid := startpacket, rq_datastart := t1, rq_starttime := t1, rq_endtime := t2\<rparr>) ok
                else ok c)
             else (0, set_state STATE_RINGCONFIG (set_dialup
                       (if stationcount (slinfo c) = 0
                        then set_sl (\<lambda>sl. sl\<lparr>startid := startpacket\<rparr>) c\<lparr>starttime := t1, endtime := t2\<rparr>
                        else c)))))"

section \<open>TIME\<close>

definition TIME_args :: "'re sl_env \<Rightarrow> CmdToken \<Rightarrow> string + nstime \<times> nstime" where
  "TIME_args env cmd =
     (if argc cmd < 2 \<or> argc cmd > 3 \<or> overflow cmd then Inl ''TIME command requires 1 or 2 arguments''
      else (case DATA_time env cmd 1 ''Error parsing start time'' of
          Inl msg \<Rightarrow> Inl msg
        | Inr t1 \<Rightarrow>
           (if MS_NSTIME2EPOCH t1 > epoch_now env then Inl ''Start time cannot be in the future''
            else (case DATA_time env cmd 2 ''Error parsing end time'' of
                Inl msg \<Rightarrow> Inl msg
              | Inr t2 \<Rightarrow> Inr (t1, t2)))))"

definition Negotiate_TIME :: "'re sl_env \<Rightarrow> server \<Rightarrow> CmdToken \<Rightarrow> 're SLClient \<Rightarrow> int \<times> 're SLClient" where
  "Negotiate_TIME env srv cmd c =
     (case TIME_args env cmd of
        Inl msg \<Rightarrow> and_then (sl_arg_error env srv c msg) sl_done
      | Inr (t1, t2) \<Rightarrow>
         (if state (info c) = STATE_STATION then
            with_station env srv c (\<lambda>st. st\<lparr>rq_starttime := t1, rq_endtime := t2\<rparr>)
              (\<lambda>c1. and_then (unless_batch env srv c1 ''OK'' ERROR_NONE None) (\<lambda>c2. (0, set_state STATE_COMMAND c2)))
          else (0, set_state STATE_RINGCONFIG
                    (if stationcount (slinfo c) = 0 then c\<lparr>starttime := t1, endtime := t2\<rparr> else c))))"

section \<open>\<open>HandleNegotiation\<close>\<close>

definition SL_HandleNegotiation :: "'re sl_env \<Rightarrow> server \<Rightarrow> CmdToken \<Rightarrow> 're SLClient \<Rightarrow> int \<times> 're SLClient" where
  "SL_HandleNegotiation env srv cmd c =
     (let is = cmdtoken_eq_nocase cmd 0; v3 = (proto_major (slinfo c) = 3)
      in if is ''HELLO'' then Negotiate_HELLO env srv c
      else if is ''SLPROTO'' then Negotiate_SLPROTO env srv cmd c
      else if is ''USERAGENT'' then Negotiate_USERAGENT env srv cmd c
      else if is ''CAPABILITIES'' then Negotiate_CAPABILITIES env srv cmd c
      else if is ''CAT'' then Negotiate_CAT env srv c
      else if is ''BATCH'' then Negotiate_BATCH env srv c
      else if is ''AUTH'' then sl_Negotiate_AUTH env srv cmd c
      else if is ''STATION'' then Negotiate_STATION env srv cmd c
      else if is ''SELECT'' then Negotiate_SELECT env srv cmd c
      else if is ''DATA'' \<or> is ''FETCH'' \<and> v3 then Negotiate_DATA env srv cmd c
      else if is ''TIME'' \<and> v3 then Negotiate_TIME env srv cmd c
      else if is ''ENDFETCH'' then (0, set_state STATE_RINGCONFIG (set_sl (\<lambda>sl. sl\<lparr>dialup := True\<rparr>) c))
      else if is ''END'' then (0, set_state STATE_RINGCONFIG c)
      else (case SendReply env srv c ''ERROR'' ERROR_UNSUPPORTED
                   (Some (snprintf 400 (''Unrecognized command: '' @ take 50 (c_string (recvbuf (info c)))))) of
          (rv, c1) \<Rightarrow> (if rv \<noteq> 0 then -1 else 1, c1)))"

section \<open>INFO of version 3\<close>


definition six_digits :: "nat \<Rightarrow> string" where "six_digits n = replicate (6 - length (dec n)) CHR ''0'' @ dec n"

text \<open>The miniSEED 2 record of 512 bytes: fixed header, blockette 1000, text, padding.\<close>

definition info_record :: "'re sl_env \<Rightarrow> bool \<Rightarrow> nat \<Rightarrow> string \<Rightarrow> byte list" where
  "info_record env errflag seqnum body = (case calendar_now env of (year, yday, hour, mn, sec) \<Rightarrow>
     to_bytes (take 6 (six_digits seqnum) @ ''D '' @ ''INFO '' @ ''  '' @ (if errflag then ''ERR'' else ''INF'') @ ''XX'')
       @ be_bytes 2 year @ be_bytes 2 yday @ [of_nat hour, of_nat mn, of_nat sec, 0] @ be_bytes 2 0 @ be_bytes 2 (length body)
       @ be_bytes 2 0 @ be_bytes 2 0 @ [0, 0, 0, 1] @ [0, 0, 0, 0] @ be_bytes 2 56 @ be_bytes 2 48
       @ be_bytes 2 1000 @ be_bytes 2 0 @ [0, 1, 9, 0]
       @ to_bytes body @ replicate (456 - length body) 0)"

function Info_loop :: "'re sl_env \<Rightarrow> server \<Rightarrow> bool \<Rightarrow> nat \<Rightarrow> string \<Rightarrow> 're SLClient \<Rightarrow> 're SLClient" where
  "Info_loop env srv errflag seqnum xml c =
     (if xml = [] \<or> socketerr (info c) \<noteq> 0 then c
      else (let nsamps = min 456 (length xml); rest = drop nsamps xml;
                c1 = set_sl (\<lambda>sl. sl\<lparr>terminfo := (rest = [])\<rparr>) c
            in Info_loop env srv errflag (if seqnum \<ge> 999999 then 1 else seqnum + 1) rest
                 (SendInfoRecord env srv (info_record env errflag seqnum (take nsamps xml)) c1)))"
  by pat_completeness auto
termination
  by (relation "measure (\<lambda>(env, srv, e, n, xml, c). length xml)") (auto simp: min_def)

declare Info_loop.simps [simp del]

text \<open>The document, if one is made, and \<open>errflag\<close>.\<close>

definition Info_v3_document :: "'re sl_env \<Rightarrow> CmdToken \<Rightarrow> 're SLClient \<Rightarrow> string option \<times> bool" where
  "Info_v3_document env cmd c =
     (let is = cmdtoken_eq_nocase cmd 1; streaming = (state (info c) = STATE_STREAM)
      in if is ''ID'' then (slv3_xml env ''ID'', False)
      else if is ''CAPABILITIES'' then (slv3_xml env ''CAPABILITIES'', False)
      else if is ''STATIONS'' then (if streaming then (None, True) else (slv3_xml env ''STATIONS'', False))
      else if is ''STREAMS'' then (if streaming then (None, True) else (slv3_xml env ''STREAMS'', False))
      else if is ''CONNECTIONS'' then
        (if \<not> permitted (info c) TRUST_PERMISSION then (None, True) else (slv3_xml env ''CONNECTIONS'', False))
      else (slv3_xml env ''ID'', True))"

definition HandleInfo_v3 :: "'re sl_env \<Rightarrow> server \<Rightarrow> CmdToken \<Rightarrow> 're SLClient \<Rightarrow> int \<times> 're SLClient" where
  "HandleInfo_v3 env srv cmd c =
     (if argc cmd < 2 \<or> arg cmd 1 = [] then (-1, c)
      else (case Info_v3_document env cmd c of (xmlstr, errflag) \<Rightarrow>
        let c1 = (case xmlstr of
                    None \<Rightarrow> c
                  | Some xml \<Rightarrow> Info_loop env srv errflag 1 (trim_newline xml) c)
        in (if socketerr (info c1) \<noteq> 0 then -1 else 0, c1)))"

section \<open>INFO of version 4\<close>

text \<open>
  The expression for the station and selector of the request; the one for rejecting is not used.
\<close>

definition Info_v4_expression :: "CmdToken \<Rightarrow> int \<times> string option" where
  "Info_v4_expression cmd =
     (if argc cmd < 3 then (0, None)
      else let sel = (if argc cmd \<ge> 4 then take (MAXSTREAMID - 1) (arg cmd 3) else []);
               sels = (if sel \<noteq> [] then [\<lparr>sel_string = sel, sel_label = [], sel_convert = CONVERT_NONE\<rparr>] else [])
      in case StationToRegex (Some (arg cmd 2)) sels None None of (rv, mre, rre) \<Rightarrow> (rv, mre))"

text \<open>The document and \<open>errflag\<close>, or none when the expression cannot be made.\<close>

definition Info_v4_document :: "'re sl_env \<Rightarrow> CmdToken \<Rightarrow> 're SLClient \<Rightarrow> (string option \<times> bool) option" where
  "Info_v4_document env cmd c =
     (let is = cmdtoken_eq_nocase cmd 1;
          stations_of = (\<lambda>item. case Info_v4_expression cmd of (rv, mre) \<Rightarrow>
            if rv \<noteq> 0 then None else Some (slv4_json env item mre, False))
      in if argc cmd < 2 then Some (slv4_error env ''ARGUMENTS'' ''No INFO item specified'', True)
      else if argc cmd > 4 \<or> overflow cmd then
        Some (slv4_error env ''ARGUMENTS'' ''INFO request has too many arguments'', True)
      else if is ''ID'' then Some (slv4_json env ''ID'' None, False)
      else if is ''CAPABILITIES'' then Some (slv4_json env ''CAPABILITIES'' None, False)
      else if is ''FORMATS'' then Some (slv4_json env ''FORMATS'' None, False)
      else if is ''STATIONS'' then stations_of ''STATIONS''
      else if is ''STREAMS'' then stations_of ''STREAMS''
      else if is ''CONNECTIONS'' then
        (if \<not> permitted (info c) TRUST_PERMISSION then
           Some (slv4_error env ''UNAUTHORIZED'' ''Client is not authorized to request connections'', True)
         else Some (slv4_json env ''CONNECTIONS'' (if argc cmd \<ge> 3 then Some (arg cmd 2) else None), False))
      else Some (slv4_error env ''ARGUMENTS'' ''Unrecognized INFO item'', True))"

definition HandleInfo_v4 :: "'re sl_env \<Rightarrow> server \<Rightarrow> CmdToken \<Rightarrow> 're SLClient \<Rightarrow> int \<times> 're SLClient" where
  "HandleInfo_v4 env srv cmd c =
     (case Info_v4_document env cmd c of
        None \<Rightarrow> (-1, snd (SendReply env srv c ''ERROR'' ERROR_INTERNAL (Some ''Error with StationToRegex()'')))
      | Some (json, errflag) \<Rightarrow>
         (let c1 = (case json of
                      None \<Rightarrow> c
                    | Some j \<Rightarrow> snd (SL_SendPacket env srv 0 (to_bytes j) [] CHR ''J''
                                      (if errflag then CHR ''E'' else CHR ''I'') c))
          in (if socketerr (info c1) \<noteq> 0 then -1 else 0, c1)))"

section \<open>\<open>SLHandleCmd\<close>\<close>

definition new_SLInfo :: SLInfo where
  "new_SLInfo = \<lparr>proto_major = 3, proto_minor = 0, extreply = False, dialup = False, batch = False, terminfo = False,
     startid = RINGID_NONE, selectors = [], stationcount = 0, timewinchannels = 0, stations = [], reqstaid = []\<rparr>"

definition sl_start :: "'re SLClient \<Rightarrow> 're SLClient" where
  "sl_start c = (if started c then c else c\<lparr>started := True, slinfo := new_SLInfo\<rparr>)"

text \<open>The widest time window.\<close>

definition earlier :: "nstime \<Rightarrow> nstime \<Rightarrow> nstime" where
  "earlier t s = (if s = NSTUNSET then t else if t = NSTUNSET \<or> t > s then s else t)"

definition later :: "nstime \<Rightarrow> nstime \<Rightarrow> nstime" where
  "later t s = (if s = NSTUNSET then t else if t = NSTUNSET \<or> t < s then s else t)"

text \<open>
  The loop over the stations; \<open>newest\<close> is \<open>newesttime\<close>.  The number is set when the connection ends.
\<close>

definition Config_error :: "'re sl_env \<Rightarrow> server \<Rightarrow> 're SLClient \<Rightarrow> ErrorCode \<Rightarrow> string \<Rightarrow> int \<times> 're SLClient" where
  "Config_error env srv c code msg = (-1, snd (SendReply env srv c ''ERROR'' code (Some msg)))"

definition Config_packet ::
  "'re sl_env \<Rightarrow> server \<Rightarrow> ReqStationID \<Rightarrow> nstime \<Rightarrow> 're SLClient \<Rightarrow> (nstime \<times> 're SLClient) option" where
  "Config_packet env srv st newest c =
     (case (if rq_packetid st \<le> RINGID_MAXIMUM
            then RingRead (rfuel (dl env)) (ring srv) (reader (info c)) (rq_packetid st) (packet (info c)) False
            else Some (0, reader (info c), packet (info c), None)) of
        None \<Rightarrow> None
      | Some (retval, rd, pkt, _) \<Rightarrow>
         (let c1 = set_info (\<lambda>i. i\<lparr>reader := rd, packet := pkt\<rparr>) c
          in Some (if retval = rq_packetid st
                      \<and> (rq_datastart st = NSTUNSET \<or> MS_NSTIME2EPOCH (rq_datastart st) = MS_NSTIME2EPOCH (datastart pkt))
                      \<and> (newest = NSTUNSET \<or> pkttime pkt > newest)
                   then (pkttime pkt, set_sl (\<lambda>sl. sl\<lparr>startid := rq_packetid st\<rparr>) c1)
                   else (newest, c1))))"

fun Config_stations ::
  "'re sl_env \<Rightarrow> server \<Rightarrow> (string \<times> ReqStationID) list \<Rightarrow> nstime \<Rightarrow> 're SLClient \<Rightarrow> (int \<times> 're SLClient) option" where
  "Config_stations env srv [] newest c = Some (0, c)"
| "Config_stations env srv ((key, st) # rest) newest c =
     (case StationToRegex (Some key) (rq_selectors st) (matchstr (info c)) (rejectstr (info c)) of (rv, mre, rre) \<Rightarrow>
        let c1 = set_info (\<lambda>i. i\<lparr>matchstr := mre, rejectstr := rre\<rparr>) c
        in if rv \<noteq> 0 then Some (Config_error env srv c1 ERROR_INTERNAL ''Error with StationToRegex()'')
           else (case Config_packet env srv st newest
                        (c1\<lparr>starttime := earlier (starttime c1) (rq_starttime st),
                            endtime := later (endtime c1) (rq_endtime st)\<rparr>) of
              None \<Rightarrow> None
            | Some (newest1, c2) \<Rightarrow> Config_stations env srv rest newest1 c2))"

text \<open>Expressions from the selectors of the client or from its stations; the reader is put back.\<close>

definition Config_selection :: "'re sl_env \<Rightarrow> server \<Rightarrow> 're SLClient \<Rightarrow> (int \<times> 're SLClient) option" where
  "Config_selection env srv c =
     (if stationcount (slinfo c) = 0 \<and> selectors (slinfo c) \<noteq> [] then
        (case StationToRegex None (selectors (slinfo c)) (matchstr (info c)) (rejectstr (info c)) of (rv, mre, rre) \<Rightarrow>
           let c1 = set_info (\<lambda>i. i\<lparr>matchstr := mre, rejectstr := rre\<rparr>) c
           in Some (if rv \<noteq> 0 then Config_error env srv c1 ERROR_INTERNAL ''Error with StationToRegex()'' else (0, c1)))
      else if stationcount (slinfo c) > 0 then
        (case Config_stations env srv (stations (slinfo c)) NSTUNSET c of
           None \<Rightarrow> None
         | Some (rv, c1) \<Rightarrow>
            Some (if rv \<noteq> 0 then (rv, c1)
                  else (0, set_info (\<lambda>i. i\<lparr>reader := (reader i)\<lparr>pktoffset := pktoffset (reader (info c)),
                                 rd_pktid := rd_pktid (reader (info c)), rd_pkttime := rd_pkttime (reader (info c))\<rparr>\<rparr>) c1)))
      else Some (0, c))"

definition Config_expressions :: "'re sl_env \<Rightarrow> server \<Rightarrow> 're SLClient \<Rightarrow> int \<times> 're SLClient" where
  "Config_expressions env srv c =
     (case (case matchstr (info c) of
              None \<Rightarrow> (0, reader (info c))
            | Some m \<Rightarrow> RingMatch (re_lib (auth (dl env))) (reader (info c)) (Some m)) of (rv, rd) \<Rightarrow>
        let c1 = set_info (\<lambda>i. i\<lparr>reader := rd\<rparr>) c
        in if rv < 0 then
             Config_error env srv c1 ERROR_INTERNAL ''cannot compile matches (combined matches too large?)''
           else (case (case rejectstr (info c1) of
                         None \<Rightarrow> (0, reader (info c1))
                       | Some m \<Rightarrow> RingReject (re_lib (auth (dl env))) (reader (info c1)) (Some m)) of (rv2, rd2) \<Rightarrow>
             let c2 = set_info (\<lambda>i. i\<lparr>reader := rd2\<rparr>) c1
             in if rv2 < 0 then
                  Config_error env srv c2 ERROR_INTERNAL ''cannot compile rejections (combined rejection too large?)''
                else (0, c2)))"

definition Config_position :: "'re sl_env \<Rightarrow> server \<Rightarrow> 're SLClient \<Rightarrow> (int \<times> 're SLClient) option" where
  "Config_position env srv c =
     (if startid (slinfo c) \<le> RINGID_MAXIMUM then
        (case RingPosition (rfuel (dl env)) (ring srv) (reader (info c)) (startid (slinfo c)) NSTUNSET of
           None \<Rightarrow> None
         | Some (retval, rd) \<Rightarrow> Some (if retval = RINGID_ERROR then -1 else 0, set_info (\<lambda>i. i\<lparr>reader := rd\<rparr>) c))
      else Some (0, c))"

definition Config_time :: "'re sl_env \<Rightarrow> server \<Rightarrow> 're SLClient \<Rightarrow> int \<times> 're SLClient" where
  "Config_time env srv c =
     (if starttime c \<noteq> NSTUNSET \<and> startid (slinfo c) = RINGID_NONE then
        (let rd0 = reader (info c); pm = matcher_of (dl env);
             result = (case timewin (dl env) of
                 WholeRing \<Rightarrow> Some (RingAfter (ring srv) pm rd0 (starttime c) 0)
               | PartOfRing f \<Rightarrow> Some (RingAfterRev (ring srv) pm rd0 (starttime c) (f (maxpackets (ring srv))) 0)
               | BadLimit \<Rightarrow> None)
         in case result of
              None \<Rightarrow> Config_error env srv c ERROR_INTERNAL ''time window search limit is invalid''
            | Some (readid, rd) \<Rightarrow>
               (let c1 = set_info (\<lambda>i. i\<lparr>reader := rd\<rparr>) c
                in if readid = RINGID_ERROR then
                     Config_error env srv c1 ERROR_INTERNAL ''Error positioning reader to start of time window''
                   else if readid = RINGID_NONE then
                     (0, set_info (\<lambda>i. i\<lparr>reader := (reader i)\<lparr>rd_pktid := RINGID_NEXT\<rparr>\<rparr>) c1)
                   else (0, c1)))
      else (0, c))"

definition Config_next :: "'re SLClient \<Rightarrow> 're SLClient" where
  "Config_next c = set_state STATE_STREAM
     (if rd_pktid (reader (info c)) = RINGID_NONE
      then set_info (\<lambda>i. i\<lparr>reader := (reader i)\<lparr>rd_pktid := RINGID_NEXT\<rparr>\<rparr>) c else c)"

definition SL_configure :: "'re sl_env \<Rightarrow> server \<Rightarrow> 're SLClient \<Rightarrow> (int \<times> 're SLClient) option" where
  "SL_configure env srv c =
     (if auth_required (dl env) \<and> \<not> permitted (info c) AUTHENTICATED then
        Some (Config_error env srv c ERROR_AUTH ''Authentication required for streaming'')
      else (case Config_selection env srv c of
          None \<Rightarrow> None
        | Some (rv1, c1) \<Rightarrow>
           (if rv1 \<noteq> 0 then Some (-1, c1)
            else (case Config_expressions env srv c1 of (rv2, c2) \<Rightarrow>
              if rv2 \<noteq> 0 then Some (-1, c2)
              else (case Config_position env srv c2 of
                  None \<Rightarrow> None
                | Some (rv3, c3) \<Rightarrow>
                   (if rv3 \<noteq> 0 then Some (-1, c3)
                    else (case Config_time env srv c3 of (rv4, c4) \<Rightarrow>
                      Some (if rv4 \<noteq> 0 then (-1, c4) else (0, Config_next c4)))))))))"

text \<open>The command itself: the result with which \<open>SLHandleCmd\<close> returns at once when it is not 0.\<close>

definition SL_dispatch :: "'re sl_env \<Rightarrow> server \<Rightarrow> CmdToken \<Rightarrow> 're SLClient \<Rightarrow> int \<times> 're SLClient" where
  "SL_dispatch env srv cmd c =
     (if cmdtoken_eq_nocase cmd 0 ''BYE'' then (-1, c)
      else if cmdtoken_eq_nocase cmd 0 ''INFO'' then
        (case (if proto_major (slinfo c) = 4 then HandleInfo_v4 env srv cmd c else HandleInfo_v3 env srv cmd c) of
           (rv, c1) \<Rightarrow> (if rv \<noteq> 0 then -1 else 0, c1))
      else if state (info c) = STATE_COMMAND \<or> state (info c) = STATE_STATION then
        (case SL_HandleNegotiation env srv cmd c of (rv, c1) \<Rightarrow> (if rv < 0 then -1 else if rv > 0 then 1 else 0, c1))
      else (1, c))"

definition SLHandleCmd :: "'re sl_env \<Rightarrow> server \<Rightarrow> 're SLClient \<Rightarrow> (int \<times> 're SLClient) option" where
  "SLHandleCmd env srv c0 =
     (let c = sl_start c0
      in case cmdtoken_parse (c_string (recvbuf (info c))) of
           None \<Rightarrow> Some (1, c)
         | Some cmd \<Rightarrow>
            (if argc cmd = 0 then Some (1, c)
             else (case SL_dispatch env srv cmd c of (rv, c1) \<Rightarrow>
               if rv \<noteq> 0 then Some (rv, c1)
               else if state (info c1) = STATE_RINGCONFIG then SL_configure env srv c1
               else Some (0, c1))))"

section \<open>Streaming\<close>

text \<open>Station, selector and label of a stream, in a buffer of 64 bytes.\<close>

definition filter_parts :: "string \<Rightarrow> (string \<times> string \<times> string option) option" where
  "filter_parts sid =
     (case strchr (take (MAXSTREAMID - 1) sid) CHR '':'' of
        None \<Rightarrow> None
      | Some r0 \<Rightarrow>
         (let staid = tl r0
          in case strchr staid CHR ''_'' of
               None \<Rightarrow> None
             | Some r1 \<Rightarrow>
                (case strchr (tl r1) CHR ''_'' of
                   None \<Rightarrow> None
                 | Some r2 \<Rightarrow>
                    Some (take (length staid - length r2) staid, takeWhile (\<lambda>c. c \<noteq> CHR ''/'') (tl r2),
                          (case strchr (tl r2) CHR ''/'' of
                             None \<Rightarrow> None
                           | Some r3 \<Rightarrow> map_option tl (strchr (tl r3) CHR ''/''))))))"

definition glob_ok :: "string \<Rightarrow> string \<Rightarrow> bool" where
  "glob_ok s pat \<longleftrightarrow> GlobMatch (Some s) (Some pat) = Some True"

definition selector_matches :: "string \<Rightarrow> string option \<Rightarrow> Selector \<Rightarrow> bool" where
  "selector_matches selectid streamlabel s \<longleftrightarrow>
     (sel_string s = [] \<or> glob_ok selectid (sel_string s)) \<and>
     (if sel_label s = [] then streamlabel = None \<or> streamlabel = Some []
      else (case streamlabel of None \<Rightarrow> False | Some l \<Rightarrow> l \<noteq> [] \<and> glob_ok l (sel_label s)))"

fun FindFilter_stations :: "string \<Rightarrow> string \<Rightarrow> string option \<Rightarrow> (string \<times> ReqStationID) list \<Rightarrow> Conversion" where
  "FindFilter_stations staid selectid streamlabel [] = CONVERT_NONE"
| "FindFilter_stations staid selectid streamlabel ((key, st) # rest) =
     (if glob_ok staid key then
        (case find (selector_matches selectid streamlabel) (rq_selectors st) of
           Some s \<Rightarrow> sel_convert s
         | None \<Rightarrow> FindFilter_stations staid selectid streamlabel rest)
      else FindFilter_stations staid selectid streamlabel rest)"

definition SLFindFilter :: "SLInfo \<Rightarrow> string \<Rightarrow> Conversion" where
  "SLFindFilter sl sid =
     (if stationcount sl \<le> 0 then CONVERT_NONE
      else (case filter_parts sid of
          None \<Rightarrow> CONVERT_NONE
        | Some (staid, selectid, streamlabel) \<Rightarrow> FindFilter_stations staid selectid streamlabel (stations sl)))"

text \<open>The node of the stream, with the conversion set when it is new.\<close>

definition Stream_node :: "'re sl_env \<Rightarrow> 're SLClient \<Rightarrow> (StreamNode \<times> int \<times> 're SLClient) option" where
  "Stream_node env c =
     (let i = info c; sid = streamid (packet i)
      in case GetStreamNode (malloc_ok (dl env)) (streams i) sid (streamscount i) 0 of
           (None, _, _) \<Rightarrow> None
         | (Some sn, tree, newstream) \<Rightarrow>
            (if newstream \<noteq> 0 then
               (let cv = SLFindFilter (slinfo c) sid
                in Some (sn\<lparr>convert := cv\<rparr>, newstream,
                         set_info (\<lambda>i. i\<lparr>streams := UpdStreamNode tree sid (\<lambda>n. n\<lparr>convert := cv\<rparr>),
                                         streamscount := streamscount i + 1\<rparr>) c))
             else Some (sn, newstream, set_info (\<lambda>i. i\<lparr>streams := tree\<rparr>) c)))"

text \<open>
  The end of the time window: whether the record is skipped, whether all channels have reached it, the
  client.
\<close>

definition Stream_window :: "StreamNode \<Rightarrow> int \<Rightarrow> 're SLClient \<Rightarrow> bool \<times> bool \<times> 're SLClient" where
  "Stream_window sn newstream c =
     (if endtime c \<noteq> 0 \<and> endtime c \<noteq> NSTUNSET then
        (let c1 = set_sl (\<lambda>sl. sl\<lparr>timewinchannels := timewinchannels sl + newstream\<rparr>) c;
             reached = (datastart (packet (info c)) > endtime c);
             c2 = (if \<not> endtimereached sn \<and> reached then
                     set_sl (\<lambda>sl. sl\<lparr>timewinchannels := timewinchannels sl - 1\<rparr>)
                       (set_info (\<lambda>i. i\<lparr>streams := UpdStreamNode (streams i) (streamid (packet i))
                                          (\<lambda>n. n\<lparr>endtimereached := True\<rparr>)\<rparr>) c1)
                   else c1)
         in (endtimereached sn \<or> reached, timewinchannels (slinfo c2) \<le> 0, c2))
      else (False, False, c))"

text \<open>The record that is sent, and its length.\<close>

definition Stream_record :: "'re sl_env \<Rightarrow> StreamNode \<Rightarrow> RingPacket \<Rightarrow> byte list \<Rightarrow> byte list \<times> nat" where
  "Stream_record env sn pkt rbuf =
     (let len = unat (datasize pkt)
      in if convert sn = CONVERT_MSEED3 \<and> MS2_ISVALIDHEADER rbuf then
           (case repack_mseed3 env (take len rbuf) of None \<Rightarrow> (rbuf, len) | Some rec \<Rightarrow> (rec, length rec))
         else (rbuf, len))"

definition Stream_send :: "'re sl_env \<Rightarrow> server \<Rightarrow> StreamNode \<Rightarrow> 're SLClient \<Rightarrow> int \<times> 're SLClient" where
  "Stream_send env srv sn c =
     (let pkt = packet (info c); n = ucast (datasize pkt)
      in case Stream_record env sn pkt (sendbuf (info c)) of (rec, reclen) \<Rightarrow>
        (case SendRecord env srv pkt rec reclen c of (rv, c1) \<Rightarrow>
           if rv \<noteq> 0 then (-1, c1)
           else (sint (datasize pkt),
                 set_info (\<lambda>i. i\<lparr>streams := UpdStreamNode (streams i) (streamid pkt)
                                  (\<lambda>s. s\<lparr>txpackets := txpackets s + 1, txbytes := txbytes s + n\<rparr>),
                                 txpackets0 := txpackets0 i + 1, txbytes0 := txbytes0 i + n\<rparr>) c1)))"

definition Stream_end :: "'re sl_env \<Rightarrow> server \<Rightarrow> 're SLClient \<Rightarrow> int \<times> 're SLClient" where
  "Stream_end env srv c = (-1, snd (SL_SendData env srv c (to_bytes ''END'')))"

definition SLStreamPackets :: "'re sl_env \<Rightarrow> server \<Rightarrow> 're SLClient \<Rightarrow> (int \<times> 're SLClient) option" where
  "SLStreamPackets env srv c0 =
     (if \<not> started c0 then Some (-1, c0)
      else (case RingReadNext (rfuel (dl env)) (ring srv) (matcher_of (dl env)) (reader (info c0)) (packet (info c0)) True of
          None \<Rightarrow> None
        | Some (readid, rd, pkt, pdata) \<Rightarrow>
           (let c = set_info (\<lambda>i. i\<lparr>reader := rd, packet := pkt,
                      sendbuf := (case pdata of Some d \<Rightarrow> overlay (sendbuf i) d | None \<Rightarrow> sendbuf i)\<rparr>) c0;
                rbuf = sendbuf (info c)
            in Some (if readid = RINGID_ERROR then (-1, c)
                     else if readid = RINGID_NONE then
                       (if dialup (slinfo c) then Stream_end env srv c else (0, c))
                     else if MS2_ISVALIDHEADER rbuf \<or> MS3_ISVALIDHEADER rbuf then
                       (case Stream_node env c of
                          None \<Rightarrow> (-1, c)
                        | Some (sn, newstream, c1) \<Rightarrow>
                           (case Stream_window sn newstream c1 of (skip, ended, c2) \<Rightarrow>
                              if ended then Stream_end env srv c2
                              else if skip then (0, c2)
                              else Stream_send env srv sn c2))
                     else (sint (datasize pkt), c)))))"

end
