(* ===== verification/RS_SLWire.thy ===== *)
theory RS_SLWire
  imports RS_SLCommands
begin

text \<open>
  What SeedLink puts on the wire and reads from a client: the expressions that stand for stations and
  selectors, the packet headers and the sequence numbers of version 3, and the records of an INFO answer.
\<close>

section \<open>Expressions\<close>

text \<open>A glob as a regular expression.\<close>

definition regex_of :: "string \<Rightarrow> string" where
  "regex_of g = concat (map (\<lambda>c. if c = CHR ''?'' then ''.'' else if c = CHR ''*'' then ''.*'' else [c]) g)"

lemma regex_of_simps [simp]:
  "regex_of [] = []"
  "regex_of (c # cs) = (if c = CHR ''?'' then ''.'' else if c = CHR ''*'' then ''.*'' else [c]) @ regex_of cs"
  by (simp_all add: regex_of_def)

lemma regex_of_length: "length (regex_of g) \<le> 2 * length g"
  by (induction g) auto

lemma glob_to_regex_result: "glob_to_regex lim g p = Some q \<Longrightarrow> q = p @ regex_of g \<and> (length q \<le> lim \<or> q = p)"
  by (induction lim g p rule: glob_to_regex.induct) (auto split: if_splits)

lemma glob_to_regex_ok: "length p + 2 * length g \<le> lim \<Longrightarrow> glob_to_regex lim g p = Some (p @ regex_of g)"
  by (induction lim g p rule: glob_to_regex.induct) auto

text \<open>The expression that \<open>SelectToRegex\<close> builds.\<close>

definition select_regex :: "string option \<Rightarrow> string option \<Rightarrow> string option \<Rightarrow> string" where
  "select_regex staid sel label =
     ''FDSN:'' @ (case staid of Some s \<Rightarrow> regex_of s | None \<Rightarrow> ''.*'') @ ''_''
       @ (case sel of Some (c # s) \<Rightarrow> regex_of (dropWhile (\<lambda>c. c = CHR ''-'') (c # s)) | _ \<Rightarrow> ''.*'')
       @ ''/MSEED3?'' @ (case label of Some (c # l) \<Rightarrow> ''/'' @ regex_of (c # l) | _ \<Rightarrow> []) @ ''$''"

definition text_length :: "string option \<Rightarrow> nat" where
  "text_length s = (case s of None \<Rightarrow> 0 | Some t \<Rightarrow> length t)"

lemma first_part_ok:
  assumes "text_length staid \<le> 50"
  shows "\<exists>p. (case staid of Some s \<Rightarrow> glob_to_regex 228 s ''FDSN:'' | None \<Rightarrow> Some ''FDSN:.*'') = Some p
    \<and> p = ''FDSN:'' @ (case staid of Some s \<Rightarrow> regex_of s | None \<Rightarrow> ''.*'') \<and> length p \<le> 105"
proof (cases staid)
  case (Some s)
  then show ?thesis using assms regex_of_length [of s] by (simp add: text_length_def glob_to_regex_ok)
qed simp

lemma second_part_ok:
  assumes "text_length sel \<le> 50" "length p \<le> 105"
  shows "\<exists>q. (case sel of
       Some s \<Rightarrow> (if s = [] then Some (p @ ''_.*'') else glob_to_regex 228 (dropWhile (\<lambda>c. c = CHR ''-'') s) (p @ ''_''))
     | None \<Rightarrow> Some (p @ ''_.*'')) = Some q
    \<and> q = p @ ''_'' @ (case sel of Some (c # s) \<Rightarrow> regex_of (dropWhile (\<lambda>c. c = CHR ''-'') (c # s)) | _ \<Rightarrow> ''.*'')
    \<and> length q \<le> 206"
proof (cases "sel = None \<or> sel = Some []")
  case True
  then show ?thesis using assms(2) by auto
next
  case False
  then obtain c t where sel: "sel = Some (c # t)" by (metis list.exhaust option.exhaust)
  let ?d = "dropWhile (\<lambda>c. c = CHR ''-'') (c # t)"
  have "length ?d \<le> 50" using assms(1) length_dropWhile_le [of "\<lambda>c. c = CHR ''-''" "c # t"] by (simp add: sel text_length_def)
  then have "glob_to_regex 228 ?d (p @ ''_'') = Some (p @ ''_'' @ regex_of ?d)" "length (regex_of ?d) \<le> 100"
    using assms(2) regex_of_length [of ?d] glob_to_regex_ok [of "p @ ''_''" ?d 228] by simp_all
  then show ?thesis using assms(2) by (simp add: sel)
qed

lemma third_part_ok:
  assumes "text_length label \<le> 11" "length p \<le> 206"
  shows "(case label of
       Some l \<Rightarrow> (if l = [] then Some (p @ ''/MSEED3?$'')
                 else map_option (\<lambda>p. p @ ''$'') (glob_to_regex 254 l (p @ ''/MSEED3?/'')))
     | None \<Rightarrow> Some (p @ ''/MSEED3?$''))
     = Some (p @ ''/MSEED3?'' @ (case label of Some (c # l) \<Rightarrow> ''/'' @ regex_of (c # l) | _ \<Rightarrow> []) @ ''$'')"
proof (cases "label = None \<or> label = Some []")
  case True
  then show ?thesis by auto
next
  case False
  then obtain c t where l: "label = Some (c # t)" by (metis list.exhaust option.exhaust)
  show ?thesis using assms glob_to_regex_ok [of "p @ ''/MSEED3?/''" "c # t" 254]
    by (simp add: l text_length_def del: regex_of_simps glob_to_regex.simps)
qed

lemma pattern_limits: "PATTERN_SIZE - (SLMAXLABELLEN + 16) = 228" "PATTERN_SIZE - 2 = 254"
  by (simp_all add: PATTERN_SIZE_def SLMAXLABELLEN_def)

lemmas SelectToRegex_cases = SelectToRegex_pattern_def [unfolded Let_def pattern_limits]

lemma SelectToRegex_built:
  assumes "text_length staid \<le> 50" "text_length sel \<le> 50" "text_length label \<le> 11"
  shows "SelectToRegex_pattern staid sel label = Some (select_regex staid sel label)"
proof -
  obtain p where p: "(case staid of Some s \<Rightarrow> glob_to_regex 228 s ''FDSN:'' | None \<Rightarrow> Some ''FDSN:.*'') = Some p"
      "p = ''FDSN:'' @ (case staid of Some s \<Rightarrow> regex_of s | None \<Rightarrow> ''.*'')" "length p \<le> 105"
    using first_part_ok [OF assms(1)] by blast
  obtain q where q: "(case sel of
       Some s \<Rightarrow> (if s = [] then Some (p @ ''_.*'') else glob_to_regex 228 (dropWhile (\<lambda>c. c = CHR ''-'') s) (p @ ''_''))
     | None \<Rightarrow> Some (p @ ''_.*'')) = Some q"
      "q = p @ ''_'' @ (case sel of Some (c # s) \<Rightarrow> regex_of (dropWhile (\<lambda>c. c = CHR ''-'') (c # s)) | _ \<Rightarrow> ''.*'')" "length q \<le> 206"
    using second_part_ok [OF assms(2) p(3)] by blast
  have short: "\<not> (case x of Some s \<Rightarrow> length s > 50 | None \<Rightarrow> False)" if "text_length x \<le> 50" for x
    using that by (cases x) (simp_all add: text_length_def)
  have "SelectToRegex_pattern staid sel label
      = Some (q @ ''/MSEED3?'' @ (case label of Some (c # l) \<Rightarrow> ''/'' @ regex_of (c # l) | _ \<Rightarrow> []) @ ''$'')"
    unfolding SelectToRegex_cases using third_part_ok [OF assms(3) q(3)]
    by (simp add: p(1) q(1) short [OF assms(1)] short [OF assms(2)])
  then show ?thesis by (simp add: select_regex_def p(2) q(2))
qed

lemma SelectToRegex_in_buffer:
  assumes "SelectToRegex_pattern staid sel label = Some p"
  shows "length p < PATTERN_SIZE"
proof -
  obtain a where a: "(case staid of Some s \<Rightarrow> glob_to_regex 228 s ''FDSN:'' | None \<Rightarrow> Some ''FDSN:.*'') = Some a"
    using assms by (auto simp: SelectToRegex_cases split: if_splits option.splits)
  have la: "length a \<le> 228" using a by (auto split: option.splits dest!: glob_to_regex_result)
  obtain b where b: "(case sel of
       Some s \<Rightarrow> (if s = [] then Some (a @ ''_.*'') else glob_to_regex 228 (dropWhile (\<lambda>c. c = CHR ''-'') s) (a @ ''_''))
     | None \<Rightarrow> Some (a @ ''_.*'')) = Some b"
    using assms a by (auto simp: SelectToRegex_cases split: if_splits option.splits)
  have lb: "length b \<le> 231" using b la by (auto split: option.splits if_splits dest!: glob_to_regex_result)
  have "(case label of
       Some l \<Rightarrow> (if l = [] then Some (b @ ''/MSEED3?$'')
                 else map_option (\<lambda>p. p @ ''$'') (glob_to_regex 254 l (b @ ''/MSEED3?/'')))
     | None \<Rightarrow> Some (b @ ''/MSEED3?$'')) = Some p"
    using assms a b by (simp add: SelectToRegex_cases split: if_splits)
  then show ?thesis using lb
    by (auto simp: PATTERN_SIZE_def split: option.splits if_splits dest!: glob_to_regex_result)
qed

text \<open>
  C36: for a station identifier and a selector of at most 50 characters and a label of at most 11, the
  expression is always built and is exactly the prefix \<open>FDSN:\<close>, the two globs with \<open>.\<close> for \<open>?\<close> and \<open>.*\<close> for
  \<open>*\<close> and nothing for leading dashes, and the format suffix with the label; a longer identifier or selector
  is refused, and whatever the arguments the expression with its terminator fits the buffer of 256 bytes.
\<close>

theorem SelectToRegex_pattern_exact:
  "(text_length staid > 50 \<or> text_length sel > 50 \<longrightarrow> SelectToRegex_pattern staid sel label = None) \<and>
   (text_length staid \<le> 50 \<and> text_length sel \<le> 50 \<and> text_length label \<le> 11 \<longrightarrow>
      SelectToRegex_pattern staid sel label = Some (select_regex staid sel label)) \<and>
   (\<forall>p. SelectToRegex_pattern staid sel label = Some p \<longrightarrow> length p < PATTERN_SIZE)"
proof (intro conjI impI allI)
  assume "text_length staid > 50 \<or> text_length sel > 50"
  then show "SelectToRegex_pattern staid sel label = None"
    by (cases staid; cases sel) (auto simp: SelectToRegex_pattern_def text_length_def Let_def)
qed (use SelectToRegex_built SelectToRegex_in_buffer in auto)

theorem SelectToRegex_pattern_exact_witness:
  "SelectToRegex_pattern (Some ''XX_S?'') (Some ''--_B_H_*'') (Some ''1SEC'')
     = Some ''FDSN:XX_S.__B_H_.*/MSEED3?/1SEC$''"
  using SelectToRegex_pattern_exact [of "Some ''XX_S?''" "Some ''--_B_H_*''" "Some ''1SEC''"]
  by (simp add: text_length_def select_regex_def)

section \<open>Packet headers\<close>

definition hex_char :: "nat \<Rightarrow> char" where "hex_char d = ''0123456789ABCDEF'' ! d"

lemma sixteen: "(\<forall>d < 16. P d) \<longleftrightarrow> list_all P [0::nat..<16]"
  by (auto simp: list_all_iff)

lemma hex_char_digit:
  assumes "d < 16"
  shows "digit_value (hex_char d) = Some d" "\<not> isspace (hex_char d)" "hex_char d \<notin> {CHR ''-'', CHR ''+''}"
    "tolower (hex_char d) \<noteq> CHR ''x''"
proof -
  have "\<forall>d < 16. digit_value (hex_char d) = Some d \<and> \<not> isspace (hex_char d)
      \<and> hex_char d \<notin> {CHR ''-'', CHR ''+''} \<and> tolower (hex_char d) \<noteq> CHR ''x''"
    unfolding sixteen by code_simp
  then show "digit_value (hex_char d) = Some d" "\<not> isspace (hex_char d)" "hex_char d \<notin> {CHR ''-'', CHR ''+''}"
    "tolower (hex_char d) \<noteq> CHR ''x''" using assms by auto
qed

text \<open>The hexadecimal numeral of so many digits.\<close>

fun hexn :: "nat \<Rightarrow> nat \<Rightarrow> string" where
  "hexn 0 n = []"
| "hexn (Suc k) n = hexn k (n div 16) @ [hex_char (n mod 16)]"

lemma hexn_digits: "x \<in> set (hexn k n) \<Longrightarrow> \<exists>d < 16. x = hex_char d"
proof (induction k arbitrary: n)
  case (Suc k)
  have "n mod 16 < 16" by simp
  then have "\<exists>d < 16. hex_char (n mod 16) = hex_char d" by blast
  then show ?case using Suc.IH [of "n div 16"] Suc.prems by auto
qed simp

lemma hexn_length [simp]: "length (hexn k n) = k" by (induction k arbitrary: n) auto

lemma hexn_nonempty: "hexn k n \<noteq> [] \<longleftrightarrow> k \<noteq> 0" by (cases k) auto

lemma hexn_value: "digits_value 16 (hexn k n) = n mod 16 ^ k"
proof (induction k arbitrary: n)
  case (Suc k)
  have "n mod 16 ^ Suc k = n div 16 mod 16 ^ k * 16 + n mod 16" by (simp add: mod_mult2_eq mult.commute)
  then show ?case by (simp add: Suc digits_value_snoc hex_char_digit)
qed (simp add: digits_value_def)

lemma strto_hexn:
  assumes "k > 0"
  shows "strto 16 (hexn k n) = Some (False, n mod 16 ^ k, [])"
proof -
  have all: "is_digit 16 x" "\<not> isspace x" "x \<noteq> CHR ''-''" "x \<noteq> CHR ''+''" "tolower x \<noteq> CHR ''x''"
    if "x \<in> set (hexn k n)" for x
    using hexn_digits [OF that] hex_char_digit by (auto simp: is_digit_def)
  have ne: "hexn k n \<noteq> []" using assms by (simp add: hexn_nonempty)
  then have hd: "hd (hexn k n) \<in> set (hexn k n)" by simp
  have "dropWhile isspace (hexn k n) = hexn k n" using all(2) hd ne by (cases "hexn k n") auto
  moreover have "\<not> hex_prefix (hexn k n)"
    using all(5) nth_mem [of 1 "hexn k n"] by (auto simp: hex_prefix_def)
  moreover have "takeWhile (is_digit 16) (hexn k n) = hexn k n" "dropWhile (is_digit 16) (hexn k n) = []"
    using all(1) by (simp_all add: takeWhile_eq_all_conv dropWhile_eq_Nil_conv)
  ultimately show ?thesis using ne all(3, 4) [OF hd]
    unfolding strto_def Let_def by (simp add: hexn_value del: takeWhile_eq_all_conv dropWhile_eq_Nil_conv)
qed

lemma hex_digit_char: "hex_digit w = of_nat (ord (hex_char (unat w mod 16)))"
proof -
  have "and w 0xF = take_bit 4 w" by (simp add: take_bit_eq_mask mask_numeral)
  then have "unat (and w 0xF) = unat w mod 16" by (simp only: unsigned_take_bit_eq) (simp add: take_bit_eq_mod)
  then show ?thesis unfolding hex_digit_def hex_char_def to_bytes_def by (subst nth_map) simp_all
qed


lemma hex_digit_at: "hex_digit (drop_bit k w) = of_nat (ord (hex_char (unat w div 2 ^ k mod 16)))"
proof -
  have "unat w < 2 ^ LENGTH(32)" by (rule unsigned_less)
  then have w: "take_bit 32 (unat w) = unat w" by (intro take_bit_nat_eq_self) simp
  have "unat (drop_bit k w) = unat w div 2 ^ k"
    by (simp only: unsigned_drop_bit_eq) (simp add: drop_bit_eq_div w)
  then show ?thesis by (simp add: hex_digit_char)
qed

lemma hexn_six: "hexn 6 n = map hex_char [n div 2 ^ 20 mod 16, n div 2 ^ 16 mod 16, n div 2 ^ 12 mod 16,
    n div 2 ^ 8 mod 16, n div 2 ^ 4 mod 16, n mod 16]"
proof -
  have "6 = Suc (Suc (Suc (Suc (Suc (Suc 0)))))" by simp
  then show ?thesis by (simp only: hexn.simps) (simp add: div_mult2_eq [symmetric])
qed

lemma v3_header_hex: "v3_header pid = to_bytes (''SL'' @ hexn 6 (unat pid mod 2 ^ 24))"
proof -
  have "and pid 0xFFFFFF = take_bit 24 pid" by (simp add: take_bit_eq_mask mask_numeral)
  then have seq: "unat (ucast (and pid 0xFFFFFF) :: u32) = unat pid mod 2 ^ 24"
    by (simp only: unsigned_ucast_eq unsigned_take_bit_eq) (simp add: take_bit_eq_mod mod_mod_cancel)
  show ?thesis
    unfolding v3_header_def Let_def hex_digit_at hex_digit_char [of "ucast (and pid 0xFFFFFF)"] seq hexn_six to_bytes_def
    by (simp add: ord_def)
qed

lemma v3_header_seq: "to_str (drop 2 (v3_header pid)) = hexn 6 (unat pid mod 2 ^ 24)"
proof -
  have "drop 2 (v3_header pid) = to_bytes (hexn 6 (unat pid mod 2 ^ 24))"
    unfolding v3_header_hex by (simp add: to_bytes_def del: hexn.simps)
  then show ?thesis by (simp only: to_str_bytes)
qed

lemma v3_seq_of_header:
  assumes "i < argc cmd" "arg cmd i = to_str (drop 2 (v3_header pid))"
  shows "cmdtoken_u32 cmd (int i) 16 = Some (of_nat (unat pid mod 2 ^ 24))"
proof -
  let ?n = "unat pid mod 2 ^ 24"
  have a: "arg cmd i = hexn 6 ?n"
    using assms(2) by (simp only: v3_header_seq)
  have n: "?n < 2 ^ 24" by simp
  have "\<not> signed_first (hexn 6 ?n)"
  proof -
    have "hexn 6 ?n \<noteq> []" by (simp only: hexn_nonempty)
    then have "hd (hexn 6 ?n) \<in> set (hexn 6 ?n)" by (rule hd_in_set)
    then obtain d where "d < 16" "hd (hexn 6 ?n) = hex_char d" using hexn_digits by blast
    then show ?thesis using hex_char_digit(3) [of d] by (simp add: signed_first_def del: hexn.simps)
  qed
  moreover have "strtoull_all 16 (hexn 6 ?n) = Some (of_nat ?n)"
    using strto_hexn [of 6 ?n] n by (simp add: strtoull_all_def del: hexn.simps)
  moreover have "\<not> (of_nat ?n :: u64) > 0xFFFFFFFF" using n by (simp add: word_less_nat_alt unat_of_nat)
  moreover have "(ucast (of_nat ?n :: u64) :: u32) = of_nat ?n"
    by (rule bit_word_eqI) (simp add: bit_simps)
  ultimately show ?thesis using assms(1) n
    by (simp add: cmdtoken_u32_def a del: hexn.simps)
qed


text \<open>The identifier that a sequence number stands for, when the latest packet is \<open>latest\<close>.\<close>

lemma v3_packetid_value:
  assumes "fst (RingReadPacket p (latestoffset p) empty_packet False) = latest" "latest \<le> RINGID_MAXIMUM"
  shows "v3_packetid p (of_nat (unat pid mod 2 ^ 24)) = or (push_bit 24 (drop_bit 24 latest)) (take_bit 24 pid)"
proof -
  have s: "(of_nat (unat pid mod 2 ^ 24) :: u32) = ucast (take_bit 24 pid)"
    unfolding take_bit_eq_mod [symmetric] by (rule bit_word_eqI) (auto simp: bit_simps)
  have m: "0xFFFFFFFFFF000000 = (not (mask 24) :: u64)" "0xFFFFFF = (mask 24 :: u32)" by (simp_all add: mask_numeral)
  show ?thesis
    unfolding v3_packetid_def Let_def assms(1) s m
    using assms(2) by (simp, intro bit_word_eqI) (auto simp: bit_simps)
qed

lemma v3_packetid_same:
  fixes latest pid :: u64
  shows "or (push_bit 24 (drop_bit 24 latest)) (take_bit 24 pid) = pid \<longleftrightarrow> drop_bit 24 latest = drop_bit 24 pid"
proof
  assume "or (push_bit 24 (drop_bit 24 latest)) (take_bit 24 pid) = pid"
  then have "drop_bit 24 pid = drop_bit 24 (or (push_bit 24 (drop_bit 24 latest)) (take_bit 24 pid))" by simp
  then show "drop_bit 24 latest = drop_bit 24 pid"
    by (intro bit_word_eqI) (auto simp: bit_simps dest: bit_imp_le_length)
next
  assume "drop_bit 24 latest = drop_bit 24 pid"
  then show "or (push_bit 24 (drop_bit 24 latest)) (take_bit 24 pid) = pid"
    by (simp, intro bit_word_eqI) (auto simp: bit_simps)
qed

text \<open>
  C37: a client of version 3 that asks for the sequence number it finds in the header of a packet asks for
  exactly that packet if the number of the latest packet agrees with it above the lowest 24 bits, and for
  another one otherwise; so after the latest identifier has passed a multiple of \<open>2 ^ 24\<close> no packet from
  before it can be asked for, however few packets ago it was.
\<close>

theorem v3_sequence_round_trip:
  assumes "i < argc cmd" "arg cmd i = to_str (drop 2 (v3_header pid))"
    and "fst (RingReadPacket p (latestoffset p) empty_packet False) = latest" "latest \<le> RINGID_MAXIMUM"
  shows "map_option (v3_packetid p) (cmdtoken_u32 cmd (int i) 16)
      = Some (or (push_bit 24 (drop_bit 24 latest)) (take_bit 24 pid))
    \<and> (map_option (v3_packetid p) (cmdtoken_u32 cmd (int i) 16) = Some pid \<longleftrightarrow> unat latest div 2 ^ 24 = unat pid div 2 ^ 24)"
proof -
  have d: "unat (drop_bit 24 w) = unat w div 2 ^ 24" for w :: u64
  proof -
    have "unat w < 2 ^ LENGTH(64)" by (rule unsigned_less)
    then have "take_bit 64 (unat w) = unat w" by (intro take_bit_nat_eq_self) simp
    then show ?thesis by (simp only: unsigned_drop_bit_eq) (simp add: drop_bit_eq_div)
  qed
  have "drop_bit 24 latest = drop_bit 24 pid \<longleftrightarrow> unat latest div 2 ^ 24 = unat pid div 2 ^ 24"
    by (simp only: d [symmetric] word_unat_eq_iff)
  then show ?thesis
    by (simp only: v3_seq_of_header [OF assms(1,2)] option.map v3_packetid_value [OF assms(3,4)] option.inject v3_packetid_same)
qed


text \<open>The latest packet is number \<open>2 ^ 24 + 5\<close>.\<close>

definition rolled_ring :: param_s where
  "rolled_ring = zero_param\<lparr>ringmem := (\<lambda>_. \<lparr>hdr = empty_packet\<lparr>pktid := 16777221\<rparr>, payload = []\<rparr>)\<rparr>"

definition data_cmd :: "string \<Rightarrow> CmdToken" where
  "data_cmd seq = the (cmdtoken_parse (''DATA '' @ seq))"

theorem v3_sequence_round_trip_witness:
  "map_option (v3_packetid rolled_ring) (cmdtoken_u32 (data_cmd ''000004'') 1 16) = Some 16777220 \<and>
   map_option (v3_packetid rolled_ring) (cmdtoken_u32 (data_cmd ''FFFFFE'') 1 16) \<noteq> Some 16777214"
proof -
  have latest: "fst (RingReadPacket rolled_ring (latestoffset rolled_ring) empty_packet False) = 16777221"
    by (simp add: rolled_ring_def zero_param_def RingReadPacket_def RingReadPacket_il_def copy_header_def Let_def
        empty_packet_def)
  have le: "(16777221 :: u64) \<le> RINGID_MAXIMUM" by (simp add: ringid_defs)
  have h: "hexn 6 4 = ''000004''" "hexn 6 16777214 = ''FFFFFE''"
    by (simp_all only: hexn_six) (simp_all add: hex_char_def)
  have c: "argc (data_cmd ''000004'') = 2" "arg (data_cmd ''000004'') 1 = ''000004''"
    "argc (data_cmd ''FFFFFE'') = 2" "arg (data_cmd ''FFFFFE'') 1 = ''FFFFFE''" by code_simp+
  have a: "arg (data_cmd ''000004'') 1 = to_str (drop 2 (v3_header 16777220))"
    "arg (data_cmd ''FFFFFE'') 1 = to_str (drop 2 (v3_header 16777214))"
    unfolding v3_header_seq c by (simp_all add: h del: hexn.simps)
  show ?thesis
    using v3_sequence_round_trip [of 1 "data_cmd ''000004''" 16777220, OF _ a(1) latest le]
      v3_sequence_round_trip [of 1 "data_cmd ''FFFFFE''" 16777214, OF _ a(2) latest le]
    by (simp add: c)
qed


section \<open>Records of version 4\<close>

text \<open>
  What a client reads: signature and format, identifier, station, payload, and what follows.
\<close>

definition v4_read :: "byte list \<Rightarrow> string \<times> nat \<times> string \<times> byte list \<times> byte list" where
  "v4_read m = (let n = unat (m ! 16); len = le_value (take 4 (drop 4 m))
     in (to_str (take 4 m), le_value (take 8 (drop 8 m)), to_str (take n (drop 17 m)),
         take len (drop (17 + n) m), drop (17 + n + len) m))"

lemma v4_read_parts:
  assumes "length a = 4" "length l = 4" "length i = 8" "unat x = length st" "le_value l = length body"
  shows "v4_read (a @ l @ i @ x # st @ body @ rest) = (to_str a, le_value i, to_str st, body, rest)"
  using assms by (simp add: v4_read_def Let_def nth_append)

lemma v4_read_header:
  assumes "length body < 2 ^ 32" "length staid < 256"
  shows "v4_read (v4_header pid (length body) staid fmt subfmt @ body @ rest)
    = (''SE'' @ [fmt, subfmt], unat pid, staid, body, rest)"
proof -
  let ?a = "to_bytes (''SE'' @ [fmt, subfmt])"
  have "v4_header pid (length body) staid fmt subfmt @ body @ rest = ?a @ le_bytes 4 (length body) @ le_bytes 8 (unat pid)
      @ of_nat (length staid) # to_bytes staid @ body @ rest"
    using assms(2) by (simp add: v4_header_def to_bytes_def)
  moreover have "le_value (le_bytes 4 (length body)) = length body" using assms(1) by (simp only: le_value_bytes) simp
  moreover have "le_value (le_bytes 8 (unat pid)) = unat pid"
    using unsigned_less [where 'a = nat, of pid] by (simp only: le_value_bytes) simp
  moreover have "unat (of_nat (length staid) :: byte) = length (to_bytes staid)" using assms(2) by (simp add: unat_of_nat)
  moreover have "to_str ?a = ''SE'' @ [fmt, subfmt]" by (rule to_str_bytes)
  ultimately show ?thesis
    using v4_read_parts [of ?a "le_bytes 4 (length body)" "le_bytes 8 (unat pid)" "of_nat (length staid)" "to_bytes staid" body rest]
    by (simp only: length_le_bytes length_to_bytes to_str_bytes) simp
qed

lemma record_staid_length: "record_staid sid = Some staid \<Longrightarrow> length staid < 256"
  by (auto simp: record_staid_def snprintf_def MAXSTREAMID_def split: if_splits option.splits)

text \<open>
  C16: a record that \<open>SendRecord\<close> sends to a client of version 4 on a plain connection goes out as one packet
  from which the client reads the format, the packet identifier, the station of the stream and exactly the
  record, with nothing of what follows it.
\<close>

theorem v4_record_round_trip:
  assumes "SendRecord env srv pkt rec n c = (0, c')" "proto_major (slinfo c) = 4" "\<not> websocket (info c)"
    "n \<le> length rec" "n < 2 ^ 32"
  shows "\<exists>m staid fmt. wire (info c') = wire (info c) @ m
    \<and> record_staid (streamid pkt) = Some staid \<and> record_format rec = Some fmt
    \<and> (\<forall>rest. v4_read (m @ rest) = (''SE'' @ [fmt, CHR ''D''], unat (pktid pkt), staid, take n rec, rest))"
proof -
  obtain staid fmt where r: "record_staid (streamid pkt) = Some staid" "record_format rec = Some fmt"
    using assms(1,2) by (auto simp: SendRecord_def split: option.splits)
  let ?h = "v4_header (pktid pkt) (length (take n rec)) staid fmt CHR ''D''"
  have "SL_SendPacket env srv (pktid pkt) (take n rec) staid fmt CHR ''D'' c = (0, c')"
    using assms(1,2) by (simp add: SendRecord_def r)
  then obtain i where i: "SendDataMB (io_of (dl env) srv) (nsent0 (dl env)) (info c) [?h, take n rec] False = (0, i)"
      "info c' = i"
    using assms(2) by (auto simp: SL_SendPacket_def Let_def split: prod.splits if_splits)
  have "wire (info c') = wire (info c) @ ?h @ take n rec"
    using SendDataMB_wire [OF i(1) _ assms(3)] i(2) by simp
  moreover have "v4_read ((?h @ take n rec) @ rest)
      = (''SE'' @ [fmt, CHR ''D''], unat (pktid pkt), staid, take n rec, rest)" for rest
    unfolding append_assoc by (rule v4_read_header) (use assms(5) record_staid_length [OF r(1)] in auto)
  ultimately show ?thesis using r by blast
qed


lemma SendRecord_sends:
  assumes "proto_major (slinfo c) = 4" "\<not> websocket (info c)" "willing (outq (info c))"
    "record_staid (streamid pkt) = Some staid" "record_format rec = Some fmt"
    "17 + length staid + n \<le> total_room (outq (info c))" "n \<le> length rec" "n < 2 ^ 30"
  shows "\<exists>c'. SendRecord env srv pkt rec n c = (0, c')"
proof -
  let ?h = "v4_header (pktid pkt) (length (take n rec)) staid fmt CHR ''D''"
  let ?cfg = "io_of (dl env) srv"
  obtain rv i where s: "SendDataMB ?cfg (nsent0 (dl env)) (info c) [?h, take n rec] False = (rv, i)"
    by (cases "SendDataMB ?cfg (nsent0 (dl env)) (info c) [?h, take n rec] False")
  have len: "length ?h = 17 + length staid" using record_staid_length [OF assms(4)] by (simp add: v4_header_def to_bytes_def)
  have "rv = 0"
    using SendDataMB_willing [OF s _ assms(2,3)] assms(6-8) len record_staid_length [OF assms(4)]
    by (auto simp: v4_header_def)
  then show ?thesis using s assms(1,4,5) by (simp add: SendRecord_def SL_SendPacket_def Let_def)
qed

definition sl_demo_env :: "string sl_env" where
  "sl_demo_env = \<lparr>dl = dl_demo_env, serverid = ''Ring Server'', epoch_now = 1000, calendar_now = (2026, 1, 2, 3, 4),
     mdtimestr2nstime = (\<lambda>_. 0), repack_mseed3 = (\<lambda>_. None), slv3_xml = (\<lambda>level. Some level),
     slv4_json = (\<lambda>item m. Some item), slv4_error = (\<lambda>code msg. Some msg)\<rparr>"

definition sl_demo_client :: "string SLClient" where
  "sl_demo_client = \<lparr>info = demo_client, started = True, slinfo = new_SLInfo\<lparr>proto_major := 4\<rparr>,
     starttime = NSTUNSET, endtime = NSTUNSET\<rparr>"

definition demo_record :: "byte list" where
  "demo_record = [0x4D, 0x53, 3, 0, 0, 0, 0, 0, 0, 0, 0, 0, 1, 2, 3, 9]"

lemma demo_record: "record_format demo_record = Some CHR ''3''" "length demo_record = 16"
  by (simp_all add: demo_record_def record_format_def MS3_ISVALIDHEADER_def octet_def)

theorem v4_record_round_trip_witness:
  "\<exists>c' m. SendRecord sl_demo_env (demo_server demo_ring) (demo_packet ''FDSN:XX_ABC_00_B_H_Z/MSEED3'' demo_record)
       demo_record 16 sl_demo_client = (0, c')
    \<and> wire (info c') = m \<and> v4_read m = (''SE3D'', unat RINGID_NONE, ''XX_ABC'', demo_record, [])"
proof -
  let ?pkt = "demo_packet ''FDSN:XX_ABC_00_B_H_Z/MSEED3'' demo_record"
  have staid: "record_staid (streamid ?pkt) = Some ''XX_ABC''" by (simp add: demo_packet_def) code_simp
  have c: "proto_major (slinfo sl_demo_client) = 4" "\<not> websocket (info sl_demo_client)"
      "outq (info sl_demo_client) = [Room 4000]" "wire (info sl_demo_client) = []"
    by (simp_all add: sl_demo_client_def demo_client_def)
  obtain c' where s: "SendRecord sl_demo_env (demo_server demo_ring) ?pkt demo_record 16 sl_demo_client = (0, c')"
    using SendRecord_sends [OF c(1,2) _ staid demo_record(1), of 16] by (auto simp: c willing_def demo_record(2))
  obtain m where "wire (info c') = m"
      "\<forall>rest. v4_read (m @ rest) = (''SE3D'', unat RINGID_NONE, ''XX_ABC'', demo_record, rest)"
    using v4_record_round_trip [OF s c(1,2)]
    by (auto simp: demo_record staid c) (simp add: demo_packet_def)
  then show ?thesis using s by (metis append_Nil2)
qed

section \<open>Labels\<close>

lemma takeWhile_last: "x \<notin> set t \<Longrightarrow> rev (takeWhile (\<lambda>c. c \<noteq> x) (rev (s @ x # t))) = t"
  by (auto simp: takeWhile_append)

lemma ms_sid2nslc_n_fdsn:
  assumes "CHR '':'' \<notin> set (nw @ sta @ rest)" "CHR ''_'' \<notin> set nw" "CHR ''_'' \<notin> set sta"
  shows "ms_sid2nslc_n (''FDSN:'' @ nw @ ''_'' @ sta @ ''_'' @ rest)
    = (if length (filter (\<lambda>c. c = CHR ''_'') rest) = 3 then Some (take 15 nw, take 15 sta) else None)"
proof -
  let ?b = "nw @ ''_'' @ sta @ ''_'' @ rest"
  have colon: "rev (takeWhile (\<lambda>c. c \<noteq> CHR '':'') (rev (''FDSN:'' @ ?b))) = ?b"
    using takeWhile_last [of "CHR '':''" ?b "''FDSN''"] assms(1) by auto
  have none: "filter (\<lambda>c. c = CHR ''_'') x = []" if "CHR ''_'' \<notin> set x" for x
    using that by (auto simp: filter_empty_conv)
  have split: "takeWhile (\<lambda>c. c \<noteq> CHR ''_'') (x @ CHR ''_'' # y) = x" "dropWhile (\<lambda>c. c \<noteq> CHR ''_'') (x @ CHR ''_'' # y) = CHR ''_'' # y"
    if "CHR ''_'' \<notin> set x" for x y
    using that by (auto simp: takeWhile_append dropWhile_append)
  have take5: "take 5 (''FDSN:'' @ ?b) = ''FDSN:''" by simp
  show ?thesis
    unfolding ms_sid2nslc_n_def take5 colon Let_def using none [OF assms(2)] none [OF assms(3)] split [OF assms(2)] split [OF assms(3)]
    by simp
qed




section \<open>INFO of version 3\<close>

text \<open>
  What a client reads of an answer: packets of 520 bytes, the text of each as long as its number of samples
  says, up to the packet with the signature of the last one.
\<close>

function v3_info_read :: "byte list \<Rightarrow> string" where
  "v3_info_read m =
     (if length m < 520 then []
      else to_str (take (be_value (take 2 (drop 38 m))) (drop 64 m))
        @ (if take 8 m = to_bytes ''SLINFO  '' then [] else v3_info_read (drop 520 m)))"
  by pat_completeness auto
termination by (relation "measure length") auto

declare v3_info_read.simps [simp del]

text \<open>A record up to the number of samples and from there to the text.\<close>

lemma info_record_shape:
  assumes "length body \<le> 456"
  shows "\<exists>a b. info_record env e n body = a @ [of_nat (length body div 256), of_nat (length body)] @ b @ to_bytes body
      @ replicate (456 - length body) 0 \<and> length a = 30 \<and> length b = 24"
proof -
  obtain y d h m s where cal: "calendar_now env = (y, d, h, m, s)" by (cases "calendar_now env")
  have six: "length (take 6 (six_digits n)) = 6" by (simp add: six_digits_def)
  have two: "be_bytes 2 k = [of_nat (k div 256), of_nat k]" for k by (simp add: be_bytes_def numeral_2_eq_2)
  let ?a = "to_bytes (take 6 (six_digits n) @ ''D '' @ ''INFO '' @ ''  '' @ (if e then ''ERR'' else ''INF'') @ ''XX'')
       @ be_bytes 2 y @ be_bytes 2 d @ [of_nat h, of_nat m, of_nat s, 0] @ be_bytes 2 0"
  let ?b = "be_bytes 2 0 @ be_bytes 2 0 @ [0, 0, 0, 1] @ [0, 0, 0, 0] @ be_bytes 2 56 @ be_bytes 2 48
       @ be_bytes 2 1000 @ be_bytes 2 0 @ [0, 1, 9, 0]"
  have "info_record env e n body = ?a @ [of_nat (length body div 256), of_nat (length body)] @ ?b @ to_bytes body
      @ replicate (456 - length body) 0"
    by (simp add: info_record_def cal two del: to_bytes_append)
  moreover have "length ?a = 30" using six by (simp add: two del: to_bytes_append)
  moreover have "length ?b = 24" by (simp add: two)
  ultimately show ?thesis by blast
qed

lemma v3_info_read_packet:
  assumes "length body \<le> 456" "length sig = 8"
  shows "v3_info_read ((sig @ info_record env e n body) @ rest)
    = body @ (if sig = to_bytes ''SLINFO  '' then [] else v3_info_read rest)"
    "length (sig @ info_record env e n body) = 520"
proof -
  obtain a b where r: "info_record env e n body = a @ [of_nat (length body div 256), of_nat (length body)] @ b @ to_bytes body
      @ replicate (456 - length body) 0" "length a = 30" "length b = 24"
    using info_record_shape [OF assms(1)] by blast
  have v: "be_value [of_nat (length body div 256), of_nat (length body)] = length body"
    using assms(1) by (simp add: be_value_def unat_of_nat)
  show l: "length (sig @ info_record env e n body) = 520" using assms r(2,3) by (simp add: r(1))
  let ?m = "(sig @ info_record env e n body) @ rest"
  have "take 2 (drop 38 ?m) = [of_nat (length body div 256), of_nat (length body)]"
    using assms(2) r(2) by (simp add: r(1))
  moreover have "drop 64 ?m = to_bytes body @ replicate (456 - length body) 0 @ rest"
    using assms(2) r(2,3) by (simp add: r(1))
  moreover have "take 8 ?m = sig" using assms(2) by simp
  moreover have "drop 520 ?m = rest" using l by simp
  moreover have "\<not> length ?m < 520" using l by simp
  ultimately show "v3_info_read ?m = body @ (if sig = to_bytes ''SLINFO  '' then [] else v3_info_read rest)"
    by (subst v3_info_read.simps) (simp only: v if_False, simp)
qed

lemma SendInfoRecord_sent:
  assumes "SendInfoRecord env srv rec c = c'" "\<not> websocket (info c)" "socketerr (info c') = 0" "length rec < 2 ^ 20"
  shows "wire (info c') = wire (info c) @ to_bytes (if terminfo (slinfo c) then ''SLINFO  '' else ''SLINFO *'') @ rec"
    "\<not> websocket (info c')" "slinfo c' = slinfo c"
proof -
  let ?bufs = "[to_bytes (if terminfo (slinfo c) then ''SLINFO  '' else ''SLINFO *''), rec]"
  obtain rv i where s: "SendDataMB (io_of (dl env) srv) (nsent0 (dl env)) (info c) ?bufs False = (rv, i)"
    by (cases "SendDataMB (io_of (dl env) srv) (nsent0 (dl env)) (info c) ?bufs False")
  have c': "c' = c\<lparr>info := i\<rparr>" using assms(1) s by (auto simp: SendInfoRecord_def Let_def)
  have ne: "?bufs \<noteq> []" by simp
  have rv: "rv = 0" using s ne
  proof (cases rule: SendDataMB_run)
    case early
    have "length (concat ?bufs) < 2 ^ 31" using assms(4) by simp
    then have "length ?bufs \<ge> 10" by (rule early(3))
    then show ?thesis by simp
  next
    case (run iov r out evs now)
    then show ?thesis using assms(3) c' by fastforce
  qed
  show "wire (info c') = wire (info c) @ to_bytes (if terminfo (slinfo c) then ''SLINFO  '' else ''SLINFO *'') @ rec"
    using SendDataMB_wire [OF s [unfolded rv] ne assms(2)] c' by simp
  show "\<not> websocket (info c')" "slinfo c' = slinfo c"
    using SendDataMB_session [OF s] assms(2) c' by (simp_all add: same_session_def)
qed

lemma Info_loop_sent:
  assumes "xml \<noteq> []" "\<not> websocket (info c)" "socketerr (info c) = 0" "socketerr (info (Info_loop env srv e n xml c)) = 0"
  shows "\<exists>m. wire (info (Info_loop env srv e n xml c)) = wire (info c) @ m
    \<and> length m = 520 * ((length xml + 455) div 456) \<and> (\<forall>rest. v3_info_read (m @ rest) = xml)"
  using assms
proof (induction env srv e n xml c rule: Info_loop.induct)
  case (1 env srv e n xml c)
  define body where "body = take (min 456 (length xml)) xml"
  define rest where "rest = drop (min 456 (length xml)) xml"
  define c1 where "c1 = set_sl (\<lambda>sl. sl\<lparr>terminfo := (rest = [])\<rparr>) c"
  define c2 where "c2 = SendInfoRecord env srv (info_record env e n body) c1"
  define n' where "n' = (if n \<ge> 999999 then 1 else n + 1)"
  define sig where "sig = to_bytes (if rest = [] then ''SLINFO  '' else ''SLINFO *'')"
  have loop: "Info_loop env srv e n xml c = Info_loop env srv e n' rest c2"
    using "1.prems" by (subst Info_loop.simps) (simp add: body_def rest_def c1_def c2_def n'_def Let_def)
  have body: "length body \<le> 456" "body @ rest = xml" by (simp_all add: body_def rest_def)
  have sig: "length sig = 8" by (simp add: sig_def)
  note packet = v3_info_read_packet [OF body(1) sig, of env e n]
  have c1: "info c1 = info c" "terminfo (slinfo c1) \<longleftrightarrow> rest = []" by (simp_all add: c1_def set_sl_def)
  have ok: "socketerr (info c2) = 0"
  proof (rule ccontr)
    assume "socketerr (info c2) \<noteq> 0"
    then have "Info_loop env srv e n' rest c2 = c2" by (subst Info_loop.simps) simp
    then show False using "1.prems"(4) loop \<open>socketerr (info c2) \<noteq> 0\<close> by simp
  qed
  have "length (info_record env e n body) < 2 ^ 20" using packet(2) sig by simp
  note sent = SendInfoRecord_sent [OF c2_def [symmetric] _ ok this, unfolded c1, folded sig_def]
  show ?case
  proof (cases "rest = []")
    case True
    then have "Info_loop env srv e n xml c = c2" unfolding loop by (subst Info_loop.simps) simp
    moreover have "(length xml + 455) div 456 = 1"
    proof -
      have "0 < length xml" "length xml \<le> 456" using True "1.prems"(1) by (simp_all add: rest_def)
      then show ?thesis by (intro div_nat_eqI) (linarith, simp)
    qed
    moreover have "sig = to_bytes ''SLINFO  ''" "body = xml" using True body(2) by (simp_all add: sig_def)
    ultimately show ?thesis
      using sent(1) "1.prems"(2) packet by (intro exI [of _ "sig @ info_record env e n body"]) auto
  next
    case False
    have fin: "socketerr (info (Info_loop env srv e n' rest c2)) = 0" using "1.prems"(4) by (simp add: loop)
    obtain m where m: "wire (info (Info_loop env srv e n' rest c2)) = wire (info c2) @ m"
        "length m = 520 * ((length rest + 455) div 456)" "\<forall>r. v3_info_read (m @ r) = rest"
      using "1.IH" [OF _ refl rest_def c1_def, folded body_def c2_def n'_def]
        "1.prems"(1-3) False sent(2) ok fin by blast
    have "456 < length xml" using False by (auto simp: rest_def)
    then have "(length xml + 455) div 456 = Suc ((length rest + 455) div 456)" by (simp add: rest_def)
    moreover have "sig \<noteq> to_bytes ''SLINFO  ''" using False by (simp add: sig_def to_bytes_def ord_def)
    ultimately show ?thesis
      unfolding loop using sent(1) "1.prems"(2) m packet body(2)
      by (intro exI [of _ "(sig @ info_record env e n body) @ m"]) auto
  qed
qed


text \<open>
  C23: the answer to an INFO request of version 3, sent without a socket error on a plain connection, is the
  document: as many packets of 520 bytes as hold it with 456 characters each, the last and only the last
  marked as the end, and their texts together are the document without a final newline.
\<close>

theorem v3_info_round_trip:
  assumes "HandleInfo_v3 env srv cmd c = (0, c')" "socketerr (info c) = 0" "\<not> websocket (info c)"
    "argc cmd \<ge> 2" "arg cmd 1 \<noteq> []" "fst (Info_v3_document env cmd c) = Some xml" "trim_newline xml \<noteq> []"
  shows "\<exists>m. wire (info c') = wire (info c) @ m \<and> length m = 520 * ((length (trim_newline xml) + 455) div 456)
    \<and> (\<forall>rest. v3_info_read (m @ rest) = trim_newline xml)"
proof -
  obtain e where d: "Info_v3_document env cmd c = (Some xml, e)" using assms(6) by (metis prod.collapse)
  have "c' = Info_loop env srv e 1 (trim_newline xml) c" "socketerr (info c') = 0"
    using assms(1,4,5) d by (auto simp: HandleInfo_v3_def Let_def split: if_splits)
  then show ?thesis using Info_loop_sent [OF assms(7,3,2), of env srv e 1] by simp
qed

lemma Info_loop_one:
  assumes "0 < length xml" "length xml \<le> 456" "\<not> websocket (info c)" "socketerr (info c) = 0" "willing (outq (info c))"
    "total_room (outq (info c)) \<ge> 520"
  shows "socketerr (info (Info_loop env srv e n xml c)) = 0"
proof -
  define c1 where "c1 = set_sl (\<lambda>sl. sl\<lparr>terminfo := True\<rparr>) c"
  let ?r = "info_record env e n xml"
  let ?bufs = "[to_bytes (if terminfo (slinfo c1) then ''SLINFO  '' else ''SLINFO *''), ?r]"
  have c1: "info c1 = info c" by (simp add: c1_def set_sl_def)
  have l: "length (replicate 8 0 @ ?r) = 520" by (rule v3_info_read_packet(2) [OF assms(2)]) simp
  obtain rv i where s: "SendDataMB (io_of (dl env) srv) (nsent0 (dl env)) (info c1) ?bufs False = (rv, i)"
    by (cases "SendDataMB (io_of (dl env) srv) (nsent0 (dl env)) (info c1) ?bufs False")
  have "rv = 0 \<and> socketerr i = socketerr (info c1)"
    by (rule SendDataMB_willing [OF s]) (use assms(3,5,6) l in \<open>auto simp: c1\<close>)
  then have "socketerr (info (SendInfoRecord env srv ?r c1)) = 0" using s assms(4) c1 by (simp add: SendInfoRecord_def Let_def)
  moreover have "xml \<noteq> []" using assms(1) by auto
  ultimately show ?thesis
    using assms(2,4) by (subst Info_loop.simps) (simp add: Let_def Info_loop.simps [of _ _ _ _ "[]"] c1_def)
qed

theorem v3_info_round_trip_witness:
  "\<exists>m c'. HandleInfo_v3 sl_demo_env (demo_server demo_ring) (the (cmdtoken_parse ''info id'')) sl_demo_client = (0, c')
    \<and> wire (info c') = m \<and> length m = 520 \<and> v3_info_read m = ''ID''"
proof -
  define k where "k = the (cmdtoken_parse ''info id'')"
  have cmd: "argc k = 2" "arg k 1 = ''id''" "cmdtoken_eq_nocase k 1 ''ID''" unfolding k_def by code_simp+
  have c: "\<not> websocket (info sl_demo_client)" "socketerr (info sl_demo_client) = 0" "wire (info sl_demo_client) = []"
      "outq (info sl_demo_client) = [Room 4000]"
    by (simp_all add: sl_demo_client_def demo_client_def)
  have doc: "Info_v3_document sl_demo_env k sl_demo_client = (Some ''ID'', False)"
    by (simp add: Info_v3_document_def cmd sl_demo_env_def)
  have trim: "trim_newline ''ID'' = ''ID''" by (simp add: trim_newline_def)
  let ?l = "Info_loop sl_demo_env (demo_server demo_ring) False 1 ''ID'' sl_demo_client"
  have "HandleInfo_v3 sl_demo_env (demo_server demo_ring) k sl_demo_client = (if socketerr (info ?l) \<noteq> 0 then -1 else 0, ?l)"
    unfolding HandleInfo_v3_def doc using cmd(1,2) by (simp add: trim Let_def)
  moreover have "socketerr (info ?l) = 0" by (rule Info_loop_one) (simp_all add: c willing_def)
  ultimately obtain c' where s: "HandleInfo_v3 sl_demo_env (demo_server demo_ring) k sl_demo_client = (0, c')"
    by simp
  have "fst (Info_v3_document sl_demo_env k sl_demo_client) = Some ''ID''" by (simp add: doc)
  moreover have "argc k \<ge> 2" "arg k 1 \<noteq> []" by (simp_all add: cmd del: One_nat_def)
  ultimately obtain m where
    "wire (info c') = m" "length m = 520" "\<forall>rest. v3_info_read (m @ rest) = ''ID''"
    using v3_info_round_trip [OF s c(2,1)] by (auto simp: trim c)
  then show ?thesis using s unfolding k_def by (metis append_Nil2)
qed

end
