(* ===== verification/RS_SLSession.thy ===== *)
theory RS_SLSession
  imports RS_SLWire
begin

text \<open>
  SeedLink sessions: the iteration of \<open>ClientThread\<close> (\<open>ringserver-4/src/clients.c\<close>) for a SeedLink client,
  the types that its state keeps whatever the client sends, and the authentication that streaming needs.
\<close>

section \<open>Well-formed requests\<close>

definition selector_ok :: "Selector \<Rightarrow> bool" where
  "selector_ok s \<longleftrightarrow> length (sel_string s) < MAXSTREAMID \<and> set (sel_string s) \<subseteq> set VALIDSELECTCHARS
     \<and> length (sel_label s) < SLMAXLABELLEN \<and> set (sel_label s) \<subseteq> set VALIDLABELCHARS"

definition stations_ok :: "(string \<times> ReqStationID) list \<Rightarrow> bool" where
  "stations_ok tree \<longleftrightarrow> ol_sorted StaKeyCompare tree
     \<and> (\<forall>(k, st) \<in> set tree. length k \<le> 50 \<and> (\<forall>s \<in> set (rq_selectors st). selector_ok s))"

definition sl_ok :: "SLInfo \<Rightarrow> bool" where
  "sl_ok sl \<longleftrightarrow> (proto_major sl = 3 \<or> proto_major sl = 4 \<and> proto_minor sl = 0)
     \<and> 0 \<le> stationcount sl \<and> stationcount sl \<le> SLMAXSTATIONS \<and> length (reqstaid sl) \<le> 50
     \<and> (\<forall>s \<in> set (selectors sl). selector_ok s) \<and> stations_ok (stations sl)"

lemma only_chars_set: "only_chars valid s \<longleftrightarrow> set s \<subseteq> set valid"
proof -
  have "length (takeWhile P s) = length s \<longleftrightarrow> takeWhile P s = s" for P
    using takeWhile_eq_take [of P s] by (metis order_refl take_all)
  then show ?thesis by (auto simp: only_chars_def takeWhile_eq_all_conv)
qed

lemma split_last_eq: "split_last d s = Some (a, b) \<Longrightarrow> s = a @ d # b"
  by (induction s arbitrary: a b) (auto split: option.splits if_splits)

subsection \<open>Selectors\<close>

lemma selector_filter_ok:
  "selector_filter major tok = Inr (pat, label, conv) \<Longrightarrow>
   length pat \<le> length tok \<and> length label < SLMAXLABELLEN \<and> set label \<subseteq> set VALIDLABELCHARS"
  by (auto simp: selector_filter_def only_chars_set SLMAXLABELLEN_def split: option.splits if_splits dest!: split_last_eq)

lemma selector_v3_length: "selector_v3 tok = Inr pat \<Longrightarrow> length pat \<le> 10"
  by (auto simp: selector_v3_def Let_def split: if_splits)

lemma parse_selector_ok: "parse_selector major tok = Inr s \<Longrightarrow> selector_ok s"
proof -
  assume a: "parse_selector major tok = Inr s"
  then obtain pat label conv where f: "length tok < MAXSTREAMID" "selector_filter major tok = Inr (pat, label, conv)"
    by (auto simp: parse_selector_def split: if_splits sum.splits)
  let ?pat1 = "case split_last CHR ''.'' pat of Some (a, _) \<Rightarrow> a | None \<Rightarrow> pat"
  obtain pat2 where p: "(if major = 3 then selector_v3 ?pat1 else Inr ?pat1) = Inr pat2" "only_chars VALIDSELECTCHARS pat2"
      "s = \<lparr>sel_string = pat2, sel_label = label, sel_convert = conv\<rparr>"
    using a f by (auto simp: parse_selector_def Let_def split: if_splits sum.splits)
  have "length ?pat1 < MAXSTREAMID"
    using f(1) selector_filter_ok [OF f(2)] by (auto split: option.split dest!: split_last_eq)
  then have "length pat2 < MAXSTREAMID"
    using p(1) selector_v3_length by (fastforce simp: MAXSTREAMID_def split: if_splits)
  then show ?thesis using p(2,3) selector_filter_ok [OF f(2)] by (simp add: selector_ok_def only_chars_set)
qed

lemma parse_selectors_ok: "parse_selectors major ts = Inr sels \<Longrightarrow> \<forall>s \<in> set sels. selector_ok s"
  by (induction ts arbitrary: sels) (auto split: sum.splits dest: parse_selector_ok)

lemma SELECT_selectors_ok: "SELECT_selectors major cmd = Inr sels \<Longrightarrow> \<forall>s \<in> set sels. selector_ok s"
  by (auto simp: SELECT_selectors_def split: if_splits dest: parse_selectors_ok)

lemma LinkSelectorLists_set: "set (LinkSelectorLists l p n) = set p \<union> set l \<union> set n"
  by (auto simp: LinkSelectorLists_def)

subsection \<open>Stations\<close>

lemma stations_ok_insert:
  assumes "stations_ok tree" "GetReqStationID ok tree key = Some (st, tree')" "length key \<le> 50"
  shows "stations_ok tree'"
proof (cases "ol_find StaKeyCompare tree key")
  case None
  then have "tree' = ol_insert StaKeyCompare tree key new_ReqStationID"
    using assms(2) by (auto simp: GetReqStationID_def split: if_splits)
  then show ?thesis
    using assms(1,3) None sta.sorted_insert [of tree key] by (auto simp: stations_ok_def ol_insert_keys new_ReqStationID_def)
qed (use assms(1,2) in \<open>simp add: GetReqStationID_def\<close>)

lemma stations_ok_update:
  assumes "stations_ok tree" "\<And>st. \<forall>s \<in> set (rq_selectors st). selector_ok s \<Longrightarrow> \<forall>s \<in> set (rq_selectors (f st)). selector_ok s"
  shows "stations_ok (ol_update StaKeyCompare tree key f)"
  unfolding stations_ok_def
proof (intro conjI ballI)
  show "ol_sorted StaKeyCompare (ol_update StaKeyCompare tree key f)"
    using assms(1) by (simp add: stations_ok_def sta.sorted_update)
  fix e assume "e \<in> set (ol_update StaKeyCompare tree key f)"
  then obtain k st st0 where e: "e = (k, st)" "(k, st0) \<in> set tree" "st = st0 \<or> st = f st0"
    using ol_update_member [of "fst e" "snd e"] by (metis prod.collapse)
  then show "case e of (k, st) \<Rightarrow> length k \<le> 50 \<and> (\<forall>s \<in> set (rq_selectors st). selector_ok s)"
    using assms by (fastforce simp: stations_ok_def)
qed

section \<open>What sending leaves\<close>

text \<open>Everything of a client but its connection.\<close>

lemma SendDataMB_leaves [simp]:
  "rights (snd (SendDataMB cfg ns i bufs no)) = rights i" "streams (snd (SendDataMB cfg ns i bufs no)) = streams i"
  "permissions (snd (SendDataMB cfg ns i bufs no)) = permissions i" "state (snd (SendDataMB cfg ns i bufs no)) = state i"
  "reader (snd (SendDataMB cfg ns i bufs no)) = reader i" "packet (snd (SendDataMB cfg ns i bufs no)) = packet i"
  "recvbuf (snd (SendDataMB cfg ns i bufs no)) = recvbuf i" "websocket (snd (SendDataMB cfg ns i bufs no)) = websocket i"
proof -
  obtain rv i' where s: "SendDataMB cfg ns i bufs no = (rv, i')" by (cases "SendDataMB cfg ns i bufs no")
  note SendDataMB_session [OF s]
  then show "rights (snd (SendDataMB cfg ns i bufs no)) = rights i" "streams (snd (SendDataMB cfg ns i bufs no)) = streams i"
    "permissions (snd (SendDataMB cfg ns i bufs no)) = permissions i" "state (snd (SendDataMB cfg ns i bufs no)) = state i"
    "reader (snd (SendDataMB cfg ns i bufs no)) = reader i" "packet (snd (SendDataMB cfg ns i bufs no)) = packet i"
    "recvbuf (snd (SendDataMB cfg ns i bufs no)) = recvbuf i" "websocket (snd (SendDataMB cfg ns i bufs no)) = websocket i"
    by (simp_all add: s same_session_def rights_def)
qed

text \<open>The parts of a client that replies leave.\<close>

definition sl_part :: "'re SLClient \<Rightarrow> bool \<times> SLInfo \<times> nstime \<times> nstime \<times> (u32 \<times> ClientState \<times> 're option \<times> 're option)
    \<times> 're RingReader \<times> (u64 \<rightharpoonup> StreamNode) \<times> byte list" where
  "sl_part c = (started c, slinfo c, starttime c, endtime c, rights (info c), reader (info c), streams (info c), recvbuf (info c))"

lemma sl_part_SL_SendData [simp]: "sl_part (snd (SL_SendData env srv c bs)) = sl_part c"
  by (simp add: SL_SendData_def SendData_def case_prod_unfold sl_part_def)

lemma sl_part_SendReply [simp]: "sl_part (snd (SendReply env srv c rep code ext)) = sl_part c"
  using sl_part_SL_SendData [of env srv c] by (simp add: SendReply_def case_prod_unfold)

lemma sl_part_unless_batch [simp]: "sl_part (snd (unless_batch env srv c rep code ext)) = sl_part c"
  by (simp add: unless_batch_def)

lemma sl_part_sl_arg_error [simp]: "sl_part (snd (sl_arg_error env srv c msg)) = sl_part c"
  by (simp add: sl_arg_error_def)

lemma sl_part_SL_SendPacket [simp]: "sl_part (snd (SL_SendPacket env srv pid body staid f s c)) = sl_part c"
  by (simp add: SL_SendPacket_def Let_def case_prod_unfold sl_part_def)

lemma sl_part_SendRecord [simp]: "sl_part (snd (SendRecord env srv pkt rec n c)) = sl_part c"
  by (simp add: SendRecord_def split: option.split)

lemma sl_part_Config_error [simp]: "sl_part (snd (Config_error env srv c code msg)) = sl_part c"
  by (simp add: Config_error_def)

lemma and_then_inv:
  assumes "P (snd r)" "\<And>c. P c \<Longrightarrow> P (snd (k c))"
  shows "P (snd (and_then r k))"
  using assms by (simp add: and_then_def case_prod_unfold)


lemma sl_part_D:
  assumes "sl_part c' = sl_part c"
  shows "slinfo c' = slinfo c" "started c' = started c" "starttime c' = starttime c" "endtime c' = endtime c"
    "rights (info c') = rights (info c)" "streams (info c') = streams (info c)" "reader (info c') = reader (info c)"
    "recvbuf (info c') = recvbuf (info c)" "permissions (info c') = permissions (info c)" "state (info c') = state (info c)"
  using assms by (simp_all add: sl_part_def rights_def)

lemmas sl_sends = sl_part_SL_SendData sl_part_SendReply sl_part_unless_batch sl_part_sl_arg_error sl_part_SL_SendPacket
  sl_part_SendRecord sl_part_Config_error

lemmas sl_sends_parts [simp] = sl_sends [THEN sl_part_D(1)] sl_sends [THEN sl_part_D(2)] sl_sends [THEN sl_part_D(3)]
  sl_sends [THEN sl_part_D(4)] sl_sends [THEN sl_part_D(5)] sl_sends [THEN sl_part_D(6)] sl_sends [THEN sl_part_D(7)]
  sl_sends [THEN sl_part_D(8)] sl_sends [THEN sl_part_D(9)] sl_sends [THEN sl_part_D(10)]

lemma set_parts [simp]:
  "slinfo (set_sl f c) = f (slinfo c)" "info (set_sl f c) = info c" "started (set_sl f c) = started c"
  "starttime (set_sl f c) = starttime c" "endtime (set_sl f c) = endtime c"
  "slinfo (set_info g c) = slinfo c" "info (set_info g c) = g (info c)" "started (set_info g c) = started c"
  "starttime (set_info g c) = starttime c" "endtime (set_info g c) = endtime c"
  "slinfo (set_state st c) = slinfo c" "state (info (set_state st c)) = st" "permissions (info (set_state st c)) = permissions (info c)"
  "started (set_state st c) = started c" "streams (info (set_state st c)) = streams (info c)"
  by (simp_all add: set_sl_def set_info_def set_state_def)

lemma snd_sl_done [simp]: "snd (sl_done c) = c" by (simp add: sl_done_def)

section \<open>Commands keep the types\<close>

lemma sl_ok_fields:
  assumes "sl_ok sl"
  shows "sl_ok (sl\<lparr>extreply := b\<rparr>)" "sl_ok (sl\<lparr>dialup := b\<rparr>)" "sl_ok (sl\<lparr>batch := b\<rparr>)" "sl_ok (sl\<lparr>terminfo := b\<rparr>)"
    "sl_ok (sl\<lparr>startid := i\<rparr>)" "sl_ok (sl\<lparr>timewinchannels := n\<rparr>)" "length r \<le> 50 \<Longrightarrow> sl_ok (sl\<lparr>reqstaid := r\<rparr>)"
  using assms by (simp_all add: sl_ok_def)

lemma STATION_staid_length: "STATION_staid major cmd = Inr staid \<Longrightarrow> length staid \<le> 50"
  by (auto simp: STATION_staid_def Let_def snprintf_def split: if_splits)

lemma sl_ok_station:
  assumes "sl_ok sl" "GetReqStationID ok (stations sl) (reqstaid sl) = Some (st, tree)"
  shows "sl_ok (sl\<lparr>stations := tree\<rparr>)"
  using assms stations_ok_insert [OF _ assms(2)] by (simp add: sl_ok_def)

lemma sl_ok_upd:
  assumes "sl_ok sl" "\<And>st. \<forall>s \<in> set (rq_selectors st). selector_ok s \<Longrightarrow> \<forall>s \<in> set (rq_selectors (f st)). selector_ok s"
  shows "sl_ok (upd_station key f sl)"
  using assms stations_ok_update [of "stations sl" f key] by (simp add: sl_ok_def upd_station_def)

lemma Negotiate_simple_ok:
  assumes "sl_ok (slinfo c)"
  shows "sl_ok (slinfo (snd (Negotiate_HELLO env srv c)))" "sl_ok (slinfo (snd (Negotiate_SLPROTO env srv cmd c)))"
    "sl_ok (slinfo (snd (Negotiate_USERAGENT env srv cmd c)))" "sl_ok (slinfo (snd (Negotiate_CAPABILITIES env srv cmd c)))"
    "sl_ok (slinfo (snd (Negotiate_CAT env srv c)))" "sl_ok (slinfo (snd (Negotiate_BATCH env srv c)))"
    "sl_ok (slinfo (snd (sl_Negotiate_AUTH env srv cmd c)))"
proof -
  note and_then_def [simp] case_prod_unfold [simp] Let_def [simp]
  show "sl_ok (slinfo (snd (Negotiate_HELLO env srv c)))" "sl_ok (slinfo (snd (Negotiate_CAT env srv c)))"
    using assms by (simp_all add: Negotiate_HELLO_def Negotiate_CAT_def)
  show "sl_ok (slinfo (snd (Negotiate_SLPROTO env srv cmd c)))"
    using assms by (auto simp: Negotiate_SLPROTO_def sl_ok_def split: option.split)
  show "sl_ok (slinfo (snd (Negotiate_USERAGENT env srv cmd c)))"
    using assms by (simp add: Negotiate_USERAGENT_def split: option.split)
  show "sl_ok (slinfo (snd (Negotiate_CAPABILITIES env srv cmd c)))" "sl_ok (slinfo (snd (Negotiate_BATCH env srv c)))"
    using assms by (simp_all add: Negotiate_CAPABILITIES_def Negotiate_BATCH_def sl_ok_fields)
  have "sl_ok (slinfo (snd (sl_Auth_finish env srv c u p j)))" for u p j
    using assms by (simp add: sl_Auth_finish_def)
  then show "sl_ok (slinfo (snd (sl_Negotiate_AUTH env srv cmd c)))"
    using assms by (simp add: sl_Negotiate_AUTH_def split: option.split list.split)
qed

lemma Negotiate_STATION_ok: "sl_ok (slinfo c) \<Longrightarrow> sl_ok (slinfo (snd (Negotiate_STATION env srv cmd c)))"
proof (cases "STATION_staid (proto_major (slinfo c)) cmd")
  case (Inl msg)
  assume "sl_ok (slinfo c)"
  then show ?thesis by (simp add: Negotiate_STATION_def Inl and_then_def case_prod_unfold sl_ok_fields)
next
  case (Inr staid)
  assume ok: "sl_ok (slinfo c)"
  have l: "length staid \<le> 50" by (rule STATION_staid_length [OF Inr])
  define c1 where "c1 = set_sl (\<lambda>sl. sl\<lparr>reqstaid := staid\<rparr>) c"
  have c1: "sl_ok (slinfo c1)" "reqstaid (slinfo c1) = staid" using ok l by (simp_all add: c1_def sl_ok_fields)
  show ?thesis
  proof (cases "GetReqStationID (malloc_ok (dl env)) (stations (slinfo c1)) staid")
    case None
    then show ?thesis using c1 by (simp add: Negotiate_STATION_def Inr Let_def c1_def [symmetric] and_then_def case_prod_unfold)
  next
    case (Some r)
    obtain st tree where r: "r = (st, tree)" by (cases r)
    have "sl_ok ((slinfo c1)\<lparr>stations := tree\<rparr>)" using sl_ok_station c1 Some r by metis
    moreover from this have "stationcount (slinfo c1) < SLMAXSTATIONS \<Longrightarrow>
        sl_ok ((slinfo c1)\<lparr>stations := tree, stationcount := stationcount (slinfo c1) + 1\<rparr>)"
      by (simp add: sl_ok_def)
    ultimately show ?thesis
      using c1 by (simp add: Negotiate_STATION_def Inr Let_def c1_def [symmetric] Some r and_then_def case_prod_unfold)
  qed
qed

lemma Negotiate_SELECT_ok: "sl_ok (slinfo c) \<Longrightarrow> sl_ok (slinfo (snd (Negotiate_SELECT env srv cmd c)))"
proof (cases "SELECT_selectors (proto_major (slinfo c)) cmd")
  case (Inl msg)
  assume "sl_ok (slinfo c)"
  then show ?thesis by (simp add: Negotiate_SELECT_def Inl and_then_def case_prod_unfold)
next
  case (Inr sels)
  assume ok: "sl_ok (slinfo c)"
  let ?link = "\<lambda>l. LinkSelectorLists l (filter (\<lambda>s. \<not> negated s) sels) (filter negated sels)"
  have link: "\<forall>s \<in> set l. selector_ok s \<Longrightarrow> \<forall>s \<in> set (?link l). selector_ok s" for l
    using SELECT_selectors_ok [OF Inr] by (auto simp: LinkSelectorLists_set)
  have glob: "sl_ok ((slinfo c)\<lparr>selectors := ?link (selectors (slinfo c))\<rparr>)"
    using ok link [of "selectors (slinfo c)"] by (simp add: sl_ok_def)
  have sta: "sl_ok (upd_station key (\<lambda>st. st\<lparr>rq_selectors := ?link (rq_selectors st)\<rparr>) sl)" if "sl_ok sl" for key sl
    by (rule sl_ok_upd [OF that]) (use link in simp)
  show ?thesis
  proof (cases "GetReqStationID (malloc_ok (dl env)) (stations (slinfo c)) (reqstaid (slinfo c))")
    case None
    then show ?thesis using ok glob by (simp add: Negotiate_SELECT_def Inr Let_def and_then_def case_prod_unfold)
  next
    case (Some r)
    obtain st tree where r: "r = (st, tree)" by (cases r)
    have "sl_ok ((slinfo c)\<lparr>stations := tree\<rparr>)" using sl_ok_station ok Some r by metis
    then show ?thesis using ok glob sta
      by (simp add: Negotiate_SELECT_def Inr Let_def Some r and_then_def case_prod_unfold)
  qed
qed

lemma with_station_ok:
  assumes "sl_ok (slinfo c)" "\<And>st. rq_selectors (f st) = rq_selectors st" "\<And>c. sl_ok (slinfo c) \<Longrightarrow> sl_ok (slinfo (snd (k c)))"
  shows "sl_ok (slinfo (snd (with_station env srv c f k)))"
proof (cases "GetReqStationID (malloc_ok (dl env)) (stations (slinfo c)) (reqstaid (slinfo c))")
  case None
  then show ?thesis using assms(1) by (simp add: with_station_def and_then_def case_prod_unfold)
next
  case (Some r)
  obtain st tree where r: "r = (st, tree)" by (cases r)
  have "sl_ok ((slinfo c)\<lparr>stations := tree\<rparr>)" using sl_ok_station assms(1) Some r by metis
  then have "sl_ok (upd_station key f ((slinfo c)\<lparr>stations := tree\<rparr>))" for key by (rule sl_ok_upd) (simp add: assms(2))
  then show ?thesis using assms(3) by (simp add: with_station_def Some r)
qed


lemma Negotiate_DATA_ok: "sl_ok (slinfo c) \<Longrightarrow> sl_ok (slinfo (snd (Negotiate_DATA env srv cmd c)))"
proof (cases "DATA_args env srv (proto_major (slinfo c)) cmd")
  case (Inl msg)
  assume "sl_ok (slinfo c)"
  then show ?thesis by (simp add: Negotiate_DATA_def Inl and_then_def case_prod_unfold)
next
  case (Inr a)
  assume ok: "sl_ok (slinfo c)"
  obtain i t1 t2 where a: "a = (i, t1, t2)" by (cases a)
  show ?thesis
    using ok by (simp add: Negotiate_DATA_def Inr a Let_def and_then_def case_prod_unfold sl_ok_fields with_station_ok)
qed

lemma Negotiate_TIME_ok: "sl_ok (slinfo c) \<Longrightarrow> sl_ok (slinfo (snd (Negotiate_TIME env srv cmd c)))"
proof (cases "TIME_args env cmd")
  case (Inl msg)
  assume "sl_ok (slinfo c)"
  then show ?thesis by (simp add: Negotiate_TIME_def Inl and_then_def case_prod_unfold)
next
  case (Inr a)
  assume ok: "sl_ok (slinfo c)"
  obtain t1 t2 where a: "a = (t1, t2)" by (cases a)
  show ?thesis
    using ok by (simp add: Negotiate_TIME_def Inr a and_then_def case_prod_unfold with_station_ok)
qed

lemma SL_HandleNegotiation_ok: "sl_ok (slinfo c) \<Longrightarrow> sl_ok (slinfo (snd (SL_HandleNegotiation env srv cmd c)))"
  by (simp add: SL_HandleNegotiation_def Let_def case_prod_unfold Negotiate_simple_ok Negotiate_STATION_ok Negotiate_SELECT_ok
      Negotiate_DATA_ok Negotiate_TIME_ok sl_ok_fields)

text \<open>INFO changes only the end mark and the connection.\<close>

definition same_but_terminfo :: "'re SLClient \<Rightarrow> 're SLClient \<Rightarrow> bool" where
  "same_but_terminfo c c' \<longleftrightarrow> sl_part (set_sl (\<lambda>sl. sl\<lparr>terminfo := terminfo (slinfo c)\<rparr>) c') = sl_part c"

lemma same_but_terminfo_refl [simp]: "same_but_terminfo c c" by (simp add: same_but_terminfo_def sl_part_def)

lemma same_but_terminfo_part: "sl_part c' = sl_part c \<Longrightarrow> same_but_terminfo c c'"
  by (simp add: same_but_terminfo_def sl_part_def)

lemma same_but_terminfo_trans: "same_but_terminfo a b \<Longrightarrow> same_but_terminfo b c \<Longrightarrow> same_but_terminfo a c"
proof -
  have eq: "y\<lparr>terminfo := b\<rparr> = x \<Longrightarrow> z\<lparr>terminfo := b'\<rparr> = y \<Longrightarrow> z\<lparr>terminfo := b\<rparr> = x" for x y z :: SLInfo and b b' by auto
  assume "same_but_terminfo a b" "same_but_terminfo b c"
  then show ?thesis
    using eq [of "terminfo (slinfo a)" "slinfo b" "slinfo a" "terminfo (slinfo b)" "slinfo c"]
    by (simp add: same_but_terminfo_def sl_part_def)
qed

lemma same_but_terminfo_Info_loop: "same_but_terminfo c (Info_loop env srv e n xml c)"
proof (induction env srv e n xml c rule: Info_loop.induct)
  case (1 env srv e n xml c)
  have step: "same_but_terminfo c (SendInfoRecord env srv rec (set_sl (\<lambda>sl. sl\<lparr>terminfo := b\<rparr>) c))" for rec b
    by (simp add: SendInfoRecord_def Let_def same_but_terminfo_def sl_part_def set_sl_def)
  show ?case
  proof (cases "xml = [] \<or> socketerr (info c) \<noteq> 0")
    case True
    then show ?thesis by (subst Info_loop.simps) simp
  next
    case False
    show ?thesis
      using same_but_terminfo_trans [OF step "1" [OF False refl refl refl]]
      by (subst Info_loop.simps) (simp only: False if_False Let_def)
  qed
qed

lemma same_but_terminfo_info: "same_but_terminfo c (snd (HandleInfo_v3 env srv cmd c))"
    "same_but_terminfo c (snd (HandleInfo_v4 env srv cmd c))"
proof -
  show "same_but_terminfo c (snd (HandleInfo_v3 env srv cmd c))"
    by (simp add: HandleInfo_v3_def Let_def case_prod_unfold same_but_terminfo_Info_loop split: option.split)
  show "same_but_terminfo c (snd (HandleInfo_v4 env srv cmd c))"
    by (simp add: HandleInfo_v4_def Let_def case_prod_unfold same_but_terminfo_part split: option.split)
qed

lemma same_but_terminfo_D:
  assumes "same_but_terminfo c c'"
  shows "sl_ok (slinfo c) \<Longrightarrow> sl_ok (slinfo c')" "started c' = started c" "rights (info c') = rights (info c)"
    "state (info c') = state (info c)" "permissions (info c') = permissions (info c)"
proof -
  have eq: "slinfo c = (slinfo c')\<lparr>terminfo := terminfo (slinfo c)\<rparr>" and r: "rights (info c') = rights (info c)" and st: "started c' = started c"
    using assms by (simp_all add: same_but_terminfo_def sl_part_def)
  show "started c' = started c" by (rule st)
  show "rights (info c') = rights (info c)" by (rule r)
  then show "state (info c') = state (info c)" "permissions (info c') = permissions (info c)" by (simp_all add: rights_def)
  assume "sl_ok (slinfo c)"
  then have "sl_ok ((slinfo c')\<lparr>terminfo := terminfo (slinfo c)\<rparr>)" using eq by simp
  then show "sl_ok (slinfo c')" by (simp add: sl_ok_def)
qed

lemmas info_rights [simp] =
  same_but_terminfo_info [THEN same_but_terminfo_D(4)] same_but_terminfo_info [THEN same_but_terminfo_D(5)]

lemma SL_dispatch_ok: "sl_ok (slinfo c) \<Longrightarrow> sl_ok (slinfo (snd (SL_dispatch env srv cmd c)))"
  by (simp add: SL_dispatch_def case_prod_unfold SL_HandleNegotiation_ok same_but_terminfo_D(1) [OF same_but_terminfo_info(1)]
      same_but_terminfo_D(1) [OF same_but_terminfo_info(2)])

section \<open>Configuring keeps types and rights\<close>

text \<open>Types, permissions and the state of the client.\<close>

definition sl_keeps :: "'re SLClient \<Rightarrow> 're SLClient \<Rightarrow> bool" where
  "sl_keeps c c' \<longleftrightarrow> (sl_ok (slinfo c) \<longrightarrow> sl_ok (slinfo c')) \<and> started c' = started c
     \<and> permissions (info c') = permissions (info c) \<and> state (info c') = state (info c)"

lemma sl_keeps_refl [simp]: "sl_keeps c c" by (simp add: sl_keeps_def)
lemma sl_keeps_trans: "sl_keeps a b \<Longrightarrow> sl_keeps b c \<Longrightarrow> sl_keeps a c" by (auto simp: sl_keeps_def)

lemma sl_keeps_Config_packet:
  "Config_packet env srv st newest c = Some (t, c') \<Longrightarrow> sl_keeps c c'"
  by (auto simp: Config_packet_def Let_def sl_keeps_def sl_ok_fields split: option.splits prod.splits if_splits)

lemma sl_keeps_Config_stations:
  "Config_stations env srv sts newest c = Some (rv, c') \<Longrightarrow> sl_keeps c c'"
proof (induction sts arbitrary: newest c)
  case (Cons x rest)
  obtain key st where x: "x = (key, st)" by (cases x)
  obtain rv0 m r where re: "StationToRegex (Some key) (rq_selectors st) (matchstr (info c)) (rejectstr (info c)) = (rv0, m, r)"
    by (cases "StationToRegex (Some key) (rq_selectors st) (matchstr (info c)) (rejectstr (info c))")
  define c1 where "c1 = set_info (\<lambda>i. i\<lparr>matchstr := m, rejectstr := r\<rparr>) c"
  have c1: "sl_keeps c c1" by (simp add: c1_def sl_keeps_def)
  show ?case
  proof (cases "rv0 = 0")
    case False
    then have "c' = snd (Config_error env srv c1 ERROR_INTERNAL ''Error with StationToRegex()'')"
      using Cons.prems by (auto simp: x re Let_def c1_def)
    then show ?thesis using c1 by (simp add: sl_keeps_def)
  next
    case True
    let ?c2 = "c1\<lparr>starttime := earlier (starttime c1) (rq_starttime st), endtime := later (endtime c1) (rq_endtime st)\<rparr>"
    obtain newest1 c3 where p: "Config_packet env srv st newest ?c2 = Some (newest1, c3)" "Config_stations env srv rest newest1 c3 = Some (rv, c')"
      using Cons.prems True by (auto simp: x re Let_def c1_def split: option.splits)
    have "sl_keeps c1 ?c2" by (simp add: sl_keeps_def)
    then show ?thesis using c1 sl_keeps_Config_packet [OF p(1)] Cons.IH [OF p(2)] sl_keeps_trans by blast
  qed
qed simp

lemma sl_keeps_config:
  "Config_selection env srv c = Some (rv, c') \<Longrightarrow> sl_keeps c c'"
  "sl_keeps c (snd (Config_expressions env srv c))"
  "Config_position env srv c = Some (rv, c') \<Longrightarrow> sl_keeps c c'"
  "sl_keeps c (snd (Config_time env srv c))"
proof -
  have put: "sl_keeps c (set_info (\<lambda>i. i\<lparr>reader := f i\<rparr>) c)" for c :: "'re SLClient" and f
    by (simp add: sl_keeps_def)
  have err: "sl_keeps c (snd (Config_error env srv c code msg))" for c :: "'re SLClient" and env code msg
    by (simp add: sl_keeps_def)
  show "sl_keeps c (snd (Config_expressions env srv c))" for c :: "'re SLClient" and env
    by (simp add: Config_expressions_def Let_def case_prod_unfold sl_keeps_def)
  show "Config_position env srv c = Some (rv, c') \<Longrightarrow> sl_keeps c c'" for c :: "'re SLClient" and env rv c'
    by (auto simp: Config_position_def put split: if_splits option.splits prod.splits)
  show "sl_keeps c (snd (Config_time env srv c))" for c :: "'re SLClient" and env
    by (cases "timewin (dl env)") (simp_all add: Config_time_def Let_def case_prod_unfold sl_keeps_def)
  show "Config_selection env srv c = Some (rv, c') \<Longrightarrow> sl_keeps c c'" for c :: "'re SLClient" and env rv c'
  proof (cases "stationcount (slinfo c) > 0")
    case True
    assume a: "Config_selection env srv c = Some (rv, c')"
    then obtain rv1 c1 where s: "Config_stations env srv (stations (slinfo c)) NSTUNSET c = Some (rv1, c1)"
      using True by (auto simp: Config_selection_def split: option.splits)
    show ?thesis
      using a True sl_keeps_Config_stations [OF s] sl_keeps_trans [OF sl_keeps_Config_stations [OF s] put]
      by (auto simp: Config_selection_def s split: if_splits)
  next
    case False
    assume a: "Config_selection env srv c = Some (rv, c')"
    show ?thesis
      using a False
      by (auto simp: Config_selection_def Let_def case_prod_unfold sl_keeps_def Config_error_def split: if_splits)
  qed
qed


lemma SL_configure_keeps:
  assumes "SL_configure env srv c = Some (rv, c')"
  shows "(sl_ok (slinfo c) \<longrightarrow> sl_ok (slinfo c')) \<and> started c' = started c \<and> permissions (info c') = permissions (info c)
    \<and> state (info c') \<in> {state (info c), STATE_STREAM}
    \<and> (rv = 0 \<longrightarrow> auth_required (dl env) \<longrightarrow> permitted (info c') AUTHENTICATED) \<and> rv \<in> {0, -1}"
proof (cases "auth_required (dl env) \<and> \<not> permitted (info c) AUTHENTICATED")
  case True
  then show ?thesis using assms by (auto simp: SL_configure_def Config_error_def)
next
  case False
  then obtain rv1 c1 where c1: "Config_selection env srv c = Some (rv1, c1)"
    using assms by (auto simp: SL_configure_def split: option.splits)
  obtain rv2 c2 where c2: "Config_expressions env srv c1 = (rv2, c2)" by (cases "Config_expressions env srv c1")
  have k1: "sl_keeps c c1" by (rule sl_keeps_config(1) [OF c1])
  have k2: "sl_keeps c c2" using sl_keeps_config(2) [of c1 env srv] k1 sl_keeps_trans by (auto simp: c2)
  have auth: "sl_keeps c d \<Longrightarrow> auth_required (dl env) \<longrightarrow> permitted (info d) AUTHENTICATED" for d
    using False by (simp add: sl_keeps_def permitted_def)
  consider "rv1 \<noteq> 0" | "rv1 = 0" "rv2 \<noteq> 0" | "rv1 = 0" "rv2 = 0" by blast
  then show ?thesis
  proof cases
    case 1
    then show ?thesis using assms False c1 k1 by (auto simp: SL_configure_def sl_keeps_def)
  next
    case 2
    then show ?thesis using assms False c1 c2 k2 by (auto simp: SL_configure_def sl_keeps_def)
  next
    case 3
    then obtain rv3 c3 where c3: "Config_position env srv c2 = Some (rv3, c3)"
      using assms False c1 c2 by (auto simp: SL_configure_def split: option.splits)
    obtain rv4 c4 where c4: "Config_time env srv c3 = (rv4, c4)" by (cases "Config_time env srv c3")
    have k3: "sl_keeps c c3" using sl_keeps_config(3) [OF c3] k2 sl_keeps_trans by blast
    have k4: "sl_keeps c c4" using sl_keeps_config(4) [of c3 env srv] k3 sl_keeps_trans by (auto simp: c4)
    have next_keeps: "sl_ok (slinfo c4) \<longrightarrow> sl_ok (slinfo (Config_next c4))" "started (Config_next c4) = started c4"
      "permissions (info (Config_next c4)) = permissions (info c4)" "state (info (Config_next c4)) = STATE_STREAM"
      by (simp_all add: Config_next_def)
    show ?thesis
      using assms False c1 c2 3 c3 c4 k3 k4 next_keeps auth [OF k4]
      by (auto simp: SL_configure_def sl_keeps_def permitted_def split: if_splits)
  qed
qed

text \<open>No command of the negotiation leads into the streaming state.\<close>

lemma Negotiate_not_stream:
  assumes "state (info c) \<noteq> STATE_STREAM"
  shows "state (info (snd (SL_HandleNegotiation env srv cmd c))) \<noteq> STATE_STREAM"
proof -
  let ?q = "\<lambda>c :: 'a SLClient. state (info c) \<noteq> STATE_STREAM"
  note and_then_def [simp] case_prod_unfold [simp] Let_def [simp]
  have auth: "?q (snd (sl_Auth_finish env srv c u p j))" for u p j using assms by (simp add: sl_Auth_finish_def)
  have with_s: "?q (snd (with_station env srv c1 f k))" if "\<And>c. ?q c \<Longrightarrow> ?q (snd (k c))" "?q c1" for c1 :: "'a SLClient" and f k
    using that by (simp add: with_station_def split: option.split)
  have simple: "?q (snd (Negotiate_HELLO env srv c))" "?q (snd (Negotiate_SLPROTO env srv cmd c))"
    "?q (snd (Negotiate_CAPABILITIES env srv cmd c))"
    "?q (snd (Negotiate_CAT env srv c))" "?q (snd (Negotiate_BATCH env srv c))"
    using assms by (simp_all add: Negotiate_HELLO_def Negotiate_SLPROTO_def Negotiate_CAPABILITIES_def
        Negotiate_CAT_def Negotiate_BATCH_def split: option.split)
  have agent: "?q (snd (Negotiate_USERAGENT env srv cmd c))"
    using assms by (cases "cmdtoken_rest_after cmd 1") (simp_all add: Negotiate_USERAGENT_def)
  have au: "?q (snd (sl_Negotiate_AUTH env srv cmd c))"
    using assms auth by (simp add: sl_Negotiate_AUTH_def split: option.split list.split)
  have sta: "?q (snd (Negotiate_STATION env srv cmd c))"
    using assms by (cases "STATION_staid (proto_major (slinfo c)) cmd") (simp_all add: Negotiate_STATION_def set_state_def split: option.split)
  have sel: "?q (snd (Negotiate_SELECT env srv cmd c))"
    using assms by (cases "SELECT_selectors (proto_major (slinfo c)) cmd") (simp_all add: Negotiate_SELECT_def split: option.split)
  have dat: "?q (snd (Negotiate_DATA env srv cmd c))"
    using assms by (cases "DATA_args env srv (proto_major (slinfo c)) cmd") (simp_all add: Negotiate_DATA_def with_s)
  have tim: "?q (snd (Negotiate_TIME env srv cmd c))"
    using assms by (cases "TIME_args env cmd") (simp_all add: Negotiate_TIME_def with_s)
  show ?thesis
    using assms by (simp add: SL_HandleNegotiation_def simple agent au sta sel dat tim)
qed

lemma SL_dispatch_stream:
  assumes "state (info (snd (SL_dispatch env srv cmd c))) = STATE_STREAM"
  shows "state (info c) = STATE_STREAM \<and> permissions (info (snd (SL_dispatch env srv cmd c))) = permissions (info c)"
proof (cases "state (info c) = STATE_COMMAND \<or> state (info c) = STATE_STATION")
  case True
  then have "state (info c) \<noteq> STATE_STREAM" by auto
  then show ?thesis
    using assms Negotiate_not_stream [of c env srv cmd] True
    by (auto simp: SL_dispatch_def case_prod_unfold split: if_splits)
next
  case False
  then show ?thesis
    using assms by (auto simp: SL_dispatch_def case_prod_unfold split: if_splits)
qed

lemma SL_dispatch_result: "fst (SL_dispatch env srv cmd c) \<in> {0, 1, -1}"
  by (simp add: SL_dispatch_def case_prod_unfold)

text \<open>What every command keeps: the types, and that a streaming client is authenticated when it must be.\<close>

definition sl_authorised :: "'re sl_env \<Rightarrow> 're SLClient \<Rightarrow> bool" where
  "sl_authorised env c \<longleftrightarrow> (state (info c) = STATE_STREAM \<and> auth_required (dl env) \<longrightarrow> permitted (info c) AUTHENTICATED)"

definition sl_typed :: "'re SLClient \<Rightarrow> bool" where
  "sl_typed c \<longleftrightarrow> (started c \<longrightarrow> sl_ok (slinfo c))"

lemma new_SLInfo_ok: "sl_ok new_SLInfo"
  by (simp add: sl_ok_def new_SLInfo_def SLMAXSTATIONS_def stations_ok_def ol_sorted_def)

lemma sl_start_typed: "sl_typed c \<Longrightarrow> sl_ok (slinfo (sl_start c)) \<and> started (sl_start c) \<and> info (sl_start c) = info c"
  by (simp add: sl_start_def sl_typed_def new_SLInfo_ok)

lemma SLHandleCmd_keeps:
  assumes "SLHandleCmd env srv c = Some (rv, c')" "sl_typed c" "sl_authorised env c" "rv \<ge> 0"
  shows "sl_typed c' \<and> sl_authorised env c'"
proof -
  let ?c = "sl_start c"
  note st = sl_start_typed [OF assms(2)]
  have c: "sl_authorised env ?c" "sl_typed ?c" using assms(3) st by (simp_all add: sl_authorised_def sl_typed_def)
  show ?thesis
  proof (cases "\<exists>cmd. cmdtoken_parse (c_string (recvbuf (info ?c))) = Some cmd \<and> argc cmd \<noteq> 0")
    case False
    then have "c' = ?c" using assms(1) by (auto simp: SLHandleCmd_def Let_def split: option.splits if_splits)
    then show ?thesis using c by simp
  next
    case True
    then obtain cmd where cmd: "cmdtoken_parse (c_string (recvbuf (info ?c))) = Some cmd" "argc cmd \<noteq> 0" by blast
    obtain r c1 where d: "SL_dispatch env srv cmd ?c = (r, c1)" by (cases "SL_dispatch env srv cmd ?c")
    have ok1: "sl_ok (slinfo c1)" using SL_dispatch_ok [of ?c env srv cmd] st by (simp add: d)
    have str1: "state (info c1) = STATE_STREAM \<Longrightarrow> state (info ?c) = STATE_STREAM \<and> permissions (info c1) = permissions (info ?c)"
      using SL_dispatch_stream [of env srv cmd ?c] by (simp add: d)
    then have a1: "sl_authorised env c1" using c(1) by (auto simp: sl_authorised_def permitted_def)
    show ?thesis
    proof (cases "r = 0 \<and> state (info c1) = STATE_RINGCONFIG")
      case True
      then have conf: "SL_configure env srv c1 = Some (rv, c')" using assms(1) cmd d by (simp add: SLHandleCmd_def Let_def)
      from SL_configure_keeps [OF conf] show ?thesis
        using ok1 assms(4) by (auto simp: sl_typed_def sl_authorised_def)
    next
      case False
      then have "c' = c1" using assms(1) cmd d by (auto simp: SLHandleCmd_def Let_def split: if_splits)
      then show ?thesis using ok1 a1 by (simp add: sl_typed_def)
    qed
  qed
qed


lemma sl_keeps_parts:
  "Stream_node env c = Some (sn, n, c') \<Longrightarrow> sl_keeps c c'"
  "Stream_window sn n c = (skip, ended, c') \<Longrightarrow> sl_keeps c c'"
  "sl_keeps c (snd (Stream_send env srv sn c))"
  "sl_keeps c (snd (Stream_end env srv c))"
proof -
  show "Stream_node env c = Some (sn, n, c') \<Longrightarrow> sl_keeps c c'"
    by (auto simp: Stream_node_def Let_def sl_keeps_def split: option.splits prod.splits if_splits)
  show "Stream_window sn n c = (skip, ended, c') \<Longrightarrow> sl_keeps c c'"
    by (auto simp: Stream_window_def Let_def sl_keeps_def sl_ok_fields split: if_splits)
  show "sl_keeps c (snd (Stream_end env srv c))" by (simp add: Stream_end_def sl_keeps_def)
  show "sl_keeps c (snd (Stream_send env srv sn c))"
    by (simp add: Stream_send_def Let_def case_prod_unfold sl_keeps_def)
qed

lemma SLStreamPackets_keeps:
  assumes "SLStreamPackets env srv c = Some (rv, c')"
  shows "sl_keeps c c'"
proof (cases "started c")
  case False
  then show ?thesis using assms by (simp add: SLStreamPackets_def)
next
  case True
  then obtain i rd pkt d where
    r: "RingReadNext (rfuel (dl env)) (ring srv) (matcher_of (dl env)) (reader (info c)) (packet (info c)) True = Some (i, rd, pkt, d)"
    using assms by (cases "RingReadNext (rfuel (dl env)) (ring srv) (matcher_of (dl env)) (reader (info c)) (packet (info c)) True")
      (auto simp: SLStreamPackets_def)
  define c1 where "c1 = set_info (\<lambda>i. i\<lparr>reader := rd, packet := pkt,
      sendbuf := (case d of Some d \<Rightarrow> overlay (sendbuf i) d | None \<Rightarrow> sendbuf i)\<rparr>) c"
  have c1: "sl_keeps c c1" by (simp add: c1_def sl_keeps_def)
  have fin: "sl_keeps c1 (snd (Stream_end env srv c1))" by (rule sl_keeps_parts(4))
  show ?thesis
  proof (cases "Stream_node env c1")
    case None
    then show ?thesis
      using assms True c1 fin sl_keeps_trans [OF c1 fin] by (auto simp: SLStreamPackets_def r c1_def [symmetric] Let_def split: if_splits)
  next
    case (Some x)
    obtain sn n c2 where x: "x = (sn, n, c2)" by (cases x)
    obtain skip ended c3 where w: "Stream_window sn n c2 = (skip, ended, c3)" by (cases "Stream_window sn n c2")
    have c2: "sl_keeps c c2" using sl_keeps_trans [OF c1 sl_keeps_parts(1) [OF Some [unfolded x]]] .
    have c3: "sl_keeps c c3" using sl_keeps_trans [OF c2 sl_keeps_parts(2) [OF w]] .
    show ?thesis
      using assms True c1 sl_keeps_trans [OF c1 fin] c3 sl_keeps_trans [OF c3 sl_keeps_parts(3) [of c3 env srv sn]]
        sl_keeps_trans [OF c3 sl_keeps_parts(4) [of c3 env srv]]
      by (auto simp: SLStreamPackets_def r c1_def [symmetric] Let_def Some x w split: if_splits)
  qed
qed

section \<open>The thread of a SeedLink client\<close>

text \<open>
  The loop of \<open>ClientThread\<close> for SeedLink; the client is the second component, and the thread's copy of
  what it shares with the DataLink model is brought up to date before the common routines run.
\<close>

definition sync :: "'re thread \<Rightarrow> 're SLClient \<Rightarrow> 're thread" where "sync t c = t\<lparr>cinfo := info c\<rparr>"

definition sl_thread_command ::
  "'re sl_env \<Rightarrow> server \<Rightarrow> 're thread \<Rightarrow> 're SLClient \<Rightarrow> (outcome \<times> 're thread \<times> 're SLClient) option" where
  "sl_thread_command env srv t c = (case ClientRecv (io_of (dl env) srv) (nsent0 (dl env)) (sync t c) of (nread, t1) \<Rightarrow>
     let c1 = c\<lparr>info := cinfo t1\<rparr>
     in if nread < 0 then Some (Ended, t1, c1)
        else if nread = 0 then Some (Continue, t1, c1)
        else if ctype t1 \<noteq> CLIENT_SEEDLINK then Some (OtherProtocol, t1, c1)
        else (case SLHandleCmd env srv (set_info (\<lambda>i. i\<lparr>recvstart := 0\<rparr>) c1) of
            None \<Rightarrow> None
          | Some (cmd_result, c2) \<Rightarrow>
             (let t2 = t1\<lparr>throttle_msec := 0\<rparr>
              in Some (if cmd_result < 0 then (Ended, t2, c2)
                       else if cmd_result > 0 then
                         (if consecutive_errors t2 + 1 \<ge> MAX_CONSECUTIVE_ERRORS then Ended else Continue,
                          t2\<lparr>consecutive_errors := consecutive_errors t2 + 1\<rparr>, c2)
                       else (Continue, t2\<lparr>consecutive_errors := 0\<rparr>, c2)))))"

definition sl_thread_stream ::
  "'re sl_env \<Rightarrow> server \<Rightarrow> 're thread \<Rightarrow> 're SLClient \<Rightarrow> (outcome \<times> 're thread \<times> 're SLClient) option" where
  "sl_thread_stream env srv t c =
     (if state (info c) \<noteq> STATE_STREAM then Some (Continue, t, c)
      else (case (if ctype t = CLIENT_SEEDLINK then SLStreamPackets env srv c else Some (0, c)) of
          None \<Rightarrow> None
        | Some (sentbytes, c1) \<Rightarrow>
           Some (if sentbytes < 0 then (Ended, t, c1)
                 else if sentbytes = 0 then (Continue, t\<lparr>throttle_msec := backoff (throttle_msec t)\<rparr>, c1)
                 else (Continue, t\<lparr>throttle_msec := 0\<rparr>, c1))))"

definition sl_thread_iteration ::
  "'re sl_env \<Rightarrow> server \<Rightarrow> 're thread \<Rightarrow> 're SLClient \<Rightarrow> (outcome \<times> 're thread \<times> 're SLClient) option" where
  "sl_thread_iteration env srv t0 c =
     (let t = t0\<lparr>throttle_msec := (if throttle_msec t0 < THROTTLE_MAXIMUM
                                     then throttle_msec t0 + THROTTLE_STEPPING else throttle_msec t0)\<rparr>
      in case sl_thread_command env srv t c of
           None \<Rightarrow> None
         | Some (Continue, t1, c1) \<Rightarrow>
            (case sl_thread_stream env srv t1 c1 of
               None \<Rightarrow> None
             | Some (Continue, t2, c2) \<Rightarrow>
                (case thread_throttle (dl env) (sync t2 c2) of (r, t3) \<Rightarrow> Some (r, t3, c2\<lparr>info := cinfo t3\<rparr>))
             | Some (r, t2, c2) \<Rightarrow> Some (r, t2, c2))
         | Some (r, t1, c1) \<Rightarrow> Some (r, t1, c1))"

text \<open>The client of a thread that starts: \<open>extinfo\<close> is not allocated and no times are set.\<close>

definition sl_client_start :: "'re thread \<Rightarrow> 're SLClient" where
  "sl_client_start t = \<lparr>info = cinfo t, started = False, slinfo = new_SLInfo, starttime = NSTUNSET, endtime = NSTUNSET\<rparr>"

text \<open>A session: between the iterations the other threads change the ring and the shutdown flag.\<close>

inductive sl_session :: "'re sl_env \<Rightarrow> 're thread \<times> 're SLClient \<Rightarrow> bool" for env where
  start: "thread_start (dl env) srv ok protos i = (Continue, t) \<Longrightarrow> sl_session env (t, sl_client_start t)"
| iterate: "sl_session env (t, c) \<Longrightarrow> sl_thread_iteration env srv t c = Some (Continue, t', c') \<Longrightarrow> sl_session env (t', c')"

definition sl_session_ok :: "'re sl_env \<Rightarrow> 're thread \<Rightarrow> 're SLClient \<Rightarrow> bool" where
  "sl_session_ok env t c \<longleftrightarrow> sl_typed c \<and> sl_authorised env c \<and> consecutive_errors t < MAX_CONSECUTIVE_ERRORS
     \<and> throttle_msec t < THROTTLE_MAXIMUM + THROTTLE_STEPPING"

lemma sl_authorised_rights: "rights (info c') = rights (info c) \<Longrightarrow> sl_authorised env c' = sl_authorised env c"
  by (simp add: sl_authorised_def rights_def permitted_def)

lemma sl_thread_command_ok:
  assumes "sl_thread_command env srv t c = Some (Continue, t', c')" "sl_typed c" "sl_authorised env c"
    "consecutive_errors t < MAX_CONSECUTIVE_ERRORS"
  shows "sl_typed c' \<and> sl_authorised env c' \<and> consecutive_errors t' < MAX_CONSECUTIVE_ERRORS \<and> throttle_msec t' \<le> throttle_msec t"
proof -
  obtain n t1 where r: "ClientRecv (io_of (dl env) srv) (nsent0 (dl env)) (sync t c) = (n, t1)"
    by (cases "ClientRecv (io_of (dl env) srv) (nsent0 (dl env)) (sync t c)")
  have "trights t1 = trights (sync t c)" "counters t1 = counters (sync t c)"
    using trights_ClientRecv [of "io_of (dl env) srv" "nsent0 (dl env)" "sync t c"]
      counters_ClientRecv [of "io_of (dl env) srv" "nsent0 (dl env)" "sync t c"] unfolding r by simp_all
  then have t1: "rights (cinfo t1) = rights (info c)" "throttle_msec t1 = throttle_msec t" "consecutive_errors t1 = consecutive_errors t"
    by (simp_all add: trights_def counters_def sync_def)
  define c1 where "c1 = c\<lparr>info := cinfo t1\<rparr>"
  have c1: "sl_typed c1" "sl_authorised env c1"
    using assms(2,3) sl_authorised_rights [of c1 c env] t1(1) by (simp_all add: c1_def sl_typed_def)
  show ?thesis
  proof (cases "n = 0")
    case True
    then show ?thesis using assms r t1 c1 by (auto simp: sl_thread_command_def c1_def)
  next
    case False
    define c2 where "c2 = set_info (\<lambda>i. i\<lparr>recvstart := 0\<rparr>) c1"
    have c2: "sl_typed c2" "sl_authorised env c2"
      using c1 sl_authorised_rights [of c2 c1 env] by (simp_all add: c2_def sl_typed_def)
    obtain res where d: "SLHandleCmd env srv c2 = Some (res, c')" "\<not> res < 0" "throttle_msec t' = 0"
        "consecutive_errors t' < MAX_CONSECUTIVE_ERRORS"
      using assms(1) r False
      by (auto simp: sl_thread_command_def c1_def [symmetric] c2_def [symmetric] MAX_CONSECUTIVE_ERRORS_def Let_def split: if_splits option.splits)
    then show ?thesis using SLHandleCmd_keeps [OF d(1) c2] by simp
  qed
qed

lemma sl_thread_stream_ok:
  assumes "sl_thread_stream env srv t c = Some (Continue, t', c')"
  shows "sl_keeps c c'" "consecutive_errors t' = consecutive_errors t" "throttle_msec t' \<le> max (throttle_msec t) THROTTLE_MAXIMUM"
  using assms
  by (auto simp: sl_thread_stream_def backoff_def THROTTLE_MAXIMUM_def THROTTLE_STEPPING_def split: if_splits option.splits
      dest!: SLStreamPackets_keeps)

lemma sl_iteration_ok:
  assumes "sl_thread_iteration env srv t c = Some (Continue, t', c')" "sl_session_ok env t c"
  shows "sl_session_ok env t' c'"
proof -
  define ms where "ms = (if throttle_msec t < THROTTLE_MAXIMUM then throttle_msec t + THROTTLE_STEPPING else throttle_msec t)"
  define t0 where "t0 = t\<lparr>throttle_msec := ms\<rparr>"
  obtain t1 c1 t2 c2 where run: "sl_thread_command env srv t0 c = Some (Continue, t1, c1)"
      "sl_thread_stream env srv t1 c1 = Some (Continue, t2, c2)" "t' = snd (thread_throttle (dl env) (sync t2 c2))"
      "c' = c2\<lparr>info := cinfo t'\<rparr>"
    using assms(1) unfolding sl_thread_iteration_def Let_def t0_def ms_def
    by (auto split: option.splits outcome.splits prod.splits)
  have t0: "consecutive_errors t0 = consecutive_errors t" "throttle_msec t0 < THROTTLE_MAXIMUM + THROTTLE_STEPPING"
    using assms(2) by (auto simp: t0_def ms_def sl_session_ok_def)
  have cmd: "sl_typed c1 \<and> sl_authorised env c1 \<and> consecutive_errors t1 < MAX_CONSECUTIVE_ERRORS \<and> throttle_msec t1 \<le> throttle_msec t0"
    by (rule sl_thread_command_ok [OF run(1)]) (use assms(2) t0 in \<open>auto simp: sl_session_ok_def\<close>)
  note str = sl_thread_stream_ok [OF run(2)]
  have c2: "sl_typed c2" "sl_authorised env c2"
    using cmd str(1) by (simp_all add: sl_keeps_def sl_typed_def sl_authorised_def permitted_def)
  have thr: "rights (cinfo t') = rights (info c2)" "counters t' = counters t2"
    using thread_throttle_ok [of "dl env" "sync t2 c2"] by (simp_all add: run(3)) (simp_all add: sync_def)
  then have "sl_typed c'" "sl_authorised env c'"
    using c2 sl_authorised_rights [of c' c2 env] by (simp_all add: run(4) sl_typed_def)
  moreover have "throttle_msec t2 < THROTTLE_MAXIMUM + THROTTLE_STEPPING"
    using str(3) cmd t0(2) by (auto simp: THROTTLE_STEPPING_def max_def split: if_splits)
  ultimately show ?thesis using cmd str(2) thr(2) by (simp add: sl_session_ok_def counters_def)
qed

text \<open>
  C4: in every state of every SeedLink session, whatever the client sends and the other threads do to the
  ring, the state of the protocol is well typed: a known version, at most 10000 stations counted, selectors
  and labels of the allowed characters and lengths, station keys of at most 50 characters in the order of
  the tree and without repetition; and a client that streams is authenticated when that is required.
\<close>

theorem sl_session_well_typed:
  assumes "sl_session env (t, c)"
  shows "(started c \<longrightarrow> sl_ok (slinfo c)) \<and> (state (info c) = STATE_STREAM \<and> auth_required (dl env) \<longrightarrow> permitted (info c) AUTHENTICATED)
    \<and> consecutive_errors t < 20 \<and> throttle_msec t < 55"
proof -
  have "sl_session_ok env (fst s) (snd s)" if "sl_session env s" for s
    using that
  proof (induction rule: sl_session.induct)
    case (start srv ok protos i t)
    then have "state (cinfo t) = STATE_COMMAND" "consecutive_errors t = 0" "throttle_msec t = 0"
      by (auto simp: thread_start_def Let_def case_prod_unfold)
    then show ?case
      by (simp add: sl_session_ok_def sl_typed_def sl_authorised_def sl_client_start_def MAX_CONSECUTIVE_ERRORS_def THROTTLE_MAXIMUM_def)
  next
    case (iterate t c srv t' c')
    then show ?case using sl_iteration_ok by simp
  qed
  from this [OF assms] show ?thesis
    by (simp add: sl_session_ok_def sl_typed_def sl_authorised_def MAX_CONSECUTIVE_ERRORS_def THROTTLE_MAXIMUM_def THROTTLE_STEPPING_def)
qed


lemma fresh_sl_session: "\<exists>t. thread_start (dl sl_demo_env) (demo_server two_ring) True PROTO_SEEDLINK fresh_client = (Continue, t)
    \<and> ctype t = CLIENT_SEEDLINK"
  by (simp add: thread_start_def Let_def case_prod_unfold fresh_client_def demo_client_def RingAllowed_def UpdatePattern_def
      sl_demo_env_def dl_demo_env_def demo_auth_def demo_lib_def demo_server_def PROTO_SEEDLINK_def PROTO_DATALINK_def)

theorem sl_session_well_typed_witness:
  "\<exists>t. sl_session sl_demo_env (t, sl_client_start t) \<and> ctype t = CLIENT_SEEDLINK \<and> throttle_msec t < 55
     \<and> (state (cinfo t) = STATE_STREAM \<longrightarrow> permitted (cinfo t) AUTHENTICATED)"
proof -
  obtain t where t: "thread_start (dl sl_demo_env) (demo_server two_ring) True PROTO_SEEDLINK fresh_client = (Continue, t)"
      "ctype t = CLIENT_SEEDLINK" using fresh_sl_session by blast
  have s: "sl_session sl_demo_env (t, sl_client_start t)" by (rule sl_session.start [OF t(1)])
  have "auth_required (dl sl_demo_env)" by (simp add: sl_demo_env_def dl_demo_env_def)
  then show ?thesis using s t(2) sl_session_well_typed [OF s] by (auto simp: sl_client_start_def)
qed

end
