(* ===== verification/RS_SLProps.thy ===== *)
theory RS_SLProps
  imports RS_SLSession
begin

text \<open>
  What the requests of a SeedLink client do: where DATA places the reader, what a station that was refused
  leaves behind, and when the end of a time window is reported (\<open>ringserver-4/src/slclient.c\<close>).
\<close>

section \<open>DATA\<close>

text \<open>A client of version 4 that has asked for nothing yet.\<close>

definition plain_client :: "'re SLClient \<Rightarrow> bool" where
  "plain_client c \<longleftrightarrow> proto_major (slinfo c) = 4 \<and> state (info c) = STATE_COMMAND \<and> stationcount (slinfo c) = 0
     \<and> selectors (slinfo c) = [] \<and> matchstr (info c) = None \<and> rejectstr (info c) = None
     \<and> pktoffset (reader (info c)) < 0 \<and> rd_pktid (reader (info c)) = RINGID_NONE"

lemma Config_next_reader [simp]:
  "reader (info (Config_next c)) = (if rd_pktid (reader (info c)) = RINGID_NONE
     then (reader (info c))\<lparr>rd_pktid := RINGID_NEXT\<rparr> else reader (info c))"
  by (simp add: Config_next_def set_state_def)

lemma Negotiate_DATA_plain:
  assumes "plain_client c" "DATA_args env srv 4 cmd = Inr (pid, t1, t2)" "Negotiate_DATA env srv cmd c = (0, c1)"
  shows "startid (slinfo c1) = pid \<and> starttime c1 = t1 \<and> stationcount (slinfo c1) = 0 \<and> selectors (slinfo c1) = []
    \<and> matchstr (info c1) = None \<and> rejectstr (info c1) = None \<and> reader (info c1) = reader (info c)
    \<and> permissions (info c1) = permissions (info c)"
  using assms by (auto simp: plain_client_def Negotiate_DATA_def Let_def set_state_def)

lemma SL_configure_plain:
  assumes "stationcount (slinfo c) = 0" "selectors (slinfo c) = []" "matchstr (info c) = None" "rejectstr (info c) = None"
    "starttime c = NSTUNSET" "auth_required (dl env) \<longrightarrow> permitted (info c) AUTHENTICATED"
  shows "SL_configure env srv c = (case Config_position env srv c of
     None \<Rightarrow> None | Some (rv, c1) \<Rightarrow> Some (if rv \<noteq> 0 then (-1, c1) else (0, Config_next c1)))"
proof -
  have same: "set_info (\<lambda>i. i\<lparr>reader := reader (info c)\<rparr>) c = c" by (simp add: set_info_def)
  have "Config_selection env srv c = Some (0, c)" using assms(1,2) by (simp add: Config_selection_def)
  moreover have "Config_expressions env srv c = (0, c)"
    using assms(3,4) same by (simp add: Config_expressions_def Let_def)
  moreover have "Config_time env srv c1 = (0, c1)" if "Config_position env srv c = Some (rv, c1)" for rv c1
    using that assms(5) by (auto simp: Config_time_def Config_position_def split: if_splits option.splits prod.splits)
  ultimately show ?thesis using assms(6) by (auto simp: SL_configure_def split: option.split)
qed

lemma RingPosition_missing:
  assumes "ring_inv p" "length (live p) \<le> fuel" "pid \<le> RINGID_MAXIMUM" "\<forall>i < length (live p). id_at p i \<noteq> pid"
  shows "RingPosition fuel p rd pid NSTUNSET = Some (RINGID_NONE, rd)"
proof (cases "latestoffset p < 0")
  case False
  have "pid \<noteq> RINGID_EARLIEST" "pid \<noteq> RINGID_LATEST" using assms(3) by (auto simp: ringid_defs)
  then show ?thesis using FindOffset_result [OF assms(1) False assms(2), of pid 0] assms(3,4) False leD [OF assms(3)]
    by (auto simp: RingPosition_def)
qed (simp add: RingPosition_def)

lemma before_le: "0 < n \<Longrightarrow> n \<le> RINGID_MAXIMUM \<Longrightarrow> n - 1 \<le> RINGID_MAXIMUM \<and> before_requested n = n - 1"
  using unat_minus_one [of n] by (auto simp: before_requested_def word_le_nat_alt)

lemma DATA_position:
  assumes "plain_client c" "argc cmd = 2" "\<not> overflow cmd" "Negotiate_DATA env srv cmd c = (0, c1)"
    "auth_required (dl env) \<longrightarrow> permitted (info c) AUTHENTICATED" "DATA_packet_v4 cmd = Inr pid"
  shows "Config_position env srv c1 = (if startid (slinfo c1) \<le> RINGID_MAXIMUM then
        (case RingPosition (rfuel (dl env)) (ring srv) (reader (info c)) (startid (slinfo c1)) NSTUNSET of
           None \<Rightarrow> None
         | Some (retval, rd') \<Rightarrow> Some (if retval = RINGID_ERROR then -1 else 0, set_info (\<lambda>i. i\<lparr>reader := rd'\<rparr>) c1))
      else Some (0, c1)) \<and> startid (slinfo c1) = before_requested pid \<and> reader (info c1) = reader (info c)
      \<and> SL_configure env srv c1 = (case Config_position env srv c1 of
          None \<Rightarrow> None | Some (rv, c3) \<Rightarrow> Some (if rv \<noteq> 0 then (-1, c3) else (0, Config_next c3)))"
proof -
  have "DATA_args env srv 4 cmd = Inr (before_requested pid, NSTUNSET, NSTUNSET)"
    using assms(2,6) by (simp add: DATA_args_def DATA_time_def)
  from Negotiate_DATA_plain [OF assms(1) this assms(4)] assms(5) show ?thesis
    by (intro conjI SL_configure_plain) (simp_all add: Config_position_def permitted_def)
qed



lemma RingPosition_returns:
  assumes "ring_inv p" "length (live p) \<le> fuel"
  shows "RingPosition fuel p rd pid pt \<noteq> None"
proof (cases "latestoffset p < 0")
  case False
  have f: "\<exists>off t. FindOffsetForID fuel p i 0 = Some (off, t)" for i
    using FindOffset_result [OF assms(1) False assms(2), of i 0] by (metis prod.collapse)
  define i where "i = (if pid = RINGID_EARLIEST then fst (RingReadPacket p (earliestoffset p) empty_packet False)
     else if pid = RINGID_LATEST then fst (RingReadPacket p (latestoffset p) empty_packet False) else pid)"
  obtain off t where "FindOffsetForID fuel p i 0 = Some (off, t)" using f by blast
  then show ?thesis unfolding RingPosition_def i_def [symmetric] Let_def by simp
qed (simp add: RingPosition_def)

definition plain_demo :: "string SLClient" where
  "plain_demo = sl_demo_client\<lparr>info := demo_client\<lparr>permissions := AUTHENTICATED,
     reader := start_reader\<lparr>rd_pktid := RINGID_NONE\<rparr>\<rparr>\<rparr>"

lemma plain_demo: "plain_client plain_demo" "permitted (info plain_demo) AUTHENTICATED"
  by (simp_all add: plain_client_def plain_demo_def sl_demo_client_def demo_client_def new_SLInfo_def start_reader_def
      permitted_def permission_defs)



section \<open>A refused station\<close>

text \<open>
  C39: a STATION that is refused, for its characters or because the limit is reached, still names the station
  that is being configured: a SELECT that follows it is accepted and adds an entry for the refused identifier,
  unchecked and without counting it.
\<close>

theorem refused_station_is_configured:
  assumes "STATION_staid (proto_major (slinfo c)) cmd = Inr staid" "state (info c) = STATE_STATION"
    "\<not> only_chars VALIDSTAIDCHARS staid \<or> stationcount (slinfo c) \<ge> SLMAXSTATIONS"
    "Negotiate_STATION env srv cmd c = (0, c1)"
    "SELECT_selectors (proto_major (slinfo c)) cmd2 = Inr sels" "malloc_ok (dl env)"
    "Negotiate_SELECT env srv cmd2 c1 = (0, c2)"
  shows "ol_find StaKeyCompare (stations (slinfo c2)) staid \<noteq> None \<and> stationcount (slinfo c2) = stationcount (slinfo c)
    \<and> state (info c2) = STATE_STATION"
proof -
  let ?cr = "set_sl (\<lambda>sl. sl\<lparr>reqstaid := staid\<rparr>) c"
  have c1: "slinfo c1 = slinfo ?cr \<and> state (info c1) = STATE_STATION"
  proof (cases "stationcount (slinfo c) \<ge> SLMAXSTATIONS")
    case True
    then have "Negotiate_STATION env srv cmd c
        = and_then (unless_batch env srv ?cr ''ERROR'' ERROR_LIMIT (Some ''Station limit reached'')) sl_done"
      by (simp add: Negotiate_STATION_def assms(1) Let_def)
    then have "c1 = snd (unless_batch env srv ?cr ''ERROR'' ERROR_LIMIT (Some ''Station limit reached''))"
      using assms(4) by (auto simp: and_then_def sl_done_def case_prod_unfold split: if_splits)
    then show ?thesis using assms(2) by simp
  next
    case False
    then have "Negotiate_STATION env srv cmd c
        = and_then (unless_batch env srv ?cr ''ERROR'' ERROR_ARGUMENTS (Some ''Invalid characters in station ID'')) sl_done"
      using assms(3) by (simp add: Negotiate_STATION_def assms(1) Let_def)
    then have "c1 = snd (unless_batch env srv ?cr ''ERROR'' ERROR_ARGUMENTS (Some ''Invalid characters in station ID''))"
      using assms(4) by (auto simp: and_then_def sl_done_def case_prod_unfold split: if_splits)
    then show ?thesis using assms(2) by simp
  qed
  obtain st tree where g: "GetReqStationID True (stations (slinfo c1)) staid = Some (st, tree)"
    by (cases "ol_find StaKeyCompare (stations (slinfo c1)) staid") (auto simp: GetReqStationID_def)
  have found: "ol_find StaKeyCompare tree staid \<noteq> None"
    using g by (auto simp: GetReqStationID_def sta.find_insert split: option.splits)
  let ?link = "\<lambda>st :: ReqStationID. st\<lparr>rq_selectors := LinkSelectorLists (rq_selectors st) (filter (\<lambda>s. \<not> negated s) sels) (filter negated sels)\<rparr>"
  have "Negotiate_SELECT env srv cmd2 c1 = and_then (unless_batch env srv (set_sl (\<lambda>sl. sl\<lparr>stations := tree\<rparr>) c1) ''OK'' ERROR_NONE None)
      (\<lambda>c1. (0, set_sl (upd_station (reqstaid (slinfo c1)) ?link) c1))"
    using assms(5,6) c1 g by (simp add: Negotiate_SELECT_def Let_def)
  then have "c2 = set_sl (upd_station staid ?link) (snd (unless_batch env srv (set_sl (\<lambda>sl. sl\<lparr>stations := tree\<rparr>) c1) ''OK'' ERROR_NONE None))"
    using assms(7) c1 by (auto simp: and_then_def case_prod_unfold split: if_splits)
  then show ?thesis using c1 found by (simp add: upd_station_def sta.find_update)
qed

text \<open>A client of version 4 in batch mode that is configuring a station.\<close>

definition station_demo :: "string SLClient" where
  "station_demo = plain_demo\<lparr>info := (info plain_demo)\<lparr>state := STATE_STATION\<rparr>,
     slinfo := (slinfo plain_demo)\<lparr>batch := True, stationcount := 1\<rparr>\<rparr>"

lemma SELECT_in_batch:
  assumes "batch (slinfo c)" "malloc_ok (dl env)" "SELECT_selectors (proto_major (slinfo c)) cmd = Inr sels"
  shows "fst (Negotiate_SELECT env srv cmd c) = 0"
proof -
  obtain st tree where "GetReqStationID True (stations (slinfo c)) (reqstaid (slinfo c)) = Some (st, tree)"
    by (cases "ol_find StaKeyCompare (stations (slinfo c)) (reqstaid (slinfo c))") (auto simp: GetReqStationID_def)
  then show ?thesis
    using assms by (cases "state (info c)") (simp_all add: Negotiate_SELECT_def and_then_def unless_batch_def Let_def)
qed

theorem refused_station_is_configured_witness:
  "\<exists>c1 c2. Negotiate_STATION sl_demo_env (demo_server demo_ring) (the (cmdtoken_parse ''STATION (XX|YY)_.+'')) station_demo = (0, c1)
    \<and> Negotiate_SELECT sl_demo_env (demo_server demo_ring) (the (cmdtoken_parse ''SELECT *:3'')) c1 = (0, c2)
    \<and> ol_find StaKeyCompare (stations (slinfo c2)) ''(XX|YY)_.+'' \<noteq> None \<and> stationcount (slinfo c2) = 1"
proof -
  define k1 where "k1 = the (cmdtoken_parse ''STATION (XX|YY)_.+'')"
  define k2 where "k2 = the (cmdtoken_parse ''SELECT *:3'')"
  have c: "proto_major (slinfo station_demo) = 4" "state (info station_demo) = STATE_STATION" "batch (slinfo station_demo)"
      "stationcount (slinfo station_demo) = 1"
    by (simp_all add: station_demo_def plain_demo_def sl_demo_client_def)
  have k1: "STATION_staid 4 k1 = Inr ''(XX|YY)_.+''" unfolding k1_def by code_simp
  have k2: "SELECT_selectors 4 k2 = Inr [\<lparr>sel_string = ''*'', sel_label = [], sel_convert = CONVERT_MSEED3\<rparr>]"
    unfolding k2_def by code_simp
  have bad: "\<not> only_chars VALIDSTAIDCHARS ''(XX|YY)_.+''" by code_simp
  have m: "malloc_ok (dl sl_demo_env)" by (simp add: sl_demo_env_def dl_demo_env_def)
  obtain c1 where s: "Negotiate_STATION sl_demo_env (demo_server demo_ring) k1 station_demo = (0, c1)"
      "batch (slinfo c1)" "proto_major (slinfo c1) = 4"
    using bad c k1 by (simp add: Negotiate_STATION_def and_then_def unless_batch_def sl_done_def Let_def SLMAXSTATIONS_def)
  obtain c2 where t: "Negotiate_SELECT sl_demo_env (demo_server demo_ring) k2 c1 = (0, c2)"
    using SELECT_in_batch [of c1 sl_demo_env k2] k2 s(2,3) m by (metis prod.collapse)
  show ?thesis
    using refused_station_is_configured [OF _ _ _ s(1) _ m t] c k1 k2 bad s(1) t unfolding k1_def [symmetric] k2_def [symmetric] by simp
qed

section \<open>The end of a time window\<close>

text \<open>The streams of a client that have not reached the end of the window.\<close>

definition open_streams :: "(u64 \<rightharpoonup> StreamNode) \<Rightarrow> u64 set" where
  "open_streams tree = {k. \<exists>n. tree k = Some n \<and> \<not> endtimereached n}"

definition window_counted :: "'re SLClient \<Rightarrow> bool" where
  "window_counted c \<longleftrightarrow> finite (dom (streams (info c)))
     \<and> timewinchannels (slinfo c) = int (card (open_streams (streams (info c))))"

lemma open_streams_finite: "finite (dom tree) \<Longrightarrow> finite (open_streams tree)"
  by (rule finite_subset [of _ "dom tree"]) (auto simp: open_streams_def)

lemma open_streams_keep:
  "(\<And>n. endtimereached (f n) = endtimereached n) \<Longrightarrow> open_streams (UpdStreamNode tree sid f) = open_streams tree"
  by (auto simp: open_streams_def UpdStreamNode_def Let_def)

lemma open_streams_reached:
  "open_streams (UpdStreamNode tree sid (\<lambda>n. n\<lparr>endtimereached := True\<rparr>)) = open_streams tree - {FNVhash64 (Some sid)}"
  by (auto simp: open_streams_def UpdStreamNode_def Let_def)

lemma dom_UpdStreamNode [simp]: "dom (UpdStreamNode tree sid f) = dom tree"
  by (auto simp: UpdStreamNode_def Let_def dom_def)


lemma Stream_node_window:
  assumes "Stream_node env c = Some (sn, newstream, c1)" "window_counted c"
  defines "k \<equiv> FNVhash64 (Some (streamid (packet (info c))))"
  shows "finite (dom (streams (info c1)))" "k \<in> dom (streams (info c1))"
    "int (card (open_streams (streams (info c1)))) = timewinchannels (slinfo c) + newstream"
    "endtimereached sn \<longleftrightarrow> k \<notin> open_streams (streams (info c1))"
    "packet (info c1) = packet (info c)" "endtime c1 = endtime c" "timewinchannels (slinfo c1) = timewinchannels (slinfo c)"
proof -
  let ?sid = "streamid (packet (info c))" and ?old = "streams (info c)"
  have fin: "finite (dom ?old)" and cnt: "timewinchannels (slinfo c) = int (card (open_streams ?old))"
    using assms(2) by (simp_all add: window_counted_def)
  have "finite (dom (streams (info c1))) \<and> k \<in> dom (streams (info c1))
    \<and> int (card (open_streams (streams (info c1)))) = timewinchannels (slinfo c) + newstream
    \<and> (endtimereached sn \<longleftrightarrow> k \<notin> open_streams (streams (info c1)))
    \<and> packet (info c1) = packet (info c) \<and> endtime c1 = endtime c \<and> timewinchannels (slinfo c1) = timewinchannels (slinfo c)"
  proof (cases "?old k")
    case (Some n)
    then show ?thesis
      using assms(1) fin cnt by (auto simp: Stream_node_def Let_def GetStreamNode_def k_def open_streams_def)
  next
    case None
    let ?new = "?old(k \<mapsto> new_StreamNode ?sid)"
    have c1: "streams (info c1) = UpdStreamNode ?new ?sid (\<lambda>n. n\<lparr>convert := SLFindFilter (slinfo c) ?sid\<rparr>)"
        "newstream = 1" "endtimereached sn = False" "packet (info c1) = packet (info c)" "endtime c1 = endtime c"
        "timewinchannels (slinfo c1) = timewinchannels (slinfo c)"
      using assms(1) None by (auto simp: Stream_node_def Let_def GetStreamNode_def k_def new_StreamNode_def split: if_splits)
    have open1: "open_streams (streams (info c1)) = insert k (open_streams ?old)"
      unfolding c1(1) using None by (subst open_streams_keep) (auto simp: open_streams_def new_StreamNode_def)
    moreover have "k \<notin> open_streams ?old" using None by (simp add: open_streams_def)
    ultimately show ?thesis
      using c1 fin cnt open_streams_finite [OF fin] by (simp add: dom_def [symmetric])
  qed
  then show "finite (dom (streams (info c1)))" "k \<in> dom (streams (info c1))"
    "int (card (open_streams (streams (info c1)))) = timewinchannels (slinfo c) + newstream"
    "endtimereached sn \<longleftrightarrow> k \<notin> open_streams (streams (info c1))"
    "packet (info c1) = packet (info c)" "endtime c1 = endtime c" "timewinchannels (slinfo c1) = timewinchannels (slinfo c)"
    by simp_all
qed

lemma Stream_window_counts:
  assumes "Stream_node env c = Some (sn, newstream, c1)" "window_counted c" "endtime c \<noteq> 0" "endtime c \<noteq> NSTUNSET"
    "Stream_window sn newstream c1 = (skip, ended, c2)"
  shows "window_counted c2 \<and> (ended \<longleftrightarrow> open_streams (streams (info c2)) = {}) \<and> dom (streams (info c2)) \<noteq> {}
    \<and> endtime c2 = endtime c \<and> packet (info c2) = packet (info c)
    \<and> (\<not> skip \<longrightarrow> datastart (packet (info c)) \<le> endtime c)"
proof -
  let ?k = "FNVhash64 (Some (streamid (packet (info c))))"
  note node = Stream_node_window [OF assms(1,2)]
  note fin = open_streams_finite [OF node(1)]
  let ?reached = "datastart (packet (info c)) > endtime c"
  show ?thesis
  proof (cases "\<not> endtimereached sn \<and> ?reached")
    case True
    have c2: "streams (info c2) = UpdStreamNode (streams (info c1)) (streamid (packet (info c))) (\<lambda>n. n\<lparr>endtimereached := True\<rparr>)"
        "timewinchannels (slinfo c2) = timewinchannels (slinfo c) + newstream - 1" "skip"
        "ended \<longleftrightarrow> timewinchannels (slinfo c2) \<le> 0" "endtime c2 = endtime c" "packet (info c2) = packet (info c)"
      using assms(3-5) True node(5-7) by (auto simp: Stream_window_def Let_def)
    have k: "?k \<in> open_streams (streams (info c1))" using True node(4) by simp
    have open2: "open_streams (streams (info c2)) = open_streams (streams (info c1)) - {?k}"
      by (simp add: c2(1) open_streams_reached)
    have cnt: "int (card (open_streams (streams (info c2)))) = timewinchannels (slinfo c2)"
    proof -
      have "card (open_streams (streams (info c1))) > 0" using k fin card_gt_0_iff by blast
      then show ?thesis using node(3) k fin by (simp add: open2 c2(2) of_nat_diff)
    qed
    have fin2: "finite (open_streams (streams (info c2)))" using fin open2 by simp
    have "dom (streams (info c2)) = dom (streams (info c1))" by (simp add: c2(1))
    moreover have "timewinchannels (slinfo c2) \<le> 0 \<longleftrightarrow> open_streams (streams (info c2)) = {}"
      using fin2 by (simp add: cnt [symmetric])
    ultimately show ?thesis
      using c2(3-6) node(1,2) cnt by (auto simp: window_counted_def)
  next
    case False
    have c2: "streams (info c2) = streams (info c1)" "timewinchannels (slinfo c2) = timewinchannels (slinfo c) + newstream"
        "skip \<longleftrightarrow> endtimereached sn \<or> ?reached" "ended \<longleftrightarrow> timewinchannels (slinfo c2) \<le> 0" "endtime c2 = endtime c"
        "packet (info c2) = packet (info c)"
      using assms(3-5) False node(5-7) by (auto simp: Stream_window_def Let_def)
    have cnt: "int (card (open_streams (streams (info c1)))) = timewinchannels (slinfo c2)" by (simp add: c2(2) node(3))
    have "timewinchannels (slinfo c2) \<le> 0 \<longleftrightarrow> open_streams (streams (info c1)) = {}"
      using fin by (simp add: cnt [symmetric])
    then show ?thesis
      using c2(1,3-6) node(1,2) cnt by (auto simp: window_counted_def)
  qed
qed


text \<open>A client whose window is not over: no stream has come yet, or one of them has not reached the end.\<close>

definition window_live :: "'re SLClient \<Rightarrow> bool" where
  "window_live c \<longleftrightarrow> window_counted c \<and> (dom (streams (info c)) = {} \<or> open_streams (streams (info c)) \<noteq> {})"

lemma window_counted_same:
  "streams (info c') = streams (info c) \<Longrightarrow> slinfo c' = slinfo c \<Longrightarrow> window_counted c' = window_counted c"
  by (simp add: window_counted_def)

lemma Stream_send_window:
  assumes "Stream_send env srv sn c = (rv, c')" "window_counted c"
  shows "window_counted c' \<and> open_streams (streams (info c')) = open_streams (streams (info c))
    \<and> dom (streams (info c')) = dom (streams (info c)) \<and> endtime c' = endtime c \<and> slinfo c' = slinfo c"
proof -
  obtain rec n where r: "Stream_record env sn (packet (info c)) (sendbuf (info c)) = (rec, n)"
    by (cases "Stream_record env sn (packet (info c)) (sendbuf (info c))")
  obtain rv1 c1 where s: "SendRecord env srv (packet (info c)) rec n c = (rv1, c1)"
    by (cases "SendRecord env srv (packet (info c)) rec n c")
  have "sl_part c1 = sl_part c" using sl_part_SendRecord [of env srv "packet (info c)" rec n c] by (simp add: s)
  note c1 = sl_part_D [OF this]
  let ?upd = "UpdStreamNode (streams (info c)) (streamid (packet (info c)))
      (\<lambda>n. n\<lparr>txpackets := txpackets n + 1, txbytes := txbytes n + ucast (datasize (packet (info c)))\<rparr>)"
  have "streams (info c') \<in> {streams (info c), ?upd} \<and> endtime c' = endtime c \<and> slinfo c' = slinfo c"
    using assms(1) c1 by (auto simp: Stream_send_def Let_def r s split: if_splits)
  moreover have "open_streams ?upd = open_streams (streams (info c))" "dom ?upd = dom (streams (info c))"
    by (simp_all add: open_streams_keep)
  ultimately show ?thesis using assms(2) by (elim conjE insertE) (simp_all add: window_counted_def)
qed

lemma SendDataMB_txpackets [simp]: "txpackets0 (snd (SendDataMB cfg ns i bufs no)) = txpackets0 i"
proof -
  obtain r out evs t where l: "SendDataMB_loop cfg (length (concat bufs)) 0
      (if websocket i \<and> \<not> no then the (wsframe (length (concat bufs))) # bufs else bufs) (outq i) (clock i) ns = (r, out, evs, t)"
    by (metis prod_cases4)
  show ?thesis
    using l unfolding SendDataMB_def Let_def by (cases r) (auto split: option.split)
qed

lemma Stream_end_leaves:
  "sl_part (snd (Stream_end env srv d)) = sl_part d" "txpackets0 (info (snd (Stream_end env srv d))) = txpackets0 (info d)"
  "packet (info (snd (Stream_end env srv d))) = packet (info d)" "fst (Stream_end env srv d) = -1"
proof -
  show "sl_part (snd (Stream_end env srv d)) = sl_part d" "fst (Stream_end env srv d) = -1"
    by (simp_all add: Stream_end_def)
  show "txpackets0 (info (snd (Stream_end env srv d))) = txpackets0 (info d)"
    "packet (info (snd (Stream_end env srv d))) = packet (info d)"
    by (simp_all add: Stream_end_def SL_SendData_def SendData_def case_prod_unfold)
qed

lemma Stream_send_packet:
  assumes "Stream_send env srv sn c = (rv, c')"
  shows "packet (info c') = packet (info c)"
proof -
  have "packet (info (snd (SendRecord env srv pkt rec n c))) = packet (info c)" for pkt rec n
    by (simp add: SendRecord_def SL_SendPacket_def Let_def case_prod_unfold split: option.split)
  then show ?thesis
    using assms by (auto simp: Stream_send_def Let_def case_prod_unfold split: if_splits)
qed

lemma window_record_ends:
  assumes node: "Stream_node env c1 = Some (sn, n, c2)" and w: "Stream_window sn n c2 = (skip, ended, c3)"
    and res: "(rv, c') = (if ended then Stream_end env srv c3 else if skip then (0, c3) else Stream_send env srv sn c3)"
    and live: "window_live c1" and time: "endtime c1 \<noteq> 0" "endtime c1 \<noteq> NSTUNSET"
  shows "endtime c' = endtime c1 \<and> window_counted c' \<and> (0 \<le> rv \<longrightarrow> window_live c')
    \<and> (\<not> window_live c' \<longrightarrow> rv = -1 \<and> (\<exists>d. c' = snd (Stream_end env srv d)))
    \<and> (txpackets0 (info c') \<noteq> txpackets0 (info c1) \<longrightarrow> datastart (packet (info c')) \<le> endtime c1)"
proof -
  have counts: "window_counted c3 \<and> (ended \<longleftrightarrow> open_streams (streams (info c3)) = {}) \<and> dom (streams (info c3)) \<noteq> {}
      \<and> endtime c3 = endtime c1 \<and> packet (info c3) = packet (info c1) \<and> (\<not> skip \<longrightarrow> datastart (packet (info c1)) \<le> endtime c1)"
    by (rule Stream_window_counts [OF node _ _ _ w]) (use live time in \<open>simp_all add: window_live_def\<close>)
  have tx: "txpackets0 (info c3) = txpackets0 (info c1)"
    using node w by (auto simp: Stream_node_def Stream_window_def Let_def split: option.splits prod.splits if_splits)
  note fin = Stream_end_leaves(1,2,4) [of env srv c3]
  consider "ended" | "\<not> ended" "skip" | "\<not> ended" "\<not> skip" by blast
  then show ?thesis
  proof cases
    case 1
    then have "c' = snd (Stream_end env srv c3)" "rv = -1" using res fin(3) by (simp_all add: prod_eq_iff)
    then show ?thesis using counts sl_part_D [OF fin(1)] fin(2) tx by (auto simp: window_counted_def)
  next
    case 2
    then show ?thesis using res counts tx by (auto simp: window_live_def)
  next
    case 3
    then have sent: "Stream_send env srv sn c3 = (rv, c')" using res by simp
    show ?thesis using Stream_send_window [OF sent] Stream_send_packet [OF sent] counts 3 by (auto simp: window_live_def)
  qed
qed



text \<open>A ring with one record, which starts at 2000, and a client that wants the data up to 1000.\<close>

definition late_record :: RingPacket where
  "late_record = (demo_packet ''FDSN:XX_ABC__H_H_Z/MSEED3'' [0x4D, 0x53, 3])\<lparr>datastart := 2000, dataend := 2010\<rparr>"

definition late_ring :: param_s where
  "late_ring = snd (write_all demo_ring [(7, late_record, [0x4D, 0x53, 3])])"

definition window_demo :: "string SLClient" where
  "window_demo = plain_demo\<lparr>info := (info plain_demo)\<lparr>reader := start_reader\<rparr>, started := True, endtime := 1000\<rparr>"

lemma late_ring:
  "ring_inv late_ring" "length (live late_ring) = 1" "nslots late_ring = 3"
  "ring_queue late_ring = [\<lparr>a_pktid = 1, a_pkttime = 7, a_datastart = 2000, a_dataend = 2010,
     a_streamid = ''FDSN:XX_ABC__H_H_Z/MSEED3'', a_data = [0x4D, 0x53, 3]\<rparr>]"
proof -
  let ?ws = "[(7, late_record, [0x4D, 0x53, 3])]"
  have ok: "length ?ws \<le> 3" "\<forall>w \<in> set ?ws. call_ok demo_ring w"
    using demo_call [of "[0x4D, 0x53, 3]" "''FDSN:XX_ABC__H_H_Z/MSEED3''" 7]
    by (simp_all add: call_ok_def late_record_def MAXSTREAMID_def)
  note run = demo_run [OF ok, folded late_ring_def]
  show "ring_inv late_ring" "length (live late_ring) = 1" "nslots late_ring = 3"
    "ring_queue late_ring = [\<lparr>a_pktid = 1, a_pkttime = 7, a_datastart = 2000, a_dataend = 2010,
       a_streamid = ''FDSN:XX_ABC__H_H_Z/MSEED3'', a_data = [0x4D, 0x53, 3]\<rparr>]"
    using run by (simp_all add: late_record_def demo_packet_def id_after_def ringid_defs)
qed

lemma late_read:
  "\<exists>rd pkt. RingReadNext 10 late_ring starts_with start_reader empty_packet True = Some (1, rd, pkt, Some [0x4D, 0x53, 3])
     \<and> datastart pkt = 2000"
proof -
  obtain x where l: "live late_ring = [x]" using late_ring(2) by (auto simp: length_Suc_conv)
  have q: "pktid (PACKETPTR late_ring x) = 1" "datastart (PACKETPTR late_ring x) = 2000"
      "streamid (PACKETPTR late_ring x) = ''FDSN:XX_ABC__H_H_Z/MSEED3''" "a_data (abs_slot (ringmem late_ring x)) = [0x4D, 0x53, 3]"
    using late_ring(4) by (simp_all add: ring_queue_def l abs_slot_def PACKETPTR_def)
  have ne: "\<not> latestoffset late_ring < 0" using late_ring(2) live_empty by fastforce
  have times: "times_ok late_ring" by (rule sorted_times_ok [OF late_ring(1)]) (simp add: late_ring)
  have st: "starts_at late_ring start_reader 0" by (rule starts_at.earliest) (simp_all add: start_reader_def late_ring)
  have "find (wanted starts_with start_reader late_ring) (drop 0 (live late_ring)) = Some x"
    by (simp add: l wanted_def selects_def q start_reader_def MAXSTREAMID_def Let_def)
  then show ?thesis
    using RingReadNext_eval [OF late_ring(1) ne times st, of 10 starts_with empty_packet True] late_ring(2) by (simp add: q)
qed


end
