(* ===== verification/RS_RBTree.thy ===== *)
theory RS_RBTree
  imports RS_Stack RS_OrdList
begin

text \<open>
  The red-black trees of \<open>ringserver-4/src/rbtree.c\<close> on an explicit heap of nodes: creation, search,
  insertion and deletion with their rotations and repairs, the walk to the neighbours, and the stack of
  all nodes.  A pointer is an address; \<open>malloc\<close> is an argument as for the stacks.  A loop is a partial
  function, none when it does not end; that it ends on every tree of the program is proved in the
  theories that follow.
\<close>

section \<open>Nodes and trees\<close>

record ('k, 'd) RBNode =
  rb_key :: "'k option"
  rb_data :: "'d option"
  red :: bool
  left :: addr
  right :: addr
  parent :: addr

text \<open>The sentinels; the functions of the tree are arguments of the operations that call them.\<close>

record RBTree =
  root :: addr
  nil :: addr

type_synonym ('k, 'd) rbheap = "addr \<Rightarrow> ('k, 'd) RBNode option"

abbreviation nd :: "('k, 'd) rbheap \<Rightarrow> addr \<Rightarrow> ('k, 'd) RBNode" where "nd h a \<equiv> the (h a)"

text \<open>Assignment through a pointer.\<close>

definition upd :: "('k, 'd) rbheap \<Rightarrow> addr \<Rightarrow> (('k, 'd) RBNode \<Rightarrow> ('k, 'd) RBNode) \<Rightarrow> ('k, 'd) rbheap" where
  "upd h a f = h(a \<mapsto> f (nd h a))"

text \<open>A new block; the routines set its fields before they read them.\<close>

definition blank :: "('k, 'd) RBNode" where
  "blank = \<lparr>rb_key = None, rb_data = None, red = False, left = 0, right = 0, parent = 0\<rparr>"

text \<open>The null pointer, where a node is removed but kept.\<close>

definition NULL :: addr where "NULL = 0"

definition RBTreeCreate ::
  "bool \<Rightarrow> addr option \<Rightarrow> addr option \<Rightarrow> ('k, 'd) rbheap \<Rightarrow> RBTree option \<times> ('k, 'd) rbheap" where
  "RBTreeCreate tree_ok nil_malloc root_malloc h =
     (if \<not> tree_ok then (None, h)
      else (case nil_malloc of
          None \<Rightarrow> (None, h)
        | Some n \<Rightarrow>
           (let h1 = h(n \<mapsto> \<lparr>rb_key = None, rb_data = None, red = False, left = n, right = n, parent = n\<rparr>)
            in case root_malloc of
                 None \<Rightarrow> (None, h1(n := None))
               | Some r \<Rightarrow>
                   (Some \<lparr>root = r, nil = n\<rparr>,
                    h1(r \<mapsto> \<lparr>rb_key = None, rb_data = None, red = False, left = n, right = n, parent = n\<rparr>)))))"

section \<open>Rotations\<close>

definition LeftRotate :: "RBTree \<Rightarrow> ('k, 'd) rbheap \<Rightarrow> addr \<Rightarrow> ('k, 'd) rbheap" where
  "LeftRotate tree h x =
     (let y = right (nd h x);
          h1 = upd h x (\<lambda>n. n\<lparr>right := left (nd h y)\<rparr>);
          h2 = (if left (nd h1 y) \<noteq> nil tree then upd h1 (left (nd h1 y)) (\<lambda>n. n\<lparr>parent := x\<rparr>) else h1);
          h3 = upd h2 y (\<lambda>n. n\<lparr>parent := parent (nd h2 x)\<rparr>);
          p = parent (nd h3 x);
          h4 = (if x = left (nd h3 p) then upd h3 p (\<lambda>n. n\<lparr>left := y\<rparr>) else upd h3 p (\<lambda>n. n\<lparr>right := y\<rparr>));
          h5 = upd h4 y (\<lambda>n. n\<lparr>left := x\<rparr>)
      in upd h5 x (\<lambda>n. n\<lparr>parent := y\<rparr>))"

definition RightRotate :: "RBTree \<Rightarrow> ('k, 'd) rbheap \<Rightarrow> addr \<Rightarrow> ('k, 'd) rbheap" where
  "RightRotate tree h y =
     (let x = left (nd h y);
          h1 = upd h y (\<lambda>n. n\<lparr>left := right (nd h x)\<rparr>);
          h2 = (if nil tree \<noteq> right (nd h1 x) then upd h1 (right (nd h1 x)) (\<lambda>n. n\<lparr>parent := y\<rparr>) else h1);
          h3 = upd h2 x (\<lambda>n. n\<lparr>parent := parent (nd h2 y)\<rparr>);
          p = parent (nd h3 y);
          h4 = (if y = left (nd h3 p) then upd h3 p (\<lambda>n. n\<lparr>left := x\<rparr>) else upd h3 p (\<lambda>n. n\<lparr>right := x\<rparr>));
          h5 = upd h4 x (\<lambda>n. n\<lparr>right := y\<rparr>)
      in upd h5 y (\<lambda>n. n\<lparr>parent := x\<rparr>))"

section \<open>Insertion\<close>

text \<open>The loop of \<open>TreeInsertHelp\<close>: the last node on the way down.\<close>

partial_function (option) TreeInsert_descend ::
  "('k \<Rightarrow> 'k \<Rightarrow> int) \<Rightarrow> addr \<Rightarrow> ('k, 'd) rbheap \<Rightarrow> 'k \<Rightarrow> addr \<Rightarrow> addr \<Rightarrow> addr option" where
  "TreeInsert_descend cmp n h key y x =
     (if x = n then Some y
      else if cmp (the (rb_key (nd h x))) key > 0 then TreeInsert_descend cmp n h key x (left (nd h x))
      else TreeInsert_descend cmp n h key x (right (nd h x)))"

definition TreeInsertHelp ::
  "('k \<Rightarrow> 'k \<Rightarrow> int) \<Rightarrow> RBTree \<Rightarrow> ('k, 'd) rbheap \<Rightarrow> addr \<Rightarrow> ('k, 'd) rbheap option" where
  "TreeInsertHelp cmp tree h z =
     (let h1 = upd h z (\<lambda>n. n\<lparr>left := nil tree, right := nil tree\<rparr>);
          key = the (rb_key (nd h1 z))
      in case TreeInsert_descend cmp (nil tree) h1 key (root tree) (left (nd h1 (root tree))) of
           None \<Rightarrow> None
         | Some y \<Rightarrow>
            (let h2 = upd h1 z (\<lambda>n. n\<lparr>parent := y\<rparr>)
             in Some (if y = root tree \<or> cmp (the (rb_key (nd h2 y))) key > 0
                      then upd h2 y (\<lambda>n. n\<lparr>left := z\<rparr>) else upd h2 y (\<lambda>n. n\<lparr>right := z\<rparr>))))"

text \<open>One turn of the repair loop: the heap and \<open>x\<close>.\<close>

definition RBTreeInsert_step :: "RBTree \<Rightarrow> ('k, 'd) rbheap \<Rightarrow> addr \<Rightarrow> ('k, 'd) rbheap \<times> addr" where
  "RBTreeInsert_step tree h x =
     (let p = parent (nd h x); g = parent (nd h p);
          recolour = (\<lambda>y. (upd (upd (upd h p (\<lambda>n. n\<lparr>red := False\<rparr>)) y (\<lambda>n. n\<lparr>red := False\<rparr>)) g (\<lambda>n. n\<lparr>red := True\<rparr>), g))
      in if p = left (nd h g) then
           (let y = right (nd h g)
            in if red (nd h y) then recolour y
               else (case (if x = right (nd h p) then (LeftRotate tree h p, p) else (h, x)) of (h1, x1) \<Rightarrow>
                  (let p1 = parent (nd h1 x1);
                       h2 = upd h1 p1 (\<lambda>n. n\<lparr>red := False\<rparr>);
                       g2 = parent (nd h2 p1);
                       h3 = upd h2 g2 (\<lambda>n. n\<lparr>red := True\<rparr>)
                   in (RightRotate tree h3 (parent (nd h3 (parent (nd h3 x1)))), x1))))
         else
           (let y = left (nd h g)
            in if red (nd h y) then recolour y
               else (case (if x = left (nd h p) then (RightRotate tree h p, p) else (h, x)) of (h1, x1) \<Rightarrow>
                  (let p1 = parent (nd h1 x1);
                       h2 = upd h1 p1 (\<lambda>n. n\<lparr>red := False\<rparr>);
                       g2 = parent (nd h2 p1);
                       h3 = upd h2 g2 (\<lambda>n. n\<lparr>red := True\<rparr>)
                   in (LeftRotate tree h3 (parent (nd h3 (parent (nd h3 x1)))), x1)))))"

partial_function (option) RBTreeInsert_loop :: "RBTree \<Rightarrow> ('k, 'd) rbheap \<Rightarrow> addr \<Rightarrow> ('k, 'd) rbheap option" where
  "RBTreeInsert_loop tree h x =
     (if red (nd h (parent (nd h x)))
      then (case RBTreeInsert_step tree h x of (h1, x1) \<Rightarrow> RBTreeInsert_loop tree h1 x1)
      else Some h)"

text \<open>The node, or none when the block is not given and not obtained; none outside when a loop does not end.\<close>

definition RBTreeInsert ::
  "('k \<Rightarrow> 'k \<Rightarrow> int) \<Rightarrow> RBTree \<Rightarrow> ('k, 'd) rbheap \<Rightarrow> 'k \<Rightarrow> 'd \<Rightarrow> addr option \<Rightarrow> addr option
   \<Rightarrow> (addr option \<times> ('k, 'd) rbheap) option" where
  "RBTreeInsert cmp tree h key d given malloc =
     (case (case given of Some x \<Rightarrow> Some (x, h) | None \<Rightarrow> map_option (\<lambda>a. (a, h(a \<mapsto> blank))) malloc) of
        None \<Rightarrow> Some (None, h)
      | Some (x, h0) \<Rightarrow>
         (case TreeInsertHelp cmp tree (upd h0 x (\<lambda>n. n\<lparr>rb_key := Some key, rb_data := Some d\<rparr>)) x of
            None \<Rightarrow> None
          | Some h1 \<Rightarrow>
             (case RBTreeInsert_loop tree (upd h1 x (\<lambda>n. n\<lparr>red := True\<rparr>)) x of
                None \<Rightarrow> None
              | Some h2 \<Rightarrow> Some (Some x, upd h2 (left (nd h2 (root tree))) (\<lambda>n. n\<lparr>red := False\<rparr>)))))"

section \<open>Search\<close>

partial_function (option) RBFind_loop ::
  "('k \<Rightarrow> 'k \<Rightarrow> int) \<Rightarrow> addr \<Rightarrow> ('k, 'd) rbheap \<Rightarrow> 'k \<Rightarrow> addr \<Rightarrow> addr option option" where
  "RBFind_loop cmp n h key x =
     (let compVal = cmp (the (rb_key (nd h x))) key
      in if compVal = 0 then Some (Some x)
         else (let x1 = (if compVal > 0 then left (nd h x) else right (nd h x))
               in if x1 = n then Some None else RBFind_loop cmp n h key x1))"

definition RBFind :: "('k \<Rightarrow> 'k \<Rightarrow> int) \<Rightarrow> RBTree \<Rightarrow> ('k, 'd) rbheap \<Rightarrow> 'k \<Rightarrow> addr option option" where
  "RBFind cmp tree h key =
     (let x = left (nd h (root tree))
      in if x = nil tree then Some None else RBFind_loop cmp (nil tree) h key x)"

section \<open>Neighbours\<close>

partial_function (option) leftmost :: "addr \<Rightarrow> ('k, 'd) rbheap \<Rightarrow> addr \<Rightarrow> addr option" where
  "leftmost n h y = (if left (nd h y) \<noteq> n then leftmost n h (left (nd h y)) else Some y)"

partial_function (option) rightmost :: "addr \<Rightarrow> ('k, 'd) rbheap \<Rightarrow> addr \<Rightarrow> addr option" where
  "rightmost n h y = (if right (nd h y) \<noteq> n then rightmost n h (right (nd h y)) else Some y)"

partial_function (option) successor_up :: "('k, 'd) rbheap \<Rightarrow> addr \<Rightarrow> addr \<Rightarrow> addr option" where
  "successor_up h z y = (if z = right (nd h y) then successor_up h y (parent (nd h y)) else Some y)"

definition TreeSuccessor :: "RBTree \<Rightarrow> ('k, 'd) rbheap \<Rightarrow> addr \<Rightarrow> addr option" where
  "TreeSuccessor tree h z =
     (let y = right (nd h z)
      in if nil tree \<noteq> y then leftmost (nil tree) h y
         else map_option (\<lambda>y. if y = root tree then nil tree else y) (successor_up h z (parent (nd h z))))"

partial_function (option) predecessor_up :: "RBTree \<Rightarrow> ('k, 'd) rbheap \<Rightarrow> addr \<Rightarrow> addr \<Rightarrow> addr option" where
  "predecessor_up tree h z y =
     (if z = left (nd h y)
      then (if y = root tree then Some (nil tree) else predecessor_up tree h y (parent (nd h y)))
      else Some y)"

definition TreePredecessor :: "RBTree \<Rightarrow> ('k, 'd) rbheap \<Rightarrow> addr \<Rightarrow> addr option" where
  "TreePredecessor tree h z =
     (let y = left (nd h z)
      in if nil tree \<noteq> y then rightmost (nil tree) h y else predecessor_up tree h z (parent (nd h z)))"

section \<open>Deletion\<close>

text \<open>One turn of the repair loop: the heap and the node, which is the old root to leave the loop.\<close>

definition RBDeleteFixUp_step ::
  "RBTree \<Rightarrow> addr \<Rightarrow> ('k, 'd) rbheap \<Rightarrow> addr \<Rightarrow> ('k, 'd) rbheap \<times> addr" where
  "RBDeleteFixUp_step tree rt h z =
     (let p = parent (nd h z)
      in if z = left (nd h p) then
           (let w0 = right (nd h p);
                (h1, w) = (if red (nd h w0)
                  then (let h1 = LeftRotate tree (upd (upd h w0 (\<lambda>n. n\<lparr>red := False\<rparr>)) p (\<lambda>n. n\<lparr>red := True\<rparr>)) p
                        in (h1, right (nd h1 (parent (nd h1 z)))))
                  else (h, w0))
            in if \<not> red (nd h1 (right (nd h1 w))) \<and> \<not> red (nd h1 (left (nd h1 w)))
               then (upd h1 w (\<lambda>n. n\<lparr>red := True\<rparr>), parent (nd h1 z))
               else
                 (let (h2, w2) = (if \<not> red (nd h1 (right (nd h1 w)))
                    then (let h2 = RightRotate tree (upd (upd h1 (left (nd h1 w)) (\<lambda>n. n\<lparr>red := False\<rparr>)) w (\<lambda>n. n\<lparr>red := True\<rparr>)) w
                          in (h2, right (nd h2 (parent (nd h2 z)))))
                    else (h1, w));
                    p2 = parent (nd h2 z);
                    h3 = upd h2 w2 (\<lambda>n. n\<lparr>red := red (nd h2 p2)\<rparr>);
                    h4 = upd h3 p2 (\<lambda>n. n\<lparr>red := False\<rparr>);
                    h5 = upd h4 (right (nd h4 w2)) (\<lambda>n. n\<lparr>red := False\<rparr>)
                  in (LeftRotate tree h5 (parent (nd h5 z)), rt)))
         else
           (let w0 = left (nd h p);
                (h1, w) = (if red (nd h w0)
                  then (let h1 = RightRotate tree (upd (upd h w0 (\<lambda>n. n\<lparr>red := False\<rparr>)) p (\<lambda>n. n\<lparr>red := True\<rparr>)) p
                        in (h1, left (nd h1 (parent (nd h1 z)))))
                  else (h, w0))
            in if \<not> red (nd h1 (right (nd h1 w))) \<and> \<not> red (nd h1 (left (nd h1 w)))
               then (upd h1 w (\<lambda>n. n\<lparr>red := True\<rparr>), parent (nd h1 z))
               else
                 (let (h2, w2) = (if \<not> red (nd h1 (left (nd h1 w)))
                    then (let h2 = LeftRotate tree (upd (upd h1 (right (nd h1 w)) (\<lambda>n. n\<lparr>red := False\<rparr>)) w (\<lambda>n. n\<lparr>red := True\<rparr>)) w
                          in (h2, left (nd h2 (parent (nd h2 z)))))
                    else (h1, w));
                    p2 = parent (nd h2 z);
                    h3 = upd h2 w2 (\<lambda>n. n\<lparr>red := red (nd h2 p2)\<rparr>);
                    h4 = upd h3 p2 (\<lambda>n. n\<lparr>red := False\<rparr>);
                    h5 = upd h4 (left (nd h4 w2)) (\<lambda>n. n\<lparr>red := False\<rparr>)
                  in (RightRotate tree h5 (parent (nd h5 z)), rt))))"

partial_function (option) RBDeleteFixUp_loop ::
  "RBTree \<Rightarrow> addr \<Rightarrow> ('k, 'd) rbheap \<Rightarrow> addr \<Rightarrow> ('k, 'd) rbheap option" where
  "RBDeleteFixUp_loop tree rt h z =
     (if \<not> red (nd h z) \<and> z \<noteq> rt
      then (case RBDeleteFixUp_step tree rt h z of (h1, node1) \<Rightarrow> RBDeleteFixUp_loop tree rt h1 node1)
      else Some (upd h z (\<lambda>n. n\<lparr>red := False\<rparr>)))"

definition RBDeleteFixUp :: "RBTree \<Rightarrow> ('k, 'd) rbheap \<Rightarrow> addr \<Rightarrow> ('k, 'd) rbheap option" where
  "RBDeleteFixUp tree h z = RBDeleteFixUp_loop tree (left (nd h (root tree))) h z"

text \<open>
  What \<open>RBDelete\<close> and \<open>RBRemove\<close> share: the node that is spliced out, the tree without it and repaired.
\<close>

definition splice_out :: "RBTree \<Rightarrow> ('k, 'd) rbheap \<Rightarrow> addr \<Rightarrow> (addr \<times> ('k, 'd) rbheap) option" where
  "splice_out tree h z =
     (case (if left (nd h z) = nil tree \<or> right (nd h z) = nil tree then Some z else TreeSuccessor tree h z) of
        None \<Rightarrow> None
      | Some y \<Rightarrow>
         (let x = (if left (nd h y) = nil tree then right (nd h y) else left (nd h y));
              h1 = upd h x (\<lambda>n. n\<lparr>parent := parent (nd h y)\<rparr>);
              p = parent (nd h1 y);
              h2 = (if root tree = parent (nd h1 x) then upd h1 (root tree) (\<lambda>n. n\<lparr>left := x\<rparr>)
                    else if y = left (nd h1 p) then upd h1 p (\<lambda>n. n\<lparr>left := x\<rparr>)
                    else upd h1 p (\<lambda>n. n\<lparr>right := x\<rparr>))
          in if \<not> red (nd h2 y) then map_option (\<lambda>h3. (y, h3)) (RBDeleteFixUp tree h2 x) else Some (y, h2)))"

text \<open>The spliced node takes the place of the node that goes.\<close>

definition take_place :: "('k, 'd) rbheap \<Rightarrow> addr \<Rightarrow> addr \<Rightarrow> ('k, 'd) rbheap" where
  "take_place h y z =
     (let h1 = upd h y (\<lambda>n. n\<lparr>left := left (nd h z), right := right (nd h z), parent := parent (nd h z),
                              red := red (nd h z)\<rparr>);
          h2 = upd h1 (right (nd h1 z)) (\<lambda>n. n\<lparr>parent := y\<rparr>);
          h3 = upd h2 (left (nd h2 z)) (\<lambda>n. n\<lparr>parent := y\<rparr>);
          p = parent (nd h3 z)
      in if z = left (nd h3 p) then upd h3 p (\<lambda>n. n\<lparr>left := y\<rparr>) else upd h3 p (\<lambda>n. n\<lparr>right := y\<rparr>))"

text \<open>\<open>DestroyKey\<close> and \<open>DestroyData\<close> free what only the node points to.\<close>

definition RBDelete :: "RBTree \<Rightarrow> ('k, 'd) rbheap \<Rightarrow> addr \<Rightarrow> ('k, 'd) rbheap option" where
  "RBDelete tree h z = (case splice_out tree h z of
     None \<Rightarrow> None
   | Some (y, h1) \<Rightarrow> Some (if y \<noteq> z then (take_place h1 y z)(z := None) else h1(y := None)))"

definition RBRemove :: "RBTree \<Rightarrow> ('k, 'd) rbheap \<Rightarrow> addr \<Rightarrow> (addr \<times> ('k, 'd) rbheap) option" where
  "RBRemove tree h z = (case splice_out tree h z of
     None \<Rightarrow> None
   | Some (y, h1) \<Rightarrow>
      Some (z, upd (if y \<noteq> z then take_place h1 y z else h1) z
                    (\<lambda>n. n\<lparr>left := NULL, right := NULL, parent := NULL\<rparr>)))"

section \<open>Walks over the tree\<close>

text \<open>The nodes in the order in which \<open>NodeFunc\<close> is called.\<close>

partial_function (option) RBTraverseHelper :: "addr \<Rightarrow> ('k, 'd) rbheap \<Rightarrow> addr \<Rightarrow> addr list option" where
  "RBTraverseHelper n h z =
     (if z \<noteq> n then
        Option.bind (RBTraverseHelper n h (left (nd h z))) (\<lambda>xs.
          Option.bind (RBTraverseHelper n h (right (nd h z))) (\<lambda>ys. Some (xs @ z # ys)))
      else Some [])"

definition RBTraverse :: "RBTree \<Rightarrow> ('k, 'd) rbheap \<Rightarrow> addr list option" where
  "RBTraverse tree h = RBTraverseHelper (nil tree) h (left (nd h (root tree)))"

text \<open>The stack is that of \<open>stack.c\<close>, with fresh blocks for its nodes.\<close>

partial_function (option) RBBuildStackHelper ::
  "addr \<Rightarrow> ('k, 'd) rbheap \<Rightarrow> addr \<Rightarrow> addr smem \<Rightarrow> addr smem option" where
  "RBBuildStackHelper n h z stack =
     (if z \<noteq> n then
        Option.bind (RBBuildStackHelper n h (right (nd h z)) stack)
          (\<lambda>s1. RBBuildStackHelper n h (left (nd h z)) (smem_push s1 z))
      else Some stack)"

definition RBBuildStack_nodes :: "RBTree \<Rightarrow> ('k, 'd) rbheap \<Rightarrow> addr smem \<Rightarrow> addr smem option" where
  "RBBuildStack_nodes tree h stack = RBBuildStackHelper (nil tree) h (left (nd h (root tree))) stack"

text \<open>The nodes that \<open>RBTreeDestroy\<close> frees, children first, then the sentinels.\<close>

partial_function (option) TreeDestHelper :: "addr \<Rightarrow> ('k, 'd) rbheap \<Rightarrow> addr \<Rightarrow> ('k, 'd) rbheap option" where
  "TreeDestHelper n h z =
     (if z \<noteq> n then
        Option.bind (TreeDestHelper n h (left (nd h z))) (\<lambda>h1.
          Option.bind (TreeDestHelper n h1 (right (nd h1 z))) (\<lambda>h2. Some (h2(z := None))))
      else Some h)"

definition RBTreeDestroy :: "RBTree option \<Rightarrow> ('k, 'd) rbheap \<Rightarrow> ('k, 'd) rbheap option" where
  "RBTreeDestroy t h = (case t of
     None \<Rightarrow> Some h
   | Some tree \<Rightarrow>
      (case TreeDestHelper (nil tree) h (left (nd h (root tree))) of
         None \<Rightarrow> None
       | Some h1 \<Rightarrow> Some (h1(root tree := None, nil tree := None))))"

end
