(* ===== verification/RS_RBShape.thy ===== *)
theory RS_RBShape
  imports RS_RBTree
begin

text \<open>
  The shape of a tree on the heap: the colours and addresses of its nodes, trees with a hole for the loops
  that walk up, and the rotations (\<open>ringserver-4/src/rbtree.c\<close>) as changes of the shape.  What the code
  writes twice, with left and right exchanged, is treated once for both directions.
\<close>

section \<open>Assignment\<close>

lemma nd_upd [simp]: "nd (upd h a f) b = (if b = a then f (nd h a) else nd h b)"
  by (simp add: upd_def)

lemma upd_None [simp]: "upd h a f b = None \<longleftrightarrow> b \<noteq> a \<and> h b = None"
  by (simp add: upd_def)

text \<open>A change of links and colours only.\<close>

definition same_data :: "('k, 'd) rbheap \<Rightarrow> ('k, 'd) rbheap \<Rightarrow> bool" where
  "same_data h h' \<longleftrightarrow> (\<forall>a. (h' a = None) = (h a = None) \<and> rb_key (nd h' a) = rb_key (nd h a) \<and> rb_data (nd h' a) = rb_data (nd h a))"

lemma same_data_refl [simp]: "same_data h h" by (simp add: same_data_def)

lemma same_data_trans: "same_data h h1 \<Longrightarrow> same_data h1 h2 \<Longrightarrow> same_data h h2" by (simp add: same_data_def)

lemma same_data_upd:
  "same_data h h1 \<Longrightarrow> h a \<noteq> None \<Longrightarrow> (\<And>n. rb_key (f n) = rb_key n \<and> rb_data (f n) = rb_data n) \<Longrightarrow> same_data h (upd h1 a f)"
  by (simp add: same_data_def)

lemma same_dataD:
  assumes "same_data h h'"
  shows "(h' a = None) = (h a = None)" "rb_key (nd h' a) = rb_key (nd h a)" "rb_data (nd h' a) = rb_data (nd h a)"
  using assms by (simp_all add: same_data_def)

section \<open>Both directions\<close>

definition child :: "bool \<Rightarrow> ('k, 'd) RBNode \<Rightarrow> addr" where "child d n = (if d then left n else right n)"

definition set_child :: "bool \<Rightarrow> addr \<Rightarrow> ('k, 'd) RBNode \<Rightarrow> ('k, 'd) RBNode" where
  "set_child d a n = (if d then n\<lparr>left := a\<rparr> else n\<lparr>right := a\<rparr>)"

lemma child_set [simp]:
  "child d (set_child e a n) = (if d = e then a else child d n)" "red (set_child d a n) = red n"
  "parent (set_child d a n) = parent n" "rb_key (set_child d a n) = rb_key n" "rb_data (set_child d a n) = rb_data n"
  by (simp_all add: child_def set_child_def)

lemma child_other [simp]:
  "child d (n\<lparr>parent := a\<rparr>) = child d n" "child d (n\<lparr>red := c\<rparr>) = child d n"
  by (simp_all add: child_def)

lemma child_bool [simp]: "child True n = left n" "child False n = right n" by (simp_all add: child_def)

text \<open>The link from above is turned from \<open>x\<close> to \<open>y\<close>.\<close>

definition relink :: "('k, 'd) rbheap \<Rightarrow> addr \<Rightarrow> addr \<Rightarrow> addr \<Rightarrow> ('k, 'd) rbheap" where
  "relink h p x y = upd h p (set_child (x = left (nd h p)) y)"

definition rotate :: "bool \<Rightarrow> RBTree \<Rightarrow> ('k, 'd) rbheap \<Rightarrow> addr \<Rightarrow> ('k, 'd) rbheap" where
  "rotate d tree h x =
     (let y = child (\<not> d) (nd h x);
          h1 = upd h x (set_child (\<not> d) (child d (nd h y)));
          b = child d (nd h1 y);
          h2 = (if b \<noteq> nil tree then upd h1 b (\<lambda>n. n\<lparr>parent := x\<rparr>) else h1);
          h3 = upd h2 y (\<lambda>n. n\<lparr>parent := parent (nd h2 x)\<rparr>);
          h4 = relink h3 (parent (nd h3 x)) x y;
          h5 = upd h4 y (set_child d x)
      in upd h5 x (\<lambda>n. n\<lparr>parent := y\<rparr>))"

lemma set_child_bool: "set_child True a = (\<lambda>n. n\<lparr>left := a\<rparr>)" "set_child False a = (\<lambda>n. n\<lparr>right := a\<rparr>)"
  by (simp_all add: set_child_def fun_eq_iff)

lemma relink_eq:
  "relink h p x y = (if x = left (nd h p) then upd h p (\<lambda>n. n\<lparr>left := y\<rparr>) else upd h p (\<lambda>n. n\<lparr>right := y\<rparr>))"
  by (simp add: relink_def set_child_bool)

lemma LeftRotate_rotate: "LeftRotate tree h x = rotate True tree h x"
  unfolding LeftRotate_def rotate_def relink_eq Let_def by (simp only: set_child_bool child_bool not_True_eq_False)

lemma RightRotate_rotate: "RightRotate tree h x = rotate False tree h x"
  unfolding RightRotate_def rotate_def relink_eq Let_def
  by (simp only: set_child_bool child_bool not_False_eq_True neq_commute [of "nil tree"])

section \<open>Shapes\<close>

datatype shape = Lf | Nd bool addr shape shape

fun ino :: "shape \<Rightarrow> addr list" where
  "ino Lf = []"
| "ino (Nd c a l r) = ino l @ a # ino r"

fun is_red :: "shape \<Rightarrow> bool" where
  "is_red Lf = False"
| "is_red (Nd c a l r) = c"

fun tree_at :: "('k, 'd) rbheap \<Rightarrow> addr \<Rightarrow> addr \<Rightarrow> addr \<Rightarrow> shape \<Rightarrow> bool" where
  "tree_at h n p a Lf \<longleftrightarrow> a = n"
| "tree_at h n p a (Nd c b l r) \<longleftrightarrow> a = b \<and> b \<noteq> n \<and> h b \<noteq> None \<and> red (nd h b) = c \<and> parent (nd h b) = p
     \<and> tree_at h n b (left (nd h b)) l \<and> tree_at h n b (right (nd h b)) r"

text \<open>A node with its child in the direction \<open>d\<close> first.\<close>

definition mk :: "bool \<Rightarrow> bool \<Rightarrow> addr \<Rightarrow> shape \<Rightarrow> shape \<Rightarrow> shape" where
  "mk d c a s t = (if d then Nd c a s t else Nd c a t s)"

lemma tree_at_mk [simp]:
  "tree_at h n p a (mk d c b s t) \<longleftrightarrow> a = b \<and> b \<noteq> n \<and> h b \<noteq> None \<and> red (nd h b) = c \<and> parent (nd h b) = p
     \<and> tree_at h n b (child d (nd h b)) s \<and> tree_at h n b (child (\<not> d) (nd h b)) t"
  by (auto simp: mk_def)

lemma mk_flip: "mk (\<not> d) c a s t = mk d c a t s" by (simp add: mk_def)

lemma mk_cases: obtains "T = Lf" | c a s t where "T = mk d c a s t"
  by (cases T; cases d) (auto simp: mk_def)

lemma is_red_mk [simp]: "is_red (mk d c a s t) = c" by (simp add: mk_def)

lemma ino_mk: "ino (mk d c a s t) = (if d then ino s @ a # ino t else ino t @ a # ino s)" by (simp add: mk_def)

lemma set_ino_mk [simp]: "set (ino (mk d c a s t)) = insert a (set (ino s) \<union> set (ino t))" by (auto simp: mk_def)

lemma distinct_ino_mk [simp]:
  "distinct (ino (mk d c a s t)) \<longleftrightarrow> distinct (ino s) \<and> distinct (ino t) \<and> a \<notin> set (ino s) \<and> a \<notin> set (ino t)
     \<and> set (ino s) \<inter> set (ino t) = {}"
  by (auto simp: mk_def)

lemma tree_at_nil: "tree_at h n p a T \<Longrightarrow> n \<notin> set (ino T)" by (induction h n p a T rule: tree_at.induct) auto

lemma tree_at_used: "tree_at h n p a T \<Longrightarrow> b \<in> set (ino T) \<Longrightarrow> h b \<noteq> None"
  by (induction h n p a T rule: tree_at.induct) auto

lemma tree_at_top: "tree_at h n p a T \<Longrightarrow> (a = n \<longleftrightarrow> T = Lf) \<and> (a \<noteq> n \<longrightarrow> a \<in> set (ino T) \<and> parent (nd h a) = p)"
  by (cases T) auto

lemma tree_at_red: "tree_at h n p a T \<Longrightarrow> \<not> red (nd h n) \<Longrightarrow> red (nd h a) = is_red T" by (cases T) auto

lemma tree_at_upd [simp]: "b \<notin> set (ino T) \<Longrightarrow> tree_at (upd h b f) n p a T = tree_at h n p a T"
  by (induction h n p a T rule: tree_at.induct) auto

lemma tree_at_cong:
  "tree_at h n p a T \<Longrightarrow> (\<And>b. b \<in> set (ino T) \<Longrightarrow> h' b \<noteq> None \<and> red (nd h' b) = red (nd h b) \<and> parent (nd h' b) = parent (nd h b)
     \<and> left (nd h' b) = left (nd h b) \<and> right (nd h' b) = right (nd h b)) \<Longrightarrow> tree_at h' n p a T"
  by (induction h n p a T rule: tree_at.induct) auto

text \<open>The root of a shape with another parent or colour.\<close>

lemma tree_at_reparent:
  assumes "tree_at h n p a T" "distinct (ino T)" "a \<noteq> n"
  shows "tree_at (upd h a (\<lambda>x. x\<lparr>parent := q\<rparr>)) n q a T"
  using assms by (cases T) auto

fun paint :: "bool \<Rightarrow> shape \<Rightarrow> shape" where
  "paint c Lf = Lf"
| "paint c (Nd c' a l r) = Nd c a l r"

lemma paint_mk [simp]: "paint c (mk d c' a s t) = mk d c a s t" by (simp add: mk_def)

lemma ino_paint [simp]: "ino (paint c T) = ino T" by (cases T) auto

lemma tree_at_paint:
  assumes "tree_at h n p a T" "distinct (ino T)" "T \<noteq> Lf"
  shows "tree_at (upd h a (\<lambda>x. x\<lparr>red := c\<rparr>)) n p a (paint c T)"
  using assms by (cases T) auto

section \<open>Trees with a hole\<close>

text \<open>From the hole upwards: its direction, and colour, address and other child of the node above.\<close>

type_synonym frame = "bool \<times> bool \<times> addr \<times> shape"

fun plug :: "frame list \<Rightarrow> shape \<Rightarrow> shape" where
  "plug [] T = T"
| "plug ((d, c, a, s) # ctx) T = plug ctx (mk d c a T s)"

fun before :: "frame list \<Rightarrow> addr list" where
  "before [] = []"
| "before ((d, c, a, s) # ctx) = (if d then before ctx else before ctx @ ino s @ [a])"

fun after :: "frame list \<Rightarrow> addr list" where
  "after [] = []"
| "after ((d, c, a, s) # ctx) = (if d then a # ino s @ after ctx else after ctx)"

lemma ino_plug: "ino (plug ctx T) = before ctx @ ino T @ after ctx"
  by (induction ctx T rule: plug.induct) (auto simp: ino_mk)

definition ctx_set :: "frame list \<Rightarrow> addr set" where "ctx_set ctx = set (before ctx) \<union> set (after ctx)"

lemma ctx_set_simps [simp]: "ctx_set [] = {}" "ctx_set ((d, c, a, s) # ctx) = insert a (set (ino s) \<union> ctx_set ctx)"
  by (auto simp: ctx_set_def)

lemma set_ino_plug: "set (ino (plug ctx T)) = ctx_set ctx \<union> set (ino T)"
  by (auto simp: ino_plug ctx_set_def)

fun ctx_at :: "('k, 'd) rbheap \<Rightarrow> RBTree \<Rightarrow> frame list \<Rightarrow> addr \<Rightarrow> addr \<Rightarrow> bool" where
  "ctx_at h t [] p x \<longleftrightarrow> p = root t \<and> left (nd h (root t)) = x"
| "ctx_at h t ((d, c, a, s) # ctx) p x \<longleftrightarrow> p = a \<and> a \<noteq> nil t \<and> h a \<noteq> None \<and> red (nd h a) = c \<and> child d (nd h a) = x
     \<and> tree_at h (nil t) a (child (\<not> d) (nd h a)) s \<and> ctx_at h t ctx (parent (nd h a)) a"

lemma ctx_at_plug:
  "tree_at h (nil t) (root t) (left (nd h (root t))) (plug ctx T) \<longleftrightarrow> (\<exists>p x. ctx_at h t ctx p x \<and> tree_at h (nil t) p x T)"
  by (induction ctx T rule: plug.induct) auto

lemma ctx_at_upd [simp]: "b \<notin> ctx_set ctx \<Longrightarrow> b \<noteq> root t \<Longrightarrow> ctx_at (upd h b f) t ctx p x = ctx_at h t ctx p x"
  by (induction h t ctx p x rule: ctx_at.induct) auto

text \<open>What the code needs of the sentinels, and of the addresses of a tree with a hole and what is in it.\<close>

definition sentinels :: "('k, 'd) rbheap \<Rightarrow> RBTree \<Rightarrow> bool" where
  "sentinels h t \<longleftrightarrow> root t \<noteq> nil t \<and> h (root t) \<noteq> None \<and> h (nil t) \<noteq> None \<and> \<not> red (nd h (root t)) \<and> \<not> red (nd h (nil t))"

definition apart :: "RBTree \<Rightarrow> frame list \<Rightarrow> shape \<Rightarrow> bool" where
  "apart t ctx T \<longleftrightarrow> distinct (ino (plug ctx T)) \<and> root t \<notin> set (ino (plug ctx T))"

lemma apart_iff:
  "apart t ctx T \<longleftrightarrow> distinct (before ctx @ after ctx) \<and> distinct (ino T) \<and> ctx_set ctx \<inter> set (ino T) = {}
     \<and> root t \<notin> ctx_set ctx \<and> root t \<notin> set (ino T)"
  by (auto simp: apart_def ino_plug ctx_set_def)

lemma apart_frame:
  "apart t ((d, c, a, s) # ctx) T \<longleftrightarrow> apart t ctx (mk d c a T s)"
  by (simp add: apart_def)

definition focus :: "('k, 'd) rbheap \<Rightarrow> RBTree \<Rightarrow> frame list \<Rightarrow> addr \<Rightarrow> addr \<Rightarrow> shape \<Rightarrow> bool" where
  "focus h t ctx p x T \<longleftrightarrow> sentinels h t \<and> apart t ctx T \<and> ctx_at h t ctx p x \<and> tree_at h (nil t) p x T"

lemma ctx_at_parent:
  assumes "ctx_at h t ctx p x"
  shows "p = root t \<or> p \<in> ctx_set ctx"
  using assms by (cases ctx) auto

text \<open>Moving the hole up and down.\<close>

lemma focus_up: "focus h t ((d, c, a, s) # ctx) p x T \<Longrightarrow> focus h t ctx (parent (nd h a)) a (mk d c a T s)"
  by (auto simp: focus_def apart_def)

lemma focus_down:
  "focus h t ctx p x (mk d c a T s) \<Longrightarrow> focus h t ((d, c, a, s) # ctx) a (child d (nd h a)) T"
  by (auto simp: focus_def apart_def)

lemma relink_at:
  assumes "ctx_at h t ctx p x" "sentinels h t" "x \<noteq> nil t" "distinct (before ctx @ after ctx)" "root t \<notin> ctx_set ctx" "x \<notin> ctx_set ctx"
  shows "ctx_at (relink h p x y) t ctx p y"
proof (cases ctx)
  case Nil
  then show ?thesis using assms(1) by (simp add: relink_eq)
next
  case (Cons f ctx')
  obtain d c a s where f: "f = (d, c, a, s)" by (cases f)
  have at: "p = a" "a \<noteq> nil t" "h a \<noteq> None" "red (nd h a) = c" "child d (nd h a) = x" "tree_at h (nil t) a (child (\<not> d) (nd h a)) s"
      "ctx_at h t ctx' (parent (nd h a)) a"
    using assms(1) Cons f by auto
  have ap: "a \<notin> ctx_set ctx'" "a \<notin> set (ino s)" "a \<noteq> root t"
    using assms(4,5) Cons f by (auto simp: ctx_set_def split: if_splits)
  have "child (\<not> d) (nd h a) \<noteq> x" using tree_at_top [OF at(6)] assms(3,6) Cons f by auto
  then have d: "(x = left (nd h a)) = d" using at(5) by (cases d) auto
  show ?thesis
    using at ap by (simp add: Cons f relink_def d)
qed

lemma relink_outside: "p \<notin> set (ino T) \<Longrightarrow> tree_at (relink h p x y) n q a T = tree_at h n q a T"
  by (simp add: relink_def)

section \<open>Rotations\<close>

lemma rotate_shape:
  assumes "focus h t ctx p x (mk d c x A (mk d c' y B C))"
  defines "h' \<equiv> rotate d t h x"
  shows "focus h' t ctx p y (mk d c' y (mk d c x A B) C)" "same_data h h'"
    "red (nd h' a) = red (nd h a)" "parent (nd h' (nil t)) = parent (nd h (nil t))"
proof -
  let ?n = "nil t"
  have sen: "sentinels h t" and ctx: "ctx_at h t ctx p x" and tr: "tree_at h ?n p x (mk d c x A (mk d c' y B C))"
      and ap: "distinct (before ctx @ after ctx)" "root t \<notin> ctx_set ctx" "distinct (ino (mk d c x A (mk d c' y B C)))"
        "ctx_set ctx \<inter> set (ino (mk d c x A (mk d c' y B C))) = {}" "root t \<notin> set (ino (mk d c x A (mk d c' y B C)))"
    using assms(1) by (auto simp: focus_def apart_iff)
  have x: "x \<noteq> ?n" "h x \<noteq> None" "red (nd h x) = c" "parent (nd h x) = p" "tree_at h ?n x (child d (nd h x)) A"
      "child (\<not> d) (nd h x) = y" "y \<noteq> ?n" "h y \<noteq> None" "red (nd h y) = c'" "parent (nd h y) = x"
      "tree_at h ?n y (child d (nd h y)) B" "tree_at h ?n y (child (\<not> d) (nd h y)) C"
    using tr by auto
  define b where "b = child d (nd h y)"
  have dis: "x \<noteq> y" "x \<notin> set (ino A)" "x \<notin> set (ino B)" "x \<notin> set (ino C)" "y \<notin> set (ino A)" "y \<notin> set (ino B)" "y \<notin> set (ino C)"
      "distinct (ino B)" "x \<notin> ctx_set ctx" "y \<notin> ctx_set ctx" "x \<noteq> root t" "y \<noteq> root t"
      "set (ino A) \<inter> set (ino B) = {}" "set (ino B) \<inter> set (ino C) = {}"
    using ap by auto
  have b: "b \<noteq> ?n \<Longrightarrow> b \<in> set (ino B)" using tree_at_top [OF x(11)] by (simp add: b_def)
  have bo: "b \<noteq> ?n \<Longrightarrow> b \<notin> ctx_set ctx \<and> b \<noteq> root t \<and> b \<noteq> x \<and> b \<noteq> y \<and> b \<notin> set (ino A) \<and> b \<notin> set (ino C) \<and> h b \<noteq> None"
    using b ap dis tree_at_used [OF x(11)] by auto
  have p: "p \<notin> set (ino A) \<and> p \<notin> set (ino B) \<and> p \<notin> set (ino C) \<and> p \<noteq> x \<and> p \<noteq> y"
    using ctx_at_parent [OF ctx] ap by auto
  have pn: "p \<noteq> ?n \<and> h p \<noteq> None" using ctx sen by (cases ctx) (auto simp: sentinels_def)
  define h1 where "h1 = upd h x (set_child (\<not> d) b)"
  define h2 where "h2 = (if b \<noteq> ?n then upd h1 b (\<lambda>n. n\<lparr>parent := x\<rparr>) else h1)"
  define h3 where "h3 = upd h2 y (\<lambda>n. n\<lparr>parent := p\<rparr>)"
  define h4 where "h4 = relink h3 p x y"
  define h5 where "h5 = upd h4 y (set_child d x)"
  have b1: "child d (nd h1 y) = b" using dis(1) by (simp add: h1_def b_def)
  have p2: "parent (nd h2 x) = p" using x(4) bo by (auto simp: h2_def h1_def)
  have p3: "parent (nd h3 x) = p" using p2 dis(1) by (simp add: h3_def)
  have h': "h' = upd h5 x (\<lambda>n. n\<lparr>parent := y\<rparr>)"
    unfolding h'_def rotate_def Let_def x(6) b_def [symmetric] h1_def [symmetric] b1 h2_def [symmetric] p2 h3_def [symmetric]
      p3 h4_def [symmetric] h5_def [symmetric] by (rule refl)
  have ctx3: "ctx_at h3 t ctx p x" using ctx dis bo by (simp add: h3_def h2_def h1_def)
  have sen3: "sentinels h3 t" using sen dis bo x(1,7) by (auto simp: h3_def h2_def h1_def sentinels_def)
  have ctx4: "ctx_at h4 t ctx p y"
    unfolding h4_def by (rule relink_at [OF ctx3 sen3 x(1) ap(1,2) dis(9)])
  have B: "tree_at h2 ?n x b B"
  proof (cases "b = ?n")
    case True
    then show ?thesis using tree_at_top [OF x(11)] by (simp add: b_def)
  next
    case False
    have "tree_at h1 ?n y b B" using x(11) dis(3) by (simp add: h1_def b_def)
    then show ?thesis using False tree_at_reparent [OF _ dis(8)] by (simp add: h2_def)
  qed
  have A: "tree_at h2 ?n x (child d (nd h x)) A" and C: "tree_at h2 ?n y (child (\<not> d) (nd h y)) C"
    using x(5,12) dis bo by (simp_all add: h2_def h1_def)
  have kids: "child d (nd h' x) = child d (nd h x)" "child (\<not> d) (nd h' x) = b" "child d (nd h' y) = x"
      "child (\<not> d) (nd h' y) = child (\<not> d) (nd h y)" "parent (nd h' x) = y" "parent (nd h' y) = p"
    using dis(1) p bo x by (auto simp: h' h5_def h4_def h3_def h2_def h1_def relink_def)
  have reds: "red (nd h' a) = red (nd h a)" for a
    by (simp add: h' h5_def h4_def h3_def h2_def h1_def relink_def)
  then show "red (nd h' a) = red (nd h a)" .
  have "same_data h h2"
    using bo by (cases "b = ?n") (simp_all add: h2_def h1_def same_data_upd x(2))
  then have "same_data h h4"
    unfolding h4_def relink_def h3_def using x(8) pn by (intro same_data_upd) simp_all
  then show sd: "same_data h h'"
    unfolding h' h5_def using x(2,8) by (intro same_data_upd) simp_all
  have nilp: "nd h' ?n = nd h ?n" using x(1,7) pn by (auto simp: h' h5_def h4_def relink_def h3_def h2_def h1_def)
  then show "parent (nd h' ?n) = parent (nd h ?n)" by simp
  have "sentinels h' t"
    using sen reds same_dataD(1) [OF sd] by (simp add: sentinels_def)
  moreover have "apart t ctx (mk d c' y (mk d c x A B) C)"
    using ap by (auto simp: apart_iff)
  moreover have "ctx_at h' t ctx p y" using ctx4 dis by (simp add: h' h5_def)
  moreover have "tree_at h' ?n p y (mk d c' y (mk d c x A B) C)"
  proof -
    have "tree_at h' ?n q a T = tree_at h2 ?n q a T" if "x \<notin> set (ino T)" "y \<notin> set (ino T)" "p \<notin> set (ino T)" for q a T
      using that by (simp add: h' h5_def h4_def relink_def h3_def)
    then show ?thesis using A B C dis p x(1-3,7-9) kids reds same_dataD(1) [OF sd] by simp
  qed
  ultimately show "focus h' t ctx p y (mk d c' y (mk d c x A B) C)" by (simp add: focus_def)
qed

end
