(* ===== verification/RS_RBInsert.thy ===== *)
theory RS_RBInsert
  imports RS_RBShape
begin

text \<open>
  Insertion into a red-black tree (\<open>TreeInsertHelp\<close> and \<open>RBTreeInsert\<close> of \<open>ringserver-4/src/rbtree.c\<close>):
  the colours and black heights that the repair loop restores, and that it ends.
\<close>

section \<open>Colours and heights\<close>

fun bal :: "nat \<Rightarrow> shape \<Rightarrow> bool" where
  "bal n Lf \<longleftrightarrow> n = 0"
| "bal n (Nd c a l r) \<longleftrightarrow>
     (if c then \<not> is_red l \<and> \<not> is_red r \<and> bal n l \<and> bal n r else n > 0 \<and> bal (n - 1) l \<and> bal (n - 1) r)"

lemma bal_mk [simp]:
  "bal n (mk d c a s t) \<longleftrightarrow>
     (if c then \<not> is_red s \<and> \<not> is_red t \<and> bal n s \<and> bal n t else n > 0 \<and> bal (n - 1) s \<and> bal (n - 1) t)"
  by (auto simp: mk_def)

lemma bal_paint: "bal n T \<Longrightarrow> is_red T \<Longrightarrow> bal (Suc n) (paint False T)" by (cases T) auto

lemma not_red_paint [simp]: "\<not> is_red (paint False T)" by (cases T) auto

lemma paint_black: "\<not> is_red T \<Longrightarrow> paint False T = T" by (cases T) auto

fun top_red :: "frame list \<Rightarrow> bool" where
  "top_red [] = False"
| "top_red ((d, c, a, s) # ctx) = c"

text \<open>The hole wants the black height \<open>n\<close>; the topmost node is black.\<close>

fun cbal :: "nat \<Rightarrow> frame list \<Rightarrow> bool" where
  "cbal n [] \<longleftrightarrow> True"
| "cbal n ((d, c, a, s) # ctx) \<longleftrightarrow>
     bal n s \<and> (if c then \<not> is_red s \<and> ctx \<noteq> [] \<and> \<not> top_red ctx \<and> cbal n ctx else cbal (Suc n) ctx)"

definition rb :: "shape \<Rightarrow> bool" where "rb T \<longleftrightarrow> \<not> is_red T \<and> (\<exists>n. bal n T)"

lemma plug_bal:
  "bal n T \<Longrightarrow> cbal n ctx \<Longrightarrow> (top_red ctx \<Longrightarrow> \<not> is_red T) \<Longrightarrow>
     (\<exists>m. bal m (plug ctx T)) \<and> (ctx \<noteq> [] \<longrightarrow> \<not> is_red (plug ctx T))"
proof (induction ctx T arbitrary: n rule: plug.induct)
  case (2 d c a s ctx T)
  have "bal (if c then n else Suc n) (mk d c a T s)" "cbal (if c then n else Suc n) ctx" "top_red ctx \<Longrightarrow> \<not> c" "c \<Longrightarrow> ctx \<noteq> []"
    using 2(2-4) by (auto split: if_splits)
  then show ?case using "2.IH" [of "if c then n else Suc n"] by (cases "ctx = []") auto
qed auto

lemma rb_plug: "rb (plug ctx T) \<Longrightarrow> \<exists>n. bal n T \<and> cbal n ctx \<and> (top_red ctx \<longrightarrow> \<not> is_red T)"
proof (induction ctx T rule: plug.induct)
  case (2 d c a s ctx T)
  then obtain n where "bal n (mk d c a T s)" "cbal n ctx" "top_red ctx \<longrightarrow> \<not> c" by auto
  moreover have "c \<Longrightarrow> ctx \<noteq> []" using 2(2) by (auto simp: rb_def)
  ultimately show ?case by (intro exI [of _ "if c then n else n - 1"]) auto
qed (auto simp: rb_def)

lemma at_mk:
  assumes "tree_at h n p x T" "T \<noteq> Lf"
  shows "\<exists>s u. T = mk e (is_red T) x s u"
  using assms by (cases T; cases e) (auto simp: mk_def)

section \<open>The repair loop\<close>

text \<open>One turn for both directions: \<open>e\<close> is the side on which the parent hangs.\<close>

definition finish_turn :: "bool \<Rightarrow> RBTree \<Rightarrow> ('k, 'd) rbheap \<Rightarrow> addr \<Rightarrow> ('k, 'd) rbheap" where
  "finish_turn e tree h x =
     (let p = parent (nd h x);
          h2 = upd h p (\<lambda>n. n\<lparr>red := False\<rparr>);
          h3 = upd h2 (parent (nd h2 p)) (\<lambda>n. n\<lparr>red := True\<rparr>)
      in rotate (\<not> e) tree h3 (parent (nd h3 (parent (nd h3 x)))))"

definition insert_turn :: "bool \<Rightarrow> RBTree \<Rightarrow> ('k, 'd) rbheap \<Rightarrow> addr \<Rightarrow> ('k, 'd) rbheap \<times> addr" where
  "insert_turn e tree h x =
     (let p = parent (nd h x); g = parent (nd h p); y = child (\<not> e) (nd h g)
      in if red (nd h y) then
           (upd (upd (upd h p (\<lambda>n. n\<lparr>red := False\<rparr>)) y (\<lambda>n. n\<lparr>red := False\<rparr>)) g (\<lambda>n. n\<lparr>red := True\<rparr>), g)
         else (case (if x = child (\<not> e) (nd h p) then (rotate e tree h p, p) else (h, x)) of (h1, x1) \<Rightarrow>
           (finish_turn e tree h1 x1, x1)))"

lemma RBTreeInsert_step_turn:
  "RBTreeInsert_step tree h x = insert_turn (parent (nd h x) = left (nd h (parent (nd h (parent (nd h x)))))) tree h x"
  by (simp add: RBTreeInsert_step_def insert_turn_def finish_turn_def Let_def LeftRotate_rotate RightRotate_rotate)

lemma focus_parts:
  assumes "focus h t ((d, c, p, s) # ctx) q x T"
  shows "q = p" "p \<notin> set (ino T)" "p \<notin> ctx_set ctx" "set (ino T) \<inter> set (ino s) = {}" "ctx_set ctx \<inter> set (ino T) = {}"
    "x \<noteq> nil t \<Longrightarrow> x \<in> set (ino T) \<and> parent (nd h x) = p"
proof -
  have "apart t ctx (mk d c p T s)" using assms by (simp add: focus_def apart_def)
  then show "p \<notin> set (ino T)" "p \<notin> ctx_set ctx" "set (ino T) \<inter> set (ino s) = {}" "ctx_set ctx \<inter> set (ino T) = {}"
    by (auto simp: apart_iff)
  show "q = p" using assms by (simp add: focus_def)
  then show "x \<noteq> nil t \<Longrightarrow> x \<in> set (ino T) \<and> parent (nd h x) = p"
    using assms tree_at_top [of h "nil t" q x T] by (simp add: focus_def)
qed

lemma which_child:
  assumes "focus h t ((e, c, g, u) # ctx) g p P" "p \<noteq> nil t"
  shows "p = child b (nd h g) \<longleftrightarrow> b = e" "child e (nd h g) = p" "red (nd h g) = c" "parent (nd h p) = g"
proof -
  have at: "child e (nd h g) = p" "tree_at h (nil t) g (child (\<not> e) (nd h g)) u" "tree_at h (nil t) g p P" "red (nd h g) = c"
    using assms(1) by (auto simp: focus_def)
  note parts = focus_parts [OF assms(1)]
  have "p \<in> set (ino P)" "parent (nd h p) = g" using parts(6) assms(2) by auto
  moreover have "set (ino P) \<inter> set (ino u) = {}" by (rule parts(4))
  ultimately have "child (\<not> e) (nd h g) \<noteq> p" using tree_at_top [OF at(2)] assms(2) by auto
  then show "p = child b (nd h g) \<longleftrightarrow> b = e" using at(1) by (cases "b = e") auto
  show "child e (nd h g) = p" "red (nd h g) = c" "parent (nd h p) = g" using at \<open>parent (nd h p) = g\<close> by auto
qed

lemma focus_paint:
  assumes "focus h t ctx p x T" "T \<noteq> Lf"
  shows "focus (upd h x (\<lambda>n. n\<lparr>red := c\<rparr>)) t ctx p x (paint c T)" "same_data h (upd h x (\<lambda>n. n\<lparr>red := c\<rparr>))"
proof -
  have tr: "tree_at h (nil t) p x T" and "distinct (ino T)" "ctx_set ctx \<inter> set (ino T) = {}" "root t \<notin> set (ino T)"
    using assms(1) by (auto simp: focus_def apart_iff)
  moreover have x: "x \<in> set (ino T)" "x \<noteq> nil t" "h x \<noteq> None"
    using tree_at_top [OF tr] tree_at_used [OF tr] assms(2) by auto
  moreover have "x \<notin> ctx_set ctx" "x \<noteq> root t" using calculation by auto
  ultimately show "focus (upd h x (\<lambda>n. n\<lparr>red := c\<rparr>)) t ctx p x (paint c T)"
    using assms tree_at_paint [OF tr] by (simp add: focus_def sentinels_def apart_iff)
  show "same_data h (upd h x (\<lambda>n. n\<lparr>red := c\<rparr>))" using x by (intro same_data_upd) simp_all
qed

lemma focus_paint_mk:
  assumes "focus h t ctx p x (mk d b x S U)"
  shows "focus (upd h x (\<lambda>n. n\<lparr>red := c\<rparr>)) t ctx p x (mk d c x S U)" "same_data h (upd h x (\<lambda>n. n\<lparr>red := c\<rparr>))"
proof -
  have "mk d b x S U \<noteq> Lf" by (simp add: mk_def)
  note focus_paint [OF assms this, of c]
  then show "focus (upd h x (\<lambda>n. n\<lparr>red := c\<rparr>)) t ctx p x (mk d c x S U)" "same_data h (upd h x (\<lambda>n. n\<lparr>red := c\<rparr>))"
    by simp_all
qed

text \<open>What holds of \<open>x\<close> at the head of the loop.\<close>

definition ins_inv :: "('k, 'd) rbheap \<Rightarrow> RBTree \<Rightarrow> frame list \<Rightarrow> addr \<Rightarrow> shape \<Rightarrow> bool" where
  "ins_inv h t ctx x T \<longleftrightarrow> (\<exists>p n. focus h t ctx p x T \<and> is_red T \<and> bal n T \<and> cbal n ctx)"

lemma ins_inv_parent:
  assumes "ins_inv h t ctx x T"
  shows "red (nd h (parent (nd h x))) = top_red ctx" "x \<noteq> nil t"
proof -
  obtain p where f: "focus h t ctx p x T" "is_red T" using assms by (auto simp: ins_inv_def)
  have x: "x \<noteq> nil t" "parent (nd h x) = p"
    using f tree_at_top [of h "nil t" p x T] by (auto simp: focus_def)
  then show "x \<noteq> nil t" by simp
  show "red (nd h (parent (nd h x))) = top_red ctx"
    using f x by (cases ctx) (auto simp: focus_def sentinels_def)
qed

lemma recolour_turn:
  assumes "focus h t ((d, True, p, s) # (e, False, g, u) # ctx) p x T" "bal n T" "bal n s" "bal n u" "is_red u" "cbal (Suc n) ctx"
  defines "y \<equiv> child (\<not> e) (nd h g)"
  defines "h' \<equiv> upd (upd (upd h p (\<lambda>n. n\<lparr>red := False\<rparr>)) y (\<lambda>n. n\<lparr>red := False\<rparr>)) g (\<lambda>n. n\<lparr>red := True\<rparr>)"
  defines "T' \<equiv> mk e True g (mk d False p T s) (paint False u)"
  shows "ins_inv h' t ctx g T'" "same_data h h'" "ino (plug ctx T') = ino (plug ((d, True, p, s) # (e, False, g, u) # ctx) T)"
proof -
  let ?h1 = "upd h p (\<lambda>n. n\<lparr>red := False\<rparr>)"
  let ?h2 = "upd ?h1 y (\<lambda>n. n\<lparr>red := False\<rparr>)"
  have p: "parent (nd h p) = g" "p \<noteq> g" using focus_parts(3) [OF assms(1)] assms(1) by (auto simp: focus_def)
  have "focus h t ((e, False, g, u) # ctx) g p (mk d True p T s)" using focus_up [OF assms(1)] p(1) by simp
  note f1 = focus_paint_mk [OF this, of False]
  have y1: "y = child (\<not> e) (nd ?h1 g)" using p(2) by (simp add: y_def)
  have "focus ?h1 t ctx (parent (nd ?h1 g)) g (mk (\<not> e) False g u (mk d False p T s))"
    using focus_up [OF f1(1)] by (simp add: mk_flip)
  then have "focus ?h1 t ((\<not> e, False, g, mk d False p T s) # ctx) g y u" using y1 focus_down by metis
  moreover have "u \<noteq> Lf" using assms(5) by auto
  ultimately have f2: "focus ?h2 t ((\<not> e, False, g, mk d False p T s) # ctx) g y (paint False u)" "same_data ?h1 ?h2"
    using focus_paint [of ?h1 t _ g y u False] by simp_all
  have "focus ?h2 t ctx (parent (nd ?h2 g)) g (mk e False g (mk d False p T s) (paint False u))"
    using focus_up [OF f2(1)] by (simp add: mk_flip)
  note f3 = focus_paint_mk [OF this, of True]
  show "ins_inv h' t ctx g T'"
    using f3(1) assms(2-6) bal_paint [OF assms(4,5)] unfolding ins_inv_def h'_def T'_def
    by (intro exI [of _ "parent (nd ?h2 g)"] exI [of _ "Suc n"]) simp
  show "same_data h h'" using same_data_trans [OF same_data_trans [OF f1(2) f2(2)] f3(2)] by (simp add: h'_def)
  show "ino (plug ctx T') = ino (plug ((d, True, p, s) # (e, False, g, u) # ctx) T)"
    by (simp add: T'_def ino_plug ino_mk)
qed

text \<open>The rotation that ends the loop, with \<open>x\<close> on the same side of its parent as this of its own.\<close>

lemma outer_turn:
  assumes "focus h t ((e, True, p, s) # (e, False, g, u) # ctx) p x T" "is_red T" "bal n T" "bal n s" "\<not> is_red s" "bal n u"
    "\<not> is_red u" "cbal (Suc n) ctx"
  defines "h' \<equiv> finish_turn e t h x"
  defines "ctx' \<equiv> (e, False, p, mk e True g s u) # ctx"
  shows "ins_inv h' t ctx' x T" "same_data h h'" "ino (plug ctx' T) = ino (plug ((e, True, p, s) # (e, False, g, u) # ctx) T)"
proof -
  have x: "parent (nd h x) = p" using assms(1,2) tree_at_top [of h "nil t" p x T] by (auto simp: focus_def)
  have "x \<noteq> nil t" using assms(1,2) by (cases T) (auto simp: focus_def)
  then have p: "parent (nd h p) = g" "p \<noteq> g" "x \<noteq> p" "x \<noteq> g"
    using focus_parts [OF assms(1)] assms(1) by (auto simp: focus_def)
  have "focus h t ((e, False, g, u) # ctx) g p (mk e True p T s)" using focus_up [OF assms(1)] p(1) by simp
  note f1 = focus_paint_mk [OF this, of False]
  define h2 where h2: "h2 = upd h p (\<lambda>n. n\<lparr>red := False\<rparr>)"
  define h3 where h3: "h3 = upd h2 g (\<lambda>n. n\<lparr>red := True\<rparr>)"
  have g2: "parent (nd h2 p) = g" using p by (simp add: h2)
  have h': "h' = rotate (\<not> e) t h3 (parent (nd h3 (parent (nd h3 x))))"
    unfolding h'_def finish_turn_def Let_def x h2 [symmetric] g2 h3 [symmetric] by (rule refl)
  have g3: "parent (nd h3 (parent (nd h3 x))) = g" using p x by (simp add: h3 h2)
  have "focus h2 t ctx (parent (nd h2 g)) g (mk e False g (mk e False p T s) u)"
    using focus_up [OF f1(1)] by (simp add: h2)
  note f2 = focus_paint_mk [OF this, of True, folded h3]
  have "focus h3 t ctx (parent (nd h2 g)) g (mk (\<not> e) True g u (mk (\<not> e) False p s T))"
    using f2(1) by (simp add: mk_flip)
  note f3 = rotate_shape [OF this, folded h' [unfolded g3]]
  have "focus h' t ctx (parent (nd h2 g)) p (mk e False p T (mk e True g s u))"
    using f3(1) by (simp add: mk_flip)
  then have f4: "focus h' t ctx' p (child e (nd h' p)) T" unfolding ctx'_def by (rule focus_down)
  have "child e (nd h' p) = x"
    using f4 assms(1,2) by (cases T) (auto simp: focus_def)
  then show "ins_inv h' t ctx' x T"
    using f4 assms(2-8) unfolding ins_inv_def by (intro exI [of _ p] exI [of _ n]) (simp add: ctx'_def)
  show "same_data h h'" using same_data_trans [OF same_data_trans [OF f1(2) f2(2) [unfolded h2]] f3(2)] by (simp add: h2)
  show "ino (plug ctx' T) = ino (plug ((e, True, p, s) # (e, False, g, u) # ctx) T)"
    by (simp add: ctx'_def ino_plug ino_mk)
qed

lemma insert_step:
  assumes "ins_inv h t ctx x T" "top_red ctx" "RBTreeInsert_step t h x = (h', x')"
  shows "\<exists>ctx' T'. ins_inv h' t ctx' x' T' \<and> same_data h h' \<and> ino (plug ctx' T') = ino (plug ctx T) \<and> length ctx' < length ctx"
proof -
  obtain q n where f: "focus h t ctx q x T" "is_red T" "bal n T" "cbal n ctx" using assms(1) by (auto simp: ins_inv_def)
  obtain d p s ctx1 where c0: "ctx = (d, True, p, s) # ctx1" using assms(2) by (cases ctx) auto
  obtain e g u ctx2 where c1: "ctx1 = (e, False, g, u) # ctx2"
    using f(4) c0 by (cases ctx1) (auto split: if_splits)
  have b: "bal n s" "\<not> is_red s" "bal n u" "cbal (Suc n) ctx2" using f(4) by (auto simp: c0 c1)
  have f0: "focus h t ((d, True, p, s) # (e, False, g, u) # ctx2) p x T" using f(1) by (auto simp: c0 c1 focus_def)
  have x: "x \<noteq> nil t" using ins_inv_parent [OF assms(1)] by simp
  note wx = which_child [OF f0 x]
  have f1: "focus h t ((e, False, g, u) # ctx2) g p (mk d True p T s)"
    using f0 focus_up [OF f0] by (auto simp: focus_def)
  have pn: "p \<noteq> nil t" using f0 by (auto simp: focus_def)
  note wp = which_child [OF f1 pn]
  have e: "(p = left (nd h g)) = e" using wp(1) [of True] by (simp add: eq_commute)
  have y: "red (nd h (child (\<not> e) (nd h g))) = is_red u"
    using f1 tree_at_red [of h "nil t" g "child (\<not> e) (nd h g)" u] by (auto simp: focus_def sentinels_def)
  show ?thesis
  proof (cases "is_red u")
    case True
    then have "h' = upd (upd (upd h p (\<lambda>n. n\<lparr>red := False\<rparr>)) (child (\<not> e) (nd h g)) (\<lambda>n. n\<lparr>red := False\<rparr>)) g (\<lambda>n. n\<lparr>red := True\<rparr>)" "x' = g"
      using assms(3) y by (auto simp: RBTreeInsert_step_turn wx(4) wp(4) e insert_turn_def)
    then show ?thesis
      using recolour_turn [OF f0 f(3) b(1,3) True b(4)] by (intro exI [of _ ctx2] exI [of _ "mk e True g (mk d False p T s) (paint False u)"]) (simp add: c0 c1)
  next
    case black: False
    obtain s1 p1 h1 X where in1: "focus h1 t ((e, True, p1, s1) # (e, False, g, u) # ctx2) p1 x' X" "is_red X" "bal n X" "bal n s1"
        "\<not> is_red s1" "same_data h h1" "ino (plug ((e, True, p1, s1) # (e, False, g, u) # ctx2) X) = ino (plug ctx T)"
      and h': "h' = finish_turn e t h1 x'"
    proof (cases "d = e")
      case True
      have "h' = finish_turn e t h x" "x' = x"
        using assms(3) y black wx(1) [of "\<not> e"] True
        by (auto simp: RBTreeInsert_step_turn wx(4) wp(4) e insert_turn_def Let_def)
      then show ?thesis using that [of h p s T] f0 f b True by (simp add: c0 c1)
    next
      case False
      then have d: "d = (\<not> e)" by auto
      obtain t1 t2 where T: "T = mk e True x t1 t2"
        using f(1,2) at_mk [of h "nil t" q x T e] by (cases T) (auto simp: focus_def)
      have "focus h t ((e, False, g, u) # ctx2) g p (mk e True p s (mk e True x t1 t2))"
        using f1 by (simp add: d mk_flip T)
      note r = rotate_shape [OF this]
      define h1 where "h1 = rotate e t h p"
      have f2: "focus h1 t ((e, True, x, t2) # (e, False, g, u) # ctx2) x (child e (nd h1 x)) (mk e True p s t1)"
        using focus_down [OF r(1)] by (simp add: h1_def)
      moreover have "child e (nd h1 x) = p" using f2 by (auto simp: focus_def)
      moreover have "x' = p" "h' = finish_turn e t h1 p"
        using assms(3) y black wx(1) [of "\<not> e"] d
        by (auto simp: RBTreeInsert_step_turn wx(4) wp(4) e insert_turn_def Let_def h1_def)
      moreover have "ino (plug ((e, True, x, t2) # (e, False, g, u) # ctx2) (mk e True p s t1)) = ino (plug ctx T)"
        by (auto simp: c0 c1 d T ino_plug ino_mk)
      ultimately show ?thesis using that [of h1 x t2 "mk e True p s t1"] r(2) f(3) b by (simp add: T h1_def)
    qed
    note o = outer_turn [OF in1(1-5) b(3) black b(4), folded h']
    then show ?thesis
      using in1(7) same_data_trans [OF in1(6)]
      by (intro exI [of _ "(e, False, p1, mk e True g s1 u) # ctx2"] exI [of _ X]) (simp add: c0 c1)
  qed
qed

lemma insert_loop:
  "ins_inv h t ctx x T \<Longrightarrow>
     \<exists>h' ctx' x' T'. RBTreeInsert_loop t h x = Some h' \<and> ins_inv h' t ctx' x' T' \<and> \<not> top_red ctx' \<and> same_data h h'
       \<and> ino (plug ctx' T') = ino (plug ctx T)"
proof (induction "length ctx" arbitrary: h ctx x T rule: less_induct)
  case less
  note red = ins_inv_parent(1) [OF less.prems]
  show ?case
  proof (cases "top_red ctx")
    case False
    then have "RBTreeInsert_loop t h x = Some h" using red by (subst RBTreeInsert_loop.simps) simp
    then show ?thesis using less.prems False same_data_refl by blast
  next
    case True
    obtain h1 x1 where s: "RBTreeInsert_step t h x = (h1, x1)" by (cases "RBTreeInsert_step t h x")
    obtain ctx1 T1 where n: "ins_inv h1 t ctx1 x1 T1" "same_data h h1" "ino (plug ctx1 T1) = ino (plug ctx T)" "length ctx1 < length ctx"
      using insert_step [OF less.prems True s] by blast
    have "RBTreeInsert_loop t h x = RBTreeInsert_loop t h1 x1"
      using True red s by (subst RBTreeInsert_loop.simps) simp
    then show ?thesis
      using less.hyps [OF n(4,1)] same_data_trans [OF n(2)] n(3) by metis
  qed
qed

end
