(* ===== verification/RS_RBSearch.thy ===== *)
theory RS_RBSearch
  imports RS_RBInsert
begin

text \<open>
  What a red-black tree stands for: the list of its keys and data from left to right.  \<open>RBFind\<close> searches
  that list, \<open>RBTreeInsert\<close> inserts into it (\<open>ringserver-4/src/rbtree.c\<close>).
\<close>

section \<open>Contents\<close>

definition key_at :: "('k, 'd) rbheap \<Rightarrow> addr \<Rightarrow> 'k" where "key_at h a = the (rb_key (nd h a))"

definition entry_at :: "('k, 'd) rbheap \<Rightarrow> addr \<Rightarrow> 'k \<times> 'd" where
  "entry_at h a = (key_at h a, the (rb_data (nd h a)))"

lemma same_data_entry: "same_data h h' \<Longrightarrow> entry_at h' a = entry_at h a \<and> key_at h' a = key_at h a"
  by (simp add: same_data_def entry_at_def key_at_def)

lemma entry_key [simp]: "fst (entry_at h a) = key_at h a" by (simp add: entry_at_def)

text \<open>The tree with the nodes \<open>as\<close>, from left to right; a red-black tree in the order of \<open>cmp\<close>.\<close>

definition tree_nodes :: "('k \<Rightarrow> 'k \<Rightarrow> int) \<Rightarrow> ('k, 'd) rbheap \<Rightarrow> RBTree \<Rightarrow> addr list \<Rightarrow> bool" where
  "tree_nodes cmp h t as \<longleftrightarrow> (\<exists>T. focus h t [] (root t) (left (nd h (root t))) T \<and> rb T \<and> ino T = as)
     \<and> ol_sorted cmp (map (entry_at h) as)"

definition tree_rep :: "('k \<Rightarrow> 'k \<Rightarrow> int) \<Rightarrow> ('k, 'd) rbheap \<Rightarrow> RBTree \<Rightarrow> ('k \<times> 'd) list \<Rightarrow> bool" where
  "tree_rep cmp h t xs \<longleftrightarrow> (\<exists>as. tree_nodes cmp h t as \<and> map (entry_at h) as = xs)"

lemma focus_top: "focus h t ctx p x T \<Longrightarrow> focus h t [] (root t) (left (nd h (root t))) (plug ctx T)"
  using ctx_at_plug [of h t ctx T] by (auto simp: focus_def apart_def)

lemma top_focus:
  assumes "focus h t [] (root t) (left (nd h (root t))) (plug ctx T)"
  shows "\<exists>p x. focus h t ctx p x T"
  using ctx_at_plug [of h t ctx T] assms by (auto simp: focus_def apart_def)

lemma tree_rep_create:
  assumes "RBTreeCreate ok n r h = (Some t, h')" "\<And>a b. n = Some a \<Longrightarrow> r = Some b \<Longrightarrow> a \<noteq> b"
  shows "tree_rep cmp h' t []"
proof -
  have "focus h' t [] (root t) (left (nd h' (root t))) Lf"
    using assms by (auto simp: RBTreeCreate_def Let_def focus_def sentinels_def apart_def split: if_splits option.splits)
  moreover have "rb Lf" by (simp add: rb_def)
  ultimately show ?thesis by (auto simp: tree_rep_def tree_nodes_def ol_sorted_def intro!: exI [of _ Lf])
qed

section \<open>Search\<close>

context comparison
begin

lemma sorted_middle:
  assumes "ol_sorted cmp (map (entry_at h) (as @ a # bs))"
  shows "\<forall>b \<in> set as. cmp (key_at h a) (key_at h b) > 0" "\<forall>b \<in> set bs. cmp (key_at h b) (key_at h a) > 0"
    "ol_sorted cmp (map (entry_at h) as)" "ol_sorted cmp (map (entry_at h) bs)"
  using assms by (auto simp: ol_sorted_def sorted_wrt_append sorted_wrt_map)

text \<open>Where a key is compared with a node, one side can be left aside.\<close>

lemma greater_right: "cmp a k > 0 \<Longrightarrow> cmp b a > 0 \<Longrightarrow> cmp b k > 0" by (rule cmp_trans)

lemma not_greater_left: "\<not> cmp a k > 0 \<Longrightarrow> cmp a b > 0 \<Longrightarrow> \<not> cmp b k > 0" using cmp_trans by blast

lemma find_loop:
  "tree_at h n p x T \<Longrightarrow> T \<noteq> Lf \<Longrightarrow> ol_sorted cmp (map (entry_at h) (ino T)) \<Longrightarrow>
     \<exists>r. RBFind_loop cmp n h k x = Some r \<and> (case r of None \<Rightarrow> k \<notin> key_at h ` set (ino T)
       | Some a \<Rightarrow> a \<in> set (ino T) \<and> key_at h a = k)"
proof (induction T arbitrary: p x)
  case (Nd c a l r)
  have x: "x = a" "x \<noteq> n" "tree_at h n x (left (nd h x)) l" "tree_at h n x (right (nd h x)) r" using Nd.prems(1) by auto
  note s = sorted_middle [of h "ino l" a "ino r"]
  have mid: "\<forall>b \<in> set (ino l). cmp (key_at h a) (key_at h b) > 0" "\<forall>b \<in> set (ino r). cmp (key_at h b) (key_at h a) > 0"
    and sorted: "ol_sorted cmp (map (entry_at h) (ino l))" "ol_sorted cmp (map (entry_at h) (ino r))"
    using s Nd.prems(3) by simp_all
  note nodes = tree_at_top [OF x(3)] tree_at_top [OF x(4)]
  consider "key_at h x = k" | "key_at h x \<noteq> k" "cmp (key_at h x) k > 0" | "key_at h x \<noteq> k" "\<not> cmp (key_at h x) k > 0" by blast
  then show ?case
  proof cases
    case 1
    then have "RBFind_loop cmp n h k x = Some (Some x)"
      by (subst RBFind_loop.simps) (simp add: key_at_def [symmetric] Let_def)
    then show ?thesis using 1 x(1) by auto
  next
    case 2
    have out: "k \<notin> key_at h ` set (ino r)" using mid(2) 2 x(1) greater_right cmp_refl by fastforce
    have step: "RBFind_loop cmp n h k x = (if left (nd h x) = n then Some None else RBFind_loop cmp n h k (left (nd h x)))"
      using 2 by (subst RBFind_loop.simps) (simp add: key_at_def [symmetric] Let_def cmp_zero)
    show ?thesis
    proof (cases "l = Lf")
      case True
      then show ?thesis using step nodes out 2(1) x(1) by auto
    next
      case False
      then obtain q where q: "RBFind_loop cmp n h k (left (nd h x)) = Some q"
          "case q of None \<Rightarrow> k \<notin> key_at h ` set (ino l) | Some b \<Rightarrow> b \<in> set (ino l) \<and> key_at h b = k"
        using Nd.IH(1) [OF x(3) False sorted(1)] by blast
      have "RBFind_loop cmp n h k x = Some q" using step q(1) nodes False by simp
      then show ?thesis using q(2) out 2(1) x(1) by (cases q) auto
    qed
  next
    case 3
    have out: "k \<notin> key_at h ` set (ino l)"
    proof
      assume "k \<in> key_at h ` set (ino l)"
      then show False using mid(1) 3(2) x(1) by auto
    qed
    have step: "RBFind_loop cmp n h k x = (if right (nd h x) = n then Some None else RBFind_loop cmp n h k (right (nd h x)))"
      using 3 by (subst RBFind_loop.simps) (simp add: key_at_def [symmetric] Let_def cmp_zero)
    show ?thesis
    proof (cases "r = Lf")
      case True
      then show ?thesis using step nodes out 3(1) x(1) by auto
    next
      case False
      then obtain q where q: "RBFind_loop cmp n h k (right (nd h x)) = Some q"
          "case q of None \<Rightarrow> k \<notin> key_at h ` set (ino r) | Some b \<Rightarrow> b \<in> set (ino r) \<and> key_at h b = k"
        using Nd.IH(2) [OF x(4) False sorted(2)] by blast
      have "RBFind_loop cmp n h k x = Some q" using step q(1) nodes False by simp
      then show ?thesis using q(2) out 3(1) x(1) by (cases q) auto
    qed
  qed
qed simp

lemma find_nodes:
  assumes "tree_nodes cmp h t as"
  shows "\<exists>r. RBFind cmp t h k = Some r \<and> (case r of None \<Rightarrow> k \<notin> key_at h ` set as | Some a \<Rightarrow> a \<in> set as \<and> key_at h a = k)"
proof -
  obtain T where T: "focus h t [] (root t) (left (nd h (root t))) T" "ino T = as" "ol_sorted cmp (map (entry_at h) as)"
    using assms by (auto simp: tree_nodes_def)
  have tr: "tree_at h (nil t) (root t) (left (nd h (root t))) T" using T(1) by (simp add: focus_def)
  show ?thesis
  proof (cases "T = Lf")
    case True
    then show ?thesis using tree_at_top [OF tr] T(2) by (auto simp: RBFind_def Let_def)
  next
    case False
    then show ?thesis using find_loop [OF tr] tree_at_top [OF tr] T(2,3) by (auto simp: RBFind_def Let_def)
  qed
qed

lemma ol_find_entries: "ol_find cmp (map (entry_at h) as) k = (case find (\<lambda>a. key_at h a = k) as of None \<Rightarrow> None | Some a \<Rightarrow> Some (snd (entry_at h a)))"
  by (induction as) (auto simp: entry_at_def cmp_zero)

lemma sorted_key_unique:
  assumes "ol_sorted cmp (map (entry_at h) as)" "a \<in> set as" "b \<in> set as" "key_at h a = key_at h b"
  shows "a = b"
proof -
  have "distinct (map (key_at h) as)" using keys_distinct [OF assms(1)] by (simp add: comp_def)
  then show ?thesis using assms(2-4) by (auto simp: distinct_map inj_on_def)
qed

section \<open>Insertion\<close>

lemma descend:
  "ctx_at h t ctx y x \<Longrightarrow> tree_at h (nil t) y x T \<Longrightarrow> ol_sorted cmp (map (entry_at h) (ino T)) \<Longrightarrow>
   \<forall>a \<in> set (before ctx). \<not> cmp (key_at h a) k > 0 \<Longrightarrow> \<forall>a \<in> set (after ctx). cmp (key_at h a) k > 0 \<Longrightarrow>
   \<exists>ctx' y'. TreeInsert_descend cmp (nil t) h k y x = Some y' \<and> ctx_at h t ctx' y' (nil t) \<and> plug ctx' Lf = plug ctx T
     \<and> (\<forall>a \<in> set (before ctx'). \<not> cmp (key_at h a) k > 0) \<and> (\<forall>a \<in> set (after ctx'). cmp (key_at h a) k > 0)"
proof (induction T arbitrary: ctx y x)
  case Lf
  then have "TreeInsert_descend cmp (nil t) h k y x = Some y" by (subst TreeInsert_descend.simps) simp
  then show ?case using Lf by auto
next
  case (Nd c a l r)
  have x: "x = a" "x \<noteq> nil t" "h x \<noteq> None" "red (nd h x) = c" "parent (nd h x) = y"
      "tree_at h (nil t) x (left (nd h x)) l" "tree_at h (nil t) x (right (nd h x)) r" using Nd.prems(2) by auto
  have mid: "\<forall>b \<in> set (ino l). cmp (key_at h a) (key_at h b) > 0" "\<forall>b \<in> set (ino r). cmp (key_at h b) (key_at h a) > 0"
    and sorted: "ol_sorted cmp (map (entry_at h) (ino l))" "ol_sorted cmp (map (entry_at h) (ino r))"
    using sorted_middle [of h "ino l" a "ino r"] Nd.prems(3) by simp_all
  show ?case
  proof (cases "cmp (key_at h x) k > 0")
    case True
    let ?ctx = "(True, c, a, r) # ctx"
    have at: "ctx_at h t ?ctx x (left (nd h x))" using Nd.prems(1) x by simp
    have out: "\<forall>b \<in> set (ino r). cmp (key_at h b) k > 0" using greater_right [of "key_at h a" k] mid(2) True x(1) by blast
    have sides: "\<forall>b \<in> set (before ?ctx). \<not> cmp (key_at h b) k > 0" "\<forall>b \<in> set (after ?ctx). cmp (key_at h b) k > 0"
      using Nd.prems(4,5) out True x(1) by auto
    have "TreeInsert_descend cmp (nil t) h k y x = TreeInsert_descend cmp (nil t) h k x (left (nd h x))"
      using True x(2) by (subst TreeInsert_descend.simps) (simp add: key_at_def)
    then show ?thesis using Nd.IH(1) [OF at x(6) sorted(1) sides] by (simp add: mk_def)
  next
    case False
    let ?ctx = "(False, c, a, l) # ctx"
    have at: "ctx_at h t ?ctx x (right (nd h x))" using Nd.prems(1) x by simp
    have out: "\<forall>b \<in> set (ino l). \<not> cmp (key_at h b) k > 0" using not_greater_left [of "key_at h a" k] mid(1) False x(1) by blast
    have sides: "\<forall>b \<in> set (before ?ctx). \<not> cmp (key_at h b) k > 0" "\<forall>b \<in> set (after ?ctx). cmp (key_at h b) k > 0"
      using Nd.prems(4,5) out False x(1) by auto
    have "TreeInsert_descend cmp (nil t) h k y x = TreeInsert_descend cmp (nil t) h k x (right (nd h x))"
      using False x(2) by (subst TreeInsert_descend.simps) (simp add: key_at_def)
    then show ?thesis using Nd.IH(2) [OF at x(7) sorted(2) sides] by (simp add: mk_def)
  qed
qed

lemma ol_insert_between:
  assumes "\<forall>a \<in> set as. \<not> cmp (key_at h a) k > 0" "\<forall>a \<in> set bs. cmp (key_at h a) k > 0"
  shows "ol_insert cmp (map (entry_at h) (as @ bs)) k d = map (entry_at h) as @ (k, d) # map (entry_at h) bs"
  using assms
proof (induction as)
  case Nil
  then show ?case by (cases bs) (auto simp: entry_at_def)
qed (auto simp: entry_at_def)

end

text \<open>Hanging a new node into the hole.\<close>

lemma link_hole:
  assumes "ctx_at h t ctx y (nil t)" "distinct (before ctx @ after ctx)" "root t \<notin> ctx_set ctx" "z \<noteq> nil t"
    "d = (ctx = [] \<or> fst (hd ctx))"
  shows "ctx_at (upd h y (set_child d z)) t ctx y z"
proof (cases ctx)
  case Nil
  then show ?thesis using assms(1,5) by (simp add: set_child_def)
next
  case (Cons f ctx')
  obtain e c a s where f: "f = (e, c, a, s)" by (cases f)
  have "a \<notin> ctx_set ctx'" "a \<notin> set (ino s)" "a \<noteq> root t"
    using assms(2,3) Cons f by (auto simp: ctx_set_def split: if_splits)
  then show ?thesis using assms(1,5) by (simp add: Cons f)
qed

lemma insert_help:
  assumes "focus h t ctx y (nil t) Lf" "z \<notin> ctx_set ctx" "z \<noteq> root t" "z \<noteq> nil t" "h z \<noteq> None"
    "left (nd h z) = nil t" "right (nd h z) = nil t" "d = (ctx = [] \<or> fst (hd ctx))"
  defines "h' \<equiv> upd (upd h z (\<lambda>n. n\<lparr>parent := y\<rparr>)) y (set_child d z)"
  shows "focus h' t ctx y z (Nd (red (nd h z)) z Lf Lf)"
    "same_data h h'"
proof -
  have ap: "distinct (before ctx @ after ctx)" "root t \<notin> ctx_set ctx" and ctx: "ctx_at h t ctx y (nil t)" and sen: "sentinels h t"
    using assms(1) by (auto simp: focus_def apart_iff)
  have y: "y \<noteq> z" "h y \<noteq> None" using ctx_at_parent [OF ctx] assms(2,3) sen ctx by (cases ctx; auto simp: sentinels_def)+
  have "ctx_at (upd h z (\<lambda>n. n\<lparr>parent := y\<rparr>)) t ctx y (nil t)" using ctx assms(2,3) by simp
  then have "ctx_at h' t ctx y z" unfolding h'_def by (rule link_hole [OF _ ap assms(4,8)])
  moreover have "tree_at h' (nil t) y z (Nd (red (nd h z)) z Lf Lf)"
    using assms(4-7) y(1) by (simp add: h'_def)
  moreover have "sentinels h' t" using sen assms(3,4) by (auto simp: h'_def sentinels_def)
  moreover have "apart t ctx (Nd (red (nd h z)) z Lf Lf)" using ap assms(2,3) by (simp add: apart_iff)
  ultimately show "focus h' t ctx y z (Nd (red (nd h z)) z Lf Lf)" by (simp add: focus_def)
  show "same_data h h'" unfolding h'_def using assms(5) y(2) by (intro same_data_upd) simp_all
qed

lemma finish_insert:
  assumes "ins_inv h t ctx x T" "\<not> top_red ctx"
  defines "h' \<equiv> upd h (left (nd h (root t))) (\<lambda>n. n\<lparr>red := False\<rparr>)"
  shows "\<exists>S. focus h' t [] (root t) (left (nd h' (root t))) S \<and> rb S \<and> ino S = ino (plug ctx T)" "same_data h h'"
proof -
  obtain p n where f: "focus h t ctx p x T" "is_red T" "bal n T" "cbal n ctx" using assms(1) by (auto simp: ins_inv_def)
  let ?S = "plug ctx T"
  note top = focus_top [OF f(1)]
  have ne: "?S \<noteq> Lf"
    using f(2) set_ino_plug [of ctx T] by (cases T) auto
  note pt = focus_paint [OF top ne, of False, folded h'_def]
  have "left (nd h (root t)) \<noteq> root t" using top ne tree_at_top [of h "nil t" "root t" _ ?S] by (auto simp: focus_def apart_def)
  then have same: "left (nd h' (root t)) = left (nd h (root t))" by (simp add: h'_def)
  have "rb (paint False ?S)"
  proof (cases "ctx = []")
    case True
    then show ?thesis using bal_paint [OF f(3,2)] by (auto simp: rb_def)
  next
    case False
    then have "\<not> is_red ?S" "\<exists>m. bal m ?S" using plug_bal [OF f(3,4)] assms(2) by auto
    then show ?thesis by (simp add: rb_def paint_black)
  qed
  then show "\<exists>S. focus h' t [] (root t) (left (nd h' (root t))) S \<and> rb S \<and> ino S = ino (plug ctx T)"
    using pt(1) same by (intro exI [of _ "paint False ?S"]) simp
  show "same_data h h'" by (rule pt(2))
qed


text \<open>Memory that the tree does not use.\<close>

lemma focus_outside:
  assumes "focus h t [] (root t) (left (nd h (root t))) T" "\<And>b. b \<noteq> z \<Longrightarrow> h' b = h b" "z \<notin> set (ino T)" "z \<noteq> root t" "z \<noteq> nil t"
  shows "focus h' t [] (root t) (left (nd h' (root t))) T"
proof -
  have tr: "tree_at h (nil t) (root t) (left (nd h (root t))) T" using assms(1) by (simp add: focus_def)
  have same: "h' b = h b" if "b \<in> set (ino T) \<or> b = root t \<or> b = nil t" for b using assms(2-5) that by metis
  have "tree_at h' (nil t) (root t) (left (nd h (root t))) T"
    by (rule tree_at_cong [OF tr]) (use same tree_at_used [OF tr] in auto)
  then show ?thesis using assms(1) same by (simp add: focus_def sentinels_def)
qed

context comparison
begin

lemma help_nodes:
  assumes "tree_nodes cmp h t as" "z \<notin> set as" "z \<noteq> root t" "z \<noteq> nil t" "\<And>b. b \<noteq> z \<Longrightarrow> h1 b = h b" "rb_key (nd h1 z) = Some k"
    "h1 z \<noteq> None"
  shows "\<exists>h3 ctx y. TreeInsertHelp cmp t h1 z = Some h3 \<and> focus h3 t ctx y z (Nd (red (nd h1 z)) z Lf Lf) \<and> cbal 0 ctx
     \<and> as = before ctx @ after ctx \<and> same_data h1 h3
     \<and> (\<forall>a \<in> set (before ctx). \<not> cmp (key_at h a) k > 0) \<and> (\<forall>a \<in> set (after ctx). cmp (key_at h a) k > 0)"
proof -
  obtain T where T: "focus h t [] (root t) (left (nd h (root t))) T" "rb T" "ino T = as" "ol_sorted cmp (map (entry_at h) as)"
    using assms(1) by (auto simp: tree_nodes_def)
  define h2 where "h2 = upd h1 z (\<lambda>n. n\<lparr>left := nil t, right := nil t\<rparr>)"
  have outside: "b \<noteq> z \<Longrightarrow> h2 b = h b" for b using assms(5) by (simp add: h2_def upd_def)
  have z: "z \<notin> set (ino T)" using assms(2) T(3) by simp
  have f: "focus h2 t [] (root t) (left (nd h2 (root t))) T"
    by (rule focus_outside [OF T(1) outside z assms(3,4)])
  have keys: "a \<noteq> z \<Longrightarrow> entry_at h2 a = entry_at h a" "a \<noteq> z \<Longrightarrow> key_at h2 a = key_at h a" for a
    by (simp_all add: entry_at_def key_at_def outside)
  have "map (entry_at h2) (ino T) = map (entry_at h) as" using T(3) assms(2) keys(1) by (metis (no_types, lifting) map_eq_conv)
  then have "ol_sorted cmp (map (entry_at h2) (ino T))" using T(4) by simp
  then obtain ctx y where d: "TreeInsert_descend cmp (nil t) h2 k (root t) (left (nd h2 (root t))) = Some y"
      "ctx_at h2 t ctx y (nil t)" "plug ctx Lf = T" "\<forall>a \<in> set (before ctx). \<not> cmp (key_at h2 a) k > 0"
      "\<forall>a \<in> set (after ctx). cmp (key_at h2 a) k > 0"
    using descend [of h2 t "[]" "root t" "left (nd h2 (root t))" T k] f by (auto simp: focus_def)
  have f2: "focus h2 t ctx y (nil t) Lf" using f d(2,3) by (auto simp: focus_def apart_def)
  have ctx: "cbal 0 ctx" using rb_plug [of ctx Lf] T(2) d(3) by auto
  have as: "as = before ctx @ after ctx" using ino_plug [of ctx Lf] d(3) T(3) by simp
  have zc: "z \<notin> ctx_set ctx" using assms(2) as by (simp add: ctx_set_def)
  define l where "l = (ctx = [] \<or> fst (hd ctx))"
  have side: "(y = root t \<or> cmp (key_at h2 y) k > 0) = l"
  proof (cases ctx)
    case (Cons x ctx')
    obtain e c a s where x: "x = (e, c, a, s)" by (cases x)
    have "y = a" "y \<noteq> root t" using f2 Cons x by (auto simp: focus_def apart_iff)
    then show ?thesis using d(4,5) Cons x by (cases e) (auto simp: l_def)
  qed (use d(2) in \<open>simp add: l_def\<close>)
  define h3 where "h3 = upd (upd h2 z (\<lambda>n. n\<lparr>parent := y\<rparr>)) y (set_child l z)"
  have zz: "h2 z \<noteq> None" "left (nd h2 z) = nil t" "right (nd h2 z) = nil t" "red (nd h2 z) = red (nd h1 z)" "rb_key (nd h2 z) = Some k"
    using assms(6,7) by (simp_all add: h2_def)
  note i = insert_help [OF f2 zc assms(3,4) zz(1-3) l_def, folded h3_def, unfolded zz(4)]
  have yz: "y \<noteq> z" using ctx_at_parent [OF d(2)] zc assms(3) by auto
  have "rb_key (nd (upd h2 z (\<lambda>n. n\<lparr>parent := y\<rparr>)) y) = rb_key (nd h2 y)" using yz by simp
  then have "TreeInsertHelp cmp t h1 z = Some h3"
    using d(1) side zz(5) unfolding TreeInsertHelp_def h2_def [symmetric] Let_def h3_def key_at_def
    by (cases l) (simp_all add: set_child_bool)
  moreover have "same_data h1 h3"
    using same_data_trans [OF _ i(2), of h1] assms(7) by (simp add: h2_def same_data_upd)
  moreover have "\<forall>a \<in> set as. key_at h2 a = key_at h a" using assms(2) keys(2) by metis
  ultimately show ?thesis
    using i(1) ctx as d(4,5) by (intro exI [of _ h3] exI [of _ ctx] exI [of _ y]) auto
qed

lemma insert_nodes:
  assumes "tree_nodes cmp h t as" "z \<notin> set as" "z \<noteq> root t" "z \<noteq> nil t" "k \<notin> key_at h ` set as"
    "given = Some z \<and> h z \<noteq> None \<or> given = None \<and> malloc = Some z"
  shows "\<exists>h' bs. RBTreeInsert cmp t h k d given malloc = Some (Some z, h') \<and> tree_nodes cmp h' t bs
     \<and> set bs = insert z (set as) \<and> entry_at h' z = (k, d) \<and> (\<forall>a \<in> set as. entry_at h' a = entry_at h a)
     \<and> map (entry_at h') bs = ol_insert cmp (map (entry_at h) as) k d \<and> (\<forall>b. b \<noteq> z \<longrightarrow> (h' b = None) = (h b = None))"
proof -
  define h0 where "h0 = (if given = None then h(z \<mapsto> blank) else h)"
  define h1 where "h1 = upd h0 z (\<lambda>n. n\<lparr>rb_key := Some k, rb_data := Some d\<rparr>)"
  have h1: "b \<noteq> z \<Longrightarrow> h1 b = h b" "rb_key (nd h1 z) = Some k" "h1 z \<noteq> None" "entry_at h1 z = (k, d)" for b
    by (simp_all add: h1_def h0_def upd_def entry_at_def key_at_def)
  obtain h2 ctx y where i: "TreeInsertHelp cmp t h1 z = Some h2" "focus h2 t ctx y z (Nd (red (nd h1 z)) z Lf Lf)" "cbal 0 ctx"
      "as = before ctx @ after ctx" "same_data h1 h2"
      "\<forall>a \<in> set (before ctx). \<not> cmp (key_at h a) k > 0" "\<forall>a \<in> set (after ctx). cmp (key_at h a) k > 0"
    using help_nodes [OF assms(1-4) h1(1-3)] by blast
  have "Nd (red (nd h1 z)) z Lf Lf \<noteq> Lf" by simp
  note p = focus_paint [OF i(2) this, of True]
  have "ins_inv (upd h2 z (\<lambda>n. n\<lparr>red := True\<rparr>)) t ctx z (Nd True z Lf Lf)"
    using p(1) i(3) unfolding ins_inv_def by (intro exI [of _ y] exI [of _ 0]) simp
  then obtain h3 ctx3 x3 T3 where l: "RBTreeInsert_loop t (upd h2 z (\<lambda>n. n\<lparr>red := True\<rparr>)) z = Some h3" "ins_inv h3 t ctx3 x3 T3"
      "\<not> top_red ctx3" "same_data (upd h2 z (\<lambda>n. n\<lparr>red := True\<rparr>)) h3" "ino (plug ctx3 T3) = before ctx @ z # after ctx"
    using insert_loop by (fastforce simp: ino_plug)
  define h4 where "h4 = upd h3 (left (nd h3 (root t))) (\<lambda>n. n\<lparr>red := False\<rparr>)"
  note fin = finish_insert [OF l(2,3), folded h4_def]
  define bs where "bs = before ctx @ z # after ctx"
  have same: "same_data h1 h4"
    using same_data_trans [OF same_data_trans [OF same_data_trans [OF i(5) p(2)] l(4)] fin(2)] .
  have old: "entry_at h4 a = entry_at h a" "key_at h4 a = key_at h a" if "a \<in> set as" for a
  proof -
    have "a \<noteq> z" using assms(2) that by auto
    then have "h1 a = h a" by (rule h1(1))
    then show "entry_at h4 a = entry_at h a" "key_at h4 a = key_at h a"
      using same_data_entry [OF same, of a] by (simp_all add: entry_at_def key_at_def)
  qed
  have new: "entry_at h4 z = (k, d)" using same_data_entry [OF same] h1(4) by simp
  have xs: "map (entry_at h4) bs = ol_insert cmp (map (entry_at h) as) k d"
    using ol_insert_between [OF i(6,7), of d] old(1) new i(4) by (simp add: bs_def)
  have "ol_find cmp (map (entry_at h) as) k = None"
    using assms(5) by (auto simp: ol_find_entries find_None_iff split: option.splits)
  then have "ol_sorted cmp (map (entry_at h4) bs)"
    using sorted_insert [of "map (entry_at h) as" k d] assms(1) xs by (simp add: tree_nodes_def)
  then have "tree_nodes cmp h4 t bs" using fin(1) l(5) by (auto simp: tree_nodes_def bs_def)
  moreover have "RBTreeInsert cmp t h k d given malloc = Some (Some z, h4)"
    using assms(6) i(1) l(1) by (auto simp: RBTreeInsert_def h1_def h0_def h4_def)
  moreover have "\<forall>b. b \<noteq> z \<longrightarrow> (h4 b = None) = (h b = None)" using same_dataD(1) [OF same] h1(1) by simp
  moreover have "set bs = insert z (set as)" using i(4) by (auto simp: bs_def)
  ultimately show ?thesis using xs new old(1) by blast
qed

end

end
