(* ===== verification/RS_RBDelete.thy ===== *)
theory RS_RBDelete
  imports RS_RBSearch
begin

text \<open>
  Deletion from a red-black tree (\<open>RBDeleteFixUp\<close>, \<open>RBDelete\<close> and \<open>RBRemove\<close> of
  \<open>ringserver-4/src/rbtree.c\<close>): the repair of the black height after a node has been spliced out, and the
  node that takes the place of the one that goes.
\<close>

section \<open>One turn of the repair\<close>

text \<open>The turn for both directions: \<open>d\<close> is the side on which the node hangs.\<close>

definition red_sibling :: "bool \<Rightarrow> RBTree \<Rightarrow> ('k, 'd) rbheap \<Rightarrow> addr \<Rightarrow> ('k, 'd) rbheap \<times> addr" where
  "red_sibling d tree h x =
     (let p = parent (nd h x); w = child (\<not> d) (nd h p)
      in if red (nd h w)
         then (let h1 = rotate d tree (upd (upd h w (\<lambda>n. n\<lparr>red := False\<rparr>)) p (\<lambda>n. n\<lparr>red := True\<rparr>)) p
               in (h1, child (\<not> d) (nd h1 (parent (nd h1 x)))))
         else (h, w))"

definition near_nephew :: "bool \<Rightarrow> RBTree \<Rightarrow> ('k, 'd) rbheap \<Rightarrow> addr \<Rightarrow> addr \<Rightarrow> ('k, 'd) rbheap \<times> addr" where
  "near_nephew d tree h x w =
     (if \<not> red (nd h (child (\<not> d) (nd h w)))
      then (let h2 = rotate (\<not> d) tree (upd (upd h (child d (nd h w)) (\<lambda>n. n\<lparr>red := False\<rparr>)) w (\<lambda>n. n\<lparr>red := True\<rparr>)) w
            in (h2, child (\<not> d) (nd h2 (parent (nd h2 x)))))
      else (h, w))"

definition far_nephew :: "bool \<Rightarrow> RBTree \<Rightarrow> ('k, 'd) rbheap \<Rightarrow> addr \<Rightarrow> addr \<Rightarrow> ('k, 'd) rbheap" where
  "far_nephew d tree h x w =
     (let p = parent (nd h x);
          h3 = upd h w (\<lambda>n. n\<lparr>red := red (nd h p)\<rparr>);
          h4 = upd h3 p (\<lambda>n. n\<lparr>red := False\<rparr>);
          h5 = upd h4 (child (\<not> d) (nd h4 w)) (\<lambda>n. n\<lparr>red := False\<rparr>)
      in rotate d tree h5 (parent (nd h5 x)))"

definition delete_turn :: "bool \<Rightarrow> RBTree \<Rightarrow> addr \<Rightarrow> ('k, 'd) rbheap \<Rightarrow> addr \<Rightarrow> ('k, 'd) rbheap \<times> addr" where
  "delete_turn d tree rt h x =
     (case red_sibling d tree h x of (h1, w) \<Rightarrow>
        if \<not> red (nd h1 (right (nd h1 w))) \<and> \<not> red (nd h1 (left (nd h1 w)))
        then (upd h1 w (\<lambda>n. n\<lparr>red := True\<rparr>), parent (nd h1 x))
        else (case near_nephew d tree h1 x w of (h2, w2) \<Rightarrow> (far_nephew d tree h2 x w2, rt)))"

lemma RBDeleteFixUp_step_turn:
  "RBDeleteFixUp_step tree rt h x = delete_turn (x = left (nd h (parent (nd h x)))) tree rt h x"
  unfolding RBDeleteFixUp_step_def delete_turn_def red_sibling_def near_nephew_def far_nephew_def Let_def
    LeftRotate_rotate RightRotate_rotate
  by (cases "x = left (nd h (parent (nd h x)))") (simp_all only: if_True if_False child_bool not_True_eq_False not_False_eq_True refl)

lemma both_children: "P (right n) \<and> P (left n) \<longleftrightarrow> P (child d n) \<and> P (child (\<not> d) n)"
  by (cases d) auto

text \<open>What is in the hole is one black node short; a red root makes up for it when it is painted black.\<close>

definition short :: "nat \<Rightarrow> shape \<Rightarrow> bool" where
  "short n T \<longleftrightarrow> (if is_red T then bal (Suc n) (paint False T) else bal n T)"

text \<open>The head of the loop; \<open>rt\<close> is the root at its start.\<close>

definition del_inv :: "('k, 'd) rbheap \<Rightarrow> RBTree \<Rightarrow> addr \<Rightarrow> frame list \<Rightarrow> addr \<Rightarrow> shape \<Rightarrow> bool" where
  "del_inv h t rt ctx x T \<longleftrightarrow> (\<exists>p n. focus h t ctx p x T \<and> parent (nd h x) = p \<and> short n T \<and> cbal (Suc n) ctx)
     \<and> h rt \<noteq> None \<and> (is_red T \<or> rt = left (nd h (root t)))"

text \<open>Behind the first step the sibling is black; it is not yet known whether the loop goes on.\<close>

definition del_far ::
  "('k, 'd) rbheap \<Rightarrow> RBTree \<Rightarrow> addr \<Rightarrow> bool \<Rightarrow> bool \<Rightarrow> addr \<Rightarrow> shape \<Rightarrow> frame list \<Rightarrow> addr \<Rightarrow> shape \<Rightarrow> nat \<Rightarrow> bool" where
  "del_far h t rt d c p s ctx x T n \<longleftrightarrow> focus h t ((d, c, p, s) # ctx) p x T \<and> parent (nd h x) = p \<and> \<not> is_red T \<and> bal n T
     \<and> \<not> is_red s \<and> cbal (Suc n) ((d, c, p, s) # ctx) \<and> h rt \<noteq> None \<and> (rt = p \<or> \<not> red (nd h rt) \<and> rt \<notin> set (ino s))"

definition del_ready ::
  "('k, 'd) rbheap \<Rightarrow> RBTree \<Rightarrow> addr \<Rightarrow> bool \<Rightarrow> bool \<Rightarrow> addr \<Rightarrow> shape \<Rightarrow> frame list \<Rightarrow> addr \<Rightarrow> shape \<Rightarrow> nat \<Rightarrow> bool" where
  "del_ready h t rt d c p s ctx x T n \<longleftrightarrow> del_far h t rt d c p s ctx x T n \<and> (c \<or> rt = left (nd h (root t)))"

lemma top_address:
  assumes "ctx_at h t ctx p x" "ctx \<noteq> []" "cbal n ctx"
  shows "left (nd h (root t)) \<in> ctx_set ctx" "\<not> red (nd h (left (nd h (root t))))"
  using assms
proof (induction h t ctx p x arbitrary: n rule: ctx_at.induct)
  case (2 h t d c a s ctx p x)
  {
    case 1
    then show ?case using "2.IH"(1) by (cases "ctx = []") (auto split: if_splits)
  next
    case 2
    then show ?case using "2.IH"(2) by (cases "ctx = []") (auto split: if_splits)
  }
qed simp_all

lemma same_top: "tree_at h' n p' a' T \<Longrightarrow> tree_at h n p a T \<Longrightarrow> a' = a" by (cases T) auto

lemma ctx_nil: "ctx_at h t ctx p x \<Longrightarrow> nil t \<notin> ctx_set ctx"
  by (induction h t ctx p x rule: ctx_at.induct) (auto dest: tree_at_nil)

lemma sibling_address:
  assumes "focus h t ((d, c, p, s) # ctx) p x T"
  shows "tree_at h (nil t) p (child (\<not> d) (nd h p)) s" "red (nd h (child (\<not> d) (nd h p))) = is_red s" "red (nd h p) = c"
    "\<not> red (nd h (nil t))"
  using assms tree_at_red [of h "nil t" p "child (\<not> d) (nd h p)" s] by (auto simp: focus_def sentinels_def)

lemma sibling_focus:
  assumes "focus h t ((d, c, p, s) # ctx) p x T"
  shows "focus h t ((\<not> d, c, p, T) # ctx) p (child (\<not> d) (nd h p)) s"
  using focus_down [of h t ctx "parent (nd h p)" p "\<not> d" c p s T] focus_up [OF assms] by (simp add: mk_flip)

lemma sibling_back:
  assumes "focus h t ((\<not> d, c, p, T) # ctx) p w s"
  shows "focus h t ((d, c, p, s) # ctx) p (child d (nd h p)) T"
  using sibling_focus [OF assms] by simp

lemma red_sibling_step:
  assumes "focus h t ((d, c, p, s) # ctx) p x T" "parent (nd h x) = p" "\<not> is_red T" "bal n T" "cbal (Suc n) ((d, c, p, s) # ctx)"
    "h rt \<noteq> None" "rt = left (nd h (root t))" "red_sibling d t h x = (h1, w)"
  shows "\<exists>c' s' ctx'. del_ready h1 t rt d c' p s' ctx' x T n \<and> w = child (\<not> d) (nd h1 p) \<and> same_data h h1
    \<and> ino (plug ((d, c', p, s') # ctx') T) = ino (plug ((d, c, p, s) # ctx) T) \<and> (c' \<or> ctx' = ctx)"
proof -
  note sib = sibling_address [OF assms(1)]
  have top: "rt \<in> ctx_set ((d, c, p, s) # ctx)" "\<not> red (nd h rt)"
    using top_address [of h t "(d, c, p, s) # ctx" p x "Suc n"] assms(1,5,7) by (simp_all add: focus_def)
  have rt: "rt = p \<or> rt \<in> ctx_set ctx"
  proof (cases "ctx = []")
    case True
    then show ?thesis using assms(1,7) by (simp add: focus_def)
  next
    case False
    have "ctx_at h t ctx (parent (nd h p)) p" using assms(1) by (simp add: focus_def)
    moreover have "cbal (if c then Suc n else Suc (Suc n)) ctx" using assms(5) by simp
    ultimately show ?thesis using top_address(1) [OF _ False] assms(7) by blast
  qed
  have apart: "set (ino s) \<inter> ctx_set ctx = {}" "p \<notin> set (ino s)" "p \<notin> set (ino T)"
    using focus_up [OF assms(1)] by (auto simp: focus_def apart_iff)
  show ?thesis
  proof (cases "is_red s")
    case False
    then have "h1 = h" "w = child (\<not> d) (nd h p)" using assms(2,8) sib(2) by (auto simp: red_sibling_def Let_def)
    then show ?thesis
      using assms False rt top(2) apart by (intro exI [of _ c] exI [of _ s] exI [of _ ctx]) (auto simp: del_ready_def del_far_def)
  next
    case True
    have c: "\<not> c" using assms(5) True by auto
    have "s \<noteq> Lf" using True by auto
    define v where "v = child (\<not> d) (nd h p)"
    obtain B C where s: "s = mk d True v B C" using at_mk [OF sib(1) \<open>s \<noteq> Lf\<close>, of d] True by (auto simp: v_def)
    have v: "v \<in> set (ino s)" "v \<noteq> nil t" using s sib(1) by auto
    let ?h1 = "upd h v (\<lambda>n. n\<lparr>red := False\<rparr>)"
    let ?h2 = "upd ?h1 p (\<lambda>n. n\<lparr>red := True\<rparr>)"
    have f0: "focus h t ((\<not> d, c, p, T) # ctx) p v (mk d True v B C)" using sibling_focus [OF assms(1)] s by (simp add: v_def)
    note f1 = focus_paint_mk [OF f0, of False]
    have "focus ?h1 t ctx (parent (nd ?h1 p)) p (mk d c p T (mk d False v B C))"
      using focus_up [OF f1(1)] by (simp add: mk_flip)
    note f2 = focus_paint_mk [OF this, of True]
    note f3 = rotate_shape [OF f2(1)]
    have h1: "h1 = rotate d t ?h2 p" "w = child (\<not> d) (nd h1 (parent (nd h1 x)))"
      using assms(2,8) sib(2) True by (auto simp: red_sibling_def Let_def v_def)
    have f4: "focus h1 t ((d, True, p, B) # (d, False, v, C) # ctx) p (child d (nd h1 p)) T"
      using focus_down [OF focus_down [OF f3(1), folded h1(1)]] by (auto simp: focus_def)
    have same: "same_data h h1" using same_data_trans [OF same_data_trans [OF f1(2) f2(2)] f3(2)] by (simp add: h1)
    have old: "child d (nd h p) = x" "tree_at h (nil t) p x T" using assms(1) by (auto simp: focus_def)
    have x1: "child d (nd h1 p) = x"
      using f4 same_top [OF _ old(2)] unfolding focus_def by blast
    have px: "parent (nd h1 x) = p"
    proof (cases "x = nil t")
      case True
      have "p \<noteq> nil t" "v \<noteq> nil t" using assms(1) v by (auto simp: focus_def)
      then show ?thesis using f3(4) assms(2) True by (simp add: h1)
    next
      case False
      then show ?thesis using focus_parts(6) [OF f4] x1 by simp
    qed
    have reds: "red (nd h1 rt) = red (nd ?h2 rt)" using f3(3) by (simp add: h1)
    have "rt = p \<or> \<not> red (nd h1 rt) \<and> rt \<notin> set (ino B)"
      using rt top(2) apart s unfolding reds by auto
    moreover have "cbal (Suc n) ((d, True, p, B) # (d, False, v, C) # ctx)" "\<not> is_red B"
      using assms(5) s c by auto
    ultimately have "del_ready h1 t rt d True p B ((d, False, v, C) # ctx) x T n"
      using f4 x1 px assms(3,4,6) same_dataD(1) [OF same] by (simp add: del_ready_def del_far_def)
    moreover have "ino (plug ((d, True, p, B) # (d, False, v, C) # ctx) T) = ino (plug ((d, c, p, s) # ctx) T)"
      by (simp add: s ino_plug ino_mk)
    ultimately show ?thesis
      using same h1(2) px by (intro exI [of _ True] exI [of _ B] exI [of _ "(d, False, v, C) # ctx"]) simp
  qed
qed

lemma black_nephews_step:
  assumes "del_ready h t rt d c p s ctx x T n" "w = child (\<not> d) (nd h p)" "\<not> red (nd h (child d (nd h w)))"
    "\<not> red (nd h (child (\<not> d) (nd h w)))"
  defines "h' \<equiv> upd h w (\<lambda>n. n\<lparr>red := True\<rparr>)"
  shows "\<exists>T'. del_inv h' t rt ctx p T' \<and> is_red T' = c \<and> same_data h h' \<and> ino (plug ctx T') = ino (plug ((d, c, p, s) # ctx) T)"
proof -
  have r: "focus h t ((d, c, p, s) # ctx) p x T" "\<not> is_red T" "bal n T" "\<not> is_red s" "bal (Suc n) s" "h rt \<noteq> None"
      "c \<or> rt = left (nd h (root t))" "cbal (if c then Suc n else Suc (Suc n)) ctx"
    using assms(1) by (auto simp: del_ready_def del_far_def)
  note sib = sibling_address [OF r(1)]
  have "s \<noteq> Lf" using r(5) by auto
  then obtain B C where s: "s = mk d False w B C" using at_mk [OF sib(1), of d] r(4) assms(2) by auto
  have BC: "tree_at h (nil t) w (child d (nd h w)) B" "tree_at h (nil t) w (child (\<not> d) (nd h w)) C" using sib(1) s by auto
  have black: "\<not> is_red B" "\<not> is_red C"
    using assms(3,4) tree_at_red [OF BC(1) sib(4)] tree_at_red [OF BC(2) sib(4)] by simp_all
  have "focus h t ((\<not> d, c, p, T) # ctx) p w (mk d False w B C)" using sibling_focus [OF r(1)] s assms(2) by simp
  note f1 = focus_paint_mk [OF this, of True, folded h'_def]
  have f2: "focus h' t ctx (parent (nd h' p)) p (mk d c p T (mk d True w B C))"
    using focus_up [OF f1(1)] by (simp add: mk_flip)
  have "w \<noteq> root t" using focus_up [OF r(1)] s by (auto simp: focus_def apart_iff)
  then have "left (nd h' (root t)) = left (nd h (root t))" by (simp add: h'_def)
  moreover have "short (if c then n else Suc n) (mk d c p T (mk d True w B C))"
    using r(2,3,5) black by (simp add: short_def s)
  ultimately have "del_inv h' t rt ctx p (mk d c p T (mk d True w B C))"
    using f2 r(6-8) same_dataD(1) [OF f1(2)] unfolding del_inv_def
    by (intro conjI exI [of _ "parent (nd h' p)"] exI [of _ "if c then n else Suc n"]) auto
  moreover have "ino (plug ctx (mk d c p T (mk d True w B C))) = ino (plug ((d, c, p, s) # ctx) T)"
    by (simp add: s ino_plug ino_mk)
  ultimately show ?thesis using f1(2) by (intro exI [of _ "mk d c p T (mk d True w B C)"]) simp
qed


lemma near_nephew_step:
  assumes "del_far h t rt d c p s ctx x T n" "w = child (\<not> d) (nd h p)" "near_nephew d t h x w = (h2, w2)"
    "red (nd h (child d (nd h w))) \<or> red (nd h (child (\<not> d) (nd h w)))"
  shows "\<exists>B C. del_far h2 t rt d c p (mk d False w2 B C) ctx x T n \<and> is_red C \<and> same_data h h2
    \<and> ino (plug ((d, c, p, mk d False w2 B C) # ctx) T) = ino (plug ((d, c, p, s) # ctx) T)"
proof -
  have r: "focus h t ((d, c, p, s) # ctx) p x T" "parent (nd h x) = p" "\<not> is_red T" "bal n T" "\<not> is_red s" "bal (Suc n) s" "h rt \<noteq> None"
      "rt = p \<or> \<not> red (nd h rt) \<and> rt \<notin> set (ino s)" "cbal (Suc n) ((d, c, p, s) # ctx)"
    using assms(1) by (auto simp: del_ready_def del_far_def)
  note sib = sibling_address [OF r(1)]
  have "s \<noteq> Lf" using r(6) by auto
  then obtain B C where s: "s = mk d False w B C" using at_mk [OF sib(1), of d] r(5) assms(2) by auto
  have BC: "tree_at h (nil t) w (child d (nd h w)) B" "tree_at h (nil t) w (child (\<not> d) (nd h w)) C" using sib(1) s by auto
  note reds = tree_at_red [OF BC(1) sib(4)] tree_at_red [OF BC(2) sib(4)]
  show ?thesis
  proof (cases "is_red C")
    case True
    then have "h2 = h" "w2 = w" using assms(3) reds by (auto simp: near_nephew_def)
    then show ?thesis using assms(1) True s by (intro exI [of _ B] exI [of _ C]) simp
  next
    case False
    then have "is_red B" using assms(4) reds by simp
    define b where "b = child d (nd h w)"
    have "B \<noteq> Lf" using \<open>is_red B\<close> by auto
    obtain B1 B2 where B: "B = mk (\<not> d) True b B1 B2" using at_mk [OF BC(1) \<open>B \<noteq> Lf\<close>, of "\<not> d"] \<open>is_red B\<close> by (auto simp: b_def)
    let ?h1 = "upd h b (\<lambda>n. n\<lparr>red := False\<rparr>)"
    let ?h2 = "upd ?h1 w (\<lambda>n. n\<lparr>red := True\<rparr>)"
    have "focus h t ((\<not> d, c, p, T) # ctx) p w (mk d False w B C)" using sibling_focus [OF r(1)] s assms(2) by simp
    then have "focus h t ((d, False, w, C) # (\<not> d, c, p, T) # ctx) w b (mk (\<not> d) True b B1 B2)" using focus_down b_def B by metis
    note f1 = focus_paint_mk [OF this, of False]
    have "focus ?h1 t ((\<not> d, c, p, T) # ctx) (parent (nd ?h1 w)) w (mk (\<not> d) False w C (mk (\<not> d) False b B1 B2))"
      using focus_up [OF f1(1)] by (simp add: mk_flip)
    note f2 = focus_paint_mk [OF this, of True]
    note f3 = rotate_shape [OF f2(1)]
    have h2: "h2 = rotate (\<not> d) t ?h2 w" "w2 = child (\<not> d) (nd h2 (parent (nd h2 x)))"
      using assms(3) reds False by (auto simp: near_nephew_def Let_def b_def)
    define S where "S = mk d False b B2 (mk (\<not> d) True w C B1)"
    have "focus h2 t ((\<not> d, c, p, T) # ctx) p b S" using f3(1) by (simp add: h2 S_def mk_flip) (auto simp: focus_def)
    then have "focus h2 t ((d, c, p, S) # ctx) p (child d (nd h2 p)) T" by (rule sibling_back)
    moreover have "child d (nd h2 p) = x"
      using calculation r(1) same_top unfolding focus_def by blast
    ultimately have f4: "focus h2 t ((d, c, p, S) # ctx) p x T" by simp
    have px: "parent (nd h2 x) = p"
    proof (cases "x = nil t")
      case True
      have "b \<noteq> nil t" "w \<noteq> nil t" using f1(1) by (auto simp: focus_def)
      then show ?thesis using f3(4) r(2) True by (simp add: h2)
    next
      case False
      then show ?thesis using focus_parts(6) [OF f4] by simp
    qed
    have same: "same_data h h2" using same_data_trans [OF same_data_trans [OF f1(2) f2(2)] f3(2)] by (simp add: h2)
    have rt: "rt = p \<or> \<not> red (nd h2 rt) \<and> rt \<notin> set (ino S)"
      using r(8) f3(3) [of rt] by (auto simp: h2 S_def s B)
    have "bal (Suc n) S" "\<not> is_red S" using r(6) False by (auto simp: S_def s B)
    then have "cbal (Suc n) ((d, c, p, S) # ctx)" using r(9) by auto
    moreover have "w2 = b" using h2(2) px f4 by (auto simp: focus_def S_def)
    moreover have "ino (plug ((d, c, p, S) # ctx) T) = ino (plug ((d, c, p, s) # ctx) T)"
      by (auto simp: S_def s B ino_plug ino_mk)
    ultimately have "del_far h2 t rt d c p (mk d False w2 B2 (mk (\<not> d) True w C B1)) ctx x T n"
        "ino (plug ((d, c, p, mk d False w2 B2 (mk (\<not> d) True w C B1)) # ctx) T) = ino (plug ((d, c, p, s) # ctx) T)"
      using f4 px r(3,4,7) rt same_dataD(1) [OF same] \<open>\<not> is_red S\<close> by (simp_all add: del_far_def S_def)
    then show ?thesis using same by (intro exI [of _ B2] exI [of _ "mk (\<not> d) True w C B1"]) simp
  qed
qed

lemma far_nephew_step:
  assumes "del_far h t rt d c p (mk d False w B C) ctx x T n" "is_red C"
  defines "h' \<equiv> far_nephew d t h x w"
  shows "\<exists>S. focus h' t [] (root t) (left (nd h' (root t))) S \<and> rb S \<and> ino S = ino (plug ((d, c, p, mk d False w B C) # ctx) T)"
    "same_data h h'" "\<not> red (nd h' rt)"
proof -
  let ?s = "mk d False w B C"
  have r: "focus h t ((d, c, p, ?s) # ctx) p x T" "parent (nd h x) = p" "\<not> is_red T" "bal n T" "bal (Suc n) ?s" "h rt \<noteq> None"
      "rt = p \<or> \<not> red (nd h rt) \<and> rt \<notin> set (ino ?s)" "cbal (Suc n) ((d, c, p, ?s) # ctx)"
    using assms(1) by (auto simp: del_far_def)
  note sib = sibling_address [OF r(1)]
  define a where "a = child (\<not> d) (nd h w)"
  have w: "child (\<not> d) (nd h p) = w" "w \<noteq> p" using sib(1) focus_up [OF r(1)] by (auto simp: focus_def apart_iff)
  have a: "tree_at h (nil t) w a C" using sib(1) w by (auto simp: a_def)
  let ?h1 = "upd h w (\<lambda>n. n\<lparr>red := c\<rparr>)"
  let ?h2 = "upd ?h1 p (\<lambda>n. n\<lparr>red := False\<rparr>)"
  let ?h3 = "upd ?h2 a (\<lambda>n. n\<lparr>red := False\<rparr>)"
  have "focus h t ((\<not> d, c, p, T) # ctx) p w (mk d False w B C)" using sibling_focus [OF r(1)] w by simp
  note f1 = focus_paint_mk [OF this, of c]
  have "focus ?h1 t ctx (parent (nd ?h1 p)) p (mk d c p T (mk d c w B C))" using focus_up [OF f1(1)] by (simp add: mk_flip)
  note f2 = focus_paint_mk [OF this, of False]
  have "focus ?h2 t ((\<not> d, False, p, T) # ctx) p (child (\<not> d) (nd ?h2 p)) (mk (\<not> d) c w C B)"
    using focus_down [of ?h2 t ctx _ p "\<not> d" False p "mk d c w B C" T] f2(1) by (simp add: mk_flip)
  then have "focus ?h2 t ((\<not> d, c, w, B) # (\<not> d, False, p, T) # ctx) w (child (\<not> d) (nd ?h2 w)) C" by (rule focus_down)
  moreover have "child (\<not> d) (nd ?h2 w) = a" using w(2) by (simp add: a_def)
  moreover have "C \<noteq> Lf" using assms(2) by auto
  ultimately have f3: "focus ?h3 t ((\<not> d, c, w, B) # (\<not> d, False, p, T) # ctx) w a (paint False C)" "same_data ?h2 ?h3"
    using focus_paint [of ?h2 t _ w a C False] by simp_all
  have wp: "parent (nd ?h3 w) = p" using focus_up [OF f3(1)] by (auto simp: focus_def)
  have "focus ?h3 t ctx (parent (nd ?h3 p)) p (mk d False p T (mk d c w B (paint False C)))"
    using focus_up [OF focus_up [OF f3(1)], unfolded wp] by (simp add: mk_flip)
  note f4 = rotate_shape [OF this]
  have px: "parent (nd ?h3 x) = p" using r(2) by auto
  have wa: "child (\<not> d) (nd ?h2 w) = a" using w(2) by (simp add: a_def)
  have h': "h' = rotate d t ?h3 p"
    unfolding h'_def far_nephew_def Let_def r(2) sib(3) wa px by (rule refl)
  define S where "S = mk d c w (mk d False p T B) (paint False C)"
  have f5: "focus h' t ctx (parent (nd ?h3 p)) w S" using f4(1) by (simp add: h' S_def)
  show "same_data h h'"
    using same_data_trans [OF same_data_trans [OF same_data_trans [OF f1(2) f2(2)] f3(2)] f4(2)] by (simp add: h')
  have "a \<in> set (ino C)" using tree_at_top [OF a] \<open>C \<noteq> Lf\<close> by simp
  then show "\<not> red (nd h' rt)" using r(7) f4(3) [of rt] by (auto simp: h')
  have BC: "bal n B" "bal n C" using r(5) by auto
  have "bal (if c then Suc n else Suc (Suc n)) S" using r(3-4) BC bal_paint [OF BC(2) assms(2)] by (simp add: S_def)
  moreover have "cbal (if c then Suc n else Suc (Suc n)) ctx" "top_red ctx \<Longrightarrow> \<not> is_red S" "ctx = [] \<Longrightarrow> \<not> is_red S"
    using r(8) by (auto simp: S_def)
  ultimately have "rb (plug ctx S)" using plug_bal [of "if c then Suc n else Suc (Suc n)" S ctx] by (cases "ctx = []") (auto simp: rb_def)
  moreover have "ino (plug ctx S) = ino (plug ((d, c, p, ?s) # ctx) T)" by (simp add: S_def ino_plug ino_mk)
  ultimately show "\<exists>S. focus h' t [] (root t) (left (nd h' (root t))) S \<and> rb S \<and> ino S = ino (plug ((d, c, p, ?s) # ctx) T)"
    using focus_top [OF f5] by blast
qed


lemma delete_step:
  assumes "del_inv h t rt ctx x T" "\<not> is_red T" "ctx \<noteq> []" "RBDeleteFixUp_step t rt h x = (h1, x1)"
  shows "same_data h h1 \<and> ((\<exists>ctx' T'. del_inv h1 t rt ctx' x1 T' \<and> ino (plug ctx' T') = ino (plug ctx T) \<and> (length ctx' < length ctx \<or> is_red T'))
    \<or> x1 = rt \<and> \<not> red (nd h1 rt) \<and> h1 rt \<noteq> None
       \<and> (\<exists>S. focus h1 t [] (root t) (left (nd h1 (root t))) S \<and> rb S \<and> ino S = ino (plug ctx T)))"
proof -
  obtain q n where inv: "focus h t ctx q x T" "parent (nd h x) = q" "bal n T" "cbal (Suc n) ctx" "h rt \<noteq> None" "rt = left (nd h (root t))"
    using assms(1,2) by (auto simp: del_inv_def short_def)
  obtain d c p s ctx1 where c0: "ctx = (d, c, p, s) # ctx1" using assms(3) by (cases ctx) auto
  have f: "focus h t ((d, c, p, s) # ctx1) p x T" "parent (nd h x) = p" using inv(1,2) c0 by (auto simp: focus_def)
  have cb: "cbal (Suc n) ((d, c, p, s) # ctx1)" using inv(4) c0 by simp
  have "child d (nd h p) = x" using f(1) by (simp add: focus_def)
  moreover have "child (\<not> d) (nd h p) \<noteq> x"
  proof -
    have "child (\<not> d) (nd h p) \<in> set (ino s) \<and> child (\<not> d) (nd h p) \<noteq> nil t"
      using tree_at_top [OF sibling_address(1) [OF f(1)]] cb by auto
    then show ?thesis using focus_parts(4,6) [OF f(1)] by (cases "x = nil t") auto
  qed
  ultimately have side: "(x = left (nd h (parent (nd h x)))) = d" using f(2) by (cases d) auto
  obtain h2 w where rs: "red_sibling d t h x = (h2, w)" by (cases "red_sibling d t h x")
  obtain c' s' ctx' where r: "del_ready h2 t rt d c' p s' ctx' x T n" "w = child (\<not> d) (nd h2 p)" "same_data h h2"
      "ino (plug ((d, c', p, s') # ctx') T) = ino (plug ctx T)" "c' \<or> ctx' = ctx1"
    using red_sibling_step [OF f assms(2) inv(3) cb inv(5,6) rs] c0 by auto
  have px: "parent (nd h2 x) = p" using r(1) by (simp add: del_ready_def del_far_def)
  have far: "del_far h2 t rt d c' p s' ctx' x T n" using r(1) by (simp add: del_ready_def)
  note step = assms(4) [unfolded RBDeleteFixUp_step_turn side delete_turn_def rs prod.case px
      both_children [of "\<lambda>a. \<not> red (nd h2 a)" "nd h2 w" d]]
  show ?thesis
  proof (cases "\<not> red (nd h2 (child d (nd h2 w))) \<and> \<not> red (nd h2 (child (\<not> d) (nd h2 w)))")
    case True
    then have "h1 = upd h2 w (\<lambda>n. n\<lparr>red := True\<rparr>)" "x1 = p" using step by auto
    then show ?thesis
      using black_nephews_step [OF r(1,2)] True same_data_trans [OF r(3)] r(4,5) c0 by auto
  next
    case False
    obtain h3 w2 where nn: "near_nephew d t h2 x w = (h3, w2)" by (cases "near_nephew d t h2 x w")
    then have h1: "h1 = far_nephew d t h3 x w2" "x1 = rt" using step False by auto
    obtain B C where b: "del_far h3 t rt d c' p (mk d False w2 B C) ctx' x T n" "is_red C" "same_data h2 h3"
        "ino (plug ((d, c', p, mk d False w2 B C) # ctx') T) = ino (plug ctx T)"
      using near_nephew_step [OF far r(2) nn] False r(4) by auto
    note fn = far_nephew_step [OF b(1,2), folded h1(1)]
    have same: "same_data h h1" by (rule same_data_trans [OF same_data_trans [OF r(3) b(3)] fn(2)])
    then show ?thesis using fn(1,3) b(4) h1(2) same_dataD(1) [OF same, of rt] inv(5) by auto
  qed
qed

lemma paint_again: "h a \<noteq> None \<Longrightarrow> \<not> red (nd h a) \<Longrightarrow> upd h a (\<lambda>n. n\<lparr>red := False\<rparr>) = h"
  by (cases "nd h a") (auto simp: upd_def)

text \<open>The loop ends with a red-black tree of the same nodes.\<close>

lemma delete_exit:
  assumes "del_inv h t rt ctx x T" "is_red T \<or> ctx = []"
  defines "h' \<equiv> upd h x (\<lambda>n. n\<lparr>red := False\<rparr>)"
  shows "\<exists>S. focus h' t [] (root t) (left (nd h' (root t))) S \<and> rb S \<and> ino S = ino (plug ctx T)" "same_data h h'"
proof -
  obtain p n where inv: "focus h t ctx p x T" "short n T" "cbal (Suc n) ctx" using assms(1) by (auto simp: del_inv_def)
  have alloc: "h x \<noteq> None"
    using inv(1) tree_at_used [of h "nil t" p x T x] tree_at_top [of h "nil t" p x T]
    by (cases "x = nil t") (auto simp: focus_def sentinels_def)
  have f: "focus h' t ctx p x (paint False T)"
  proof (cases "T = Lf")
    case True
    then have "ctx = []" "x = nil t" using assms(2) inv(1) by (auto simp: focus_def)
    then show ?thesis using inv(1) True by (auto simp: focus_def h'_def sentinels_def)
  next
    case False
    then show ?thesis using focus_paint(1) [OF inv(1) False] by (simp add: h'_def)
  qed
  have "\<exists>m. bal m (paint False T)" "ctx \<noteq> [] \<Longrightarrow> bal (Suc n) (paint False T)"
    using inv(2) assms(2) by (auto simp: short_def paint_black split: if_splits)
  then have "rb (plug ctx (paint False T))"
    using plug_bal [of "Suc n" "paint False T" ctx] inv(3) by (cases "ctx = []") (auto simp: rb_def)
  then show "\<exists>S. focus h' t [] (root t) (left (nd h' (root t))) S \<and> rb S \<and> ino S = ino (plug ctx T)"
    using focus_top [OF f] by (auto simp: ino_plug)
  show "same_data h h'" unfolding h'_def using alloc by (intro same_data_upd) simp_all
qed

lemma delete_loop_red:
  assumes "del_inv h t rt ctx x T" "is_red T"
  shows "RBDeleteFixUp_loop t rt h x = Some (upd h x (\<lambda>n. n\<lparr>red := False\<rparr>))"
proof -
  have "red (nd h x)"
    using assms tree_at_red [of h "nil t" _ x T] by (auto simp: del_inv_def focus_def sentinels_def)
  then show ?thesis by (subst RBDeleteFixUp_loop.simps) simp
qed

lemma delete_loop:
  "del_inv h t rt ctx x T \<Longrightarrow>
     \<exists>h'. RBDeleteFixUp_loop t rt h x = Some h' \<and> same_data h h'
       \<and> (\<exists>S. focus h' t [] (root t) (left (nd h' (root t))) S \<and> rb S \<and> ino S = ino (plug ctx T))"
proof (induction "length ctx" arbitrary: h ctx x T rule: less_induct)
  case less
  consider "is_red T" | "\<not> is_red T" "ctx = []" | "\<not> is_red T" "ctx \<noteq> []" by blast
  then show ?case
  proof cases
    case 1
    then show ?thesis using delete_exit [OF less.prems] delete_loop_red [OF less.prems] by auto
  next
    case 2
    then have "x = rt" using less.prems by (auto simp: del_inv_def focus_def)
    then have "RBDeleteFixUp_loop t rt h x = Some (upd h x (\<lambda>n. n\<lparr>red := False\<rparr>))"
      by (subst RBDeleteFixUp_loop.simps) simp
    then show ?thesis using delete_exit [OF less.prems] 2(2) by auto
  next
    case 3
    obtain p n where inv: "focus h t ctx p x T" "cbal (Suc n) ctx" "rt = left (nd h (root t))"
      using less.prems 3 by (auto simp: del_inv_def)
    have black: "\<not> red (nd h x)"
      using inv(1) 3(1) tree_at_red [of h "nil t" p x T] by (auto simp: focus_def sentinels_def)
    have "rt \<in> ctx_set ctx" using top_address(1) [OF _ 3(2) inv(2)] inv(1,3) by (auto simp: focus_def)
    moreover have "ctx_set ctx \<inter> set (ino T) = {}" "nil t \<notin> ctx_set ctx"
      using inv(1) ctx_nil [of h t ctx p x] by (auto simp: focus_def apart_iff)
    moreover have "x = nil t \<or> x \<in> set (ino T)" using inv(1) tree_at_top [of h "nil t" p x T] by (auto simp: focus_def)
    ultimately have "x \<noteq> rt" by auto
    obtain h1 x1 where s: "RBDeleteFixUp_step t rt h x = (h1, x1)" by (cases "RBDeleteFixUp_step t rt h x")
    have loop: "RBDeleteFixUp_loop t rt h x = RBDeleteFixUp_loop t rt h1 x1"
      using black \<open>x \<noteq> rt\<close> s by (subst RBDeleteFixUp_loop.simps) simp
    have st: "same_data h h1" "(\<exists>ctx' T'. del_inv h1 t rt ctx' x1 T' \<and> ino (plug ctx' T') = ino (plug ctx T) \<and> (length ctx' < length ctx \<or> is_red T'))
      \<or> x1 = rt \<and> \<not> red (nd h1 rt) \<and> h1 rt \<noteq> None
         \<and> (\<exists>S. focus h1 t [] (root t) (left (nd h1 (root t))) S \<and> rb S \<and> ino S = ino (plug ctx T))"
      using delete_step [OF less.prems 3 s] by auto
    from st(2) show ?thesis
    proof (elim disjE exE conjE)
      fix ctx' T'
      assume n: "del_inv h1 t rt ctx' x1 T'" "ino (plug ctx' T') = ino (plug ctx T)" "length ctx' < length ctx"
      then show ?thesis using less.hyps [OF n(3,1)] same_data_trans [OF st(1)] loop by auto
    next
      fix ctx' T'
      assume n: "del_inv h1 t rt ctx' x1 T'" "ino (plug ctx' T') = ino (plug ctx T)" "is_red T'"
      then show ?thesis using delete_loop_red [OF n(1,3)] delete_exit [OF n(1)] same_data_trans [OF st(1)] loop by auto
    next
      fix S
      assume n: "x1 = rt" "\<not> red (nd h1 rt)" "h1 rt \<noteq> None" "focus h1 t [] (root t) (left (nd h1 (root t))) S" "rb S"
        "ino S = ino (plug ctx T)"
      have "RBDeleteFixUp_loop t rt h1 x1 = Some h1"
        using n(1-3) paint_again [of h1 rt] by (subst RBDeleteFixUp_loop.simps) simp
      then show ?thesis using n st(1) loop by auto
    qed
  qed
qed


section \<open>Splicing out\<close>

lemma plug_append: "plug (a @ b) T = plug b (plug a T)"
  by (induction a T rule: plug.induct) auto

lemma plug_at: "a \<in> set (ino T) \<Longrightarrow> \<exists>ctx c l r. T = plug ctx (Nd c a l r)"
proof (induction T)
  case (Nd c b l r)
  then consider "a = b" | "a \<in> set (ino l)" | "a \<in> set (ino r)" by auto
  then show ?case
  proof cases
    case 1
    then show ?thesis by (metis plug.simps(1))
  next
    case 2
    then obtain ctx c' l' r' where "l = plug ctx (Nd c' a l' r')" using Nd.IH(1) by auto
    then have "Nd c b l r = plug (ctx @ [(True, c, b, r)]) (Nd c' a l' r')" by (simp add: plug_append mk_def)
    then show ?thesis by blast
  next
    case 3
    then obtain ctx c' l' r' where "r = plug ctx (Nd c' a l' r')" using Nd.IH(2) by auto
    then have "Nd c b l r = plug (ctx @ [(False, c, b, l)]) (Nd c' a l' r')" by (simp add: plug_append mk_def)
    then show ?thesis by blast
  qed
qed simp

text \<open>The leftmost node of a tree, as \<open>TreeSuccessor\<close> finds it.\<close>

lemma leftmost_at:
  "tree_at h n p x T \<Longrightarrow> T \<noteq> Lf \<Longrightarrow>
     \<exists>ctx c y r. leftmost n h x = Some y \<and> T = plug ctx (Nd c y Lf r) \<and> before ctx = []"
proof (induction T arbitrary: p x)
  case (Nd c a l r)
  have x: "x = a" "tree_at h n x (left (nd h x)) l" using Nd.prems(1) by auto
  show ?case
  proof (cases "l = Lf")
    case True
    then have "leftmost n h x = Some x" using x by (subst leftmost.simps) simp
    then show ?thesis using True x(1) by (intro exI [of _ "[]"]) auto
  next
    case False
    then obtain ctx c' y r' where y: "leftmost n h (left (nd h x)) = Some y" "l = plug ctx (Nd c' y Lf r')" "before ctx = []"
      using Nd.IH(1) [OF x(2)] by auto
    have "leftmost n h x = leftmost n h (left (nd h x))"
      using False tree_at_top [OF x(2)] by (subst leftmost.simps) simp
    moreover have "before (ctx @ [(True, c, a, r)]) = []" using y(3)
      by (induction ctx rule: before.induct) (auto split: if_splits)
    ultimately show ?thesis using y
      by (intro exI [of _ "ctx @ [(True, c, a, r)]"] exI [of _ c'] exI [of _ y] exI [of _ r']) (simp add: plug_append mk_def)
  qed
qed simp

text \<open>A node with one child at most, and the child that takes its place.\<close>

definition only_child :: "shape \<Rightarrow> shape \<Rightarrow> shape" where "only_child l r = (if l = Lf then r else l)"

definition splice :: "RBTree \<Rightarrow> ('k, 'd) rbheap \<Rightarrow> addr \<Rightarrow> ('k, 'd) rbheap option" where
  "splice tree h y =
     (let x = (if left (nd h y) = nil tree then right (nd h y) else left (nd h y));
          h1 = upd h x (\<lambda>n. n\<lparr>parent := parent (nd h y)\<rparr>);
          p = parent (nd h1 y);
          h2 = (if root tree = parent (nd h1 x) then upd h1 (root tree) (\<lambda>n. n\<lparr>left := x\<rparr>)
                else if y = left (nd h1 p) then upd h1 p (\<lambda>n. n\<lparr>left := x\<rparr>)
                else upd h1 p (\<lambda>n. n\<lparr>right := x\<rparr>))
      in if \<not> red (nd h2 y) then RBDeleteFixUp tree h2 x else Some h2)"

lemma splice_out_eq:
  "splice_out tree h z =
     (case (if left (nd h z) = nil tree \<or> right (nd h z) = nil tree then Some z else TreeSuccessor tree h z) of
        None \<Rightarrow> None | Some y \<Rightarrow> map_option (\<lambda>h'. (y, h')) (splice tree h y))"
  by (auto simp: splice_out_def splice_def Let_def split: option.split)

lemma splice_links:
  assumes "focus h t ctx p y (Nd c y l r)" "l = Lf \<or> r = Lf"
  defines "x \<equiv> (if left (nd h y) = nil t then right (nd h y) else left (nd h y))"
  defines "h2 \<equiv> relink (upd h x (\<lambda>n. n\<lparr>parent := p\<rparr>)) p y x"
  shows "focus h2 t ctx p x (only_child l r)" "parent (nd h2 x) = p" "same_data h h2" "red (nd h2 y) = c" "parent (nd h y) = p"
    "p = root t \<longrightarrow> y = left (nd h p)" "x \<noteq> y" "p \<noteq> x" "red (nd h2 a) = red (nd h a)"
proof -
  let ?X = "only_child l r" and ?h1 = "upd h x (\<lambda>n. n\<lparr>parent := p\<rparr>)"
  have sen: "sentinels h t" and ctx: "ctx_at h t ctx p y" and ap: "distinct (before ctx @ after ctx)" "root t \<notin> ctx_set ctx"
      "ctx_set ctx \<inter> set (ino (Nd c y l r)) = {}" "distinct (ino (Nd c y l r))" "root t \<notin> set (ino (Nd c y l r))"
    and tr: "y \<noteq> nil t" "h y \<noteq> None" "red (nd h y) = c" "parent (nd h y) = p"
      "tree_at h (nil t) y (left (nd h y)) l" "tree_at h (nil t) y (right (nd h y)) r"
    using assms(1) by (auto simp: focus_def apart_iff)
  have X: "tree_at h (nil t) y x ?X"
    using tr(5,6) assms(2) tree_at_top [OF tr(5)] by (auto simp: x_def only_child_def)
  have inX: "set (ino ?X) \<subseteq> set (ino l) \<union> set (ino r)" "distinct (ino ?X)" "y \<notin> set (ino ?X)"
    using ap(4) by (auto simp: only_child_def)
  have x: "x = nil t \<and> ?X = Lf \<or> x \<in> set (ino ?X) \<and> x \<noteq> nil t" using tree_at_top [OF X] by auto
  have pc: "p = root t \<or> p \<in> ctx_set ctx" by (rule ctx_at_parent [OF ctx])
  have pn: "p \<noteq> nil t" using pc ctx_nil [OF ctx] sen by (auto simp: sentinels_def)
  have xo: "x \<notin> ctx_set ctx" "x \<noteq> root t" "x \<noteq> y" "p \<noteq> x" "p \<noteq> y" "p \<notin> set (ino ?X)"
    using x inX ap ctx_nil [OF ctx] sen tr(1) pc pn by (auto simp: sentinels_def)
  have alloc: "h x \<noteq> None" "h p \<noteq> None"
    using x tree_at_used [OF X] sen ctx by (auto simp: sentinels_def) (cases ctx, auto)+
  show par: "parent (nd h y) = p" "x \<noteq> y" "p \<noteq> x" by (rule tr xo)+
  have "ctx_at ?h1 t ctx p y" using ctx xo by simp
  moreover have "sentinels ?h1 t" using sen by (auto simp: sentinels_def)
  ultimately have "ctx_at h2 t ctx p x"
    unfolding h2_def by (rule relink_at [OF _ _ tr(1) ap(1,2)]) (use ap(3) in auto)
  moreover have "tree_at h2 (nil t) p x ?X"
  proof (cases "x = nil t")
    case True
    then show ?thesis using x X tree_at_nil [OF X] by auto
  next
    case False
    have "tree_at ?h1 (nil t) p x ?X" by (rule tree_at_reparent [OF X inX(2) False])
    then show ?thesis using xo by (simp add: h2_def relink_def)
  qed
  moreover have "sentinels h2 t" using sen by (auto simp: h2_def relink_def sentinels_def)
  moreover have "apart t ctx ?X" using ap inX by (auto simp: apart_iff)
  ultimately show "focus h2 t ctx p x ?X" by (simp add: focus_def)
  show "parent (nd h2 x) = p" by (auto simp: h2_def relink_def)
  show "same_data h h2" unfolding h2_def relink_def using alloc by (intro same_data_upd) simp_all
  show reds: "red (nd h2 a) = red (nd h a)" for a by (auto simp: h2_def relink_def)
  show "red (nd h2 y) = c" using tr(3) by (simp add: reds)
  show "p = root t \<longrightarrow> y = left (nd h p)"
    using ctx ap(2) by (cases ctx) auto
qed


lemma splice_nodes:
  assumes "focus h t ctx p y (Nd c y l r)" "l = Lf \<or> r = Lf" "rb (plug ctx (Nd c y l r))"
  shows "\<exists>h' S. splice t h y = Some h' \<and> focus h' t [] (root t) (left (nd h' (root t))) S \<and> rb S
    \<and> ino S = ino (plug ctx (only_child l r)) \<and> same_data h h'"
proof -
  define x where "x = (if left (nd h y) = nil t then right (nd h y) else left (nd h y))"
  define h1 where "h1 = upd h x (\<lambda>n. n\<lparr>parent := p\<rparr>)"
  define h2 where "h2 = relink h1 p y x"
  note k = splice_links [OF assms(1,2), folded x_def, folded h1_def, folded h2_def]
  have par: "parent (nd h1 y) = p" "parent (nd h1 x) = p" "left (nd h1 p) = left (nd h p)" using k(5,7,8) by (simp_all add: h1_def)
  have h2: "h2 = (if root t = parent (nd h1 x) then upd h1 (root t) (\<lambda>n. n\<lparr>left := x\<rparr>)
                  else if y = left (nd h1 p) then upd h1 p (\<lambda>n. n\<lparr>left := x\<rparr>) else upd h1 p (\<lambda>n. n\<lparr>right := x\<rparr>))"
    using k(6) par by (auto simp: h2_def relink_eq)
  have sp: "splice t h y = (if \<not> c then RBDeleteFixUp t h2 x else Some h2)"
    unfolding splice_def Let_def x_def [symmetric] k(5) h1_def [symmetric] par(1) h2 [symmetric] k(4) by simp
  obtain n where b: "bal n (Nd c y l r)" "cbal n ctx" "top_red ctx \<longrightarrow> \<not> c" using rb_plug [OF assms(3)] by auto
  have top: "ctx = [] \<Longrightarrow> \<not> c" using assms(3) by (auto simp: rb_def)
  show ?thesis
  proof (cases c)
    case True
    then have "bal n (only_child l r)" "\<not> is_red (only_child l r)" using b(1) by (auto simp: only_child_def)
    then have "rb (plug ctx (only_child l r))" using plug_bal [OF _ b(2)] top True by (auto simp: rb_def)
    then show ?thesis using focus_top [OF k(1)] sp True k(3) by auto
  next
    case False
    then obtain m where m: "n = Suc m" "bal m (only_child l r)" using b(1) by (cases n) (auto simp: only_child_def)
    have "short m (only_child l r)" using m(2) bal_paint by (auto simp: short_def)
    moreover have "h2 (left (nd h2 (root t))) \<noteq> None"
    proof -
      have "tree_at h2 (nil t) (root t) (left (nd h2 (root t))) (plug ctx (only_child l r))" "h2 (nil t) \<noteq> None"
        using focus_top [OF k(1)] by (auto simp: focus_def sentinels_def)
      then show ?thesis using tree_at_top tree_at_used by metis
    qed
    ultimately have "del_inv h2 t (left (nd h2 (root t))) ctx x (only_child l r)"
      using k(1,2) b(2) m(1) unfolding del_inv_def by auto
    then show ?thesis using delete_loop sp False same_data_trans [OF k(3)] by (fastforce simp: RBDeleteFixUp_def)
  qed
qed

lemma take_place_at:
  assumes "focus h t ctx p z (Nd c z l r)" "y \<notin> ctx_set ctx" "y \<notin> set (ino (Nd c z l r))" "y \<noteq> root t" "y \<noteq> nil t" "h y \<noteq> None"
  shows "focus (take_place h y z) t ctx p y (Nd c y l r)" "same_data h (take_place h y z)"
proof -
  have sen: "sentinels h t" and ctx: "ctx_at h t ctx p z" and ap: "distinct (before ctx @ after ctx)" "root t \<notin> ctx_set ctx"
      "ctx_set ctx \<inter> set (ino (Nd c z l r)) = {}" "distinct (ino (Nd c z l r))" "root t \<notin> set (ino (Nd c z l r))"
    and tr: "z \<noteq> nil t" "h z \<noteq> None" "red (nd h z) = c" "parent (nd h z) = p"
      "tree_at h (nil t) z (left (nd h z)) l" "tree_at h (nil t) z (right (nd h z)) r"
    using assms(1) by (auto simp: focus_def apart_iff)
  define a b where ab: "a = left (nd h z)" "b = right (nd h z)"
  have in_a: "a = nil t \<or> a \<in> set (ino l) \<and> a \<noteq> nil t" and in_b: "b = nil t \<or> b \<in> set (ino r) \<and> b \<noteq> nil t"
    using tree_at_top [OF tr(5)] tree_at_top [OF tr(6)] by (auto simp: ab)
  have nn: "nil t \<notin> ctx_set ctx" "nil t \<noteq> root t" using ctx_nil [OF ctx] sen by (auto simp: sentinels_def)
  have pc: "p = root t \<or> p \<in> ctx_set ctx" by (rule ctx_at_parent [OF ctx])
  have neq: "y \<noteq> z" "a \<noteq> z" "b \<noteq> z" "a \<noteq> y" "b \<noteq> y" "p \<noteq> z" "p \<noteq> y" "a \<notin> ctx_set ctx" "b \<notin> ctx_set ctx" "a \<noteq> root t" "b \<noteq> root t"
      "z \<noteq> root t" "z \<notin> ctx_set ctx" "p \<notin> set (ino l)" "p \<notin> set (ino r)" "a \<notin> set (ino r)" "b \<notin> set (ino l)" "p \<noteq> a" "p \<noteq> b"
    using in_a in_b pc nn ap assms(2-5) tr(1) tree_at_nil [OF tr(5)] tree_at_nil [OF tr(6)] by auto
  have alloc: "h a \<noteq> None" "h b \<noteq> None" "h p \<noteq> None"
    using in_a in_b sen tree_at_used [OF tr(5)] tree_at_used [OF tr(6)] ctx by (auto simp: sentinels_def) (cases ctx, auto)+
  define h1 where "h1 = upd h y (\<lambda>n. n\<lparr>left := a, right := b, parent := p, red := c\<rparr>)"
  define h2 where "h2 = upd h1 b (\<lambda>n. n\<lparr>parent := y\<rparr>)"
  define h3 where "h3 = upd h2 a (\<lambda>n. n\<lparr>parent := y\<rparr>)"
  have fields: "right (nd h1 z) = b" "left (nd h2 z) = a" "parent (nd h3 z) = p"
    using neq tr(4) by (simp_all add: h1_def h2_def h3_def ab)
  have tp: "take_place h y z = relink h3 p z y"
    unfolding take_place_def Let_def ab [symmetric] tr(3,4) h1_def [symmetric] fields(1) h2_def [symmetric] fields(2) h3_def [symmetric]
      fields(3) relink_eq by (rule refl)
  have "ctx_at h3 t ctx p z" using ctx neq assms(2,4) by (simp add: h3_def h2_def h1_def)
  moreover have sen3: "sentinels h3 t" using sen assms(4,5) by (auto simp: h3_def h2_def h1_def sentinels_def)
  ultimately have "ctx_at (take_place h y z) t ctx p y"
    unfolding tp by (rule relink_at [OF _ _ tr(1) ap(1,2) neq(13)])
  moreover have "tree_at (take_place h y z) (nil t) p y (Nd c y l r)"
  proof -
    have l: "tree_at h3 (nil t) y a l"
    proof (cases "a = nil t")
      case True
      then show ?thesis using tree_at_top [OF tr(5)] by (simp add: ab)
    next
      case False
      have "tree_at h2 (nil t) z a l" using tr(5) neq assms(3) by (simp add: h2_def h1_def ab)
      then show ?thesis unfolding h3_def by (rule tree_at_reparent) (use ap(4) False in auto)
    qed
    have r: "tree_at h3 (nil t) y b r"
    proof (cases "b = nil t")
      case True
      then show ?thesis using tree_at_top [OF tr(6)] by (simp add: ab)
    next
      case False
      have "tree_at h1 (nil t) z b r" using tr(6) assms(3) by (simp add: h1_def ab)
      then have "tree_at h2 (nil t) y b r" unfolding h2_def by (rule tree_at_reparent) (use ap(4) False in auto)
      then show ?thesis using neq by (simp add: h3_def)
    qed
    have "nd h3 y = (nd h y)\<lparr>left := a, right := b, parent := p, red := c\<rparr>" using neq by (simp add: h3_def h2_def h1_def)
    moreover have "h3 y \<noteq> None" by (simp add: h3_def h2_def h1_def upd_def)
    ultimately show ?thesis using l r neq assms(5) by (simp add: tp relink_def)
  qed
  moreover have "sentinels (take_place h y z) t" using sen3 by (auto simp: tp relink_def sentinels_def)
  moreover have "apart t ctx (Nd c y l r)" using ap assms(2-4) by (auto simp: apart_iff)
  ultimately show "focus (take_place h y z) t ctx p y (Nd c y l r)" by (simp add: focus_def)
  show "same_data h (take_place h y z)"
    unfolding tp relink_def h3_def h2_def h1_def using alloc assms(6) by (intro same_data_upd) simp_all
qed


section \<open>Deletion\<close>

text \<open>The tree without the spliced node: \<open>z\<close> itself, or its successor \<open>y\<close>.\<close>

lemma splice_out_nodes:
  assumes "focus h t [] (root t) (left (nd h (root t))) T" "rb T" "z \<in> set (ino T)"
  shows "\<exists>A B y h' S. ino T = A @ z # B \<and> splice_out t h z = Some (y, h') \<and> focus h' t [] (root t) (left (nd h' (root t))) S \<and> rb S
    \<and> same_data h h' \<and> (if y = z then ino S = A @ B else \<exists>B'. B = y # B' \<and> ino S = A @ z # B')"
proof -
  obtain ctx c l r where T: "T = plug ctx (Nd c z l r)" using plug_at [OF assms(3)] by auto
  obtain p q where f: "focus h t ctx p q (Nd c z l r)" using top_focus assms(1) T by blast
  then have q: "q = z" by (simp add: focus_def)
  have tr: "z \<noteq> nil t" "tree_at h (nil t) z (left (nd h z)) l" "tree_at h (nil t) z (right (nd h z)) r" "distinct (ino T)"
    using f T by (auto simp: focus_def apart_def)
  note kids = tree_at_top [OF tr(2)] tree_at_top [OF tr(3)]
  have inoT: "ino T = (before ctx @ ino l) @ z # (ino r @ after ctx)" by (simp add: T ino_plug)
  show ?thesis
  proof (cases "l = Lf \<or> r = Lf")
    case True
    have "splice_out t h z = map_option (\<lambda>h'. (z, h')) (splice t h z)" using True kids by (simp add: splice_out_eq)
    moreover obtain h' S where "splice t h z = Some h'" "focus h' t [] (root t) (left (nd h' (root t))) S" "rb S"
        "ino S = ino (plug ctx (only_child l r))" "same_data h h'"
      using splice_nodes [OF f [unfolded q] True] assms(2) T by auto
    ultimately show ?thesis using inoT True by (fastforce simp: only_child_def ino_plug)
  next
    case False
    then have ne: "l \<noteq> Lf" "r \<noteq> Lf" by auto
    obtain rc cy y ry where y: "leftmost (nil t) h (right (nd h z)) = Some y" "r = plug rc (Nd cy y Lf ry)" "before rc = []"
      using leftmost_at [OF tr(3) ne(2)] by auto
    have "splice_out t h z = map_option (\<lambda>h'. (y, h')) (splice t h y)"
      using ne kids y(1) by (simp add: splice_out_eq TreeSuccessor_def Let_def)
    moreover let ?ctx = "rc @ (False, c, z, l) # ctx"
    have Ty: "T = plug ?ctx (Nd cy y Lf ry)" by (simp add: T y(2) plug_append mk_def)
    obtain p' q' where f': "focus h t ?ctx p' q' (Nd cy y Lf ry)" using top_focus assms(1) Ty by blast
    have q': "q' = y" using f' by (simp add: focus_def)
    obtain h' S where "splice t h y = Some h'" "focus h' t [] (root t) (left (nd h' (root t))) S" "rb S"
        "ino S = ino (plug ?ctx (only_child Lf ry))" "same_data h h'"
      using splice_nodes [OF f' [unfolded q']] assms(2) Ty by auto
    moreover have inor: "ino r = y # ino ry @ after rc" by (simp add: y(2,3) ino_plug)
    moreover have "ino (plug ?ctx ry) = before ctx @ ino l @ z # ino ry @ after rc @ after ctx"
      using y(3) by (simp add: plug_append ino_plug mk_def)
    moreover have "y \<noteq> z" using tr(4) unfolding inoT inor by auto
    ultimately show ?thesis
      using inoT by (intro exI [of _ "before ctx @ ino l"] exI [of _ "ino r @ after ctx"] exI [of _ y] exI [of _ h'] exI [of _ S])
        (simp add: only_child_def)
  qed
qed

lemma rb_address: "rb (plug ctx (Nd c a l r)) \<Longrightarrow> rb (plug ctx (Nd c b l r))"
  using rb_plug [of ctx "Nd c a l r"] plug_bal [of _ "Nd c b l r" ctx] by (cases "ctx = []") (auto simp: rb_def)

definition settle :: "addr \<times> ('k, 'd) rbheap \<Rightarrow> addr \<Rightarrow> ('k, 'd) rbheap" where
  "settle r z = (case r of (y, h1) \<Rightarrow> if y \<noteq> z then take_place h1 y z else h1)"

lemma RBDelete_settle: "RBDelete t h z = map_option (\<lambda>r. (settle r z)(z := None)) (splice_out t h z)"
  by (auto simp: RBDelete_def settle_def split: option.split)

lemma RBRemove_settle:
  "RBRemove t h z = map_option (\<lambda>r. (z, upd (settle r z) z (\<lambda>n. n\<lparr>left := NULL, right := NULL, parent := NULL\<rparr>))) (splice_out t h z)"
  by (auto simp: RBRemove_def settle_def split: option.split)

lemma settle_nodes:
  assumes "focus h t [] (root t) (left (nd h (root t))) T" "rb T" "z \<in> set (ino T)"
  shows "\<exists>A B r S. ino T = A @ z # B \<and> splice_out t h z = Some r
    \<and> focus (settle r z) t [] (root t) (left (nd (settle r z) (root t))) S \<and> rb S \<and> same_data h (settle r z) \<and> ino S = A @ B"
proof -
  obtain A B y h' S where s: "ino T = A @ z # B" "splice_out t h z = Some (y, h')"
      "focus h' t [] (root t) (left (nd h' (root t))) S" "rb S" "same_data h h'"
      "if y = z then ino S = A @ B else \<exists>B'. B = y # B' \<and> ino S = A @ z # B'"
    using splice_out_nodes [OF assms] by blast
  show ?thesis
  proof (cases "y = z")
    case True
    then show ?thesis using s by (fastforce simp: settle_def)
  next
    case False
    then obtain B' where B': "B = y # B'" "ino S = A @ z # B'" using s(6) by auto
    then have "z \<in> set (ino S)" by simp
    from plug_at [OF this] obtain ctx c l r where S: "S = plug ctx (Nd c z l r)" by blast
    obtain p q where f: "focus h' t ctx p q (Nd c z l r)" using top_focus s(3) S by blast
    then have q: "q = z" by (simp add: focus_def)
    have at: "tree_at h (nil t) (root t) (left (nd h (root t))) T" using assms(1) by (simp add: focus_def)
    have dist: "distinct (ino T)" "root t \<notin> set (ino T)" "distinct (ino S)"
      using assms(1) s(3) by (auto simp: focus_def apart_def)
    moreover have "nil t \<notin> set (ino T)" "h y \<noteq> None"
      using tree_at_nil [OF at] tree_at_used [OF at, of y] s(1) B'(1) by auto
    ultimately
    have y: "y \<notin> set (ino S)" "y \<noteq> root t" "y \<noteq> nil t" "h' y \<noteq> None"
      using s(1) B' same_dataD(1) [OF s(5), of y] by auto
    have out: "y \<notin> ctx_set ctx" "y \<notin> set (ino (Nd c z l r))" using y(1) S set_ino_plug [of ctx "Nd c z l r"] by auto
    note tp = take_place_at [OF f [unfolded q] out y(2-4)]
    have "ino (plug ctx (Nd c y l r)) = A @ B"
    proof -
      have eq: "A @ z # B' = (before ctx @ ino l) @ z # (ino r @ after ctx)" using B'(2) S by (simp add: ino_plug)
      moreover have "z \<notin> set A" "z \<notin> set B'" using dist(3) B'(2) by auto
      ultimately have "A = before ctx @ ino l \<and> B' = ino r @ after ctx"
        using append_Cons_eq_iff [of z A B' "before ctx @ ino l" "ino r @ after ctx"] by blast
      then show ?thesis by (simp add: ino_plug B'(1))
    qed
    moreover have "rb (plug ctx (Nd c y l r))" using s(4) S rb_address by blast
    moreover have "settle (y, h') z = take_place h' y z" using False by (simp add: settle_def)
    ultimately show ?thesis
      using s(1,2) focus_top [OF tp(1)] same_data_trans [OF s(5) tp(2)] by (intro exI [of _ A] exI [of _ B] exI [of _ "(y, h')"]) auto
  qed
qed


text \<open>What a tree is after a node has gone, and the memory of that node has changed.\<close>

lemma without_node:
  assumes "tree_nodes cmp h t as" "focus h1 t [] (root t) (left (nd h1 (root t))) S" "rb S" "same_data h h1" "as = A @ z # B" "ino S = A @ B"
    "\<And>b. b \<noteq> z \<Longrightarrow> h' b = h1 b"
  shows "tree_nodes cmp h' t (A @ B)" "a \<in> set (A @ B) \<Longrightarrow> entry_at h' a = entry_at h a"
proof -
  obtain T where T: "focus h t [] (root t) (left (nd h (root t))) T" "ino T = as" "ol_sorted cmp (map (entry_at h) as)"
    using assms(1) by (auto simp: tree_nodes_def)
  have at: "tree_at h (nil t) (root t) (left (nd h (root t))) T" using T(1) by (simp add: focus_def)
  have z: "z \<notin> set (ino S)" "z \<noteq> root t" "z \<noteq> nil t"
    using T(1,2) tree_at_nil [OF at] assms(5,6) by (auto simp: focus_def apart_def)
  have f: "focus h' t [] (root t) (left (nd h' (root t))) S" by (rule focus_outside [OF assms(2,7) z])
  have same: "entry_at h' a = entry_at h a" if "a \<in> set (A @ B)" for a
  proof -
    have "a \<noteq> z" using that z(1) assms(6) by auto
    then have "h' a = h1 a" by (rule assms(7))
    then show ?thesis using same_data_entry [OF assms(4), of a] by (simp add: entry_at_def key_at_def)
  qed
  then show "a \<in> set (A @ B) \<Longrightarrow> entry_at h' a = entry_at h a" .
  have "map (entry_at h') (A @ B) = map (entry_at h) (A @ B)" by (rule map_cong [OF refl same])
  moreover have "ol_sorted cmp (map (entry_at h) (A @ B))"
    using T(3) assms(5) by (auto simp: ol_sorted_def sorted_wrt_append)
  ultimately have "ol_sorted cmp (map (entry_at h') (A @ B))" by (simp only:)
  then show "tree_nodes cmp h' t (A @ B)" unfolding tree_nodes_def using f assms(3,6) by blast
qed

lemma delete_nodes:
  assumes "tree_nodes cmp h t as" "z \<in> set as"
  shows "\<exists>h' A B. RBDelete t h z = Some h' \<and> as = A @ z # B \<and> tree_nodes cmp h' t (A @ B)
    \<and> (\<forall>a \<in> set (A @ B). entry_at h' a = entry_at h a) \<and> h' z = None \<and> (\<forall>b. b \<noteq> z \<longrightarrow> (h' b = None) = (h b = None))"
proof -
  obtain T where T: "focus h t [] (root t) (left (nd h (root t))) T" "rb T" "ino T = as"
    using assms(1) by (auto simp: tree_nodes_def)
  have "z \<in> set (ino T)" using assms(2) T(3) by simp
  from settle_nodes [OF T(1,2) this] obtain A B r S where s: "ino T = A @ z # B" "splice_out t h z = Some r"
      "focus (settle r z) t [] (root t) (left (nd (settle r z) (root t))) S" "rb S" "same_data h (settle r z)" "ino S = A @ B" by blast
  define h' where "h' = (settle r z)(z := None)"
  have off: "\<And>b. b \<noteq> z \<Longrightarrow> h' b = settle r z b" by (simp add: h'_def)
  have as: "as = A @ z # B" using s(1) T(3) by simp
  note w = without_node [OF assms(1) s(3-5) as s(6) off]
  have del: "RBDelete t h z = Some h'" using s(2) by (simp add: RBDelete_settle h'_def)
  have "h' z = None" by (simp add: h'_def)
  moreover have "\<forall>b. b \<noteq> z \<longrightarrow> (h' b = None) = (h b = None)" using off same_dataD(1) [OF s(5)] by simp
  ultimately show ?thesis using del as w by blast
qed

lemma remove_nodes:
  assumes "tree_nodes cmp h t as" "z \<in> set as"
  shows "\<exists>h' A B. RBRemove t h z = Some (z, h') \<and> as = A @ z # B \<and> tree_nodes cmp h' t (A @ B)
    \<and> (\<forall>a \<in> set as. entry_at h' a = entry_at h a) \<and> left (nd h' z) = NULL \<and> right (nd h' z) = NULL \<and> parent (nd h' z) = NULL"
proof -
  obtain T where T: "focus h t [] (root t) (left (nd h (root t))) T" "rb T" "ino T = as"
    using assms(1) by (auto simp: tree_nodes_def)
  have "z \<in> set (ino T)" using assms(2) T(3) by simp
  from settle_nodes [OF T(1,2) this] obtain A B r S where s: "ino T = A @ z # B" "splice_out t h z = Some r"
      "focus (settle r z) t [] (root t) (left (nd (settle r z) (root t))) S" "rb S" "same_data h (settle r z)" "ino S = A @ B" by blast
  define h' where "h' = upd (settle r z) z (\<lambda>n. n\<lparr>left := NULL, right := NULL, parent := NULL\<rparr>)"
  have off: "\<And>b. b \<noteq> z \<Longrightarrow> h' b = settle r z b" by (simp add: h'_def upd_def)
  have as: "as = A @ z # B" using s(1) T(3) by simp
  note w = without_node [OF assms(1) s(3-5) as s(6) off]
  have rem: "RBRemove t h z = Some (z, h')" using s(2) by (simp add: RBRemove_settle h'_def)
  have "entry_at h' z = entry_at h z"
    using same_data_entry [OF s(5), of z] by (simp add: h'_def entry_at_def key_at_def)
  then have "\<forall>a \<in> set as. entry_at h' a = entry_at h a" using w(2) as by auto
  moreover have "left (nd h' z) = NULL" "right (nd h' z) = NULL" "parent (nd h' z) = NULL" by (simp_all add: h'_def)
  ultimately show ?thesis using rem as w(1) by blast
qed

end
