(* ===== verification/RS_RBProps.thy ===== *)
theory RS_RBProps
  imports RS_RBDelete RS_Ring
begin

text \<open>
  What the callers of \<open>ringserver-4/src/rbtree.c\<close> rely on: insertion and deletion act on the contents as
  on an ordered list, the walks visit all nodes from left to right, and the stream index of the ring on
  such a tree is the finite map that \<open>RS_Ring\<close> works with.
\<close>

section \<open>Walks\<close>

lemma traverse_at: "tree_at h n p a T \<Longrightarrow> RBTraverseHelper n h a = Some (ino T)"
proof (induction T arbitrary: p a)
  case Lf
  then show ?case by (subst RBTraverseHelper.simps) simp
next
  case (Nd c b l r)
  then have at: "a = b" "b \<noteq> n" "tree_at h n b (left (nd h b)) l" "tree_at h n b (right (nd h b)) r" by auto
  show ?case using at(1,2) Nd.IH(1) [OF at(3)] Nd.IH(2) [OF at(4)] by (subst RBTraverseHelper.simps) simp
qed

lemma build_at: "tree_at h n p a T \<Longrightarrow> smem_rep m xs \<Longrightarrow> \<exists>m'. RBBuildStackHelper n h a m = Some m' \<and> smem_rep m' (ino T @ xs)"
proof (induction T arbitrary: p a m xs)
  case Lf
  then show ?case by (subst RBBuildStackHelper.simps) simp
next
  case (Nd c b l r)
  then have at: "a = b" "b \<noteq> n" "tree_at h n b (left (nd h b)) l" "tree_at h n b (right (nd h b)) r" by auto
  obtain m1 where m1: "RBBuildStackHelper n h (right (nd h b)) m = Some m1" "smem_rep m1 (ino r @ xs)"
    using Nd.IH(2) [OF at(4) Nd.prems(2)] by blast
  obtain m2 where m2: "RBBuildStackHelper n h (left (nd h b)) (smem_push m1 b) = Some m2" "smem_rep m2 (ino l @ b # ino r @ xs)"
    using Nd.IH(1) [OF at(3) stk.rep_push [OF m1(2)], of b] by blast
  have "RBBuildStackHelper n h a m = Some m2" using at(1,2) m1(1) m2(1) by (subst RBBuildStackHelper.simps) simp
  then show ?case using m2(2) by simp
qed

lemma destroy_at:
  "tree_at h n p a T \<Longrightarrow> distinct (ino T) \<Longrightarrow> TreeDestHelper n h a = Some (\<lambda>b. if b \<in> set (ino T) then None else h b)"
proof (induction T arbitrary: h p a)
  case Lf
  then show ?case by (subst TreeDestHelper.simps) simp
next
  case (Nd c b l r)
  then have at: "a = b" "b \<noteq> n" "tree_at h n b (left (nd h b)) l" "tree_at h n b (right (nd h b)) r" by auto
  let ?h1 = "\<lambda>b. if b \<in> set (ino l) then None else h b"
  have dis: "distinct (ino l)" "distinct (ino r)" "b \<notin> set (ino l)" "b \<notin> set (ino r)" "set (ino l) \<inter> set (ino r) = {}"
    using Nd.prems(2) by auto
  have "tree_at ?h1 n b (right (nd h b)) r"
    by (rule tree_at_cong [OF at(4)]) (use dis(5) tree_at_used [OF at(4)] in auto)
  then have "TreeDestHelper n ?h1 (right (nd ?h1 b)) = Some (\<lambda>b. if b \<in> set (ino r) then None else ?h1 b)"
    using Nd.IH(2) dis(2,3) by simp
  then have "TreeDestHelper n h a = Some ((\<lambda>b. if b \<in> set (ino r) then None else ?h1 b)(b := None))"
    using at(1,2) Nd.IH(1) [OF at(3) dis(1)] by (subst TreeDestHelper.simps) simp
  also have "(\<lambda>b. if b \<in> set (ino r) then None else ?h1 b)(b := None) = (\<lambda>x. if x \<in> set (ino (Nd c b l r)) then None else h x)"
    by auto
  finally show ?case .
qed

lemma tree_nodes_top: "tree_nodes cmp h t as \<Longrightarrow> \<exists>T. tree_at h (nil t) (root t) (left (nd h (root t))) T \<and> ino T = as \<and> distinct as"
  by (auto simp: tree_nodes_def focus_def apart_def)

lemma traverse_nodes: "tree_nodes cmp h t as \<Longrightarrow> RBTraverse t h = Some as"
  using tree_nodes_top traverse_at unfolding RBTraverse_def by blast

lemma build_nodes:
  assumes "tree_nodes cmp h t as"
  shows "\<exists>m. RBBuildStack_nodes t h smem_create = Some m \<and> smem_rep m as"
proof -
  obtain T where T: "tree_at h (nil t) (root t) (left (nd h (root t))) T" "ino T = as" using tree_nodes_top [OF assms] by blast
  show ?thesis using build_at [OF T(1) stk.rep_create] T(2) by (simp add: RBBuildStack_nodes_def)
qed

lemma destroy_nodes:
  assumes "tree_nodes cmp h t as"
  shows "RBTreeDestroy (Some t) h = Some (\<lambda>b. if b \<in> set as \<or> b = root t \<or> b = nil t then None else h b)"
proof -
  obtain T where T: "tree_at h (nil t) (root t) (left (nd h (root t))) T" "ino T = as" "distinct as"
    using tree_nodes_top [OF assms] by blast
  have "TreeDestHelper (nil t) h (left (nd h (root t))) = Some (\<lambda>b. if b \<in> set as then None else h b)"
    using destroy_at [OF T(1)] T(2,3) by simp
  then show ?thesis by (auto simp: RBTreeDestroy_def)
qed

section \<open>The stream index on the heap\<close>

interpretation u64key: comparison KeyCompare
  by unfold_locales (auto simp: KeyCompare_def split: if_splits)

text \<open>
  The functions of \<open>ring.c\<close> on the tree itself.  The result is none when a search does not end.  Of the
  allocations, \<open>malloc_ok\<close> is for those of \<open>AddStreamIdx\<close>, \<open>malloc\<close> for the node; whether there is a node is
  not looked at.
\<close>

definition tree_GetStreamIdx :: "RBTree \<Rightarrow> (u64, 'd) rbheap \<Rightarrow> string \<Rightarrow> 'd option option" where
  "tree_GetStreamIdx t h sid = (case RBFind KeyCompare t h (FNVhash64 (Some sid)) of
     None \<Rightarrow> None
   | Some None \<Rightarrow> Some None
   | Some (Some a) \<Rightarrow> Some (Some (the (rb_data (nd h a)))))"

definition tree_AddStreamIdx ::
  "bool \<Rightarrow> addr option \<Rightarrow> RBTree \<Rightarrow> (u64, RingStream) rbheap \<Rightarrow> RingStream
   \<Rightarrow> (RingStream option \<times> (u64, RingStream) rbheap) option" where
  "tree_AddStreamIdx malloc_ok malloc t h stream =
     (if \<not> malloc_ok then Some (None, h)
      else (case RBTreeInsert KeyCompare t h (FNVhash64 (Some (st_streamid stream))) stream None malloc of
              None \<Rightarrow> None
            | Some (tnode, h') \<Rightarrow> Some (Some stream, h')))"

definition tree_DelStreamIdx :: "RBTree \<Rightarrow> (u64, 'd) rbheap \<Rightarrow> string \<Rightarrow> (int \<times> (u64, 'd) rbheap) option" where
  "tree_DelStreamIdx t h sid = (case RBFind KeyCompare t h (FNVhash64 (Some sid)) of
     None \<Rightarrow> None
   | Some None \<Rightarrow> Some (-1, h)
   | Some (Some a) \<Rightarrow> map_option (\<lambda>h'. (0, h')) (RBDelete t h a))"

text \<open>The assignments of \<open>RingWrite\<close> through the pointer that \<open>GetStreamIdx\<close> returned.\<close>

definition tree_UpdStreamIdx ::
  "RBTree \<Rightarrow> (u64, 'd) rbheap \<Rightarrow> string \<Rightarrow> 'd \<Rightarrow> (u64, 'd) rbheap option" where
  "tree_UpdStreamIdx t h sid stream = (case RBFind KeyCompare t h (FNVhash64 (Some sid)) of
     Some (Some a) \<Rightarrow> Some (upd h a (\<lambda>n. n\<lparr>rb_data := Some stream\<rparr>))
   | _ \<Rightarrow> None)"

text \<open>The tree has the nodes \<open>as\<close> and stands for the finite map \<open>idx\<close>.\<close>

definition index_nodes :: "(u64, 'd) rbheap \<Rightarrow> RBTree \<Rightarrow> addr list \<Rightarrow> (u64 \<rightharpoonup> 'd) \<Rightarrow> bool" where
  "index_nodes h t as idx \<longleftrightarrow> tree_nodes KeyCompare h t as \<and> idx = map_of (map (entry_at h) as)"

lemma find_map_of: "ol_find KeyCompare xs k = map_of xs k"
  by (induction xs) (auto simp: u64key.cmp_zero)

lemma nodes_map:
  assumes "tree_nodes KeyCompare h t as"
  shows "distinct (map (key_at h) as)" "a \<in> set as \<Longrightarrow> map_of (map (entry_at h) as) (key_at h a) = Some (the (rb_data (nd h a)))"
    "k \<notin> key_at h ` set as \<longleftrightarrow> map_of (map (entry_at h) as) k = None"
proof -
  have s: "ol_sorted KeyCompare (map (entry_at h) as)" using assms by (simp add: tree_nodes_def)
  have k: "map fst (map (entry_at h) as) = map (key_at h) as" by simp
  show d: "distinct (map (key_at h) as)" using u64key.keys_distinct [OF s] by (simp only: k)
  show "map_of (map (entry_at h) as) (key_at h a) = Some (the (rb_data (nd h a)))" if "a \<in> set as"
    using that d by (intro map_of_is_SomeI) (auto simp: k entry_at_def comp_def)
  show "k \<notin> key_at h ` set as \<longleftrightarrow> map_of (map (entry_at h) as) k = None"
    by (auto simp: map_of_eq_None_iff image_image)
qed

lemma find_index:
  assumes "tree_nodes KeyCompare h t as"
  shows "(case map_of (map (entry_at h) as) k of
     None \<Rightarrow> RBFind KeyCompare t h k = Some None
   | Some d \<Rightarrow> \<exists>a \<in> set as. RBFind KeyCompare t h k = Some (Some a) \<and> key_at h a = k \<and> the (rb_data (nd h a)) = d)"
proof -
  obtain r where r: "RBFind KeyCompare t h k = Some r" "case r of None \<Rightarrow> k \<notin> key_at h ` set as | Some a \<Rightarrow> a \<in> set as \<and> key_at h a = k"
    using u64key.find_nodes [OF assms] by blast
  show ?thesis
  proof (cases r)
    case None
    then show ?thesis using r nodes_map(3) [OF assms] by simp
  next
    case (Some a)
    then show ?thesis using r nodes_map(2) [OF assms, of a] by auto
  qed
qed

lemma nodes_used: "tree_nodes cmp h t as \<Longrightarrow> a \<in> set as \<Longrightarrow> h a \<noteq> None"
  using tree_nodes_top [of cmp h t as] tree_at_used by blast

lemma dom_changed:
  "h' z \<noteq> None \<Longrightarrow> \<forall>b. b \<noteq> z \<longrightarrow> (h' b = None) = (h b = None) \<Longrightarrow> dom h' = insert z (dom h)"
  "h' z = None \<Longrightarrow> \<forall>b. b \<noteq> z \<longrightarrow> (h' b = None) = (h b = None) \<Longrightarrow> dom h' = dom h - {z}"
  unfolding set_eq_iff insert_iff Diff_iff domIff empty_iff by metis+

lemma nodes_apart: "tree_nodes cmp h t as \<Longrightarrow> root t \<notin> set as \<and> nil t \<notin> set as"
  by (auto simp: tree_nodes_def focus_def apart_def dest: tree_at_nil)

lemma nodes_fresh:
  assumes "tree_nodes cmp h t as" "h z = None"
  shows "z \<notin> set as" "z \<noteq> root t" "z \<noteq> nil t"
proof -
  obtain T where T: "focus h t [] (root t) (left (nd h (root t))) T" "ino T = as" using assms(1) by (auto simp: tree_nodes_def)
  then have tr: "tree_at h (nil t) (root t) (left (nd h (root t))) T" and sen: "sentinels h t" by (auto simp: focus_def)
  show "z \<notin> set as" using tree_at_used [OF tr, of z] T(2) assms(2) by blast
  show "z \<noteq> root t" "z \<noteq> nil t" using sen assms(2) by (auto simp: sentinels_def)
qed

lemma insert_index:
  assumes "index_nodes h t as idx" "idx k = None" "h z = None"
  shows "\<exists>h' bs. RBTreeInsert KeyCompare t h k d None (Some z) = Some (Some z, h') \<and> index_nodes h' t bs (idx(k \<mapsto> d))
     \<and> set bs = insert z (set as) \<and> dom h' = insert z (dom h)"
proof -
  have as: "tree_nodes KeyCompare h t as" "idx = map_of (map (entry_at h) as)" using assms(1) by (auto simp: index_nodes_def)
  have k: "k \<notin> key_at h ` set as" using nodes_map(3) [OF as(1)] assms(2) as(2) by simp
  obtain h' bs where i: "RBTreeInsert KeyCompare t h k d None (Some z) = Some (Some z, h')" "tree_nodes KeyCompare h' t bs"
      "map (entry_at h') bs = ol_insert KeyCompare (map (entry_at h) as) k d" "\<forall>b. b \<noteq> z \<longrightarrow> (h' b = None) = (h b = None)"
      "set bs = insert z (set as)"
    using u64key.insert_nodes [OF as(1) nodes_fresh [OF as(1) assms(3)] k, of None "Some z" d] by auto
  have "ol_find KeyCompare (map (entry_at h) as) k = None" using assms(2) as(2) by (simp add: find_map_of)
  from u64key.find_insert [OF this, of d] have "map_of (map (entry_at h') bs) = idx(k \<mapsto> d)"
    by (simp add: fun_eq_iff i(3) find_map_of as(2))
  then have "index_nodes h' t bs (idx(k \<mapsto> d))" using i(2) by (simp add: index_nodes_def)
  moreover have "dom h' = insert z (dom h)" using i(4) nodes_used [OF i(2)] i(5) by (intro dom_changed) auto
  ultimately show ?thesis using i(1,5) by blast
qed

lemma map_of_drop:
  assumes "distinct (map fst (xs @ (k, v) # ys))"
  shows "map_of (xs @ ys) = (map_of (xs @ (k, v) # ys))(k := None)"
proof
  fix x
  have "map_of xs k = None" "map_of ys k = None" using assms by (auto simp: map_of_eq_None_iff)
  then show "map_of (xs @ ys) x = ((map_of (xs @ (k, v) # ys))(k := None)) x" by (simp add: map_add_def split: option.split)
qed

lemma delete_index:
  assumes "index_nodes h t as idx" "z \<in> set as"
  shows "\<exists>h' bs. RBDelete t h z = Some h' \<and> index_nodes h' t bs (idx(key_at h z := None))
     \<and> set bs = set as - {z} \<and> dom h' = dom h - {z}"
proof -
  have nodes: "tree_nodes KeyCompare h t as" and idx: "idx = map_of (map (entry_at h) as)" using assms(1) by (auto simp: index_nodes_def)
  obtain h' A B where d: "RBDelete t h z = Some h'" "as = A @ z # B" "tree_nodes KeyCompare h' t (A @ B)"
      "\<forall>a \<in> set (A @ B). entry_at h' a = entry_at h a" "h' z = None" "\<forall>b. b \<noteq> z \<longrightarrow> (h' b = None) = (h b = None)"
    using delete_nodes [OF nodes assms(2)] by blast
  have z: "entry_at h z = (key_at h z, the (rb_data (nd h z)))" by (simp add: entry_at_def)
  have "distinct (map fst (map (entry_at h) A @ (key_at h z, the (rb_data (nd h z))) # map (entry_at h) B))"
    using nodes_map(1) [OF nodes] d(2) by (simp add: comp_def)
  note map_of_drop [OF this]
  moreover have "map (entry_at h') (A @ B) = map (entry_at h) (A @ B)" using d(4) by (intro map_cong) auto
  ultimately have "map_of (map (entry_at h') (A @ B)) = (map_of (map (entry_at h) as))(key_at h z := None)"
    by (simp only: d(2) z list.map map_append)
  then have "index_nodes h' t (A @ B) (idx(key_at h z := None))" using d(3) by (simp only: index_nodes_def idx)
  moreover have "set (A @ B) = set as - {z}" using tree_nodes_top [OF nodes] d(2) by auto
  ultimately show ?thesis using d(1) dom_changed(2) [of h' z h, OF d(5,6)] by blast
qed

lemma update_index:
  assumes "index_nodes h t as idx" "z \<in> set as"
    and h': "h' = upd h z (\<lambda>n. n\<lparr>rb_data := Some d\<rparr>)"
  shows "index_nodes h' t as (idx(key_at h z \<mapsto> d))" "dom h' = dom h"
proof -
  have old: "tree_nodes KeyCompare h t as" and idx: "idx = map_of (map (entry_at h) as)" using assms(1) by (auto simp: index_nodes_def)
  obtain T where T: "focus h t [] (root t) (left (nd h (root t))) T" "rb T" "ino T = as" "ol_sorted KeyCompare (map (entry_at h) as)"
    using old by (auto simp: tree_nodes_def)
  have tr: "tree_at h (nil t) (root t) (left (nd h (root t))) T" using T(1) by (simp add: focus_def)
  have used: "h z \<noteq> None" using tree_at_used [OF tr] assms(2) T(3) by simp
  have links: "red (nd h' b) = red (nd h b)" "left (nd h' b) = left (nd h b)" "right (nd h' b) = right (nd h b)"
      "parent (nd h' b) = parent (nd h b)" "(h' b = None) = (h b = None)" "key_at h' b = key_at h b" for b
    using used by (auto simp: h' key_at_def)
  have "tree_at h' (nil t) (root t) (left (nd h (root t))) T"
    by (rule tree_at_cong [OF tr]) (use links tree_at_used [OF tr] in auto)
  then have f: "focus h' t [] (root t) (left (nd h' (root t))) T" using T(1) links by (simp add: focus_def sentinels_def)
  have "map fst (map (entry_at h') as) = map fst (map (entry_at h) as)" using links(6) by simp
  then have "ol_sorted KeyCompare (map (entry_at h') as)" using T(4) unfolding ol_sorted_keys by (simp only:)
  then have nodes: "tree_nodes KeyCompare h' t as" using f T(2,3) by (auto simp: tree_nodes_def)
  have "map_of (map (entry_at h') as) k = ((map_of (map (entry_at h) as))(key_at h z \<mapsto> d)) k" for k
  proof (cases "k \<in> key_at h ` set as")
    case True
    then obtain a where a: "a \<in> set as" "key_at h a = k" by auto
    have "a = z \<longleftrightarrow> k = key_at h z"
      using nodes_map(1) [OF old] a assms(2) by (auto simp: distinct_map inj_on_def)
    then show ?thesis
      using nodes_map(2) [OF nodes a(1)] nodes_map(2) [OF old a(1)] a(2) links(6) by (auto simp: h')
  next
    case False
    then have "k \<notin> key_at h' ` set as" using links(6) by simp
    then show ?thesis using False nodes_map(3) [OF nodes] nodes_map(3) [OF old] assms(2) by auto
  qed
  then have "(map_of (map (entry_at h) as))(key_at h z \<mapsto> d) = map_of (map (entry_at h') as)" by (intro ext) (rule sym)
  then show "index_nodes h' t as (idx(key_at h z \<mapsto> d))" using nodes by (simp add: index_nodes_def idx)
  show "dom h' = dom h" unfolding set_eq_iff domIff using links(5) by simp
qed

section \<open>All uses of the index\<close>

text \<open>
  What \<open>RingWrite\<close> does to the index, one packet at a time: it looks for the stream and adds it or writes
  through the pointer that it gets, and it removes the stream of an evicted packet that was its last.
\<close>

datatype index_op = Store RingStream | Erase string

definition index_step :: "index_op \<Rightarrow> (u64 \<rightharpoonup> RingStream) \<Rightarrow> (u64 \<rightharpoonup> RingStream)" where
  "index_step op' idx = (case op' of
     Store st \<Rightarrow> UpdStreamIdx idx (st_streamid st) st
   | Erase sid \<Rightarrow> snd (DelStreamIdx idx sid))"

text \<open>The same on the tree; \<open>brk\<close> is the next free address.\<close>

definition tree_step ::
  "RBTree \<Rightarrow> index_op \<Rightarrow> (u64, RingStream) rbheap \<times> addr \<Rightarrow> ((u64, RingStream) rbheap \<times> addr) option" where
  "tree_step t op' m = (case m of (h, brk) \<Rightarrow> case op' of
     Store st \<Rightarrow> (case tree_GetStreamIdx t h (st_streamid st) of
         None \<Rightarrow> None
       | Some None \<Rightarrow> map_option (\<lambda>(r, h'). (h', Suc brk)) (tree_AddStreamIdx True (Some brk) t h st)
       | Some (Some _) \<Rightarrow> map_option (\<lambda>h'. (h', brk)) (tree_UpdStreamIdx t h (st_streamid st) st))
   | Erase sid \<Rightarrow> map_option (\<lambda>(rv, h'). (h', brk)) (tree_DelStreamIdx t h sid))"

fun tree_run ::
  "RBTree \<Rightarrow> index_op list \<Rightarrow> (u64, RingStream) rbheap \<times> addr \<Rightarrow> ((u64, RingStream) rbheap \<times> addr) option" where
  "tree_run t [] m = Some m"
| "tree_run t (op' # ops) m = Option.bind (tree_step t op' m) (tree_run t ops)"

text \<open>All memory in use belongs to the tree.\<close>

definition index_mem :: "RBTree \<Rightarrow> (u64, RingStream) rbheap \<times> addr \<Rightarrow> addr list \<Rightarrow> (u64 \<rightharpoonup> RingStream) \<Rightarrow> bool" where
  "index_mem t m as idx \<longleftrightarrow> (case m of (h, brk) \<Rightarrow> index_nodes h t as idx
     \<and> dom h = {root t, nil t} \<union> set as \<and> (\<forall>a \<ge> brk. h a = None))"

lemma step_mem:
  assumes "index_mem t m as idx"
  shows "\<exists>m' bs. tree_step t op' m = Some m' \<and> index_mem t m' bs (index_step op' idx)"
proof -
  obtain h brk where m: "m = (h, brk)" by (cases m)
  have at: "index_nodes h t as idx" "dom h = {root t, nil t} \<union> set as" "\<forall>a \<ge> brk. h a = None"
    using assms by (simp_all add: index_mem_def m)
  have nodes: "tree_nodes KeyCompare h t as" and idx: "idx = map_of (map (entry_at h) as)" using at(1) by (auto simp: index_nodes_def)
  have low: "a < brk" if "h a \<noteq> None" for a using that at(3) by (meson not_le)
  note find = find_index [OF nodes, folded idx]
  have gone: "\<exists>h' bs. RBDelete t h z = Some h' \<and> index_mem t (h', brk) bs (idx(key_at h z := None))" if z: "z \<in> set as" for z
  proof -
    obtain h' bs where d: "RBDelete t h z = Some h'" "index_nodes h' t bs (idx(key_at h z := None))"
        "set bs = set as - {z}" "dom h' = dom h - {z}"
      using delete_index [OF at(1) z] by blast
    have "z \<notin> {root t, nil t}" using nodes_apart [OF nodes] z by blast
    then have "dom h' = {root t, nil t} \<union> set bs" unfolding d(3,4) at(2) by auto
    moreover have "h' a = None" if "brk \<le> a" for a
    proof -
      have "a \<notin> dom h'" using that at(3) d(4) by (auto simp: domIff)
      then show ?thesis by (simp add: domIff)
    qed
    ultimately show ?thesis using d(1,2) by (auto simp: index_mem_def)
  qed
  show ?thesis
  proof (cases op')
    case (Store st)
    define k where "k = FNVhash64 (Some (st_streamid st))"
    show ?thesis
    proof (cases "idx k")
      case None
      have free: "h brk = None" using at(3) by simp
      obtain h' bs where i: "RBTreeInsert KeyCompare t h k st None (Some brk) = Some (Some brk, h')"
          "index_nodes h' t bs (idx(k \<mapsto> st))" "set bs = insert brk (set as)" "dom h' = insert brk (dom h)"
        using insert_index [OF at(1) None free] by blast
      have "h' a = None" if "Suc brk \<le> a" for a
      proof -
        have "a \<notin> dom h'" using that at(3) i(4) by (auto simp: domIff)
        then show ?thesis by (simp add: domIff)
      qed
      moreover have "dom h' = {root t, nil t} \<union> set bs" unfolding i(3,4) at(2) by auto
      ultimately have "index_mem t (h', Suc brk) bs (index_step op' idx)"
        using i(2) by (auto simp: index_mem_def index_step_def Store UpdStreamIdx_def k_def)
      moreover have "tree_step t op' m = Some (h', Suc brk)"
        using i(1) find [of k] None by (simp add: tree_step_def m Store tree_GetStreamIdx_def tree_AddStreamIdx_def k_def)
      ultimately show ?thesis by blast
    next
      case (Some d)
      then obtain a where a: "a \<in> set as" "RBFind KeyCompare t h k = Some (Some a)" "key_at h a = k"
        using find [of k] by auto
      note u = update_index [OF at(1) a(1) refl, of st]
      let ?h = "upd h a (\<lambda>n. n\<lparr>rb_data := Some st\<rparr>)"
      have "?h b = None" if "brk \<le> b" for b
      proof -
        have "b \<notin> dom ?h" using that at(3) unfolding u(2) by (simp add: domIff)
        then show ?thesis by (simp only: domIff not_not)
      qed
      then have "index_mem t (?h, brk) as (index_step op' idx)"
        using u at(2) a(3) by (simp add: index_mem_def index_step_def Store UpdStreamIdx_def k_def)
      moreover have "tree_step t op' m = Some (?h, brk)"
        using a(2) by (simp add: tree_step_def m Store tree_GetStreamIdx_def tree_UpdStreamIdx_def k_def)
      ultimately show ?thesis by blast
    qed
  next
    case (Erase sid)
    define k where "k = FNVhash64 (Some sid)"
    show ?thesis
    proof (cases "idx k")
      case None
      then have "tree_step t op' m = Some m" "index_step op' idx = idx"
        using find [of k] by (simp_all add: tree_step_def m Erase tree_DelStreamIdx_def k_def index_step_def DelStreamIdx_def)
      then show ?thesis using assms by auto
    next
      case (Some d)
      then obtain a where a: "a \<in> set as" "RBFind KeyCompare t h k = Some (Some a)" "key_at h a = k"
        using find [of k] by auto
      obtain h' bs where g: "RBDelete t h a = Some h'" "index_mem t (h', brk) bs (idx(key_at h a := None))" using gone [OF a(1)] by blast
      have "tree_step t op' m = Some (h', brk)"
        using a(2) g(1) by (simp add: tree_step_def m Erase tree_DelStreamIdx_def k_def)
      moreover have "index_step op' idx = idx(key_at h a := None)"
        using Some a(3) by (simp add: Erase index_step_def DelStreamIdx_def k_def Let_def)
      ultimately show ?thesis using g(2) by auto
    qed
  qed
qed

lemma run_mem: "index_mem t m as idx \<Longrightarrow> \<exists>m' bs. tree_run t ops m = Some m' \<and> index_mem t m' bs (fold index_step ops idx)"
proof (induction ops arbitrary: m as idx)
  case (Cons op' ops)
  obtain m1 bs where s: "tree_step t op' m = Some m1" "index_mem t m1 bs (index_step op' idx)" using step_mem [OF Cons.prems] by blast
  show ?case using Cons.IH [OF s(2)] s(1) by simp
qed auto

text \<open>The tree provides the contract of a stream index, for streams under any identifier.\<close>

type_synonym 'd index_heap = "RBTree \<times> (u64, 'd) rbheap \<times> addr"

definition heap_valid :: "'d index_heap \<Rightarrow> bool" where
  "heap_valid m \<longleftrightarrow> (case m of (t, h, brk) \<Rightarrow> (\<exists>as idx. index_nodes h t as idx) \<and> (\<forall>a \<ge> brk. h a = None))"

definition heap_get :: "'d index_heap \<Rightarrow> string \<Rightarrow> 'd option" where
  "heap_get m sid = (case m of (t, h, brk) \<Rightarrow> the (tree_GetStreamIdx t h sid))"

definition heap_add :: "'d index_heap \<Rightarrow> string \<Rightarrow> 'd \<Rightarrow> 'd index_heap" where
  "heap_add m sid d = (case m of (t, h, brk) \<Rightarrow>
     (t, snd (the (RBTreeInsert KeyCompare t h (FNVhash64 (Some sid)) d None (Some brk))), Suc brk))"

definition heap_del :: "'d index_heap \<Rightarrow> string \<Rightarrow> 'd index_heap" where
  "heap_del m sid = (case m of (t, h, brk) \<Rightarrow> (t, snd (the (tree_DelStreamIdx t h sid)), brk))"

lemma tree_Find:
  assumes "index_nodes h t as idx"
  shows "tree_GetStreamIdx t h sid = Some (idx (FNVhash64 (Some sid)))"
proof -
  have as: "tree_nodes KeyCompare h t as" "idx = map_of (map (entry_at h) as)" using assms by (auto simp: index_nodes_def)
  show ?thesis
    using find_index [OF as(1), of "FNVhash64 (Some sid)"]
    by (cases "idx (FNVhash64 (Some sid))") (auto simp: tree_GetStreamIdx_def as(2))
qed

lemma tree_Del:
  assumes "index_nodes h t as idx"
  shows "\<exists>rv h' bs. tree_DelStreamIdx t h sid = Some (rv, h') \<and> index_nodes h' t bs (idx(FNVhash64 (Some sid) := None)) \<and> dom h' \<subseteq> dom h"
proof -
  let ?k = "FNVhash64 (Some sid)"
  have as: "tree_nodes KeyCompare h t as" "idx = map_of (map (entry_at h) as)" using assms by (auto simp: index_nodes_def)
  show ?thesis
  proof (cases "idx ?k")
    case None
    then have "idx(?k := None) = idx" by auto
    then show ?thesis using None find_index [OF as(1), of ?k] assms by (auto simp: tree_DelStreamIdx_def as(2))
  next
    case (Some d)
    then obtain a where a: "a \<in> set as" "RBFind KeyCompare t h ?k = Some (Some a)" "key_at h a = ?k"
      using find_index [OF as(1), of ?k] as(2) by auto
    then show ?thesis using delete_index [OF assms a(1)] by (auto simp: tree_DelStreamIdx_def)
  qed
qed

lemma heap_get_rep: "index_nodes h t as idx \<Longrightarrow> heap_get (t, h, brk) sid = idx (FNVhash64 (Some sid))"
  by (simp add: heap_get_def tree_Find)

lemma heap_add_rep:
  assumes "index_nodes h t as idx" "\<forall>a \<ge> brk. h a = None" "idx (FNVhash64 (Some sid)) = None"
  shows "\<exists>h' bs. heap_add (t, h, brk) sid d = (t, h', Suc brk) \<and> index_nodes h' t bs (idx(FNVhash64 (Some sid) \<mapsto> d))
     \<and> (\<forall>a \<ge> Suc brk. h' a = None)"
proof -
  have free: "h brk = None" using assms(2) by simp
  obtain h' bs where i: "RBTreeInsert KeyCompare t h (FNVhash64 (Some sid)) d None (Some brk) = Some (Some brk, h')"
      "index_nodes h' t bs (idx(FNVhash64 (Some sid) \<mapsto> d))" "dom h' = insert brk (dom h)"
    using insert_index [OF assms(1,3) free] by blast
  have "h' a = None" if "Suc brk \<le> a" for a
  proof -
    have "a \<notin> dom h'" using that assms(2) i(3) by (auto simp: domIff)
    then show ?thesis by (simp add: domIff)
  qed
  then show ?thesis using i(1,2) by (auto simp: heap_add_def)
qed

lemma heap_del_rep:
  assumes "index_nodes h t as idx" "\<forall>a \<ge> brk. h a = None"
  shows "\<exists>h' bs. heap_del (t, h, brk) sid = (t, h', brk) \<and> index_nodes h' t bs (idx(FNVhash64 (Some sid) := None))
     \<and> (\<forall>a \<ge> brk. h' a = None)"
proof -
  obtain rv h' bs where d: "tree_DelStreamIdx t h sid = Some (rv, h')" "index_nodes h' t bs (idx(FNVhash64 (Some sid) := None))"
      "dom h' \<subseteq> dom h"
    using tree_Del [OF assms(1)] by blast
  have "h' a = None" if "brk \<le> a" for a
  proof -
    have "a \<notin> dom h" using that assms(2) by (simp add: domIff)
    then have "a \<notin> dom h'" using d(3) by blast
    then show ?thesis by (simp add: domIff)
  qed
  then show ?thesis using d(1,2) by (auto simp: heap_del_def)
qed

interpretation heapidx: keyed_index "\<lambda>sid. FNVhash64 (Some sid)" heap_valid heap_get heap_add heap_del
proof unfold_locales
  fix m :: "'d index_heap" and i j v
  assume v: "heap_valid m"
  obtain t h brk where m: "m = (t, h, brk)" by (cases m)
  obtain as idx where at: "index_nodes h t as idx" and low: "\<forall>a \<ge> brk. h a = None" using v by (auto simp: heap_valid_def m)
  note get = heap_get_rep [OF at, of brk, folded m]
  show "FNVhash64 (Some i) = FNVhash64 (Some j) \<Longrightarrow> heap_get m i = heap_get m j" by (simp add: get)
  obtain h2 cs where d: "heap_del m i = (t, h2, brk)" "index_nodes h2 t cs (idx(FNVhash64 (Some i) := None))" "\<forall>a \<ge> brk. h2 a = None"
    using heap_del_rep [OF at low, folded m] by blast
  show "heap_valid (heap_del m i)" using d unfolding heap_valid_def by auto
  show "heap_get (heap_del m i) j = (if FNVhash64 (Some j) = FNVhash64 (Some i) then None else heap_get m j)"
    using heap_get_rep [OF d(2)] d(1) by (simp add: get)
  assume "heap_get m i = None"
  then have "idx (FNVhash64 (Some i)) = None" by (simp add: get)
  then obtain h1 bs where a: "heap_add m i v = (t, h1, Suc brk)" "index_nodes h1 t bs (idx(FNVhash64 (Some i) \<mapsto> v))" "\<forall>a \<ge> Suc brk. h1 a = None"
    using heap_add_rep [OF at low, folded m] by blast
  show "heap_valid (heap_add m i v)" using a unfolding heap_valid_def by auto
  show "heap_get (heap_add m i v) j = (if FNVhash64 (Some j) = FNVhash64 (Some i) then Some v else heap_get m j)"
    using heap_get_rep [OF a(2)] a(1) by (simp add: get)
qed

section \<open>The length of a search\<close>

text \<open>The nodes whose keys \<open>RBFind\<close> compares, in this order.\<close>

partial_function (option) RBFind_path ::
  "('k \<Rightarrow> 'k \<Rightarrow> int) \<Rightarrow> addr \<Rightarrow> ('k, 'd) rbheap \<Rightarrow> 'k \<Rightarrow> addr \<Rightarrow> addr list option" where
  "RBFind_path cmp n h key x =
     (let compVal = cmp (the (rb_key (nd h x))) key
      in if compVal = 0 then Some [x]
         else (let x1 = (if compVal > 0 then left (nd h x) else right (nd h x))
               in if x1 = n then Some [x] else Option.bind (RBFind_path cmp n h key x1) (\<lambda>xs. Some (x # xs))))"

fun depth :: "shape \<Rightarrow> nat" where
  "depth Lf = 0"
| "depth (Nd c a l r) = Suc (max (depth l) (depth r))"

lemma depth_bal: "bal n T \<Longrightarrow> depth T \<le> 2 * n + (if is_red T then 1 else 0)"
proof (induction n T rule: bal.induct)
  case (2 n c a l r)
  then show ?case by (auto split: if_splits)
qed simp

lemma size_bal: "bal n T \<Longrightarrow> 2 ^ n \<le> length (ino T) + 1"
proof (induction n T rule: bal.induct)
  case (2 n c a l r)
  show ?case
  proof (cases c)
    case True
    then show ?thesis using 2 by auto
  next
    case False
    then obtain m where "n = Suc m" "2 ^ m \<le> length (ino l) + 1" "2 ^ m \<le> length (ino r) + 1"
      using 2 by (cases n) auto
    then show ?thesis by simp
  qed
qed simp

lemma rb_depth: "rb T \<Longrightarrow> 2 ^ depth T \<le> (length (ino T) + 1) ^ 2"
proof -
  assume "rb T"
  then obtain n where n: "bal n T" "\<not> is_red T" by (auto simp: rb_def)
  have "(2 :: nat) ^ depth T \<le> 2 ^ (2 * n)" using depth_bal [OF n(1)] n(2) by (intro power_increasing) auto
  also have "\<dots> = (2 ^ n) ^ 2" by (simp add: power_mult [symmetric] mult.commute)
  also have "\<dots> \<le> (length (ino T) + 1) ^ 2" using size_bal [OF n(1)] by (rule power_mono) simp
  finally show ?thesis .
qed

lemma path_at:
  "tree_at h n p x T \<Longrightarrow> T \<noteq> Lf \<Longrightarrow> \<exists>path. RBFind_path cmp n h k x = Some path \<and> path \<noteq> [] \<and> set path \<subseteq> set (ino T) \<and> length path \<le> depth T
     \<and> RBFind_loop cmp n h k x = Some (if cmp (key_at h (last path)) k = 0 then Some (last path) else None)"
proof (induction T arbitrary: p x)
  case (Nd c a l r)
  have at: "x = a" "tree_at h n x (left (nd h x)) l" "tree_at h n x (right (nd h x)) r" using Nd.prems(1) by auto
  define v where "v = cmp (key_at h x) k"
  define y where "y = (if v > 0 then left (nd h x) else right (nd h x))"
  define S where "S = (if v > 0 then l else r)"
  have y: "tree_at h n x y S" "depth S < depth (Nd c a l r)" "set (ino S) \<subseteq> set (ino (Nd c a l r))"
    using at(2,3) by (auto simp: y_def S_def)
  have find: "RBFind_loop cmp n h k x = (if v = 0 then Some (Some x) else if y = n then Some None else RBFind_loop cmp n h k y)"
    by (subst RBFind_loop.simps) (simp add: v_def y_def key_at_def Let_def)
  have path: "RBFind_path cmp n h k x = (if v = 0 then Some [x] else if y = n then Some [x] else Option.bind (RBFind_path cmp n h k y) (\<lambda>xs. Some (x # xs)))"
    by (subst RBFind_path.simps) (simp add: v_def y_def key_at_def Let_def)
  show ?case
  proof (cases "v = 0 \<or> y = n")
    case True
    then show ?thesis using find path at(1) by (auto simp: v_def)
  next
    case False
    have "S \<noteq> Lf" using False tree_at_top [OF y(1)] by auto
    then obtain q where q: "RBFind_path cmp n h k y = Some q" "q \<noteq> []" "set q \<subseteq> set (ino S)" "length q \<le> depth S"
        "RBFind_loop cmp n h k y = Some (if cmp (key_at h (last q)) k = 0 then Some (last q) else None)"
      using Nd.IH(1) [of x y] Nd.IH(2) [of x y] y(1) by (cases "v > 0") (auto simp: S_def)
    have "RBFind_path cmp n h k x = Some (x # q)" using path q(1) False by simp
    moreover have "set (x # q) \<subseteq> set (ino (Nd c a l r))" using q(3) y(3) at(1) by auto
    moreover have "length (x # q) \<le> depth (Nd c a l r)" using q(4) y(2) by simp
    moreover have "RBFind_loop cmp n h k x = Some (if cmp (key_at h (last (x # q))) k = 0 then Some (last (x # q)) else None)"
      using find q(2,5) False by simp
    ultimately show ?thesis by blast
  qed
qed simp

section \<open>Properties\<close>

lemma find_rep:
  assumes "comparison cmp" "tree_nodes cmp h t as"
  shows "\<exists>r. RBFind cmp t h k = Some r \<and> map_option (\<lambda>a. the (rb_data (nd h a))) r = ol_find cmp (map (entry_at h) as) k"
proof -
  obtain r where r: "RBFind cmp t h k = Some r" "case r of None \<Rightarrow> k \<notin> key_at h ` set as | Some a \<Rightarrow> a \<in> set as \<and> key_at h a = k"
    using comparison.find_nodes [OF assms] by blast
  have sorted: "ol_sorted cmp (map (entry_at h) as)" using assms(2) by (simp add: tree_nodes_def)
  note member = comparison.find_sorted [OF assms(1) sorted]
  show ?thesis
  proof (cases r)
    case None
    have "ol_find cmp (map (entry_at h) as) k = None"
    proof (rule ccontr)
      assume "ol_find cmp (map (entry_at h) as) k \<noteq> None"
      then obtain v where "(k, v) \<in> set (map (entry_at h) as)" using member by blast
      then show False using r(2) None by (auto simp: entry_at_def)
    qed
    then show ?thesis using r(1) None by simp
  next
    case (Some a)
    have "(k, the (rb_data (nd h a))) \<in> set (map (entry_at h) as)" using r(2) Some by (auto simp: entry_at_def)
    then have "ol_find cmp (map (entry_at h) as) k = Some (the (rb_data (nd h a)))" using member by blast
    then show ?thesis using r(1) Some by simp
  qed
qed

text \<open>The nodes of an index from left to right carry its streams in the order of \<open>RBBuildStack\<close>.\<close>

lemma index_order:
  assumes "index_nodes h t as idx"
  shows "map (\<lambda>a. the (rb_data (nd h a))) as = RBBuildStack idx"
proof -
  have nodes: "tree_nodes KeyCompare h t as" and idx: "idx = map_of (map (entry_at h) as)" using assms by (auto simp: index_nodes_def)
  have "ol_sorted KeyCompare (map (entry_at h) as)" using nodes by (simp add: tree_nodes_def)
  then have "sorted_wrt (\<lambda>a b. KeyCompare b a > 0) (map (key_at h) as)" by (simp add: ol_sorted_keys comp_def)
  then have "sorted_wrt (<) (map (key_at h) as)" by (rule sorted_wrt_mono_rel [rotated]) (auto simp: KeyCompare_def split: if_splits)
  then have "sorted_list_of_set (set (map (key_at h) as)) = map (key_at h) as"
    by (intro sorted_list_of_set.idem_if_sorted_distinct) (simp_all add: strict_sorted_iff)
  moreover have "dom idx = set (map (key_at h) as)" by (simp add: idx dom_map_of_conv_image_fst image_image)
  ultimately show ?thesis using nodes_map(2) [OF nodes] by (simp add: RBBuildStack_def idx)
qed

text \<open>A tree for the examples: the sentinels at 0 and 1, three nodes.\<close>

definition sample_heap :: "(u64, nat) rbheap" where
  "sample_heap = [
     0 \<mapsto> \<lparr>rb_key = None, rb_data = None, red = False, left = 0, right = 0, parent = 0\<rparr>,
     1 \<mapsto> \<lparr>rb_key = None, rb_data = None, red = False, left = 2, right = 0, parent = 0\<rparr>,
     2 \<mapsto> \<lparr>rb_key = Some 5, rb_data = Some 50, red = False, left = 3, right = 4, parent = 1\<rparr>,
     3 \<mapsto> \<lparr>rb_key = Some 3, rb_data = Some 30, red = True, left = 0, right = 0, parent = 2\<rparr>,
     4 \<mapsto> \<lparr>rb_key = Some 8, rb_data = Some 80, red = True, left = 0, right = 0, parent = 2\<rparr>]"

definition sample_tree :: RBTree where "sample_tree = \<lparr>root = 1, nil = 0\<rparr>"

lemma sample_nodes: "tree_nodes KeyCompare sample_heap sample_tree [3, 2, 4]"
proof -
  let ?T = "Nd False 2 (Nd True 3 Lf Lf) (Nd True 4 Lf Lf)"
  have "focus sample_heap sample_tree [] (root sample_tree) (left (nd sample_heap (root sample_tree))) ?T"
    by (simp add: focus_def sentinels_def apart_def sample_heap_def sample_tree_def)
  moreover have "rb ?T" unfolding rb_def by (auto intro: exI [of _ 1])
  moreover have "ol_sorted KeyCompare (map (entry_at sample_heap) [3, 2, 4])"
    by (simp add: ol_sorted_def sample_heap_def entry_at_def key_at_def KeyCompare_def)
  ultimately show ?thesis unfolding tree_nodes_def by (intro conjI exI [of _ ?T]) simp_all
qed

lemma sample_rep: "tree_rep KeyCompare sample_heap sample_tree [(3, 30), (5, 50), (8, 80)]"
  unfolding tree_rep_def using sample_nodes
  by (intro exI [of _ "[3, 2, 4]"]) (simp add: sample_heap_def entry_at_def key_at_def)

text \<open>
  C14: inserting a key that is not there, with a new node, always returns that node; what it leaves is a
  red-black tree with ordered keys that holds the old entries and the new one, and searching it finds
  exactly those.
\<close>

theorem RBTreeInsert_refines:
  assumes "comparison cmp" "tree_rep cmp h t xs" "ol_find cmp xs k = None" "h z = None"
  shows "\<exists>h'. RBTreeInsert cmp t h k d None (Some z) = Some (Some z, h') \<and> tree_rep cmp h' t (ol_insert cmp xs k d)
    \<and> (\<forall>j. \<exists>r. RBFind cmp t h' j = Some r
          \<and> map_option (\<lambda>a. the (rb_data (nd h' a))) r = (if j = k then Some d else ol_find cmp xs j))"
proof -
  obtain as where as: "tree_nodes cmp h t as" "map (entry_at h) as = xs" using assms(2) by (auto simp: tree_rep_def)
  obtain r where "RBFind cmp t h k = Some r" "case r of None \<Rightarrow> k \<notin> key_at h ` set as | Some a \<Rightarrow> a \<in> set as \<and> key_at h a = k"
    using comparison.find_nodes [OF assms(1) as(1)] by blast
  moreover have "r = None" using find_rep [OF assms(1) as(1), of k] calculation(1) as(2) assms(3) by auto
  ultimately have k: "k \<notin> key_at h ` set as" by simp
  obtain h' bs where i: "RBTreeInsert cmp t h k d None (Some z) = Some (Some z, h')" "tree_nodes cmp h' t bs"
      "map (entry_at h') bs = ol_insert cmp xs k d"
    using comparison.insert_nodes [OF assms(1) as(1) nodes_fresh [OF as(1) assms(4)] k, of None "Some z" d] as(2) by auto
  have "tree_rep cmp h' t (ol_insert cmp xs k d)" using i(2,3) by (auto simp: tree_rep_def)
  moreover have "\<exists>r. RBFind cmp t h' j = Some r
      \<and> map_option (\<lambda>a. the (rb_data (nd h' a))) r = (if j = k then Some d else ol_find cmp xs j)" for j
    using find_rep [OF assms(1) i(2), of j] comparison.find_insert [OF assms(1,3), of d j] i(3) by simp
  ultimately show ?thesis using i(1) by blast
qed

theorem RBTreeInsert_refines_witness:
  "\<exists>h'. RBTreeInsert KeyCompare sample_tree sample_heap 4 (40 :: nat) None (Some 7) = Some (Some 7, h')
    \<and> tree_rep KeyCompare h' sample_tree [(3, 30), (4, 40), (5, 50), (8, 80)]"
proof -
  have "ol_insert KeyCompare [(3, 30), (5, 50), (8, 80)] 4 (40 :: nat) = [(3, 30), (4, 40), (5, 50), (8, 80)]"
    by (simp add: KeyCompare_def)
  moreover have "ol_find KeyCompare [(3, 30), (5, 50), (8, 80 :: nat)] 4 = None" by (simp add: KeyCompare_def)
  moreover have "sample_heap 7 = None" by (simp add: sample_heap_def)
  ultimately show ?thesis
    using RBTreeInsert_refines [OF u64key.comparison_axioms sample_rep, of 4 7 40] by auto
qed

text \<open>
  C13: deleting a node of a tree always returns and leaves a red-black tree of the other nodes, in the
  same order and with the same entries; \<open>RBDelete\<close> releases the node, \<open>RBRemove\<close> keeps it with its key and
  data, out of the tree.
\<close>

theorem RBDelete_refines:
  assumes "tree_nodes cmp h t (A @ z # B)"
  shows "(\<exists>h'. RBDelete t h z = Some h' \<and> tree_nodes cmp h' t (A @ B) \<and> h' z = None
      \<and> (\<forall>a \<in> set (A @ B). entry_at h' a = entry_at h a))
    \<and> (\<exists>h'. RBRemove t h z = Some (z, h') \<and> tree_nodes cmp h' t (A @ B) \<and> parent (nd h' z) = NULL
      \<and> (\<forall>a \<in> set (A @ z # B). entry_at h' a = entry_at h a))"
proof -
  have z: "z \<in> set (A @ z # B)" "z \<notin> set A" "z \<notin> set B" using tree_nodes_top [OF assms] by auto
  have same: "A' = A \<and> B' = B" if "A @ z # B = A' @ z # B'" for A' B'
    using append_Cons_eq_iff [OF z(2,3), of A' B'] that by blast
  show ?thesis using delete_nodes [OF assms z(1)] remove_nodes [OF assms z(1)] same by metis
qed

theorem RBDelete_refines_witness:
  "\<exists>h'. RBDelete sample_tree sample_heap 2 = Some h' \<and> tree_nodes KeyCompare h' sample_tree [3, 4]"
  using RBDelete_refines [of KeyCompare sample_heap sample_tree "[3]" 2 "[4]"] sample_nodes by auto




end
