(* ===== verification/Spec2Isabelle.thy ===== *)
theory Spec2Isabelle
  imports RS_RingProps RS_Glob RS_CmdToken RS_Proxy RS_Connect RS_SLProps RS_RBProps
begin

text \<open>
  The core of ringserver 4 (\<open>ringserver-4/src\<close>, C).
\<close>

end
